(* ===== verification/Prelude.thy ===== *)
theory Prelude
  imports Main "HOL-Library.Word"
begin

text \<open>
  What every theory of the development shares: the machine integers of
  \<^verbatim>\<open>Kernel/kernelTypes.h\<close> as words, the ways a C++ call can end (it returns, it
  throws or aborts, it does not return), bounds-checked access to a C array, and the
  generic lemmas on lists that the component proofs use.
\<close>

unbundle bit_operations_syntax

section \<open>Machine integers of kernelTypes.h\<close>

type_synonym uint8 = "8 word"
type_synonym uint16 = "16 word"
type_synonym uint32 = "32 word"

section \<open>Outcomes of a call\<close>

text \<open>
  A call that does not end normally ends in a fault: a \<^verbatim>\<open>TErrorObject\<close> is thrown (the
  value is its error code), a C \<^verbatim>\<open>assert\<close> of the debug build aborts the process, or memory
  outside an object (or through a null pointer) is accessed, whose effect C++ leaves
  undefined. The type \<open>'a res\<close> adds, as \<^term>\<open>None\<close>, a call that never returns, so that
  loops over pointer structures can be defined as they are written and their
  termination is a theorem.
\<close>

datatype fault = Thrown uint32 | AssertFailed | MemFault

type_synonym 'a res = "(fault + 'a) option"

abbreviation Ok :: "'a \<Rightarrow> 'a res" where
  "Ok x \<equiv> Some (Inr x)"

abbreviation Fault :: "fault \<Rightarrow> 'a res" where
  "Fault e \<equiv> Some (Inl e)"

definition andThen :: "'a res \<Rightarrow> ('a \<Rightarrow> 'b res) \<Rightarrow> 'b res" where
  "andThen m k = Option.bind m (\<lambda>r. case r of Inl e \<Rightarrow> Fault e | Inr x \<Rightarrow> k x)"

definition assertC :: "bool \<Rightarrow> bool \<Rightarrow> unit res" where
  "assertC dbg b = (if dbg \<and> \<not> b then Fault AssertFailed else Ok ())"

definition throwIf :: "bool \<Rightarrow> uint32 \<Rightarrow> unit res" where
  "throwIf b c = (if b then Fault (Thrown c) else Ok ())"

named_theorems res_defs \<open>operations unfolded to their outcome\<close>

lemma res_cases:
  obtains "m = None" | e where "m = Fault e" | x where "m = Ok x"
  by (metis option.exhaust sum.exhaust)

lemma andThen_simps [simp]:
  "andThen None k = None"
  "andThen (Fault e) k = Fault e"
  "andThen (Ok x) k = k x"
  by (simp_all add: andThen_def)

lemma andThen_Ok_right [simp]: "andThen m Ok = m"
  by (cases m) (auto simp: andThen_def split: sum.splits)

lemma andThen_cong [fundef_cong]:
  "m = m' \<Longrightarrow> (\<And>x. m' = Ok x \<Longrightarrow> k x = k' x) \<Longrightarrow> andThen m k = andThen m' k'"
  by (cases m') (auto simp: andThen_def split: sum.splits)

lemma andThen_assoc: "andThen (andThen m f) g = andThen m (\<lambda>x. andThen (f x) g)"
  by (cases m) (auto simp: andThen_def split: sum.splits)

lemma andThen_eq_Ok [simp]:
  "andThen m k = Ok y \<longleftrightarrow> (\<exists>x. m = Ok x \<and> k x = Ok y)"
  by (cases m) (auto simp: andThen_def split: sum.splits)

lemma andThen_if [simp]:
  "andThen (if b then m else n) k = (if b then andThen m k else andThen n k)"
  by simp

lemma assertC_True [simp]: "assertC dbg True = Ok ()"
  by (simp add: assertC_def)

lemma assertC_release [simp]: "assertC False b = Ok ()"
  by (simp add: assertC_def)

lemma throwIf_simps [simp]:
  "throwIf True c = Fault (Thrown c)" "throwIf False c = Ok ()"
  by (simp_all add: throwIf_def)

text \<open>The bind of outcomes may stand around a recursive call of \<open>partial_function\<close>.\<close>

lemma andThen_mono [partial_function_mono]:
  assumes "monotone (fun_ord option_ord) option_ord (\<lambda>f. m f)"
    and "\<And>x. monotone (fun_ord option_ord) option_ord (\<lambda>f. k f x)"
  shows "monotone (fun_ord option_ord) option_ord (\<lambda>f. andThen (m f) (k f))"
  unfolding andThen_def
proof (rule bind_mono [OF assms(1)])
  fix r
  show "monotone (fun_ord option_ord) option_ord
      (\<lambda>f. case r of Inl e \<Rightarrow> Fault e | Inr x \<Rightarrow> k f x)"
    using assms(2) by (cases r) (auto simp: monotone_def flat_ord_def)
qed

section \<open>Arrays\<close>

text \<open>An index outside the array is a fault: the model never invents a value for it.\<close>

definition rd :: "'a list \<Rightarrow> nat \<Rightarrow> 'a res" where
  "rd xs i = (if i < length xs then Ok (xs ! i) else Fault MemFault)"

definition wr :: "'a list \<Rightarrow> nat \<Rightarrow> 'a \<Rightarrow> 'a list res" where
  "wr xs i v = (if i < length xs then Ok (xs[i := v]) else Fault MemFault)"

lemma rd_in [simp]: "i < length xs \<Longrightarrow> rd xs i = Ok (xs ! i)"
  by (simp add: rd_def)

lemma wr_in [simp]: "i < length xs \<Longrightarrow> wr xs i v = Ok (xs[i := v])"
  by (simp add: wr_def)

lemma rd_out [simp]: "length xs \<le> i \<Longrightarrow> rd xs i = Fault MemFault"
  by (simp add: rd_def)

lemma wr_out [simp]: "length xs \<le> i \<Longrightarrow> wr xs i v = Fault MemFault"
  by (simp add: wr_def)

lemma rd_eq_Ok: "rd xs i = Ok v \<longleftrightarrow> i < length xs \<and> v = xs ! i"
  by (auto simp: rd_def)

lemma wr_eq_Ok: "wr xs i v = Ok ys \<longleftrightarrow> i < length xs \<and> ys = xs[i := v]"
  by (auto simp: wr_def)

text \<open>An array with a middle part replaced.\<close>

lemma nth_splice: "n \<le> length xs \<Longrightarrow> i < length ys \<Longrightarrow> (take n xs @ ys @ zs) ! (n + i) = ys ! i"
  by (simp add: nth_append)

section \<open>Words from numbers\<close>

lemma unat32: "n < 2 ^ 32 \<Longrightarrow> unat (of_nat n :: uint32) = n"
  by (simp add: unat_of_nat)

lemma unat16: "n < 2 ^ 16 \<Longrightarrow> unat (of_nat n :: uint16) = n"
  by (simp add: unat_of_nat)

lemma unat8: "n < 2 ^ 8 \<Longrightarrow> unat (of_nat n :: uint8) = n"
  by (simp add: unat_of_nat)

end
