(* ===== verification/Kernel_Mem.thy ===== *)
theory Kernel_Mem
  imports Prelude
begin

text \<open>
  The memory the kernel works on. A buffer is a block of bytes with a header in front of it
  (\<^verbatim>\<open>kernelConsts.h\<close>): the code of the queue it belongs to and the links to its neighbours
  in whatever list holds it. All lists of the kernel (free buffers, mailboxes, timers) are
  threaded through these links. The theory models the byte-order functions of
  \<^verbatim>\<open>KernelFunctions.cpp\<close>, the layout of the message header, the heap of blocks, and
  proves the laws of linked chains that every component rests on.
\<close>

section \<open>KernelFunctions.cpp: integers in byte arrays\<close>

definition SetUint16 :: "uint8 list \<Rightarrow> nat \<Rightarrow> uint16 \<Rightarrow> uint8 list res" where
  "SetUint16 mem addr value =
     andThen (wr mem addr (ucast value)) (\<lambda>mem.
     wr mem (addr + 1) (ucast (drop_bit 8 value)))"

definition SetUint32 :: "uint8 list \<Rightarrow> nat \<Rightarrow> uint32 \<Rightarrow> uint8 list res" where
  "SetUint32 mem addr value =
     andThen (wr mem addr (ucast value)) (\<lambda>mem.
     andThen (wr mem (addr + 1) (ucast (drop_bit 8 value))) (\<lambda>mem.
     andThen (wr mem (addr + 2) (ucast (drop_bit 16 value))) (\<lambda>mem.
     wr mem (addr + 3) (ucast (drop_bit 24 value)))))"

definition GetUint16 :: "uint8 list \<Rightarrow> nat \<Rightarrow> uint16 res" where
  "GetUint16 mem addr =
     andThen (rd mem (addr + 1)) (\<lambda>b1.
     let tmp = (ucast b1 :: uint16); tmp = push_bit 8 tmp in
     andThen (rd mem addr) (\<lambda>b0. Ok (tmp OR ucast b0)))"

definition GetUint32 :: "uint8 list \<Rightarrow> nat \<Rightarrow> uint32 res" where
  "GetUint32 mem addr =
     andThen (rd mem (addr + 3)) (\<lambda>b3.
     let tmp = (ucast b3 :: uint32); tmp = push_bit 8 tmp in
     andThen (rd mem (addr + 2)) (\<lambda>b2.
     let tmp = tmp OR ucast b2; tmp = push_bit 8 tmp in
     andThen (rd mem (addr + 1)) (\<lambda>b1.
     let tmp = tmp OR ucast b1; tmp = push_bit 8 tmp in
     andThen (rd mem addr) (\<lambda>b0. Ok (tmp OR ucast b0)))))"

text \<open>
  Inside the array the four functions are total; \<open>put16\<close>, \<open>le16\<close>, \<open>put32\<close> and \<open>le32\<close>
  are their values there, with the laws of little-endian storage.
\<close>

definition put16 :: "uint8 list \<Rightarrow> nat \<Rightarrow> uint16 \<Rightarrow> uint8 list" where
  "put16 mem a v = mem[a := ucast v, a + 1 := ucast (drop_bit 8 v)]"

definition put32 :: "uint8 list \<Rightarrow> nat \<Rightarrow> uint32 \<Rightarrow> uint8 list" where
  "put32 mem a v = mem[a := ucast v, a + 1 := ucast (drop_bit 8 v),
     a + 2 := ucast (drop_bit 16 v), a + 3 := ucast (drop_bit 24 v)]"

definition le16 :: "uint8 list \<Rightarrow> nat \<Rightarrow> uint16" where
  "le16 mem a = push_bit 8 (ucast (mem ! (a + 1))) OR ucast (mem ! a)"

definition le32 :: "uint8 list \<Rightarrow> nat \<Rightarrow> uint32" where
  "le32 mem a = push_bit 8 (push_bit 8 (push_bit 8 (ucast (mem ! (a + 3)))
     OR ucast (mem ! (a + 2))) OR ucast (mem ! (a + 1))) OR ucast (mem ! a)"

lemma length_put [simp]:
  "length (put16 mem a v) = length mem" "length (put32 mem a w) = length mem"
  by (simp_all add: put16_def put32_def)

lemma SetUint16_in [simp]: "a + 1 < length mem \<Longrightarrow> SetUint16 mem a v = Ok (put16 mem a v)"
  by (simp add: SetUint16_def put16_def)

lemma SetUint32_in [simp]: "a + 3 < length mem \<Longrightarrow> SetUint32 mem a v = Ok (put32 mem a v)"
  by (simp add: SetUint32_def put32_def)

lemma GetUint16_in [simp]: "a + 1 < length mem \<Longrightarrow> GetUint16 mem a = Ok (le16 mem a)"
  by (simp add: GetUint16_def le16_def)

lemma GetUint32_in [simp]: "a + 3 < length mem \<Longrightarrow> GetUint32 mem a = Ok (le32 mem a)"
  by (simp add: GetUint32_def le32_def Let_def)

lemma SetUint16_out: "length mem \<le> a + 1 \<Longrightarrow> SetUint16 mem a v = Fault MemFault"
  by (cases "a < length mem") (simp_all add: SetUint16_def)

lemma GetUint16_out: "length mem \<le> a + 1 \<Longrightarrow> GetUint16 mem a = Fault MemFault"
  by (simp add: GetUint16_def)

lemma SetUint32_out: "length mem \<le> a + 3 \<Longrightarrow> SetUint32 mem a v = Fault MemFault"
  by (auto simp add: SetUint32_def wr_def)

lemma GetUint32_out: "length mem \<le> a + 3 \<Longrightarrow> GetUint32 mem a = Fault MemFault"
  by (simp add: GetUint32_def)

lemma split16: "push_bit 8 (ucast (ucast (drop_bit 8 (v :: uint16)) :: uint8)) OR ucast (ucast v :: uint8) = v"
  by (rule bit_word_eqI) (auto simp: bit_simps)

lemma split32:
  "((push_bit 24 (ucast (ucast (drop_bit 24 (v :: uint32)) :: uint8))
     OR push_bit 16 (ucast (ucast (drop_bit 16 v) :: uint8)))
     OR push_bit 8 (ucast (ucast (drop_bit 8 v) :: uint8))) OR ucast (ucast v :: uint8) = v"
  (is "?l = v")
proof (rule bit_word_eqI)
  fix n
  assume "n < LENGTH(32)"
  then consider "n < 8" | "8 \<le> n" "n < 16" | "16 \<le> n" "n < 24" | "24 \<le> n" "n < 32"
    by fastforce
  then show "bit ?l n = bit v n"
    by cases (auto simp: bit_simps)
qed

lemma le16_put16 [simp]: "a + 1 < length mem \<Longrightarrow> le16 (put16 mem a v) a = v"
  by (simp add: le16_def put16_def split16)

lemma le32_put32 [simp]: "a + 3 < length mem \<Longrightarrow> le32 (put32 mem a v) a = v"
  by (simp add: le32_def put32_def split32)

lemma nth_put16 [simp]: "b \<noteq> a \<Longrightarrow> b \<noteq> a + 1 \<Longrightarrow> put16 mem a v ! b = mem ! b"
  by (simp add: put16_def)

lemma nth_put32 [simp]:
  "b \<noteq> a \<Longrightarrow> b \<noteq> a + 1 \<Longrightarrow> b \<noteq> a + 2 \<Longrightarrow> b \<noteq> a + 3 \<Longrightarrow> put32 mem a v ! b = mem ! b"
  by (simp add: put32_def)

lemma le16_other [simp]:
  "b + 1 < a \<or> a + 1 < b \<Longrightarrow> le16 (put16 mem a v) b = le16 mem b"
  "b + 1 < a \<or> a + 3 < b \<Longrightarrow> le16 (put32 mem a w) b = le16 mem b"
  "b \<noteq> a \<Longrightarrow> b + 1 \<noteq> a \<Longrightarrow> le16 (mem[a := x]) b = le16 mem b"
  by (auto simp: le16_def)

lemma le32_other [simp]:
  "b + 3 < a \<or> a + 1 < b \<Longrightarrow> le32 (put16 mem a v) b = le32 mem b"
  "b + 3 < a \<or> a + 3 < b \<Longrightarrow> le32 (put32 mem a w) b = le32 mem b"
  "b \<noteq> a \<Longrightarrow> b + 1 \<noteq> a \<Longrightarrow> b + 2 \<noteq> a \<Longrightarrow> b + 3 \<noteq> a \<Longrightarrow> le32 (mem[a := x]) b = le32 mem b"
  by (auto simp: le32_def)

section \<open>kernelConsts.h: the message header\<close>

datatype msg_field = MSG_FROM_AUTOMATE | MSG_FROM_GROUP | MSG_TO_AUTOMATE | MSG_TO_GROUP
  | MSG_CODE | MSG_OBJECT_ID_FROM | MSG_OBJECT_ID_TO | CALL_ID | MSG_INFO_CODING | MSG_LENGTH
  | MSG_INFO

fun off :: "msg_field \<Rightarrow> nat" where
  "off MSG_FROM_AUTOMATE = 0"
| "off MSG_FROM_GROUP = 1"
| "off MSG_TO_AUTOMATE = 2"
| "off MSG_TO_GROUP = 3"
| "off MSG_CODE = 4"
| "off MSG_OBJECT_ID_FROM = 6"
| "off MSG_OBJECT_ID_TO = 10"
| "off CALL_ID = 14"
| "off MSG_INFO_CODING = 18"
| "off MSG_LENGTH = 19"
| "off MSG_INFO = 21"

definition MSG_HEADER_LENGTH :: nat where "MSG_HEADER_LENGTH = off MSG_INFO"
definition TIMER_MBX_ID :: nat where "TIMER_MBX_ID = off MSG_FROM_GROUP"
definition TIMER_COUNT :: nat where "TIMER_COUNT = off MSG_OBJECT_ID_FROM"
definition BUFF_HEADER_LENGTH :: nat where "BUFF_HEADER_LENGTH = 1 + 4 + 4"
definition MAX_BUFF_CLASS_NO :: nat where "MAX_BUFF_CLASS_NO = 32"
definition DISCARDED :: uint16 where "DISCARDED = 0x7FFF"
definition INVALID_08 :: uint8 where "INVALID_08 = 0xff"
definition INVALID_16 :: uint16 where "INVALID_16 = 0xffff"
definition INVALID_32 :: uint32 where "INVALID_32 = 0xffffffff"

lemmas kernel_consts = MSG_HEADER_LENGTH_def TIMER_MBX_ID_def TIMER_COUNT_def
  BUFF_HEADER_LENGTH_def MAX_BUFF_CLASS_NO_def DISCARDED_def INVALID_08_def INVALID_16_def
  INVALID_32_def

section \<open>The heap of buffers\<close>

type_synonym addr = nat

abbreviation (input) NULL :: addr where "NULL \<equiv> 0"

record block =
  BUFF_CODE :: uint8
  BUFF_PREV :: addr
  BUFF_NEXT :: addr
  bytes :: "uint8 list"

type_synonym heap = "addr \<Rightarrow> block option"

definition block_at :: "heap \<Rightarrow> addr \<Rightarrow> block res" where
  "block_at h a = (if a = NULL then Fault MemFault
     else case h a of None \<Rightarrow> Fault MemFault | Some b \<Rightarrow> Ok b)"

definition modify :: "heap \<Rightarrow> addr \<Rightarrow> (block \<Rightarrow> block) \<Rightarrow> heap res" where
  "modify h a f = andThen (block_at h a) (\<lambda>b. Ok (h(a \<mapsto> f b)))"

text \<open>\<^verbatim>\<open>GetMemPtr(p + BUFF_NEXT)\<close>, \<^verbatim>\<open>SetMemPtr(p + BUFF_NEXT, v)\<close> and their kin.\<close>

definition get_next :: "heap \<Rightarrow> addr \<Rightarrow> addr res" where
  "get_next h a = andThen (block_at h a) (\<lambda>b. Ok (BUFF_NEXT b))"

definition get_prev :: "heap \<Rightarrow> addr \<Rightarrow> addr res" where
  "get_prev h a = andThen (block_at h a) (\<lambda>b. Ok (BUFF_PREV b))"

definition get_code :: "heap \<Rightarrow> addr \<Rightarrow> uint8 res" where
  "get_code h a = andThen (block_at h a) (\<lambda>b. Ok (BUFF_CODE b))"

definition get_bytes :: "heap \<Rightarrow> addr \<Rightarrow> uint8 list res" where
  "get_bytes h a = andThen (block_at h a) (\<lambda>b. Ok (bytes b))"

definition set_next :: "heap \<Rightarrow> addr \<Rightarrow> addr \<Rightarrow> heap res" where
  "set_next h a v = modify h a (\<lambda>b. b\<lparr>BUFF_NEXT := v\<rparr>)"

definition set_prev :: "heap \<Rightarrow> addr \<Rightarrow> addr \<Rightarrow> heap res" where
  "set_prev h a v = modify h a (\<lambda>b. b\<lparr>BUFF_PREV := v\<rparr>)"

definition on_bytes :: "heap \<Rightarrow> addr \<Rightarrow> (uint8 list \<Rightarrow> uint8 list res) \<Rightarrow> heap res" where
  "on_bytes h a f = andThen (block_at h a) (\<lambda>b.
     andThen (f (bytes b)) (\<lambda>bs. Ok (h(a \<mapsto> b\<lparr>bytes := bs\<rparr>))))"

lemmas heap_access = get_next_def get_prev_def get_code_def get_bytes_def
  set_next_def set_prev_def modify_def on_bytes_def

lemma block_at_NULL [simp]: "block_at h NULL = Fault MemFault"
  by (simp add: block_at_def)

lemma block_at_Some [simp]: "a \<noteq> NULL \<Longrightarrow> h a = Some b \<Longrightarrow> block_at h a = Ok b"
  by (simp add: block_at_def)

lemma block_at_eq_Ok: "block_at h a = Ok b \<longleftrightarrow> a \<noteq> NULL \<and> h a = Some b"
  by (auto simp: block_at_def split: option.splits)

section \<open>Linked chains\<close>

text \<open>
  \<open>chain h p xs\<close>: following \<^const>\<open>BUFF_NEXT\<close> from \<open>p\<close> visits exactly the blocks \<open>xs\<close> and
  ends in \<^verbatim>\<open>NULL\<close>. \<open>queue_rep h hd tl xs\<close>: a queue with the pointers \<open>hd\<close> and \<open>tl\<close>
  holds the blocks \<open>xs\<close>, head first.
\<close>

fun chain :: "heap \<Rightarrow> addr \<Rightarrow> addr list \<Rightarrow> bool" where
  "chain h p [] = (p = NULL)"
| "chain h p (a # as) = (p = a \<and> a \<noteq> NULL \<and>
     (case h a of None \<Rightarrow> False | Some b \<Rightarrow> chain h (BUFF_NEXT b) as))"

definition last_or_null :: "addr list \<Rightarrow> addr" where
  "last_or_null xs = (if xs = [] then NULL else last xs)"

definition queue_rep :: "heap \<Rightarrow> addr \<Rightarrow> addr \<Rightarrow> addr list \<Rightarrow> bool" where
  "queue_rep h p q xs \<longleftrightarrow> chain h p xs \<and> distinct xs \<and> q = last_or_null xs"

text \<open>
  \<open>relinked S h h'\<close>: \<open>h'\<close> differs from \<open>h\<close> at most in the links of the blocks of \<open>S\<close>.
\<close>

definition same_content :: "block option \<Rightarrow> block option \<Rightarrow> bool" where
  "same_content x y \<longleftrightarrow> map_option BUFF_CODE x = map_option BUFF_CODE y \<and>
     map_option bytes x = map_option bytes y"

definition relinked :: "addr set \<Rightarrow> heap \<Rightarrow> heap \<Rightarrow> bool" where
  "relinked S h h' \<longleftrightarrow> (\<forall>a. same_content (h a) (h' a) \<and> (a \<notin> S \<longrightarrow> h' a = h a))"

lemma same_content_None [simp]:
  "same_content None y \<longleftrightarrow> y = None" "same_content x None \<longleftrightarrow> x = None"
  by (auto simp: same_content_def)

lemma same_content_Some [simp]:
  "same_content (Some b) (Some c) \<longleftrightarrow> BUFF_CODE b = BUFF_CODE c \<and> bytes b = bytes c"
  by (simp add: same_content_def)

lemma same_content_refl [simp]: "same_content x x"
  by (simp add: same_content_def)

lemma same_content_trans: "same_content x y \<Longrightarrow> same_content y z \<Longrightarrow> same_content x z"
  by (simp add: same_content_def)

lemma relinked_refl [simp]: "relinked S h h"
  by (simp add: relinked_def)

lemma relinked_trans:
  "relinked S h h' \<Longrightarrow> relinked T h' h'' \<Longrightarrow> S \<subseteq> U \<Longrightarrow> T \<subseteq> U \<Longrightarrow> relinked U h h''"
  unfolding relinked_def by (metis same_content_trans subsetD)

lemma relinked_mono: "relinked S h h' \<Longrightarrow> S \<subseteq> T \<Longrightarrow> relinked T h h'"
  unfolding relinked_def by blast

lemma relinked_out: "relinked S h h' \<Longrightarrow> a \<notin> S \<Longrightarrow> h' a = h a"
  by (simp add: relinked_def)

lemma relinked_dom: "relinked S h h' \<Longrightarrow> h' a = None \<longleftrightarrow> h a = None"
  unfolding relinked_def by (metis same_content_None)

lemma relinked_bytes:
  "relinked S h h' \<Longrightarrow> map_option bytes (h' a) = map_option bytes (h a)"
  by (auto simp: relinked_def same_content_def)

lemma relinked_code:
  "relinked S h h' \<Longrightarrow> map_option BUFF_CODE (h' a) = map_option BUFF_CODE (h a)"
  by (auto simp: relinked_def same_content_def)

lemma relinked_upd_links:
  "h a = Some b \<Longrightarrow> a \<in> S \<Longrightarrow> relinked S h (h(a \<mapsto> b\<lparr>BUFF_NEXT := v\<rparr>))"
  "h a = Some b \<Longrightarrow> a \<in> S \<Longrightarrow> relinked S h (h(a \<mapsto> b\<lparr>BUFF_PREV := v\<rparr>))"
  by (auto simp: relinked_def)

lemma chain_NULL [simp]: "chain h NULL xs \<longleftrightarrow> xs = []"
  by (cases xs) auto

lemma chain_non_null: "chain h p xs \<Longrightarrow> a \<in> set xs \<Longrightarrow> a \<noteq> NULL \<and> h a \<noteq> None"
  by (induction xs arbitrary: p) (auto split: option.splits)

lemma chain_cong:
  "(\<And>a. a \<in> set xs \<Longrightarrow> map_option BUFF_NEXT (h' a) = map_option BUFF_NEXT (h a)) \<Longrightarrow>
   chain h' p xs = chain h p xs"
proof (induction xs arbitrary: p)
  case (Cons a xs)
  have "map_option BUFF_NEXT (h' a) = map_option BUFF_NEXT (h a)"
    using Cons.prems by simp
  moreover have "chain h' q xs = chain h q xs" for q
    using Cons by simp
  ultimately show ?case
    by (cases "h a"; cases "h' a") auto
qed simp

lemma queue_rep_local:
  "(\<And>a. a \<in> set xs \<Longrightarrow> h' a = h a) \<Longrightarrow> queue_rep h' p q xs = queue_rep h p q xs"
  using chain_cong [of xs h' h] by (simp add: queue_rep_def)

lemma chain_upd_same_next [simp]:
  "h a = Some b \<Longrightarrow> BUFF_NEXT c = BUFF_NEXT b \<Longrightarrow> chain (h(a \<mapsto> c)) p xs = chain h p xs"
  by (rule chain_cong) auto

lemma chain_upd_other [simp]: "a \<notin> set xs \<Longrightarrow> chain (h(a := x)) p xs = chain h p xs"
  by (rule chain_cong) auto

lemma chain_append:
  "chain h p (xs @ ys) \<Longrightarrow> \<exists>q. chain h q ys"
  by (induction xs arbitrary: p) (auto split: option.splits)

lemma chain_snoc:
  assumes "chain h p (xs @ [l])" "distinct (xs @ [l])" "h l = Some b" "a \<noteq> NULL" "a \<notin> set xs"
    "a \<noteq> l" "h a = Some c" "BUFF_NEXT c = NULL" "BUFF_NEXT b' = a"
  shows "chain (h(l \<mapsto> b')) p (xs @ [l, a])"
  using assms
proof (induction xs arbitrary: p)
  case (Cons x xs)
  then show ?case by (cases "h x") auto
qed auto

lemma queue_rep_Nil [simp]: "queue_rep h p q [] \<longleftrightarrow> p = NULL \<and> q = NULL"
  by (simp add: queue_rep_def last_or_null_def)

lemma queue_rep_head: "queue_rep h p q xs \<Longrightarrow> p = NULL \<longleftrightarrow> xs = []"
  by (cases xs) (auto simp: queue_rep_def)

lemma queue_rep_tail: "queue_rep h p q xs \<Longrightarrow> q = NULL \<longleftrightarrow> xs = []"
  by (cases xs rule: rev_cases) (auto simp: queue_rep_def last_or_null_def dest: chain_non_null)

lemma queue_rep_mem: "queue_rep h p q xs \<Longrightarrow> a \<in> set xs \<Longrightarrow> a \<noteq> NULL \<and> h a \<noteq> None"
  unfolding queue_rep_def by (blast dest: chain_non_null)

lemma queue_rep_distinct: "queue_rep h p q xs \<Longrightarrow> distinct xs"
  by (simp add: queue_rep_def)

text \<open>Taking the head off, and linking a block behind the tail.\<close>

lemma queue_rep_take:
  assumes "queue_rep h p q (x # xs)" "h x = Some b"
  shows "p = x \<and> x \<noteq> NULL \<and> queue_rep h (BUFF_NEXT b) (if BUFF_NEXT b = NULL then NULL else q) xs"
  using assms by (cases xs) (auto simp: queue_rep_def last_or_null_def)

lemma queue_rep_put_empty:
  assumes "h a = Some b" "BUFF_NEXT b = NULL" "a \<noteq> NULL"
  shows "queue_rep h a a [a]"
  using assms by (simp add: queue_rep_def last_or_null_def)

lemma queue_rep_put_tail:
  assumes "queue_rep h p q xs" "q \<noteq> NULL" "h q = Some b" "a \<notin> set xs" "a \<noteq> NULL"
    "h a = Some c" "BUFF_NEXT c = NULL" "BUFF_NEXT b' = a"
  shows "queue_rep (h(q \<mapsto> b')) p a (xs @ [a])"
proof -
  obtain ys where xs: "xs = ys @ [q]"
    using assms by (cases xs rule: rev_cases) (auto simp: queue_rep_def last_or_null_def)
  have "chain (h(q \<mapsto> b')) p (ys @ [q, a])"
    by (rule chain_snoc) (use assms xs in \<open>auto simp: queue_rep_def\<close>)
  then show ?thesis
    using assms xs by (auto simp: queue_rep_def last_or_null_def)
qed

lemma queue_rep_tail_mem: "queue_rep h p q xs \<Longrightarrow> q \<noteq> NULL \<Longrightarrow> q \<in> set xs"
  by (cases xs rule: rev_cases) (auto simp: queue_rep_def last_or_null_def)
end
