(* ===== verification/Fifo.thy ===== *)
theory Fifo
  imports Kernel_Mem
begin

text \<open>
  The interface between the kernel's queues (free buffers, mailboxes, idle automata) and
  their clients: one operation links a block behind the tail, one unlinks the head. A
  provider promises these laws about the list of blocks it holds; the client's facts,
  order of delivery first, are proved once from the laws. The blocks lie in a heap of which
  only a frame rule is known (\<open>heap_frame\<close>): the buffers of the pool and the automates of the
  system are two of them.
\<close>

fun put_all :: "('q \<Rightarrow> 'h \<Rightarrow> addr \<Rightarrow> ('q \<times> 'h) res) \<Rightarrow> 'q \<Rightarrow> 'h \<Rightarrow> addr list \<Rightarrow> ('q \<times> 'h) res" where
  "put_all put q h [] = Ok (q, h)"
| "put_all put q h (a # as) = andThen (put q h a) (\<lambda>(q, h). put_all put q h as)"

fun take_n :: "('q \<Rightarrow> 'h \<Rightarrow> (addr \<times> 'q \<times> 'h) res) \<Rightarrow> nat \<Rightarrow> 'q \<Rightarrow> 'h \<Rightarrow> (addr list \<times> 'q \<times> 'h) res" where
  "take_n get 0 q h = Ok ([], q, h)"
| "take_n get (Suc n) q h = andThen (get q h) (\<lambda>(a, q, h).
     andThen (take_n get n q h) (\<lambda>(as, q, h). Ok (a # as, q, h)))"

definition allocated :: "heap \<Rightarrow> addr \<Rightarrow> bool" where
  "allocated h a \<longleftrightarrow> a \<noteq> NULL \<and> h a \<noteq> None"

lemma allocated_relinked: "relinked S h h' \<Longrightarrow> allocated h' a = allocated h a"
  by (simp add: allocated_def relinked_dom)

lemma allocatedE:
  assumes "allocated h a"
  obtains b where "a \<noteq> NULL" "h a = Some b" "block_at h a = Ok b"
  using assms by (auto simp: allocated_def)

text \<open>
  \<open>changed S h h'\<close>: only links of blocks in \<open>S\<close> differ; \<open>cell h a\<close> is what lies at \<open>a\<close>.
\<close>

locale heap_frame =
  fixes alloc :: "'h \<Rightarrow> addr \<Rightarrow> bool"
    and changed :: "addr set \<Rightarrow> 'h \<Rightarrow> 'h \<Rightarrow> bool"
    and cell :: "'h \<Rightarrow> addr \<Rightarrow> 'c"
  assumes changed_refl: "changed S h h"
    and changed_trans: "changed S h h' \<Longrightarrow> changed T h' h'' \<Longrightarrow> S \<subseteq> U \<Longrightarrow> T \<subseteq> U \<Longrightarrow> changed U h h''"
    and changed_alloc: "changed S h h' \<Longrightarrow> alloc h' a = alloc h a"
    and changed_out: "changed S h h' \<Longrightarrow> a \<notin> S \<Longrightarrow> cell h' a = cell h a"

interpretation links: heap_frame allocated relinked "\<lambda>h. h"
  by unfold_locales (fact relinked_refl relinked_trans allocated_relinked relinked_out)+

locale fifo = heap_frame alloc changed cell
  for alloc :: "'h \<Rightarrow> addr \<Rightarrow> bool" and changed :: "addr set \<Rightarrow> 'h \<Rightarrow> 'h \<Rightarrow> bool" and cell :: "'h \<Rightarrow> addr \<Rightarrow> 'c" +
  fixes put :: "'q \<Rightarrow> 'h \<Rightarrow> addr \<Rightarrow> ('q \<times> 'h) res"
    and getq :: "'q \<Rightarrow> 'h \<Rightarrow> (addr \<times> 'q \<times> 'h) res"
    and rep :: "'q \<Rightarrow> 'h \<Rightarrow> addr list \<Rightarrow> bool"
  assumes put_ok: "rep q h xs \<Longrightarrow> alloc h a \<Longrightarrow> a \<notin> set xs \<Longrightarrow>
      \<exists>q' h'. put q h a = Ok (q', h') \<and> rep q' h' (xs @ [a]) \<and> changed (insert a (set xs)) h h'"
    and take_Cons: "rep q h (x # xs) \<Longrightarrow>
      \<exists>q' h'. getq q h = Ok (x, q', h') \<and> rep q' h' xs \<and> changed (insert x (set xs)) h h'"
    and rep_local: "rep q h xs \<Longrightarrow> (\<And>a. a \<in> set xs \<Longrightarrow> cell h' a = cell h a) \<Longrightarrow> rep q h' xs"
    and rep_distinct: "rep q h xs \<Longrightarrow> distinct xs"
begin

lemma rep_frame: "rep q h xs \<Longrightarrow> changed S h h' \<Longrightarrow> set xs \<inter> S = {} \<Longrightarrow> rep q h' xs"
  using rep_local [of q h xs h'] changed_out [of S h h'] by blast

lemma put_all_ok:
  "rep q h xs \<Longrightarrow> distinct (xs @ as) \<Longrightarrow> (\<And>a. a \<in> set as \<Longrightarrow> alloc h a) \<Longrightarrow>
   \<exists>q' h'. put_all put q h as = Ok (q', h') \<and> rep q' h' (xs @ as) \<and>
     changed (set xs \<union> set as) h h'"
proof (induction as arbitrary: q h xs)
  case (Cons a as)
  obtain q1 h1 where 1: "put q h a = Ok (q1, h1)" "rep q1 h1 (xs @ [a])"
    "changed (insert a (set xs)) h h1"
    using put_ok [of q h xs a] Cons.prems by auto
  have "\<exists>q' h'. put_all put q1 h1 as = Ok (q', h') \<and> rep q' h' ((xs @ [a]) @ as) \<and>
      changed (set (xs @ [a]) \<union> set as) h1 h'"
    by (rule Cons.IH) (use Cons.prems 1 in \<open>auto simp: changed_alloc\<close>)
  then show ?case
    using 1 by (auto intro!: changed_trans [OF 1(3)])
qed (auto intro: changed_refl)

lemma take_n_ok:
  "rep q h (xs @ ys) \<Longrightarrow> \<exists>q' h'. take_n getq (length xs) q h = Ok (xs, q', h') \<and>
     rep q' h' ys \<and> changed (set xs \<union> set ys) h h'"
proof (induction xs arbitrary: q h)
  case (Cons x xs)
  obtain q1 h1 where 1: "getq q h = Ok (x, q1, h1)" "rep q1 h1 (xs @ ys)"
    "changed (insert x (set (xs @ ys))) h h1"
    using take_Cons [of q h x "xs @ ys"] Cons.prems by auto
  obtain q2 h2 where 2: "take_n getq (length xs) q1 h1 = Ok (xs, q2, h2)" "rep q2 h2 ys"
    "changed (set xs \<union> set ys) h1 h2"
    using Cons.IH [OF 1(2)] by auto
  have "changed (set (x # xs) \<union> set ys) h h2"
    by (rule changed_trans [OF 1(3) 2(3)]) auto
  with 1 2 show ?case by auto
qed (auto intro: changed_refl)

text \<open>What is put into an empty queue comes out in the order it went in.\<close>

lemma first_in_first_out:
  assumes "rep q h []" "distinct as" "\<And>a. a \<in> set as \<Longrightarrow> alloc h a"
  shows "\<exists>q1 h1 q2 h2. put_all put q h as = Ok (q1, h1) \<and>
    take_n getq (length as) q1 h1 = Ok (as, q2, h2) \<and> rep q2 h2 [] \<and> changed (set as) h h2"
proof -
  obtain q1 h1 where 1: "put_all put q h as = Ok (q1, h1)" "rep q1 h1 as"
    "changed (set as) h h1"
    using put_all_ok [of q h "[]" as] assms by auto
  obtain q2 h2 where 2: "take_n getq (length as) q1 h1 = Ok (as, q2, h2)" "rep q2 h2 []"
    "changed (set as) h1 h2"
    using take_n_ok [of q1 h1 as "[]"] 1 by auto
  have "changed (set as) h h2"
    by (rule changed_trans [OF 1(3) 2(3)]) auto
  with 1 2 show ?thesis by auto
qed

end

text \<open>The step every queue of the kernel shares: unlink the head, or link behind the tail.\<close>

definition unlink_head :: "heap \<Rightarrow> addr \<Rightarrow> addr \<Rightarrow> (addr \<times> addr \<times> addr) res" where
  "unlink_head h p q = andThen (get_next h p) (\<lambda>n.
     Ok (p, n, if n = NULL then NULL else q))"

definition link_tail :: "heap \<Rightarrow> addr \<Rightarrow> addr \<Rightarrow> addr \<Rightarrow> (addr \<times> addr \<times> heap) res" where
  "link_tail h p q a = andThen (set_next h a NULL) (\<lambda>h.
     if q = NULL then Ok (a, a, h)
     else andThen (set_next h q a) (\<lambda>h. Ok (p, a, h)))"

lemma unlink_head_ok:
  "queue_rep h p q (x # xs) \<Longrightarrow> \<exists>p' q'. unlink_head h p q = Ok (x, p', q') \<and> queue_rep h p' q' xs"
proof -
  assume rep: "queue_rep h p q (x # xs)"
  then obtain b where b: "h x = Some b"
    using queue_rep_mem [OF rep, of x] by auto
  have "p = x \<and> x \<noteq> NULL \<and> queue_rep h (BUFF_NEXT b) (if BUFF_NEXT b = NULL then NULL else q) xs"
    by (rule queue_rep_take [OF rep b])
  then show ?thesis
    using b by (auto simp: unlink_head_def get_next_def)
qed

lemma link_tail_ok:
  assumes rep: "queue_rep h p q xs" and a: "allocated h a" "a \<notin> set xs"
  shows "\<exists>p' h'. link_tail h p q a = Ok (p', a, h') \<and> queue_rep h' p' a (xs @ [a]) \<and>
    relinked (insert a (set xs)) h h' \<and> (q = NULL \<longrightarrow> p' = a) \<and> (q \<noteq> NULL \<longrightarrow> p' = p)"
proof -
  obtain b where b: "a \<noteq> NULL" "h a = Some b"
    using a by (auto simp: allocated_def)
  let ?c = "b\<lparr>BUFF_NEXT := NULL\<rparr>"
  let ?h = "h(a \<mapsto> ?c)"
  have set_a: "set_next h a NULL = Ok ?h"
    using b by (simp add: set_next_def modify_def)
  have rep': "queue_rep ?h p q xs"
    using rep a by (simp add: queue_rep_def)
  have rl: "relinked (insert a (set xs)) h ?h"
    using b by (intro relinked_upd_links) auto
  show ?thesis
  proof (cases "q = NULL")
    case True
    then have "xs = []" using rep queue_rep_tail by blast
    moreover have "queue_rep ?h a a [a]"
      using b by (auto intro: queue_rep_put_empty)
    ultimately show ?thesis
      using True set_a rl by (auto simp: link_tail_def)
  next
    case False
    then obtain d where d: "?h q = Some d"
      using rep' queue_rep_mem queue_rep_tail_mem by blast
    let ?h2 = "?h(q \<mapsto> d\<lparr>BUFF_NEXT := a\<rparr>)"
    have "queue_rep ?h2 p a (xs @ [a])"
      by (rule queue_rep_put_tail [OF rep' False d]) (use a b in auto)
    moreover have "relinked (insert a (set xs)) ?h ?h2"
      using d False rep queue_rep_tail_mem by (intro relinked_upd_links) auto
    then have "relinked (insert a (set xs)) h ?h2"
      by (rule relinked_trans [OF rl]) auto
    moreover have "set_next ?h q a = Ok ?h2"
      using d False by (simp add: set_next_def modify_def)
    ultimately show ?thesis
      using False set_a by (auto simp: link_tail_def)
  qed
qed

end
