(* ===== verification/Buffer_Queue.thy ===== *)
theory Buffer_Queue
  imports Fifo
begin

text \<open>
  \<^verbatim>\<open>Kernel/buffersQueue.cpp\<close>: the list of free buffers of one size, class
  \<^verbatim>\<open>TBufferQue\<close>. \<open>dbg\<close> says whether C \<^verbatim>\<open>assert\<close>s are compiled in (the debug build).
  The critical section of the Win32 build is recursive; \<open>CsBuffer\<close> counts how often the
  calling thread holds it.
\<close>

record TBufferQue =
  CsBuffer :: nat
  Head :: addr
  Tail :: addr
  BufferPtr :: addr
  FreeBufferCount :: uint32
  BuffersInitiated :: uint32

definition Que_LockBuff :: "TBufferQue \<Rightarrow> TBufferQue" where
  "Que_LockBuff q = q\<lparr>CsBuffer := CsBuffer q + 1\<rparr>"

definition Que_UnlockBuff :: "TBufferQue \<Rightarrow> TBufferQue" where
  "Que_UnlockBuff q = q\<lparr>CsBuffer := CsBuffer q - 1\<rparr>"

definition Que_GetFromHead :: "TBufferQue \<Rightarrow> heap \<Rightarrow> (addr \<times> TBufferQue \<times> heap) res" where
  "Que_GetFromHead q h =
     (let q = Que_LockBuff q in
      if Head q = NULL then Ok (NULL, q, h)
      else let info = Head q in
        andThen (get_next h (Head q)) (\<lambda>nxt.
        let q = q\<lparr>Head := nxt\<rparr>;
            q = (if Head q = NULL then q\<lparr>Tail := NULL\<rparr> else q);
            q = q\<lparr>FreeBufferCount := FreeBufferCount q - 1\<rparr>
        in Ok (info, Que_UnlockBuff q, h)))"

definition Que_PutOnTail :: "TBufferQue \<Rightarrow> heap \<Rightarrow> addr \<Rightarrow> (TBufferQue \<times> heap) res" where
  "Que_PutOnTail q h info =
     andThen (set_next h info NULL) (\<lambda>h.
     let q = Que_LockBuff q in
     andThen (if Tail q = NULL then Ok (q\<lparr>Head := info\<rparr>, h)
              else andThen (set_next h (Tail q) info) (\<lambda>h. Ok (q, h))) (\<lambda>(q, h).
     let q = q\<lparr>Tail := info\<rparr>;
         q = q\<lparr>FreeBufferCount := FreeBufferCount q + 1\<rparr>
     in Ok (Que_UnlockBuff q, h)))"

definition Que_Add :: "bool \<Rightarrow> TBufferQue \<Rightarrow> heap \<Rightarrow> addr \<Rightarrow> (TBufferQue \<times> heap) res" where
  "Que_Add dbg q h info =
     andThen (assertC dbg (info \<noteq> NULL)) (\<lambda>_. Que_PutOnTail q h info)"

definition Que_Get :: "bool \<Rightarrow> TBufferQue \<Rightarrow> heap \<Rightarrow> (addr \<times> TBufferQue \<times> heap) res" where
  "Que_Get dbg q h =
     andThen (Que_GetFromHead q h) (\<lambda>(info, q, h).
     andThen (assertC dbg (info \<noteq> NULL)) (\<lambda>_. Ok (info, q, h)))"

definition Que_GetAvailable :: "TBufferQue \<Rightarrow> uint32" where
  "Que_GetAvailable q = FreeBufferCount q"

definition Que_IsEmpty :: "TBufferQue \<Rightarrow> bool \<times> TBufferQue" where
  "Que_IsEmpty q =
     (let q = Que_LockBuff q; retValue = (FreeBufferCount q = 0) in (retValue, Que_UnlockBuff q))"

text \<open>
  The constructor cuts the memory \<open>[base, lim)\<close> it got from \<^verbatim>\<open>new\<close> (with arbitrary
  contents \<open>raw\<close>) into buffers and adds each to the list. A header written beyond the
  allocation is a fault; a buffer that reaches beyond it keeps only the bytes inside.
\<close>

fun carve :: "bool \<Rightarrow> (addr \<Rightarrow> uint8) \<Rightarrow> addr \<Rightarrow> nat \<Rightarrow> addr \<Rightarrow> nat \<Rightarrow> uint8 \<Rightarrow> TBufferQue \<Rightarrow> heap
    \<Rightarrow> (TBufferQue \<times> heap) res" where
  "carve dbg raw lim 0 tmp len code q h = Ok (q, h)"
| "carve dbg raw lim (Suc n) tmp len code q h =
     (let tmp = tmp + BUFF_HEADER_LENGTH in
      if lim < tmp then Fault MemFault
      else let b = \<lparr>BUFF_CODE = code, BUFF_PREV = NULL, BUFF_NEXT = NULL,
                    bytes = map raw [tmp ..< min (tmp + len) lim]\<rparr>
        in andThen (Que_Add dbg q (h(tmp \<mapsto> b)) tmp) (\<lambda>(q, h).
           carve dbg raw lim n (tmp + len) len code q h))"

definition TBufferQue_new :: "bool \<Rightarrow> addr \<Rightarrow> (addr \<Rightarrow> uint8) \<Rightarrow> uint32 \<Rightarrow> uint32 \<Rightarrow> uint8 \<Rightarrow> heap
    \<Rightarrow> (TBufferQue \<times> heap) res" where
  "TBufferQue_new dbg base raw buffersNo bufferLength bufferCode h =
     andThen (throwIf (buffersNo = 0) 0x01010500) (\<lambda>_.
     andThen (throwIf (bufferLength = 0) 0x01010501) (\<lambda>_.
     let memSize = bufferLength + of_nat BUFF_HEADER_LENGTH; memSize = memSize * buffersNo in
     andThen (throwIf (base = NULL) 0x01010501) (\<lambda>_.
     let q = \<lparr>CsBuffer = 0, Head = NULL, Tail = NULL, BufferPtr = base,
              FreeBufferCount = 0, BuffersInitiated = buffersNo\<rparr>
     in carve dbg raw (base + unat memSize) (unat buffersNo) base (unat bufferLength)
          bufferCode q h)))"

text \<open>The destructor; \<open>memSize\<close> is the size the allocator keeps for \<^verbatim>\<open>BufferPtr\<close>.\<close>

definition TBufferQue_delete :: "bool \<Rightarrow> nat \<Rightarrow> TBufferQue \<Rightarrow> heap \<Rightarrow> heap res" where
  "TBufferQue_delete dbg memSize q h =
     (let h = (\<lambda>a. if BufferPtr q \<le> a \<and> a \<le> BufferPtr q + memSize then None else h a) in
      andThen (assertC dbg (FreeBufferCount q = BuffersInitiated q)) (\<lambda>_. Ok h))"

section \<open>The representation and the laws of a queue\<close>

definition que_rep :: "TBufferQue \<Rightarrow> heap \<Rightarrow> addr list \<Rightarrow> bool" where
  "que_rep q h xs \<longleftrightarrow> queue_rep h (Head q) (Tail q) xs \<and> FreeBufferCount q = of_nat (length xs)"

lemma lock_selectors [simp]:
  "Head (Que_LockBuff q) = Head q" "Tail (Que_LockBuff q) = Tail q"
  "FreeBufferCount (Que_LockBuff q) = FreeBufferCount q" "BufferPtr (Que_LockBuff q) = BufferPtr q"
  "BuffersInitiated (Que_LockBuff q) = BuffersInitiated q" "CsBuffer (Que_LockBuff q) = Suc (CsBuffer q)"
  "Head (Que_UnlockBuff q) = Head q" "Tail (Que_UnlockBuff q) = Tail q"
  "FreeBufferCount (Que_UnlockBuff q) = FreeBufferCount q" "BufferPtr (Que_UnlockBuff q) = BufferPtr q"
  "BuffersInitiated (Que_UnlockBuff q) = BuffersInitiated q" "CsBuffer (Que_UnlockBuff q) = CsBuffer q - 1"
  by (simp_all add: Que_LockBuff_def Que_UnlockBuff_def)

text \<open>Both operations are the shared list step, with the count and the lock around it.\<close>

lemma Que_GetFromHead_unlink:
  "Head q \<noteq> NULL \<Longrightarrow> Que_GetFromHead q h =
     andThen (unlink_head h (Head q) (Tail q)) (\<lambda>(info, p', q').
       Ok (info, q\<lparr>Head := p', Tail := q', FreeBufferCount := FreeBufferCount q - 1\<rparr>, h))"
  by (auto simp: Que_GetFromHead_def unlink_head_def andThen_assoc Let_def Que_LockBuff_def Que_UnlockBuff_def
      intro!: arg_cong [where f = "andThen (get_next h (Head q))"])

lemma Que_PutOnTail_link:
  "Que_PutOnTail q h info =
     andThen (link_tail h (Head q) (Tail q) info) (\<lambda>(p', q', h).
       Ok (q\<lparr>Head := p', Tail := q', FreeBufferCount := FreeBufferCount q + 1\<rparr>, h))"
  by (auto simp: Que_PutOnTail_def link_tail_def andThen_assoc Let_def Que_LockBuff_def Que_UnlockBuff_def
      intro!: arg_cong [where f = "andThen (set_next h info NULL)"])

lemma Que_Get_nonempty:
  "Head q \<noteq> NULL \<Longrightarrow> Que_Get dbg q h = Que_GetFromHead q h"
  by (simp add: Que_Get_def Que_GetFromHead_def Let_def andThen_assoc)

lemma Que_Get_rep:
  assumes "que_rep q h (x # xs)"
  shows "\<exists>q'. Que_Get dbg q h = Ok (x, q', h) \<and> que_rep q' h xs \<and> CsBuffer q' = CsBuffer q \<and>
    BufferPtr q' = BufferPtr q \<and> BuffersInitiated q' = BuffersInitiated q"
proof -
  have rep: "queue_rep h (Head q) (Tail q) (x # xs)"
    using assms by (simp add: que_rep_def)
  obtain p' q' where "unlink_head h (Head q) (Tail q) = Ok (x, p', q')" "queue_rep h p' q' xs"
    using unlink_head_ok [OF rep] by blast
  moreover have "Head q \<noteq> NULL"
    using queue_rep_head [OF rep] by simp
  ultimately show ?thesis
    using assms by (simp add: Que_Get_nonempty Que_GetFromHead_unlink que_rep_def)
qed

lemma Que_Add_rep:
  assumes "que_rep q h xs" "allocated h a" "a \<notin> set xs"
  shows "\<exists>q' h'. Que_Add dbg q h a = Ok (q', h') \<and> que_rep q' h' (xs @ [a]) \<and>
    relinked (insert a (set xs)) h h' \<and> CsBuffer q' = CsBuffer q \<and> BufferPtr q' = BufferPtr q \<and>
    BuffersInitiated q' = BuffersInitiated q"
proof -
  have rep: "queue_rep h (Head q) (Tail q) xs"
    using assms by (simp add: que_rep_def)
  have "a \<noteq> NULL" using assms by (simp add: allocated_def)
  then show ?thesis
    using link_tail_ok [OF rep assms(2,3)] assms(1)
    by (auto simp: Que_Add_def Que_PutOnTail_link que_rep_def)
qed

interpretation que: fifo allocated relinked "\<lambda>h. h" "Que_Add dbg" "Que_Get dbg" que_rep for dbg
proof (unfold_locales, goal_cases)
  case 1
  then show ?case using Que_Add_rep by metis
next
  case 2
  then show ?case using Que_Get_rep relinked_refl by metis
next
  case (3 q h xs h')
  then have "queue_rep h' x y xs = queue_rep h x y xs" for x y
    by (intro queue_rep_local) blast
  then show ?case using 3(1) by (simp add: que_rep_def)
next
  case 4
  then show ?case by (simp add: que_rep_def queue_rep_def)
qed

section \<open>The constructor\<close>

definition buf_addr :: "addr \<Rightarrow> nat \<Rightarrow> nat \<Rightarrow> addr" where
  "buf_addr base len i = base + i * (BUFF_HEADER_LENGTH + len) + BUFF_HEADER_LENGTH"

definition buf_addrs :: "addr \<Rightarrow> nat \<Rightarrow> nat \<Rightarrow> addr list" where
  "buf_addrs base len n = map (buf_addr base len) [0..<n]"

definition buffer_ok :: "heap \<Rightarrow> uint8 \<Rightarrow> nat \<Rightarrow> addr \<Rightarrow> bool" where
  "buffer_ok h code len a \<longleftrightarrow>
     map_option BUFF_CODE (h a) = Some code \<and> map_option (length \<circ> bytes) (h a) = Some len"

lemma buf_addrs_Suc:
  "buf_addrs base len (Suc n) =
     (base + BUFF_HEADER_LENGTH) # buf_addrs (base + BUFF_HEADER_LENGTH + len) len n"
  unfolding buf_addrs_def upt_conv_Cons [OF zero_less_Suc] map_Suc_upt [symmetric]
  by (simp add: buf_addr_def)

lemma buf_addrs_0 [simp]: "buf_addrs base len 0 = []"
  by (simp add: buf_addrs_def)

lemma length_buf_addrs [simp]: "length (buf_addrs base len n) = n"
  by (simp add: buf_addrs_def)

lemma buf_addrs_range: "a \<in> set (buf_addrs base len n) \<Longrightarrow>
   base + BUFF_HEADER_LENGTH \<le> a \<and> a + len \<le> base + n * (BUFF_HEADER_LENGTH + len)"
proof -
  assume "a \<in> set (buf_addrs base len n)"
  then obtain i where i: "i < n" "a = buf_addr base len i"
    by (auto simp: buf_addrs_def)
  have "(i + 1) * (BUFF_HEADER_LENGTH + len) \<le> n * (BUFF_HEADER_LENGTH + len)"
    using i by (intro mult_le_mono1) simp
  with i show ?thesis by (simp add: buf_addr_def algebra_simps)
qed

lemma buffer_ok_relinked: "relinked S h h' \<Longrightarrow> buffer_ok h' code len a = buffer_ok h code len a"
  using relinked_bytes [of S h h' a] relinked_code [of S h h' a]
  by (simp add: buffer_ok_def flip: option.map_comp)

lemma carve_ok:
  assumes "que_rep q h xs" "\<And>x. x \<in> set xs \<Longrightarrow> x \<le> tmp"
    and "tmp + n * (BUFF_HEADER_LENGTH + len) \<le> lim"
  shows "\<exists>q' h'. carve dbg raw lim n tmp len code q h = Ok (q', h') \<and>
    que_rep q' h' (xs @ buf_addrs tmp len n) \<and>
    (\<forall>a \<in> set (buf_addrs tmp len n). buffer_ok h' code len a) \<and>
    (\<forall>a. a \<notin> set (buf_addrs tmp len n) \<longrightarrow> same_content (h a) (h' a) \<and> (a \<notin> set xs \<longrightarrow> h' a = h a)) \<and>
    CsBuffer q' = CsBuffer q \<and> BufferPtr q' = BufferPtr q \<and> BuffersInitiated q' = BuffersInitiated q"
  using assms
proof (induction n arbitrary: tmp q h xs)
  case (Suc n)
  let ?t = "tmp + BUFF_HEADER_LENGTH"
  let ?b = "\<lparr>BUFF_CODE = code, BUFF_PREV = NULL, BUFF_NEXT = NULL,
              bytes = map raw [?t ..< min (?t + len) lim]\<rparr>"
  let ?h0 = "h(?t \<mapsto> ?b)"
  have lim: "?t + len \<le> lim"
    using Suc.prems(3) by (simp add: algebra_simps)
  have new: "?t \<notin> set xs"
    using Suc.prems(2) by (force simp: BUFF_HEADER_LENGTH_def)
  have rep0: "que_rep q ?h0 xs"
    using Suc.prems(1) new by (simp add: que_rep_def queue_rep_def)
  have alloc: "allocated ?h0 ?t"
    by (simp add: allocated_def BUFF_HEADER_LENGTH_def)
  obtain q1 h1 where 1: "Que_Add dbg q ?h0 ?t = Ok (q1, h1)" "que_rep q1 h1 (xs @ [?t])"
    "relinked (insert ?t (set xs)) ?h0 h1" "CsBuffer q1 = CsBuffer q" "BufferPtr q1 = BufferPtr q"
    "BuffersInitiated q1 = BuffersInitiated q"
    using Que_Add_rep [OF rep0 alloc new] by blast
  have "x \<le> ?t + len" if "x \<in> set (xs @ [?t])" for x
    using that Suc.prems(2) by force
  moreover have "?t + len + n * (BUFF_HEADER_LENGTH + len) \<le> lim"
    using Suc.prems(3) by (simp add: algebra_simps)
  ultimately obtain q2 h2 where 2: "carve dbg raw lim n (?t + len) len code q1 h1 = Ok (q2, h2)"
    "que_rep q2 h2 ((xs @ [?t]) @ buf_addrs (?t + len) len n)"
    "\<forall>a \<in> set (buf_addrs (?t + len) len n). buffer_ok h2 code len a"
    "\<forall>a. a \<notin> set (buf_addrs (?t + len) len n) \<longrightarrow>
       same_content (h1 a) (h2 a) \<and> (a \<notin> set (xs @ [?t]) \<longrightarrow> h2 a = h1 a)"
    "CsBuffer q2 = CsBuffer q1" "BufferPtr q2 = BufferPtr q1"
    "BuffersInitiated q2 = BuffersInitiated q1"
    using Suc.IH [OF 1(2), of "?t + len"] by blast
  have "buffer_ok ?h0 code len ?t"
    using lim by (simp add: buffer_ok_def min_def)
  then have ok1: "buffer_ok h1 code len ?t"
    using buffer_ok_relinked [OF 1(3)] by simp
  have ok2: "buffer_ok h2 code len ?t"
  proof (cases "?t \<in> set (buf_addrs (?t + len) len n)")
    case False
    then have "same_content (h1 ?t) (h2 ?t)" using 2(4) by blast
    then show ?thesis
      using ok1 by (auto simp: buffer_ok_def same_content_def simp flip: option.map_comp)
  qed (use 2(3) in blast)
  have frame: "same_content (h a) (h2 a) \<and> (a \<notin> set xs \<longrightarrow> h2 a = h a)"
    if "a \<notin> set (buf_addrs tmp len (Suc n))" for a
  proof -
    have a: "a \<noteq> ?t" "a \<notin> set (buf_addrs (?t + len) len n)"
      using that by (auto simp: buf_addrs_Suc)
    have "same_content (?h0 a) (h1 a) \<and> (a \<notin> insert ?t (set xs) \<longrightarrow> h1 a = ?h0 a)"
      using 1(3) unfolding relinked_def by blast
    then have "same_content (h a) (h1 a)" "a \<notin> set xs \<longrightarrow> h1 a = h a"
      using a by auto
    then show ?thesis
      using 2(4) a same_content_trans by fastforce
  qed
  have "carve dbg raw lim (Suc n) tmp len code q h = Ok (q2, h2)"
    using 1(1) 2(1) lim by (simp add: Let_def)
  moreover have "que_rep q2 h2 (xs @ buf_addrs tmp len (Suc n))"
    using 2(2) by (simp add: buf_addrs_Suc)
  moreover have "\<forall>a \<in> set (buf_addrs tmp len (Suc n)). buffer_ok h2 code len a"
    using 2(3) ok2 by (simp add: buf_addrs_Suc)
  moreover have "\<forall>a. a \<notin> set (buf_addrs tmp len (Suc n)) \<longrightarrow>
      same_content (h a) (h2 a) \<and> (a \<notin> set xs \<longrightarrow> h2 a = h a)"
    using frame by simp
  moreover have "CsBuffer q2 = CsBuffer q" "BufferPtr q2 = BufferPtr q"
    "BuffersInitiated q2 = BuffersInitiated q"
    using 1 2 by simp_all
  ultimately show ?case by blast
qed simp

lemma TBufferQue_new_ok:
  assumes n: "0 < n" "0 < len" and fits: "n * (BUFF_HEADER_LENGTH + len) < 2 ^ 32" and b: "base \<noteq> NULL"
  shows "\<exists>q h'. TBufferQue_new dbg base raw (of_nat n) (of_nat len) code h = Ok (q, h') \<and>
    que_rep q h' (buf_addrs base len n) \<and> (\<forall>a \<in> set (buf_addrs base len n). buffer_ok h' code len a) \<and>
    (\<forall>a. a \<notin> set (buf_addrs base len n) \<longrightarrow> h' a = h a) \<and>
    CsBuffer q = 0 \<and> BufferPtr q = base \<and> BuffersInitiated q = of_nat n"
proof -
  have "n * 1 \<le> n * (BUFF_HEADER_LENGTH + len)" "1 * len \<le> n * (BUFF_HEADER_LENGTH + len)"
    using n by (intro mult_le_mono; simp)+
  then have lt: "n < 2 ^ 32" "len < 2 ^ 32"
    using fits by linarith+
  then have nz: "(of_nat n :: uint32) \<noteq> 0" "(of_nat len :: uint32) \<noteq> 0"
    using n unat32 by (metis neq0_conv unat_0)+
  have mem: "unat ((of_nat len + of_nat BUFF_HEADER_LENGTH) * of_nat n :: uint32) =
      n * (BUFF_HEADER_LENGTH + len)"
  proof -
    have "(of_nat len + of_nat BUFF_HEADER_LENGTH) * of_nat n =
        (of_nat (n * (BUFF_HEADER_LENGTH + len)) :: uint32)"
      by (simp only: of_nat_mult of_nat_add mult.commute add.commute)
    then show ?thesis using unat32 [OF fits] by simp
  qed
  have u: "unat (of_nat n :: uint32) = n" "unat (of_nat len :: uint32) = len"
    using lt unat32 by simp_all
  let ?q = "\<lparr>CsBuffer = 0, Head = NULL, Tail = NULL, BufferPtr = base,
     FreeBufferCount = 0, BuffersInitiated = of_nat n\<rparr>"
  have "que_rep ?q h []" by (simp add: que_rep_def)
  then have "\<exists>q' h'. carve dbg raw (base + n * (BUFF_HEADER_LENGTH + len)) n base len code ?q h = Ok (q', h') \<and>
    que_rep q' h' ([] @ buf_addrs base len n) \<and>
    (\<forall>a \<in> set (buf_addrs base len n). buffer_ok h' code len a) \<and>
    (\<forall>a. a \<notin> set (buf_addrs base len n) \<longrightarrow> same_content (h a) (h' a) \<and> (a \<notin> set [] \<longrightarrow> h' a = h a)) \<and>
    CsBuffer q' = CsBuffer ?q \<and> BufferPtr q' = BufferPtr ?q \<and> BuffersInitiated q' = BuffersInitiated ?q"
    by (rule carve_ok) auto
  moreover have "TBufferQue_new dbg base raw (of_nat n) (of_nat len) code h =
      carve dbg raw (base + n * (BUFF_HEADER_LENGTH + len)) n base len code ?q h"
    using nz mem u b by (simp add: TBufferQue_new_def Let_def)
  ultimately show ?thesis by simp blast
qed

end
