(* ===== verification/Buffer_Pool.thy ===== *)
theory Buffer_Pool
  imports Buffer_Queue "HOL-Library.Multiset"
begin

text \<open>
  \<^verbatim>\<open>Kernel/buffers.cpp\<close>: class \<^verbatim>\<open>TBuffers\<close>, the memory management of the kernel, an
  array of free lists with buffers of growing length. The two arrays the constructor gets
  are lists (\<^term>\<open>None\<close> for a null pointer); it sorts them in place, so they are also
  results. \<open>base i\<close> is what \<^verbatim>\<open>new\<close> returns for the memory of class \<open>i\<close>.
\<close>

record TBuffers =
  Buffers :: "TBufferQue option list"
  BuffersLength :: "uint32 list"
  ClassBufferNum :: uint8

section \<open>The constructor\<close>

fun sort_inner :: "nat \<Rightarrow> nat list \<Rightarrow> uint32 list \<Rightarrow> uint32 list \<Rightarrow> (uint32 list \<times> uint32 list) res" where
  "sort_inner i [] lens counts = Ok (lens, counts)"
| "sort_inner i (j # js) lens counts =
     andThen (rd lens i) (\<lambda>li. andThen (rd lens j) (\<lambda>lj.
     if lj < li
     then andThen (wr lens i lj) (\<lambda>lens. andThen (wr lens j li) (\<lambda>lens.
          andThen (rd counts i) (\<lambda>ci. andThen (rd counts j) (\<lambda>cj.
          andThen (wr counts i cj) (\<lambda>counts. andThen (wr counts j ci) (\<lambda>counts.
          sort_inner i js lens counts))))))
     else sort_inner i js lens counts))"

fun sort_outer :: "nat list \<Rightarrow> nat \<Rightarrow> uint32 list \<Rightarrow> uint32 list \<Rightarrow> (uint32 list \<times> uint32 list) res" where
  "sort_outer [] n lens counts = Ok (lens, counts)"
| "sort_outer (i # is) n lens counts =
     andThen (sort_inner i [i + 1 ..< n] lens counts) (\<lambda>(lens, counts).
     sort_outer is n lens counts)"

fun make_queues :: "bool \<Rightarrow> (nat \<Rightarrow> addr) \<Rightarrow> (addr \<Rightarrow> uint8) \<Rightarrow> uint32 list \<Rightarrow> uint32 list \<Rightarrow> nat list \<Rightarrow> heap
    \<Rightarrow> (TBufferQue list \<times> heap) res" where
  "make_queues dbg base raw counts lens [] h = Ok ([], h)"
| "make_queues dbg base raw counts lens (i # is) h =
     andThen (rd counts i) (\<lambda>c. andThen (rd lens i) (\<lambda>l.
     andThen (TBufferQue_new dbg (base i) raw c l (of_nat i) h) (\<lambda>(q, h).
     andThen (make_queues dbg base raw counts lens is h) (\<lambda>(qs, h). Ok (q # qs, h)))))"

definition TBuffers_new :: "bool \<Rightarrow> (nat \<Rightarrow> addr) \<Rightarrow> (addr \<Rightarrow> uint8) \<Rightarrow> uint8 \<Rightarrow> uint32 list option \<Rightarrow>
    uint32 list option \<Rightarrow> heap \<Rightarrow> (TBuffers \<times> uint32 list \<times> uint32 list \<times> heap) res" where
  "TBuffers_new dbg base raw classBufferNum buffersCount buffersLength h =
     andThen (throwIf (classBufferNum = 0) 0x01010600) (\<lambda>_.
     andThen (throwIf (classBufferNum = 0xff) 0x01010600) (\<lambda>_.
     andThen (throwIf (MAX_BUFF_CLASS_NO < unat classBufferNum) 0x01010600) (\<lambda>_.
     andThen (throwIf (buffersCount = None) 0x01010601) (\<lambda>_.
     andThen (throwIf (buffersLength = None) 0x01010602) (\<lambda>_.
     let n = unat classBufferNum in
     andThen (sort_outer [0 ..< n - 1] n (the buffersLength) (the buffersCount)) (\<lambda>(lens, counts).
     andThen (make_queues dbg base raw counts lens [0 ..< n] h) (\<lambda>(qs, h).
     Ok (\<lparr>Buffers = map Some qs @ replicate (MAX_BUFF_CLASS_NO - n) None,
          BuffersLength = take n lens @ replicate (MAX_BUFF_CLASS_NO - n) 0,
          ClassBufferNum = classBufferNum\<rparr>, counts, lens, h))))))))"

section \<open>Getting and returning buffers\<close>

function find_class :: "uint32 list \<Rightarrow> nat \<Rightarrow> uint32 \<Rightarrow> nat \<Rightarrow> nat res" where
  "find_class lens n bufferLength i =
     andThen (rd lens i) (\<lambda>l.
     if l < bufferLength \<and> i < n then find_class lens n bufferLength (i + 1) else Ok i)"
  by pat_completeness auto
termination
  by (relation "measure (\<lambda>(lens, n, l, i). n - i)") auto

function get_from :: "bool \<Rightarrow> TBuffers \<Rightarrow> heap \<Rightarrow> nat \<Rightarrow> (addr \<times> TBuffers \<times> heap) res" where
  "get_from dbg p h i =
     andThen (rd (Buffers p) i) (\<lambda>obj. case obj of
       None \<Rightarrow> Fault MemFault
     | Some q \<Rightarrow>
         andThen (Que_Get dbg q h) (\<lambda>(buff, q, h).
         let p = p\<lparr>Buffers := (Buffers p)[i := Some q]\<rparr> in
         if buff \<noteq> NULL then Ok (buff, p, h)
         else if i + 1 = unat (ClassBufferNum p) then Fault (Thrown 0x21000604)
         else get_from dbg p h (i + 1)))"
  by pat_completeness auto
termination
  by (relation "measure (\<lambda>(dbg, p, h, i). length (Buffers p) - i)") (auto simp: rd_eq_Ok)

definition GetBuffer :: "bool \<Rightarrow> TBuffers \<Rightarrow> heap \<Rightarrow> uint32 \<Rightarrow> (addr \<times> TBuffers \<times> heap) res" where
  "GetBuffer dbg p h bufferLength =
     andThen (find_class (BuffersLength p) (unat (ClassBufferNum p)) bufferLength 0) (\<lambda>i.
     andThen (throwIf (i = unat (ClassBufferNum p)) 0x21000604) (\<lambda>_.
     get_from dbg p h i))"

definition RetBuffer :: "bool \<Rightarrow> TBuffers \<Rightarrow> heap \<Rightarrow> addr \<Rightarrow> (TBuffers \<times> heap) res" where
  "RetBuffer dbg p h info =
     andThen (throwIf (info = NULL) 0x21000605) (\<lambda>_.
     andThen (get_code h info) (\<lambda>code.
     andThen (throwIf (ClassBufferNum p \<le> code) 0x21050609) (\<lambda>_.
     andThen (rd (Buffers p) (unat code)) (\<lambda>obj. case obj of
       None \<Rightarrow> Fault MemFault
     | Some q \<Rightarrow> andThen (Que_Add dbg q h info) (\<lambda>(q, h).
         Ok (p\<lparr>Buffers := (Buffers p)[unat code := Some q]\<rparr>, h))))))"

definition GetLength_class :: "TBuffers \<Rightarrow> uint8 \<Rightarrow> uint32 res" where
  "GetLength_class p data =
     andThen (throwIf (ClassBufferNum p \<le> data) 0x21050607) (\<lambda>_.
     rd (BuffersLength p) (unat data))"

definition GetLength :: "TBuffers \<Rightarrow> heap \<Rightarrow> addr \<Rightarrow> uint32 res" where
  "GetLength p h info =
     andThen (throwIf (info = NULL) 0x21050608) (\<lambda>_.
     andThen (get_code h info) (\<lambda>code.
     andThen (throwIf (ClassBufferNum p \<le> code) 0x21050609) (\<lambda>_.
     rd (BuffersLength p) (unat code))))"

text \<open>The destructor deletes every queue of the pool.\<close>

fun delete_queues :: "bool \<Rightarrow> (addr \<Rightarrow> nat) \<Rightarrow> TBufferQue option list \<Rightarrow> heap \<Rightarrow> heap res" where
  "delete_queues dbg memSize [] h = Ok h"
| "delete_queues dbg memSize (None # qs) h = delete_queues dbg memSize qs h"
| "delete_queues dbg memSize (Some q # qs) h =
     andThen (TBufferQue_delete dbg (memSize (BufferPtr q)) q h) (\<lambda>h. delete_queues dbg memSize qs h)"

definition TBuffers_delete :: "bool \<Rightarrow> (addr \<Rightarrow> nat) \<Rightarrow> TBuffers \<Rightarrow> heap \<Rightarrow> heap res" where
  "TBuffers_delete dbg memSize p h =
     delete_queues dbg memSize (take (unat (ClassBufferNum p)) (Buffers p)) h"

declare find_class.simps [simp del] get_from.simps [simp del]

section \<open>The representation of the pool\<close>

text \<open>
  \<open>xss ! i\<close> are the free buffers of class \<open>i\<close>. No buffer is in two classes, every buffer
  of a class carries its number and has its length, and the lengths are sorted.
\<close>

definition pool_rep :: "TBuffers \<Rightarrow> heap \<Rightarrow> addr list list \<Rightarrow> bool" where
  "pool_rep p h xss \<longleftrightarrow>
     length xss = unat (ClassBufferNum p) \<and> unat (ClassBufferNum p) \<le> MAX_BUFF_CLASS_NO \<and>
     length (Buffers p) = MAX_BUFF_CLASS_NO \<and> length (BuffersLength p) = MAX_BUFF_CLASS_NO \<and>
     sorted (take (unat (ClassBufferNum p)) (BuffersLength p)) \<and>
     (\<forall>i < length xss. \<exists>q. Buffers p ! i = Some q \<and> que_rep q h (xss ! i)) \<and>
     (\<forall>i < length xss. \<forall>a \<in> set (xss ! i).
        buffer_ok h (of_nat i) (unat (BuffersLength p ! i)) a) \<and>
     (\<forall>i < length xss. \<forall>j < length xss. i \<noteq> j \<longrightarrow> set (xss ! i) \<inter> set (xss ! j) = {})"

lemma pool_rep_bounds:
  assumes "pool_rep p h xss" "i < length xss"
  shows "i < length (Buffers p)" "i < length (BuffersLength p)" "i < unat (ClassBufferNum p)" "i < 32"
  using assms by (auto simp: pool_rep_def MAX_BUFF_CLASS_NO_def)

lemma pool_rep_que:
  assumes "pool_rep p h xss" "i < length xss"
  obtains q where "Buffers p ! i = Some q" "que_rep q h (xss ! i)"
  using assms unfolding pool_rep_def by blast

lemma pool_rep_buffer:
  "pool_rep p h xss \<Longrightarrow> i < length xss \<Longrightarrow> a \<in> set (xss ! i) \<Longrightarrow>
   buffer_ok h (of_nat i) (unat (BuffersLength p ! i)) a"
  unfolding pool_rep_def by blast

lemma pool_rep_disjoint:
  "pool_rep p h xss \<Longrightarrow> i < length xss \<Longrightarrow> j < length xss \<Longrightarrow> i \<noteq> j \<Longrightarrow>
   set (xss ! i) \<inter> set (xss ! j) = {}"
  unfolding pool_rep_def by blast

text \<open>One class replaced: the others keep their lists.\<close>

lemma pool_rep_upd:
  assumes rep: "pool_rep p h xss" and i: "i < length xss" and q: "que_rep q h' ys"
    and rl: "relinked S h h'"
    and S: "\<And>j. j < length xss \<Longrightarrow> j \<noteq> i \<Longrightarrow> set (xss ! j) \<inter> (S \<union> set ys) = {}"
    and ok: "\<And>a. a \<in> set ys \<Longrightarrow> buffer_ok h (of_nat i) (unat (BuffersLength p ! i)) a"
  shows "pool_rep (p\<lparr>Buffers := (Buffers p)[i := Some q]\<rparr>) h' (xss[i := ys])"
proof -
  have "\<exists>q'. (Buffers p)[i := Some q] ! j = Some q' \<and> que_rep q' h' (xss[i := ys] ! j)"
    if j: "j < length xss" for j
  proof (cases "j = i")
    case True
    then show ?thesis using q j pool_rep_bounds [OF rep j] by simp
  next
    case False
    obtain r where r: "Buffers p ! j = Some r" "que_rep r h (xss ! j)"
      using pool_rep_que [OF rep j] .
    have "que_rep r h' (xss ! j)"
      by (rule que.rep_frame [OF r(2) rl]) (use S [OF j False] in blast)
    then show ?thesis using False r by simp
  qed
  moreover have "buffer_ok h' (of_nat j) (unat (BuffersLength p ! j)) a"
    if j: "j < length xss" "a \<in> set (xss[i := ys] ! j)" for j a
    using that ok pool_rep_buffer [OF rep j(1), of a] buffer_ok_relinked [OF rl]
    by (cases "j = i") auto
  moreover have "set (xss[i := ys] ! j) \<inter> set (xss[i := ys] ! k) = {}"
    if j: "j < length xss" "k < length xss" "j \<noteq> k" for j k
  proof -
    have "set (xss ! j) \<inter> set ys = {}" if "j \<noteq> i" using S [OF j(1) that] by blast
    moreover have "set (xss ! k) \<inter> set ys = {}" if "k \<noteq> i" using S [OF j(2) that] by blast
    moreover have "set (xss ! j) \<inter> set (xss ! k) = {}"
      by (rule pool_rep_disjoint [OF rep j])
    ultimately show ?thesis
      using j by (cases "j = i"; cases "k = i") auto
  qed
  ultimately show ?thesis
    using rep i unfolding pool_rep_def by simp
qed

section \<open>Choosing the class\<close>

lemma find_class_ok:
  assumes "i \<le> n" "n < length lens \<or> n = length lens \<and> (\<exists>k < n. i \<le> k \<and> len \<le> lens ! k)"
  shows "\<exists>k. find_class lens n len i = Ok k \<and> i \<le> k \<and> k \<le> n \<and>
    (\<forall>j. i \<le> j \<and> j < k \<longrightarrow> lens ! j < len) \<and> (k < n \<longrightarrow> len \<le> lens ! k)"
  using assms
proof (induction "n - i" arbitrary: i)
  case 0
  then show ?case by (subst find_class.simps) auto
next
  case (Suc m)
  then have i: "i < n" "i < length lens" by auto
  show ?case
  proof (cases "lens ! i < len")
    case False
    then show ?thesis using i by (subst find_class.simps) auto
  next
    case True
    have c: "n < length lens \<or> n = length lens \<and> (\<exists>k < n. i + 1 \<le> k \<and> len \<le> lens ! k)"
    proof (cases "n < length lens")
      case False
      then obtain k where k: "n = length lens" "k < n" "i \<le> k" "len \<le> lens ! k"
        using Suc.prems by blast
      then have "k \<noteq> i" using True by auto
      then show ?thesis using k by (intro disjI2 conjI exI [of _ k]) auto
    qed simp
    have m: "m = n - (i + 1)" "i + 1 \<le> n"
      using Suc.hyps(2) by simp_all
    obtain k where k: "find_class lens n len (i + 1) = Ok k" "i + 1 \<le> k" "k \<le> n"
      "\<forall>j. i + 1 \<le> j \<and> j < k \<longrightarrow> lens ! j < len" "k < n \<longrightarrow> len \<le> lens ! k"
      using Suc.hyps(1) [OF m c] by blast
    have "\<forall>j. i \<le> j \<and> j < k \<longrightarrow> lens ! j < len"
    proof (intro allI impI)
      fix j assume "i \<le> j \<and> j < k"
      then show "lens ! j < len" using k(4) True by (cases "j = i") auto
    qed
    moreover have "find_class lens n len i = Ok k"
      using k(1) i True by (subst find_class.simps) simp
    ultimately show ?thesis using k by auto
  qed
qed

text \<open>The class a request is served from first: the least one that fits.\<close>

definition best_class :: "TBuffers \<Rightarrow> uint32 \<Rightarrow> nat \<Rightarrow> bool" where
  "best_class p len k \<longleftrightarrow> k < unat (ClassBufferNum p) \<and> len \<le> BuffersLength p ! k \<and>
     (\<forall>j < k. BuffersLength p ! j < len)"

lemma GetBuffer_best:
  assumes rep: "pool_rep p h xss" and k: "best_class p len k"
  shows "GetBuffer dbg p h len = get_from dbg p h k"
proof -
  let ?n = "unat (ClassBufferNum p)"
  have "?n < length (BuffersLength p) \<or> ?n = length (BuffersLength p) \<and>
      (\<exists>k < ?n. 0 \<le> k \<and> len \<le> BuffersLength p ! k)"
    using rep k by (auto simp: pool_rep_def best_class_def le_less)
  then obtain l where l: "find_class (BuffersLength p) ?n len 0 = Ok l" "l \<le> ?n"
    "\<forall>j. 0 \<le> j \<and> j < l \<longrightarrow> BuffersLength p ! j < len" "l < ?n \<longrightarrow> len \<le> BuffersLength p ! l"
    using find_class_ok [of 0 ?n "BuffersLength p" len] by blast
  have "l = k"
  proof (rule linorder_cases [of l k])
    assume "l < k"
    then show ?thesis using l k by (auto simp: best_class_def dest: leD)
  next
    assume "k < l"
    then show ?thesis using l k by (auto simp: best_class_def dest: leD)
  qed simp
  then show ?thesis
    using l k by (simp add: GetBuffer_def best_class_def)
qed

definition que_at :: "TBuffers \<Rightarrow> nat \<Rightarrow> TBufferQue" where
  "que_at p i = the (Buffers p ! i)"

lemma get_from_hit:
  assumes rep: "pool_rep p h xss" and kn: "k < length xss" and x: "xss ! k = x # xs"
  shows "\<exists>p'. get_from dbg p h k = Ok (x, p', h) \<and> pool_rep p' h (xss[k := xs]) \<and>
    BuffersLength p' = BuffersLength p \<and> ClassBufferNum p' = ClassBufferNum p \<and>
    (\<forall>j. CsBuffer (que_at p' j) = CsBuffer (que_at p j))"
proof -
  obtain q where q: "Buffers p ! k = Some q" "que_rep q h (x # xs)"
    using pool_rep_que [OF rep kn] x by metis
  obtain q' where q': "Que_Get dbg q h = Ok (x, q', h)" "que_rep q' h xs" "CsBuffer q' = CsBuffer q"
    using Que_Get_rep [OF q(2)] by blast
  let ?p = "p\<lparr>Buffers := (Buffers p)[k := Some q']\<rparr>"
  have "x \<noteq> NULL"
    using q(2) queue_rep_mem by (auto simp: que_rep_def)
  then have "get_from dbg p h k = Ok (x, ?p, h)"
    using q q' pool_rep_bounds [OF rep kn] by (subst get_from.simps) (simp add: Let_def)
  moreover have "pool_rep ?p h (xss[k := xs])"
  proof (rule pool_rep_upd [OF rep kn q'(2) relinked_refl [of "{}"]])
    show "set (xss ! j) \<inter> ({} \<union> set xs) = {}" if "j < length xss" "j \<noteq> k" for j
      using pool_rep_disjoint [OF rep that(1) kn that(2)] x by auto
    show "buffer_ok h (of_nat k) (unat (BuffersLength p ! k)) a" if "a \<in> set xs" for a
      using pool_rep_buffer [OF rep kn, of a] that x by simp
  qed
  moreover have "CsBuffer (que_at ?p j) = CsBuffer (que_at p j)" for j
    using q q'(3) pool_rep_bounds [OF rep kn] by (cases "j = k") (auto simp: que_at_def)
  ultimately show ?thesis by (intro exI [of _ ?p] conjI) auto
qed

lemma best_class_bound: "pool_rep p h xss \<Longrightarrow> best_class p len k \<Longrightarrow> k < length xss"
  by (simp add: pool_rep_def best_class_def)

text \<open>A queue without buffers: \<^const>\<open>Que_Get\<close> keeps the lock; the debug build stops there.\<close>

lemma Que_Get_empty:
  assumes "que_rep q h []"
  shows "Que_Get dbg q h = (if dbg then Fault AssertFailed else Ok (NULL, Que_LockBuff q, h))"
  using assms by (simp add: que_rep_def Que_Get_def Que_GetFromHead_def assertC_def)

text \<open>Without asserts the search goes on in the larger classes.\<close>

lemma get_from_next:
  assumes rep: "pool_rep p h xss" and i: "i + 1 < length xss" and e: "xss ! i = []"
  defines "p1 \<equiv> p\<lparr>Buffers := (Buffers p)[i := Some (Que_LockBuff (que_at p i))]\<rparr>"
  shows "get_from False p h i = get_from False p1 h (i + 1)" and "pool_rep p1 h xss"
proof -
  have i': "i < length xss" using i by simp
  obtain q where q: "Buffers p ! i = Some q" "que_rep q h []"
    using pool_rep_que [OF rep i'] e by metis
  have num: "length xss = unat (ClassBufferNum p)" using rep by (simp add: pool_rep_def)
  show "get_from False p h i = get_from False p1 h (i + 1)"
    using q Que_Get_empty [OF q(2)] pool_rep_bounds [OF rep i'] i num
    by (subst get_from.simps) (simp add: Let_def p1_def que_at_def)
  have "que_rep (Que_LockBuff q) h (xss ! i)"
    using q e by (simp add: que_rep_def)
  then have "pool_rep (p\<lparr>Buffers := (Buffers p)[i := Some (Que_LockBuff q)]\<rparr>) h (xss[i := xss ! i])"
    by (rule pool_rep_upd [OF rep i' _ relinked_refl [of "{}"]])
      (use e in auto)
  then show "pool_rep p1 h xss"
    using q by (simp add: p1_def que_at_def)
qed

lemma get_from_skip:
  assumes "pool_rep p h xss" "i \<le> j" "j < length xss" "\<forall>m. i \<le> m \<and> m < j \<longrightarrow> xss ! m = []"
    and "xss ! j = x # xs"
  shows "\<exists>p'. get_from False p h i = Ok (x, p', h) \<and> pool_rep p' h (xss[j := xs]) \<and>
    (\<forall>m. CsBuffer (que_at p' m) = CsBuffer (que_at p m) + (if i \<le> m \<and> m < j then 1 else 0))"
  using assms
proof (induction "j - i" arbitrary: i p)
  case 0
  then show ?case using get_from_hit [of p h xss j x xs False] by auto
next
  case (Suc d)
  let ?p = "p\<lparr>Buffers := (Buffers p)[i := Some (Que_LockBuff (que_at p i))]\<rparr>"
  have i: "i < j" "i + 1 < length xss" "xss ! i = []" "i < length (Buffers p)"
    using Suc.hyps(2) Suc.prems by (auto simp: pool_rep_def)
  have d: "d = j - (i + 1)" "i + 1 \<le> j" using Suc.hyps(2) by auto
  have next1: "get_from False p h i = get_from False ?p h (i + 1)" and rep1: "pool_rep ?p h xss"
    using get_from_next [OF Suc.prems(1) i(2,3)] by auto
  have "\<forall>m. i + 1 \<le> m \<and> m < j \<longrightarrow> xss ! m = []" using Suc.prems(4) by auto
  then obtain p' where p': "get_from False ?p h (i + 1) = Ok (x, p', h)" "pool_rep p' h (xss[j := xs])"
    "\<forall>m. CsBuffer (que_at p' m) = CsBuffer (que_at ?p m) + (if i + 1 \<le> m \<and> m < j then 1 else 0)"
    using Suc.hyps(1) [OF d(1) rep1 d(2) Suc.prems(3) _ Suc.prems(5)] by blast
  have "CsBuffer (que_at ?p m) = CsBuffer (que_at p m) + (if m = i then 1 else 0)" for m
    using i(4) by (auto simp: que_at_def nth_list_update)
  then have "\<forall>m. CsBuffer (que_at p' m) = CsBuffer (que_at p m) + (if i \<le> m \<and> m < j then 1 else 0)"
    using p'(3) i(1) by auto
  then show ?case using next1 p' by auto
qed

lemma get_from_exhausted:
  assumes "pool_rep p h xss" "i < length xss" "\<forall>m. i \<le> m \<and> m < length xss \<longrightarrow> xss ! m = []"
  shows "get_from False p h i = Fault (Thrown 0x21000604)"
  using assms
proof (induction "length xss - 1 - i" arbitrary: i p)
  case 0
  then have i: "i + 1 = length xss" "xss ! i = []" by auto
  obtain q where q: "Buffers p ! i = Some q" "que_rep q h []"
    using pool_rep_que [OF 0(2,3)] i by metis
  have "length xss = unat (ClassBufferNum p)" using 0 by (simp add: pool_rep_def)
  then show ?case
    using q Que_Get_empty [OF q(2)] pool_rep_bounds [OF 0(2,3)] i
    by (subst get_from.simps) (simp add: Let_def)
next
  case (Suc d)
  have i: "i + 1 < length xss" "xss ! i = []" using Suc.hyps(2) Suc.prems by auto
  have "d = length xss - 1 - (i + 1)" using Suc.hyps(2) by simp
  moreover have "\<forall>m. i + 1 \<le> m \<and> m < length xss \<longrightarrow> xss ! m = []" using Suc.prems(3) by auto
  ultimately show ?case
    using Suc.hyps(1) get_from_next [OF Suc.prems(1) i] i by metis
qed

lemma get_from_debug_empty:
  assumes rep: "pool_rep p h xss" and k: "k < length xss" and e: "xss ! k = []"
  shows "get_from True p h k = Fault AssertFailed"
proof -
  obtain q where q: "Buffers p ! k = Some q" "que_rep q h []"
    using pool_rep_que [OF rep k] e by metis
  then show ?thesis
    using Que_Get_empty [OF q(2)] pool_rep_bounds [OF rep k] by (subst get_from.simps) simp
qed

lemma GetBuffer_too_long:
  assumes rep: "pool_rep p h xss" and n: "unat (ClassBufferNum p) < MAX_BUFF_CLASS_NO"
    and l: "\<forall>j < length xss. BuffersLength p ! j < len"
  shows "GetBuffer dbg p h len = Fault (Thrown 0x21000604)"
proof -
  let ?n = "unat (ClassBufferNum p)"
  have nn: "length xss = ?n" "?n < length (BuffersLength p)"
    using rep n by (auto simp: pool_rep_def)
  obtain k where k: "find_class (BuffersLength p) ?n len 0 = Ok k" "k \<le> ?n"
    "k < ?n \<longrightarrow> len \<le> BuffersLength p ! k"
    using find_class_ok [of 0 ?n "BuffersLength p" len] nn by blast
  have "\<not> k < ?n" using k(3) l nn by (auto dest: leD)
  then have "k = ?n" using k(2) by simp
  then show ?thesis using k by (simp add: GetBuffer_def)
qed

text \<open>With all 32 classes in use the search reads one element past the array.\<close>

lemma find_class_overrun:
  assumes "i \<le> length lens" "\<forall>j. i \<le> j \<and> j < length lens \<longrightarrow> lens ! j < len"
  shows "find_class lens (length lens) len i = Fault MemFault"
  using assms
proof (induction "length lens - i" arbitrary: i)
  case 0
  then show ?case by (subst find_class.simps) simp
next
  case (Suc d)
  then have i: "i < length lens" "lens ! i < len" by auto
  have "d = length lens - (i + 1)" using Suc.hyps(2) by simp
  then have "find_class lens (length lens) len (i + 1) = Fault MemFault"
    by (rule Suc.hyps(1)) (use i Suc.prems in auto)
  then show ?case using i by (subst find_class.simps) simp
qed

lemma GetBuffer_overrun:
  assumes rep: "pool_rep p h xss" and n: "unat (ClassBufferNum p) = MAX_BUFF_CLASS_NO"
    and l: "\<forall>j < length xss. BuffersLength p ! j < len"
  shows "GetBuffer dbg p h len = Fault MemFault"
  using assms find_class_overrun [of 0 "BuffersLength p" len]
  by (simp add: GetBuffer_def pool_rep_def)

section \<open>Returning a buffer\<close>

lemma buffer_okE:
  assumes "buffer_ok h code len a" "a \<noteq> NULL"
  shows "get_code h a = Ok code" and "allocated h a"
  using assms by (auto simp: buffer_ok_def get_code_def allocated_def)

lemma RetBuffer_ok:
  assumes rep: "pool_rep p h xss" and k: "k < length xss" and a: "a \<noteq> NULL"
    and b: "buffer_ok h (of_nat k) (unat (BuffersLength p ! k)) a"
    and new: "\<forall>j < length xss. a \<notin> set (xss ! j)"
  shows "\<exists>p' h'. RetBuffer dbg p h a = Ok (p', h') \<and> pool_rep p' h' (xss[k := xss ! k @ [a]]) \<and>
    relinked (insert a (set (xss ! k))) h h' \<and>
    BuffersLength p' = BuffersLength p \<and> ClassBufferNum p' = ClassBufferNum p"
proof -
  obtain q where q: "Buffers p ! k = Some q" "que_rep q h (xss ! k)"
    using pool_rep_que [OF rep k] .
  note bounds = pool_rep_bounds [OF rep k]
  have code: "unat (of_nat k :: uint8) = k"
    using bounds(4) by (intro unat8) simp
  have le: "\<not> ClassBufferNum p \<le> of_nat k"
    using bounds(3) code by (simp add: word_le_nat_alt)
  obtain q' h' where q': "Que_Add dbg q h a = Ok (q', h')" "que_rep q' h' (xss ! k @ [a])"
    "relinked (insert a (set (xss ! k))) h h'"
    using Que_Add_rep [OF q(2) buffer_okE(2) [OF b a]] new k by blast
  have "RetBuffer dbg p h a = Ok (p\<lparr>Buffers := (Buffers p)[k := Some q']\<rparr>, h')"
    using q q' a le code bounds buffer_okE [OF b a] by (simp add: RetBuffer_def)
  moreover have "pool_rep (p\<lparr>Buffers := (Buffers p)[k := Some q']\<rparr>) h' (xss[k := xss ! k @ [a]])"
  proof (rule pool_rep_upd [OF rep k q'(2,3)])
    show "set (xss ! j) \<inter> (insert a (set (xss ! k)) \<union> set (xss ! k @ [a])) = {}"
      if "j < length xss" "j \<noteq> k" for j
      using pool_rep_disjoint [OF rep that(1) k that(2)] new that by auto
    show "buffer_ok h (of_nat k) (unat (BuffersLength p ! k)) c" if "c \<in> set (xss ! k @ [a])" for c
      using that b pool_rep_buffer [OF rep k] by auto
  qed
  ultimately show ?thesis
    using q'(3) by (intro exI [of _ "p\<lparr>Buffers := (Buffers p)[k := Some q']\<rparr>"] exI conjI) auto
qed

section \<open>The constructor sorts the classes and fills them\<close>

lemma mset_zip_swap:
  assumes "i < length xs" "j < length xs" "length ys = length xs"
  shows "mset (zip (xs[i := xs ! j, j := xs ! i]) (ys[i := ys ! j, j := ys ! i])) = mset (zip xs ys)"
proof -
  have "zip (xs[i := xs ! j, j := xs ! i]) (ys[i := ys ! j, j := ys ! i]) =
      (zip xs ys)[i := zip xs ys ! j, j := zip xs ys ! i]"
    using assms by (simp add: zip_update)
  then show ?thesis
    using assms mset_swap [of j "zip xs ys" i] by simp
qed

definition bounded_by :: "uint32 list \<Rightarrow> nat set \<Rightarrow> uint32 \<Rightarrow> bool" where
  "bounded_by lens K b \<longleftrightarrow> (\<forall>k \<in> K. b \<le> lens ! k)"

lemma sort_inner_ok:
  assumes "length counts = length lens" "i < length lens" "\<forall>j \<in> set js. i < j \<and> j < length lens"
  shows "\<exists>lens' counts'. sort_inner i js lens counts = Ok (lens', counts') \<and>
    length lens' = length lens \<and> length counts' = length counts \<and>
    mset (zip lens' counts') = mset (zip lens counts) \<and>
    lens' ! i \<le> lens ! i \<and> (\<forall>j \<in> set js. lens' ! i \<le> lens' ! j) \<and>
    (\<forall>k. k \<notin> insert i (set js) \<longrightarrow> lens' ! k = lens ! k) \<and>
    (\<forall>b. bounded_by lens (insert i (set js)) b \<longrightarrow> bounded_by lens' (insert i (set js)) b)"
  using assms
proof (induction js arbitrary: lens counts)
  case (Cons j js)
  let ?P = "\<lambda>lens0 counts0 lens' counts'.
    length lens' = length lens0 \<and> length counts' = length counts0 \<and>
    mset (zip lens' counts') = mset (zip lens0 counts0) \<and>
    lens' ! i \<le> lens0 ! i \<and> (\<forall>j \<in> set js. lens' ! i \<le> lens' ! j) \<and>
    (\<forall>k. k \<notin> insert i (set js) \<longrightarrow> lens' ! k = lens0 ! k) \<and>
    (\<forall>b. bounded_by lens0 (insert i (set js)) b \<longrightarrow> bounded_by lens' (insert i (set js)) b)"
  have ij: "i < length lens" "j < length lens" "i < j" using Cons.prems by auto
  define l1 where "l1 = (if lens ! j < lens ! i then lens[i := lens ! j, j := lens ! i] else lens)"
  define c1 where "c1 = (if lens ! j < lens ! i then counts[i := counts ! j, j := counts ! i] else counts)"
  have l1: "length l1 = length lens" "length c1 = length counts" "l1 ! i \<le> l1 ! j" "l1 ! i \<le> lens ! i"
    "mset (zip l1 c1) = mset (zip lens counts)" "\<forall>k. k \<noteq> i \<and> k \<noteq> j \<longrightarrow> l1 ! k = lens ! k"
    "{l1 ! i, l1 ! j} \<subseteq> {lens ! i, lens ! j}"
    using ij Cons.prems(1) mset_zip_swap [of i lens j counts] by (auto simp: l1_def c1_def)
  have step: "sort_inner i (j # js) lens counts = sort_inner i js l1 c1"
    using ij Cons.prems(1) by (simp add: l1_def c1_def)
  obtain l2 c2 where 2: "sort_inner i js l1 c1 = Ok (l2, c2)" "?P l1 c1 l2 c2"
    using Cons.IH [of c1 l1] Cons.prems l1 by auto
  have ge: "l2 ! i \<le> l2 ! j"
  proof (cases "j \<in> set js")
    case False
    then have "l2 ! j = l1 ! j" using 2(2) ij by auto
    then show ?thesis using 2(2) l1(3) by auto
  qed (use 2(2) in auto)
  have bnd: "bounded_by l2 (insert i (set (j # js))) b"
    if "bounded_by lens (insert i (set (j # js))) b" for b
  proof -
    have all: "b \<le> lens ! k" if "k \<in> insert i (set (j # js))" for k
      using that \<open>bounded_by lens _ b\<close> by (auto simp: bounded_by_def)
    have "b \<le> l1 ! k" if "k \<in> insert i (set js)" for k
    proof (cases "k = i \<or> k = j")
      case True
      then show ?thesis using l1(7) all [of i] all [of j] by auto
    qed (use l1(6) all [of k] that in auto)
    then have "bounded_by l2 (insert i (set js)) b"
      using 2(2) by (simp add: bounded_by_def)
    then show ?thesis
      using ge order.trans by (fastforce simp: bounded_by_def)
  qed
  have "l2 ! i \<le> lens ! i" using 2(2) l1(4) order.trans by blast
  moreover have "\<forall>k. k \<notin> insert i (set (j # js)) \<longrightarrow> l2 ! k = lens ! k"
    using 2(2) l1(6) by auto
  moreover have "\<forall>m \<in> set (j # js). l2 ! i \<le> l2 ! m" using ge 2(2) by auto
  ultimately show ?case
    using step 2 l1 bnd by (intro exI [of _ l2] exI [of _ c2] conjI allI impI) auto
qed (auto simp: bounded_by_def)

definition sorted_upto :: "uint32 list \<Rightarrow> nat \<Rightarrow> nat \<Rightarrow> bool" where
  "sorted_upto lens m n \<longleftrightarrow> (\<forall>k < m. \<forall>l < n. k \<le> l \<longrightarrow> lens ! k \<le> lens ! l)"

lemma sort_outer_ok:
  assumes "m \<le> n - 1" "n = length lens" "length counts = length lens" "sorted_upto lens m n"
  shows "\<exists>lens' counts'. sort_outer [m ..< n - 1] n lens counts = Ok (lens', counts') \<and>
    length lens' = n \<and> length counts' = n \<and> mset (zip lens' counts') = mset (zip lens counts) \<and>
    sorted_upto lens' (n - 1) n"
  using assms
proof (induction "n - 1 - m" arbitrary: m lens counts)
  case (Suc d)
  let ?js = "[m + 1 ..< n]"
  have m: "m < n - 1" "m < length lens" "\<forall>j \<in> set ?js. m < j \<and> j < length lens"
    using Suc.hyps(2) Suc.prems by auto
  obtain l1 c1 where 1: "sort_inner m ?js lens counts = Ok (l1, c1)"
    "length l1 = length lens" "length c1 = length counts" "mset (zip l1 c1) = mset (zip lens counts)"
    "\<forall>j \<in> set ?js. l1 ! m \<le> l1 ! j" "\<forall>k. k \<notin> insert m (set ?js) \<longrightarrow> l1 ! k = lens ! k"
    "\<forall>b. bounded_by lens (insert m (set ?js)) b \<longrightarrow> bounded_by l1 (insert m (set ?js)) b"
    using sort_inner_ok [OF Suc.prems(3) m(2,3)] by blast
  have "sorted_upto l1 (m + 1) n"
    unfolding sorted_upto_def
  proof (intro allI impI)
    fix k l assume kl: "k < m + 1" "l < n" "k \<le> l"
    show "l1 ! k \<le> l1 ! l"
    proof (cases "k < m")
      case True
      then have k: "l1 ! k = lens ! k" using 1(6) by auto
      show ?thesis
      proof (cases "l < m")
        case True
        then have "l1 ! l = lens ! l" using 1(6) by auto
        then show ?thesis using k kl \<open>k < m\<close> Suc.prems(4) by (simp add: sorted_upto_def)
      next
        case False
        have "bounded_by lens (insert m (set ?js)) (lens ! k)"
          using True m(1) Suc.prems(2,4) by (auto simp: bounded_by_def sorted_upto_def)
        then have "bounded_by l1 (insert m (set ?js)) (lens ! k)" using 1(7) by blast
        then show ?thesis using k kl False by (cases "l = m") (auto simp: bounded_by_def)
      qed
    next
      case False
      then have "k = m" using kl by simp
      then show ?thesis using kl 1(5) by (cases "l = m") auto
    qed
  qed
  then have "\<exists>lens' counts'. sort_outer [m + 1 ..< n - 1] n l1 c1 = Ok (lens', counts') \<and>
    length lens' = n \<and> length counts' = n \<and> mset (zip lens' counts') = mset (zip l1 c1) \<and>
    sorted_upto lens' (n - 1) n"
    using Suc.hyps(1) [of "m + 1" l1 c1] Suc.hyps(2) Suc.prems 1 by auto
  moreover have "sort_outer [m ..< n - 1] n lens counts = sort_outer [m + 1 ..< n - 1] n l1 c1"
    using 1(1) upt_conv_Cons [OF m(1)] by simp
  ultimately show ?case
    using 1(4) by simp
next
  case 0
  then have "m = n - 1" by simp
  then show ?case using 0 by simp
qed

lemma sorted_upto_sorted: "sorted_upto lens (n - 1) n \<Longrightarrow> n = length lens \<Longrightarrow> sorted lens"
  unfolding sorted_iff_nth_mono_less sorted_upto_def by auto

text \<open>The memory of class \<open>i\<close>, and what a successful construction needs of it.\<close>

definition class_addrs :: "(nat \<Rightarrow> addr) \<Rightarrow> uint32 list \<Rightarrow> uint32 list \<Rightarrow> nat \<Rightarrow> addr list" where
  "class_addrs base counts lens i = buf_addrs (base i) (unat (lens ! i)) (unat (counts ! i))"

definition class_fits :: "(nat \<Rightarrow> addr) \<Rightarrow> uint32 list \<Rightarrow> uint32 list \<Rightarrow> nat \<Rightarrow> bool" where
  "class_fits base counts lens i \<longleftrightarrow> i < length lens \<and> i < length counts \<and>
     0 < counts ! i \<and> 0 < lens ! i \<and> base i \<noteq> NULL \<and>
     unat (counts ! i) * (BUFF_HEADER_LENGTH + unat (lens ! i)) < 2 ^ 32"

definition classes_apart :: "(nat \<Rightarrow> addr) \<Rightarrow> uint32 list \<Rightarrow> uint32 list \<Rightarrow> nat set \<Rightarrow> bool" where
  "classes_apart base counts lens I \<longleftrightarrow> (\<forall>i \<in> I. \<forall>j \<in> I. i \<noteq> j \<longrightarrow>
     set (class_addrs base counts lens i) \<inter> set (class_addrs base counts lens j) = {})"

lemma make_queues_ok:
  assumes "\<forall>i \<in> set is. class_fits base counts lens i" "distinct is"
    and "classes_apart base counts lens (set is)"
  shows "\<exists>qs h'. make_queues dbg base raw counts lens is h = Ok (qs, h') \<and> length qs = length is \<and>
    (\<forall>t < length is. que_rep (qs ! t) h' (class_addrs base counts lens (is ! t)) \<and>
      (\<forall>a \<in> set (class_addrs base counts lens (is ! t)).
         buffer_ok h' (of_nat (is ! t)) (unat (lens ! (is ! t))) a)) \<and>
    (\<forall>a. (\<forall>i \<in> set is. a \<notin> set (class_addrs base counts lens i)) \<longrightarrow> h' a = h a)"
  using assms
proof (induction "is" arbitrary: h)
  case (Cons i "is")
  let ?A = "class_addrs base counts lens"
  have fit: "class_fits base counts lens i" using Cons.prems by simp
  have pos: "0 < unat (counts ! i)" "0 < unat (lens ! i)"
    using fit by (auto simp: class_fits_def unat_gt_0)
  obtain q h1 where 1: "TBufferQue_new dbg (base i) raw (counts ! i) (lens ! i) (of_nat i) h = Ok (q, h1)"
    "que_rep q h1 (?A i)" "\<forall>a \<in> set (?A i). buffer_ok h1 (of_nat i) (unat (lens ! i)) a"
    "\<forall>a. a \<notin> set (?A i) \<longrightarrow> h1 a = h a"
    using TBufferQue_new_ok [OF pos, of "base i" dbg raw "of_nat i" h] fit
    by (auto simp: class_addrs_def class_fits_def)
  have "classes_apart base counts lens (set is)"
    using Cons.prems(3) by (simp add: classes_apart_def)
  then obtain qs h2 where 2: "make_queues dbg base raw counts lens is h1 = Ok (qs, h2)"
    "length qs = length is"
    "\<forall>t < length is. que_rep (qs ! t) h2 (?A (is ! t)) \<and>
      (\<forall>a \<in> set (?A (is ! t)). buffer_ok h2 (of_nat (is ! t)) (unat (lens ! (is ! t))) a)"
    "\<forall>a. (\<forall>i \<in> set is. a \<notin> set (?A i)) \<longrightarrow> h2 a = h1 a"
    using Cons.IH [of h1] Cons.prems by auto
  have "\<forall>k \<in> set is. a \<notin> set (?A k)" if "a \<in> set (?A i)" for a
    using that Cons.prems(2,3) by (fastforce simp: classes_apart_def)
  then have same: "\<forall>a \<in> set (?A i). h2 a = h1 a" using 2(4) by blast
  then have "que_rep q h2 (?A i)"
    using 1(2) chain_cong [of "?A i" h2 h1] by (simp add: que_rep_def queue_rep_def)
  moreover have "\<forall>a \<in> set (?A i). buffer_ok h2 (of_nat i) (unat (lens ! i)) a"
    using 1(3) same by (simp add: buffer_ok_def)
  ultimately have "\<forall>t < length (i # is). que_rep ((q # qs) ! t) h2 (?A ((i # is) ! t)) \<and>
      (\<forall>a \<in> set (?A ((i # is) ! t)). buffer_ok h2 (of_nat ((i # is) ! t)) (unat (lens ! ((i # is) ! t))) a)"
    using 2(3) by (simp add: nth_Cons split: nat.split)
  moreover have "make_queues dbg base raw counts lens (i # is) h = Ok (q # qs, h2)"
    using 1 2 fit by (simp add: class_fits_def)
  ultimately show ?case
    using 1(4) 2(2,4) by (intro exI [of _ "q # qs"] exI [of _ h2]) simp
qed simp

definition arrays_sorted :: "uint32 list \<Rightarrow> uint32 list \<Rightarrow> uint32 list \<Rightarrow> uint32 list \<Rightarrow> bool" where
  "arrays_sorted lens counts lens' counts' \<longleftrightarrow> length lens' = length lens \<and>
     length counts' = length lens \<and> sorted lens' \<and> mset (zip lens' counts') = mset (zip lens counts)"

lemma TBuffers_new_ok:
  assumes n: "0 < unat num" "unat num \<le> MAX_BUFF_CLASS_NO"
    and len: "length lens = unat num" "length counts = unat num"
    and fit: "\<And>lens' counts'. arrays_sorted lens counts lens' counts' \<Longrightarrow>
      (\<forall>i < unat num. class_fits base counts' lens' i) \<and> classes_apart base counts' lens' {..< unat num}"
  shows "\<exists>p lens' counts' h'.
    TBuffers_new dbg base raw num (Some counts) (Some lens) h = Ok (p, counts', lens', h') \<and>
    arrays_sorted lens counts lens' counts' \<and>
    pool_rep p h' (map (class_addrs base counts' lens') [0 ..< unat num]) \<and>
    BuffersLength p = lens' @ replicate (MAX_BUFF_CLASS_NO - unat num) 0 \<and>
    (\<forall>a. (\<forall>i < unat num. a \<notin> set (class_addrs base counts' lens' i)) \<longrightarrow> h' a = h a)"
proof -
  let ?n = "unat num"
  have "sorted_upto lens 0 ?n" by (simp add: sorted_upto_def)
  then have "\<exists>lens' counts'. sort_outer [0 ..< ?n - 1] ?n lens counts = Ok (lens', counts') \<and>
    length lens' = ?n \<and> length counts' = ?n \<and> mset (zip lens' counts') = mset (zip lens counts) \<and>
    sorted_upto lens' (?n - 1) ?n"
    by (intro sort_outer_ok) (use len in simp_all)
  then obtain lens' counts' where s: "sort_outer [0 ..< ?n - 1] ?n lens counts = Ok (lens', counts')"
    "length lens' = ?n" "length counts' = ?n" "mset (zip lens' counts') = mset (zip lens counts)"
    "sorted_upto lens' (?n - 1) ?n"
    by blast
  have sorted: "sorted lens'" using sorted_upto_sorted s by metis
  then have as: "arrays_sorted lens counts lens' counts'"
    using s len by (simp add: arrays_sorted_def)
  note fits = fit [OF as]
  let ?A = "class_addrs base counts' lens'"
  obtain qs h' where q: "make_queues dbg base raw counts' lens' [0 ..< ?n] h = Ok (qs, h')"
    "length qs = ?n" "\<forall>t < ?n. que_rep (qs ! t) h' (?A t) \<and>
      (\<forall>a \<in> set (?A t). buffer_ok h' (of_nat t) (unat (lens' ! t)) a)"
    "\<forall>a. (\<forall>i < ?n. a \<notin> set (?A i)) \<longrightarrow> h' a = h a"
    using make_queues_ok [of "[0 ..< ?n]" base counts' lens' dbg raw h] fits
    by (auto simp: atLeast0LessThan)
  let ?p = "\<lparr>Buffers = map Some qs @ replicate (MAX_BUFF_CLASS_NO - ?n) None,
    BuffersLength = take ?n lens' @ replicate (MAX_BUFF_CLASS_NO - ?n) 0, ClassBufferNum = num\<rparr>"
  have "num \<noteq> 0" "num \<noteq> 0xff"
    using n by (auto simp: MAX_BUFF_CLASS_NO_def)
  then have "TBuffers_new dbg base raw num (Some counts) (Some lens) h = Ok (?p, counts', lens', h')"
    using n s q by (simp add: TBuffers_new_def Let_def)
  moreover have "pool_rep ?p h' (map ?A [0 ..< ?n])"
    using n q sorted fits s(2) by (auto simp: pool_rep_def classes_apart_def nth_append)
  ultimately show ?thesis
    using as s(2) q(4) by (intro exI conjI) auto
qed

section \<open>Properties of the memory management\<close>

text \<open>A small pool for the witnesses: one buffer of 4 bytes, two of 8.\<close>

definition ex_block :: "uint8 \<Rightarrow> addr \<Rightarrow> nat \<Rightarrow> block" where
  "ex_block c n len = \<lparr>BUFF_CODE = c, BUFF_PREV = NULL, BUFF_NEXT = n, bytes = replicate len 0\<rparr>"

definition ex_heap :: heap where
  "ex_heap = [109 \<mapsto> ex_block 0 0 4, 209 \<mapsto> ex_block 1 226 8, 226 \<mapsto> ex_block 1 0 8]"

definition ex_que :: "addr \<Rightarrow> addr \<Rightarrow> addr \<Rightarrow> uint32 \<Rightarrow> TBufferQue" where
  "ex_que b p q n = \<lparr>CsBuffer = 0, Head = p, Tail = q, BufferPtr = b, FreeBufferCount = n, BuffersInitiated = n\<rparr>"

definition ex_pool :: "TBufferQue \<Rightarrow> TBuffers" where
  "ex_pool q0 = \<lparr>Buffers = [Some q0, Some (ex_que 200 209 226 2)] @ replicate 30 None,
     BuffersLength = [4, 8] @ replicate 30 0, ClassBufferNum = 2\<rparr>"

lemmas ex_defs = ex_block_def ex_heap_def ex_que_def ex_pool_def

lemma ex_pool_full: "pool_rep (ex_pool (ex_que 100 109 109 1)) ex_heap [[109], [209, 226]]"
  by (simp add: pool_rep_def All_less_Suc que_rep_def queue_rep_def last_or_null_def buffer_ok_def
      ex_defs MAX_BUFF_CLASS_NO_def)

lemma ex_pool_small_used: "pool_rep (ex_pool (ex_que 100 0 0 0)) ex_heap [[], [209, 226]]"
  by (simp add: pool_rep_def All_less_Suc que_rep_def queue_rep_def last_or_null_def buffer_ok_def
      ex_defs MAX_BUFF_CLASS_NO_def)

lemma ex_best: "best_class (ex_pool q) 3 0" "best_class (ex_pool q) 8 1"
  by (simp_all add: best_class_def ex_pool_def)

text \<open>The free list of one buffer size is a queue. Returning the buffers \<open>as\<close> to an empty list
  and taking as many out again hands them out in the order of their return, leaves the list
  empty, and touches nothing but their links. It holds with and without asserts.\<close>

theorem free_list_is_fifo:
  assumes "que_rep q h []" "distinct as" "\<And>a. a \<in> set as \<Longrightarrow> allocated h a"
  shows "\<exists>q1 h1 q2 h2. put_all (Que_Add dbg) q h as = Ok (q1, h1) \<and>
    take_n (Que_Get dbg) (length as) q1 h1 = Ok (as, q2, h2) \<and> que_rep q2 h2 [] \<and>
    relinked (set as) h h2"
  using assms by (rule que.first_in_first_out)

theorem free_list_is_fifo_witness:
  "\<exists>q1 h1 q2 h2. put_all (Que_Add True) (ex_que 100 0 0 0) ex_heap [226, 109] = Ok (q1, h1) \<and>
    take_n (Que_Get True) (length [226 :: addr, 109]) q1 h1 = Ok ([226, 109], q2, h2) \<and> que_rep q2 h2 [] \<and>
    relinked (set [226, 109]) ex_heap h2"
  by (rule free_list_is_fifo) (auto simp: que_rep_def allocated_def ex_defs)

text \<open>C19: the constructor of the pool. Given as many counts as lengths, memory from \<^verbatim>\<open>new\<close> for
  every class, and sizes that do not wrap, it returns; the two arrays end up sorted by length
  with every length still beside its count; and the pool holds, class by class, all the
  buffers cut from the class's memory, each with the class's code and length, and nothing
  else in memory is changed.\<close>

theorem pool_constructor_correct:
  assumes "0 < unat num" "unat num \<le> MAX_BUFF_CLASS_NO"
    and "length lens = unat num" "length counts = unat num"
    and "\<And>lens' counts'. arrays_sorted lens counts lens' counts' \<Longrightarrow>
      (\<forall>i < unat num. class_fits base counts' lens' i) \<and> classes_apart base counts' lens' {..< unat num}"
  shows "\<exists>p lens' counts' h'.
    TBuffers_new dbg base raw num (Some counts) (Some lens) h = Ok (p, counts', lens', h') \<and>
    arrays_sorted lens counts lens' counts' \<and>
    pool_rep p h' (map (class_addrs base counts' lens') [0 ..< unat num]) \<and>
    BuffersLength p = lens' @ replicate (MAX_BUFF_CLASS_NO - unat num) 0 \<and>
    (\<forall>a. (\<forall>i < unat num. a \<notin> set (class_addrs base counts' lens' i)) \<longrightarrow> h' a = h a)"
  using assms by (rule TBuffers_new_ok)

theorem pool_constructor_correct_witness:
  "\<exists>p lens' counts' h'.
    TBuffers_new True (\<lambda>_. 4096) (\<lambda>_. 0) 1 (Some [50]) (Some [256]) Map.empty = Ok (p, counts', lens', h') \<and>
    arrays_sorted [256] [50] lens' counts' \<and>
    pool_rep p h' (map (class_addrs (\<lambda>_. 4096) counts' lens') [0 ..< unat (1 :: uint8)]) \<and>
    BuffersLength p = lens' @ replicate (MAX_BUFF_CLASS_NO - unat (1 :: uint8)) 0 \<and>
    (\<forall>a. (\<forall>i < unat (1 :: uint8). a \<notin> set (class_addrs (\<lambda>_. 4096) counts' lens' i)) \<longrightarrow> h' a = None)"
proof (rule pool_constructor_correct)
  fix lens' counts' :: "uint32 list"
  assume "arrays_sorted [256] [50] lens' counts'"
  then have "lens' = [256] \<and> counts' = [50]"
    by (cases lens'; cases counts') (auto simp: arrays_sorted_def)
  then show "(\<forall>i < unat (1 :: uint8). class_fits (\<lambda>_. 4096) counts' lens' i) \<and>
      classes_apart (\<lambda>_. 4096) counts' lens' {..< unat (1 :: uint8)}"
    by (simp add: class_fits_def classes_apart_def BUFF_HEADER_LENGTH_def)
qed (simp_all add: MAX_BUFF_CLASS_NO_def)

text \<open>C17: best fit. When the smallest class whose buffers are long enough has a free buffer, a
  request is served with the buffer longest in that class's list, which has that class's
  length, and only that list changes.\<close>

theorem GetBuffer_serves_best_class:
  assumes "pool_rep p h xss" "best_class p len k" "xss ! k = x # xs"
  shows "\<exists>p'. GetBuffer dbg p h len = Ok (x, p', h) \<and> pool_rep p' h (xss[k := xs]) \<and>
    buffer_ok h (of_nat k) (unat (BuffersLength p ! k)) x \<and> len \<le> BuffersLength p ! k"
  using get_from_hit [OF assms(1) best_class_bound [OF assms(1,2)] assms(3), of dbg]
    pool_rep_buffer [OF assms(1) best_class_bound [OF assms(1,2)], of x] assms(2,3)
  by (auto simp: GetBuffer_best [OF assms(1,2)] best_class_def)

theorem GetBuffer_serves_best_class_witness:
  "\<exists>p'. GetBuffer True (ex_pool (ex_que 100 109 109 1)) ex_heap 8 = Ok (209, p', ex_heap) \<and>
    pool_rep p' ex_heap ([[109], [209, 226]][1 := [226]]) \<and>
    buffer_ok ex_heap (of_nat 1) (unat (BuffersLength (ex_pool (ex_que 100 109 109 1)) ! 1)) 209 \<and>
    8 \<le> BuffersLength (ex_pool (ex_que 100 109 109 1)) ! 1"
  by (rule GetBuffer_serves_best_class [OF ex_pool_full ex_best(2)]) simp

text \<open>The fall-through to larger classes, without asserts. When the best class and all classes
  up to \<open>j\<close> are empty, the request is served from class \<open>j\<close>; but every empty class passed over
  keeps its critical section entered once more than before, because \<^verbatim>\<open>GetFromHead\<close> returns
  without \<^verbatim>\<open>UnlockBuff\<close>.\<close>

theorem GetBuffer_falls_through_and_keeps_locks:
  assumes "pool_rep p h xss" "best_class p len k" "k \<le> j" "j < length xss"
    and "\<forall>m. k \<le> m \<and> m < j \<longrightarrow> xss ! m = []" "xss ! j = x # xs"
  shows "\<exists>p'. GetBuffer False p h len = Ok (x, p', h) \<and> pool_rep p' h (xss[j := xs]) \<and>
    (\<forall>m. CsBuffer (que_at p' m) = CsBuffer (que_at p m) + (if k \<le> m \<and> m < j then 1 else 0))"
  unfolding GetBuffer_best [OF assms(1,2)] by (rule get_from_skip [OF assms(1,3,4,5,6)])

theorem GetBuffer_falls_through_and_keeps_locks_witness:
  "\<exists>p'. GetBuffer False (ex_pool (ex_que 100 0 0 0)) ex_heap 3 = Ok (209, p', ex_heap) \<and>
    pool_rep p' ex_heap ([[], [209, 226]][1 := [226]]) \<and>
    (\<forall>m. CsBuffer (que_at p' m) = CsBuffer (que_at (ex_pool (ex_que 100 0 0 0)) m) +
       (if 0 \<le> m \<and> m < 1 then 1 else 0))"
  by (rule GetBuffer_falls_through_and_keeps_locks [OF ex_pool_small_used ex_best(1)]) auto

text \<open>Running out of buffers. In the debug build the assert in \<^verbatim>\<open>TBufferQue::Get\<close> ends the
  program as soon as the best class is empty, whatever larger buffers are free; in the release
  build \<^verbatim>\<open>GetBuffer\<close> throws \<open>0x21000604\<close> exactly when the larger classes are empty too.\<close>

theorem GetBuffer_out_of_buffers:
  assumes "pool_rep p h xss" "best_class p len k" "xss ! k = []"
  shows "GetBuffer True p h len = Fault AssertFailed \<and>
    (GetBuffer False p h len = Fault (Thrown 0x21000604) \<longleftrightarrow> (\<forall>m. k \<le> m \<and> m < length xss \<longrightarrow> xss ! m = []))"
proof (intro conjI iffI)
  note k = best_class_bound [OF assms(1,2)] and best = GetBuffer_best [OF assms(1,2)]
  show "GetBuffer True p h len = Fault AssertFailed"
    unfolding best by (rule get_from_debug_empty [OF assms(1) k assms(3)])
  show "GetBuffer False p h len = Fault (Thrown 0x21000604)"
    if "\<forall>m. k \<le> m \<and> m < length xss \<longrightarrow> xss ! m = []"
    unfolding best by (rule get_from_exhausted [OF assms(1) k that])
  assume thrown: "GetBuffer False p h len = Fault (Thrown 0x21000604)"
  show "\<forall>m. k \<le> m \<and> m < length xss \<longrightarrow> xss ! m = []"
  proof (rule ccontr)
    assume "\<not> ?thesis"
    then have ex: "\<exists>m. k \<le> m \<and> m < length xss \<and> xss ! m \<noteq> []" by blast
    let ?P = "\<lambda>m. k \<le> m \<and> m < length xss \<and> xss ! m \<noteq> []"
    obtain j where j: "?P j" "\<forall>m < j. \<not> ?P m"
      using ex exists_least_iff [of ?P] by blast
    obtain x xs where x: "xss ! j = x # xs" using j(1) by (cases "xss ! j") auto
    have e: "\<forall>m. k \<le> m \<and> m < j \<longrightarrow> xss ! m = []" using j by auto
    have "k \<le> j" "j < length xss" using j(1) by auto
    then show False
      using get_from_skip [OF assms(1) _ _ e x] thrown by (auto simp: best)
  qed
qed

theorem GetBuffer_out_of_buffers_witness:
  "GetBuffer True (ex_pool (ex_que 100 0 0 0)) ex_heap 3 = Fault AssertFailed \<and>
    (GetBuffer False (ex_pool (ex_que 100 0 0 0)) ex_heap 3 = Fault (Thrown 0x21000604) \<longleftrightarrow>
      (\<forall>m. 0 \<le> m \<and> m < length [[], [209, 226 :: addr]] \<longrightarrow> [[], [209, 226 :: addr]] ! m = []))"
  by (rule GetBuffer_out_of_buffers [OF ex_pool_small_used ex_best(1)]) simp

text \<open>C18: getting and returning are inverse. A buffer taken for a request and returned goes back
  to the class it came from, at the end of that class's list; no other class and no contents
  change.\<close>

theorem Get_then_Ret_buffer:
  assumes rep: "pool_rep p h xss" and k: "best_class p len k" and x: "xss ! k = x # xs"
  shows "\<exists>p1 p2 h2. GetBuffer dbg p h len = Ok (x, p1, h) \<and> RetBuffer dbg p1 h x = Ok (p2, h2) \<and>
    pool_rep p2 h2 (xss[k := xs @ [x]]) \<and> relinked (set (x # xs)) h h2"
proof -
  note kn = best_class_bound [OF rep k]
  obtain p1 where p1: "GetBuffer dbg p h len = Ok (x, p1, h)" "pool_rep p1 h (xss[k := xs])"
    "BuffersLength p1 = BuffersLength p"
    using get_from_hit [OF rep kn x, of dbg] by (auto simp: GetBuffer_best [OF rep k])
  have b: "buffer_ok h (of_nat k) (unat (BuffersLength p1 ! k)) x"
    using pool_rep_buffer [OF rep kn, of x] x p1(3) by simp
  obtain q where q: "que_rep q h (x # xs)" using pool_rep_que [OF rep kn] x by metis
  have "x \<noteq> NULL" using q queue_rep_mem by (auto simp: que_rep_def)
  moreover have "\<forall>j < length (xss[k := xs]). x \<notin> set (xss[k := xs] ! j)"
  proof (intro allI impI)
    fix j assume "j < length (xss[k := xs])"
    then show "x \<notin> set (xss[k := xs] ! j)"
      using q que.rep_distinct [OF q] pool_rep_disjoint [OF rep kn, of j] x kn
      by (cases "j = k") auto
  qed
  ultimately show ?thesis
    using RetBuffer_ok [OF p1(2) _ _ b, of dbg] p1(1) kn by auto
qed

theorem Get_then_Ret_buffer_witness:
  "\<exists>p1 p2 h2. GetBuffer True (ex_pool (ex_que 100 109 109 1)) ex_heap 8 = Ok (209, p1, ex_heap) \<and>
    RetBuffer True p1 ex_heap 209 = Ok (p2, h2) \<and>
    pool_rep p2 h2 ([[109], [209, 226]][1 := [226] @ [209]]) \<and> relinked (set [209, 226]) ex_heap h2"
  by (rule Get_then_Ret_buffer [OF ex_pool_full ex_best(2)]) simp

end
