(* ===== verification/Mail_Box.thy ===== *)
theory Mail_Box
  imports Buffer_Pool
begin

text \<open>
  \<^verbatim>\<open>Kernel/mailbox.cpp\<close>: class \<^verbatim>\<open>TMailBox\<close>, the queue of messages for one thread. The
  messages are buffers of the pool; a message whose code was set to \<^verbatim>\<open>DISCARDED\<close> is not
  delivered but returned to the pool when it comes to the head.
\<close>

record TMailBox =
  CsMailBox :: nat
  Mbx_Head :: addr
  Mbx_Tail :: addr
  Count :: uint32

definition TMailBox_new :: "TMailBox" where
  "TMailBox_new = \<lparr>CsMailBox = 0, Mbx_Head = NULL, Mbx_Tail = NULL, Count = 0\<rparr>"

definition MbxLock :: "TMailBox \<Rightarrow> TMailBox" where
  "MbxLock m = m\<lparr>CsMailBox := CsMailBox m + 1\<rparr>"

definition MbxUnlock :: "TMailBox \<Rightarrow> TMailBox" where
  "MbxUnlock m = m\<lparr>CsMailBox := CsMailBox m - 1\<rparr>"

definition Mbx_GetFromHead :: "TMailBox \<Rightarrow> heap \<Rightarrow> (addr \<times> TMailBox \<times> heap) res" where
  "Mbx_GetFromHead m h =
     (let m = MbxLock m in
      if Mbx_Head m = NULL then Ok (NULL, MbxUnlock m, h)
      else let info = Mbx_Head m in
        andThen (get_next h (Mbx_Head m)) (\<lambda>nxt.
        let m = m\<lparr>Mbx_Head := nxt\<rparr>;
            m = (if Mbx_Head m = NULL then m\<lparr>Mbx_Tail := NULL\<rparr> else m);
            m = m\<lparr>Count := Count m - 1\<rparr>
        in Ok (info, MbxUnlock m, h)))"

definition Mbx_PutOnTail :: "TMailBox \<Rightarrow> heap \<Rightarrow> addr \<Rightarrow> (TMailBox \<times> heap) res" where
  "Mbx_PutOnTail m h info =
     (let m = MbxLock m in
      andThen (set_next h info NULL) (\<lambda>h.
      andThen (if Mbx_Tail m = NULL then Ok (m\<lparr>Mbx_Head := info\<rparr>, h)
               else andThen (set_next h (Mbx_Tail m) info) (\<lambda>h. Ok (m, h))) (\<lambda>(m, h).
      let m = m\<lparr>Mbx_Tail := info\<rparr>;
          m = m\<lparr>Count := Count m + 1\<rparr>
      in Ok (MbxUnlock m, h))))"

definition Mbx_Add :: "TMailBox \<Rightarrow> heap \<Rightarrow> addr \<Rightarrow> (TMailBox \<times> heap) res" where
  "Mbx_Add m h info =
     andThen (throwIf (info = NULL) 0x01010202) (\<lambda>_. Mbx_PutOnTail m h info)"

text \<open>\<^verbatim>\<open>GetUint16(info + MSG_CODE)\<close>\<close>

definition read_code :: "heap \<Rightarrow> addr \<Rightarrow> uint16 res" where
  "read_code h info = andThen (get_bytes h info) (\<lambda>bs. GetUint16 bs (off MSG_CODE))"

text \<open>The loop of \<^verbatim>\<open>Get\<close>; \<open>info\<close> was just unlinked. The mailbox's \<^verbatim>\<open>Buff\<close> is the pool \<open>p\<close>.\<close>

partial_function (option) discard_loop :: "bool \<Rightarrow> addr \<Rightarrow> TMailBox \<Rightarrow> TBuffers \<Rightarrow> heap
    \<Rightarrow> (fault + (addr \<times> TMailBox \<times> TBuffers \<times> heap)) option" where
  [code]: "discard_loop dbg info m p h =
     andThen (read_code h info) (\<lambda>code.
     if code = DISCARDED
     then andThen (RetBuffer dbg p h info) (\<lambda>r.
          andThen (Mbx_GetFromHead m (snd r)) (\<lambda>s.
          if fst s = NULL then Ok (NULL, fst (snd s), fst r, snd (snd s))
          else discard_loop dbg (fst s) (fst (snd s)) (fst r) (snd (snd s))))
     else Ok (info, m, p, h))"

definition Mbx_Get :: "bool \<Rightarrow> TMailBox \<Rightarrow> TBuffers \<Rightarrow> heap \<Rightarrow> (addr \<times> TMailBox \<times> TBuffers \<times> heap) res" where
  "Mbx_Get dbg m p h =
     andThen (Mbx_GetFromHead m h) (\<lambda>(info, m, h).
     if info = NULL then Ok (NULL, m, p, h) else discard_loop dbg info m p h)"

definition QueryHead :: "TMailBox \<Rightarrow> addr" where
  "QueryHead m = Mbx_Head m"

definition Mbx_GetCount :: "TMailBox \<Rightarrow> uint32" where
  "Mbx_GetCount m = Count m"

partial_function (option) Mbx_Purge :: "bool \<Rightarrow> TMailBox \<Rightarrow> TBuffers \<Rightarrow> heap
    \<Rightarrow> (fault + (TMailBox \<times> TBuffers \<times> heap)) option" where
  [code]: "Mbx_Purge dbg m p h =
     (if Mbx_Head m = NULL then Ok (m, p, h)
      else andThen (Mbx_Get dbg m p h) (\<lambda>r.
        if fst r \<noteq> NULL
        then andThen (RetBuffer dbg (fst (snd (snd r))) (snd (snd (snd r))) (fst r)) (\<lambda>s.
             Mbx_Purge dbg (fst (snd r)) (fst s) (snd s))
        else Mbx_Purge dbg (fst (snd r)) (fst (snd (snd r))) (snd (snd (snd r)))))"

section \<open>The mailbox is a queue\<close>

definition mbx_rep :: "TMailBox \<Rightarrow> heap \<Rightarrow> addr list \<Rightarrow> bool" where
  "mbx_rep m h xs \<longleftrightarrow> queue_rep h (Mbx_Head m) (Mbx_Tail m) xs \<and> Count m = of_nat (length xs)"

lemma mbx_lock_selectors [simp]:
  "Mbx_Head (MbxLock m) = Mbx_Head m" "Mbx_Tail (MbxLock m) = Mbx_Tail m" "Count (MbxLock m) = Count m"
  "Mbx_Head (MbxUnlock m) = Mbx_Head m" "Mbx_Tail (MbxUnlock m) = Mbx_Tail m"
  "Count (MbxUnlock m) = Count m" "MbxUnlock (MbxLock m) = m"
  by (simp_all add: MbxLock_def MbxUnlock_def)

lemma Mbx_GetFromHead_unlink:
  "Mbx_Head m \<noteq> NULL \<Longrightarrow> Mbx_GetFromHead m h =
     andThen (unlink_head h (Mbx_Head m) (Mbx_Tail m)) (\<lambda>(info, p', q').
       Ok (info, m\<lparr>Mbx_Head := p', Mbx_Tail := q', Count := Count m - 1\<rparr>, h))"
  by (auto simp: Mbx_GetFromHead_def unlink_head_def andThen_assoc Let_def MbxLock_def MbxUnlock_def
      intro!: arg_cong [where f = "andThen (get_next h (Mbx_Head m))"])

lemma Mbx_PutOnTail_link:
  "Mbx_PutOnTail m h info =
     andThen (link_tail h (Mbx_Head m) (Mbx_Tail m) info) (\<lambda>(p', q', h).
       Ok (m\<lparr>Mbx_Head := p', Mbx_Tail := q', Count := Count m + 1\<rparr>, h))"
  by (auto simp: Mbx_PutOnTail_def link_tail_def andThen_assoc Let_def MbxLock_def MbxUnlock_def
      intro!: arg_cong [where f = "andThen (set_next h info NULL)"])

lemma mbx_rep_Nil: "mbx_rep m h [] \<Longrightarrow> Mbx_Head m = NULL"
  by (simp add: mbx_rep_def)

lemma mbx_rep_Cons: "mbx_rep m h (x # xs) \<Longrightarrow> Mbx_Head m = x \<and> x \<noteq> NULL"
  by (auto simp: mbx_rep_def queue_rep_def)

lemma Mbx_GetFromHead_empty: "mbx_rep m h [] \<Longrightarrow> Mbx_GetFromHead m h = Ok (NULL, m, h)"
  by (simp add: Mbx_GetFromHead_def mbx_rep_def)

lemma Mbx_GetFromHead_rep:
  assumes "mbx_rep m h (x # xs)"
  shows "\<exists>m'. Mbx_GetFromHead m h = Ok (x, m', h) \<and> mbx_rep m' h xs \<and> CsMailBox m' = CsMailBox m"
proof -
  have rep: "queue_rep h (Mbx_Head m) (Mbx_Tail m) (x # xs)"
    using assms by (simp add: mbx_rep_def)
  obtain p' q' where "unlink_head h (Mbx_Head m) (Mbx_Tail m) = Ok (x, p', q')" "queue_rep h p' q' xs"
    using unlink_head_ok [OF rep] by blast
  then show ?thesis
    using assms mbx_rep_Cons [OF assms] by (simp add: Mbx_GetFromHead_unlink mbx_rep_def)
qed

lemma Mbx_Add_rep:
  assumes "mbx_rep m h xs" "allocated h a" "a \<notin> set xs"
  shows "\<exists>m' h'. Mbx_Add m h a = Ok (m', h') \<and> mbx_rep m' h' (xs @ [a]) \<and>
    relinked (insert a (set xs)) h h' \<and> CsMailBox m' = CsMailBox m"
proof -
  have rep: "queue_rep h (Mbx_Head m) (Mbx_Tail m) xs"
    using assms by (simp add: mbx_rep_def)
  have "a \<noteq> NULL" using assms by (simp add: allocated_def)
  then show ?thesis
    using link_tail_ok [OF rep assms(2,3)] assms(1)
    by (auto simp: Mbx_Add_def Mbx_PutOnTail_link mbx_rep_def)
qed

interpretation mbx: fifo allocated relinked "\<lambda>h. h" Mbx_Add Mbx_GetFromHead mbx_rep
proof (unfold_locales, goal_cases)
  case 1
  then show ?case using Mbx_Add_rep by metis
next
  case 2
  then show ?case using Mbx_GetFromHead_rep relinked_refl by metis
next
  case (3 q h xs h')
  then have "queue_rep h' x y xs = queue_rep h x y xs" for x y
    by (intro queue_rep_local) blast
  then show ?case using 3(1) by (simp add: mbx_rep_def)
next
  case 4
  then show ?case by (simp add: mbx_rep_def queue_rep_def)
qed

section \<open>Buffers in use\<close>

text \<open>
  \<open>in_use p h a\<close>: \<open>a\<close> is a buffer of the pool \<open>p\<close> (free or not): its code names a class
  and it has that class's length. Returned, it goes to the end of its class's list.
\<close>

definition class_of :: "heap \<Rightarrow> addr \<Rightarrow> nat" where
  "class_of h a = (case h a of None \<Rightarrow> 0 | Some b \<Rightarrow> unat (BUFF_CODE b))"

definition in_use :: "TBuffers \<Rightarrow> heap \<Rightarrow> addr \<Rightarrow> bool" where
  "in_use p h a \<longleftrightarrow> a \<noteq> NULL \<and> (case h a of None \<Rightarrow> False | Some b \<Rightarrow>
     unat (BUFF_CODE b) < unat (ClassBufferNum p) \<and>
     length (bytes b) = unat (BuffersLength p ! unat (BUFF_CODE b)))"

definition give_back :: "heap \<Rightarrow> addr \<Rightarrow> addr list list \<Rightarrow> addr list list" where
  "give_back h a xss = xss[class_of h a := xss ! class_of h a @ [a]]"

definition same_classes :: "TBuffers \<Rightarrow> TBuffers \<Rightarrow> bool" where
  "same_classes p p' \<longleftrightarrow> BuffersLength p' = BuffersLength p \<and> ClassBufferNum p' = ClassBufferNum p"

lemma in_useE:
  assumes "in_use p h a"
  obtains b where "a \<noteq> NULL" "h a = Some b" "class_of h a = unat (BUFF_CODE b)"
    "class_of h a < unat (ClassBufferNum p)" "length (bytes b) = unat (BuffersLength p ! class_of h a)"
  using assms by (auto simp: in_use_def class_of_def split: option.splits)

lemma in_use_allocated: "in_use p h a \<Longrightarrow> allocated h a"
  by (auto simp: in_use_def allocated_def split: option.splits)

lemma same_content_in_use:
  "same_content (h a) (h' a) \<Longrightarrow> same_classes p p' \<Longrightarrow> in_use p' h' a = in_use p h a"
  by (cases "h a"; cases "h' a") (auto simp: in_use_def same_classes_def)

lemma in_use_relinked:
  "relinked S h h' \<Longrightarrow> same_classes p p' \<Longrightarrow> in_use p' h' a = in_use p h a"
  by (rule same_content_in_use) (auto simp: relinked_def)

lemma class_of_relinked: "relinked S h h' \<Longrightarrow> class_of h' a = class_of h a"
proof -
  assume "relinked S h h'"
  then have "same_content (h a) (h' a)" by (simp add: relinked_def)
  then show ?thesis by (cases "h a"; cases "h' a") (auto simp: class_of_def)
qed

lemma give_back_relinked: "relinked S h h' \<Longrightarrow> give_back h' a xss = give_back h a xss"
  by (simp add: give_back_def class_of_relinked)

lemma fold_give_back_relinked:
  "relinked S h h' \<Longrightarrow> fold (give_back h') ds xss = fold (give_back h) ds xss"
  using give_back_relinked [of S h h'] by (intro fold_cong) (auto simp: fun_eq_iff)

lemma same_classes_refl [simp]: "same_classes p p"
  by (simp add: same_classes_def)

lemma same_classes_trans: "same_classes p q \<Longrightarrow> same_classes q r \<Longrightarrow> same_classes p r"
  by (simp add: same_classes_def)

lemma length_give_back [simp]: "length (give_back h a xss) = length xss"
  by (simp add: give_back_def)

lemma length_fold_give_back [simp]: "length (fold (give_back h) as xss) = length xss"
  by (induction as arbitrary: xss) auto

lemma set_concat_update:
  "i < length xss \<Longrightarrow> set (xss ! i) \<subseteq> set ys \<Longrightarrow>
   set (concat (xss[i := ys])) = set (concat xss) \<union> set ys"
proof -
  assume i: "i < length xss" and sub: "set (xss ! i) \<subseteq> set ys"
  have "set (concat xss) = set (concat (take i xss @ xss ! i # drop (Suc i) xss))"
    using id_take_nth_drop [OF i] by simp
  then show ?thesis
    using sub upd_conv_take_nth_drop [OF i, of ys] by auto
qed

lemma set_give_back:
  "class_of h a < length xss \<Longrightarrow> set (concat (give_back h a xss)) = insert a (set (concat xss))"
proof -
  assume a: "class_of h a < length xss"
  then have "set (xss ! class_of h a) \<subseteq> set (concat xss)"
    using nth_mem by fastforce
  then show ?thesis
    using set_concat_update [OF a, of "xss ! class_of h a @ [a]"] by (auto simp: give_back_def)
qed

lemma RetBuffer_in_use:
  assumes rep: "pool_rep p h xss" and a: "in_use p h a" "a \<notin> set (concat xss)"
  shows "\<exists>p' h'. RetBuffer dbg p h a = Ok (p', h') \<and> pool_rep p' h' (give_back h a xss) \<and>
    relinked (insert a (set (concat xss))) h h' \<and> same_classes p p'"
proof -
  obtain b where b: "a \<noteq> NULL" "h a = Some b" "class_of h a = unat (BUFF_CODE b)"
    "class_of h a < unat (ClassBufferNum p)" "length (bytes b) = unat (BuffersLength p ! class_of h a)"
    using in_useE [OF a(1)] .
  have k: "class_of h a < length xss" using rep b(4) by (simp add: pool_rep_def)
  have ok: "buffer_ok h (of_nat (class_of h a)) (unat (BuffersLength p ! class_of h a)) a"
    using b by (simp add: buffer_ok_def)
  have "\<forall>j < length xss. a \<notin> set (xss ! j)" using a(2) by auto
  then obtain p' h' where r: "RetBuffer dbg p h a = Ok (p', h')"
    "pool_rep p' h' (xss[class_of h a := xss ! class_of h a @ [a]])"
    "relinked (insert a (set (xss ! class_of h a))) h h'"
    "BuffersLength p' = BuffersLength p" "ClassBufferNum p' = ClassBufferNum p"
    using RetBuffer_ok [OF rep k b(1) ok] by blast
  have "relinked (insert a (set (concat xss))) h h'"
    using r(3) by (rule relinked_mono) (use k in auto)
  then show ?thesis
    using r by (auto simp: give_back_def same_classes_def)
qed

declare set_concat [simp del]

section \<open>Delivery\<close>

text \<open>
  \<open>mail_inv m p h xs xss\<close>: the mailbox holds the messages \<open>xs\<close>, the pool the free buffers
  \<open>xss\<close>; the messages are buffers of the pool with room for a header, and none of them is free.
\<close>

definition has_header :: "TBuffers \<Rightarrow> heap \<Rightarrow> addr \<Rightarrow> bool" where
  "has_header p h a \<longleftrightarrow> in_use p h a \<and> MSG_HEADER_LENGTH \<le> length (bytes (the (h a)))"

definition discarded :: "heap \<Rightarrow> addr \<Rightarrow> bool" where
  "discarded h a \<longleftrightarrow> le16 (bytes (the (h a))) (off MSG_CODE) = DISCARDED"

definition mail_inv :: "TMailBox \<Rightarrow> TBuffers \<Rightarrow> heap \<Rightarrow> addr list \<Rightarrow> addr list list \<Rightarrow> bool" where
  "mail_inv m p h xs xss \<longleftrightarrow> mbx_rep m h xs \<and> pool_rep p h xss \<and>
     set xs \<inter> set (concat xss) = {} \<and> (\<forall>a \<in> set xs. has_header p h a)"

definition head_or_null :: "addr list \<Rightarrow> addr" where
  "head_or_null xs = (case xs of [] \<Rightarrow> NULL | x # _ \<Rightarrow> x)"

lemma head_or_null_simps [simp]: "head_or_null [] = NULL" "head_or_null (x # xs) = x"
  by (simp_all add: head_or_null_def)

lemma has_header_relinked:
  assumes "relinked S h h'" "same_classes p p'"
  shows "has_header p' h' a = has_header p h a"
proof -
  have "same_content (h a) (h' a)" using assms by (simp add: relinked_def)
  then have "in_use p h a \<Longrightarrow> bytes (the (h' a)) = bytes (the (h a))"
    by (cases "h a"; cases "h' a") (auto simp: in_use_def)
  then show ?thesis using in_use_relinked [OF assms] by (auto simp: has_header_def)
qed

lemma discarded_relinked: "relinked S h h' \<Longrightarrow> discarded h' a = discarded h a"
proof -
  assume "relinked S h h'"
  then have "same_content (h a) (h' a)" by (simp add: relinked_def)
  then show ?thesis by (cases "h a"; cases "h' a") (auto simp: discarded_def)
qed

lemma read_code_header: "has_header p h a \<Longrightarrow> read_code h a = Ok (le16 (bytes (the (h a))) (off MSG_CODE))"
  by (auto simp: has_header_def read_code_def get_bytes_def MSG_HEADER_LENGTH_def elim!: in_useE)

lemma has_header_nonnull: "has_header p h a \<Longrightarrow> a \<noteq> NULL"
  by (auto simp: has_header_def in_use_def)

lemma has_header_in_use: "has_header p h a \<Longrightarrow> in_use p h a"
  by (simp add: has_header_def)

lemma mail_inv_return:
  assumes inv: "mail_inv m p h xs xss" and a: "in_use p h a" "a \<notin> set xs" "a \<notin> set (concat xss)"
  shows "\<exists>p' h'. RetBuffer dbg p h a = Ok (p', h') \<and> mail_inv m p' h' xs (give_back h a xss) \<and>
    relinked (insert a (set (concat xss))) h h' \<and> same_classes p p'"
proof -
  have rep: "pool_rep p h xss" using inv by (simp add: mail_inv_def)
  obtain p' h' where r: "RetBuffer dbg p h a = Ok (p', h')" "pool_rep p' h' (give_back h a xss)"
    "relinked (insert a (set (concat xss))) h h'" "same_classes p p'"
    using RetBuffer_in_use [OF rep a(1,3)] by blast
  have k: "class_of h a < length xss"
    using rep a(1) by (auto simp: pool_rep_def elim: in_useE)
  have "mbx_rep m h' xs"
    by (rule mbx.rep_frame [OF _ r(3)]) (use inv a in \<open>auto simp: mail_inv_def\<close>)
  moreover have "set xs \<inter> set (concat (give_back h a xss)) = {}"
    using inv a(2) by (simp add: mail_inv_def set_give_back [OF k])
  moreover have "\<forall>b \<in> set xs. has_header p' h' b"
    using inv has_header_relinked [OF r(3,4)] by (simp add: mail_inv_def)
  ultimately show ?thesis using r by (auto simp: mail_inv_def)
qed

lemma mail_inv_take:
  assumes inv: "mail_inv m p h (x # xs) xss"
  shows "\<exists>m'. Mbx_GetFromHead m h = Ok (x, m', h) \<and> mail_inv m' p h xs xss \<and> x \<noteq> NULL \<and>
    has_header p h x \<and> x \<notin> set xs \<and> x \<notin> set (concat xss)"
proof -
  have rep: "mbx_rep m h (x # xs)" using inv by (simp add: mail_inv_def)
  obtain m' where "Mbx_GetFromHead m h = Ok (x, m', h)" "mbx_rep m' h xs"
    using Mbx_GetFromHead_rep [OF rep] by blast
  then show ?thesis
    using inv mbx_rep_Cons [OF rep] mbx.rep_distinct [OF rep] by (auto simp: mail_inv_def)
qed

lemma mail_inv_empty: "mail_inv m p h [] xss \<Longrightarrow> Mbx_GetFromHead m h = Ok (NULL, m, h)"
  by (simp add: mail_inv_def Mbx_GetFromHead_empty)

lemma discard_loop_ok:
  assumes "mail_inv m p h xs xss" "has_header p h a" "a \<notin> set xs" "a \<notin> set (concat xss)"
  shows "\<exists>m' p' h'. discard_loop dbg a m p h =
      Ok (head_or_null (dropWhile (discarded h) (a # xs)), m', p', h') \<and>
    mail_inv m' p' h' (tl (dropWhile (discarded h) (a # xs)))
      (fold (give_back h) (takeWhile (discarded h) (a # xs)) xss) \<and>
    relinked (set (a # xs) \<union> set (concat xss)) h h' \<and> same_classes p p'"
  using assms
proof (induction xs arbitrary: a m p h xss)
  case Nil
  show ?case
  proof (cases "discarded h a")
    case False
    then show ?thesis
      using Nil read_code_header [OF Nil(2)]
      by (subst discard_loop.simps) (auto simp: discarded_def)
  next
    case True
    obtain p' h' where r: "RetBuffer dbg p h a = Ok (p', h')" "mail_inv m p' h' [] (give_back h a xss)"
      "relinked (insert a (set (concat xss))) h h'" "same_classes p p'"
      using mail_inv_return [OF Nil(1) has_header_in_use [OF Nil(2)] Nil(3,4), of dbg] by blast
    then show ?thesis
      using True read_code_header [OF Nil(2)] mail_inv_empty [OF r(2)]
      by (subst discard_loop.simps) (auto simp: discarded_def)
  qed
next
  case (Cons x xs)
  show ?case
  proof (cases "discarded h a")
    case False
    then show ?thesis
      using Cons.prems read_code_header [OF Cons.prems(2)]
      by (subst discard_loop.simps) (auto simp: discarded_def)
  next
    case True
    obtain p1 h1 where r: "RetBuffer dbg p h a = Ok (p1, h1)" "mail_inv m p1 h1 (x # xs) (give_back h a xss)"
      "relinked (insert a (set (concat xss))) h h1" "same_classes p p1"
      using mail_inv_return [OF Cons.prems(1) has_header_in_use [OF Cons.prems(2)] Cons.prems(3,4), of dbg]
      by blast
    obtain m1 where t: "Mbx_GetFromHead m h1 = Ok (x, m1, h1)" "mail_inv m1 p1 h1 xs (give_back h a xss)"
      "x \<noteq> NULL" "has_header p1 h1 x" "x \<notin> set xs" "x \<notin> set (concat (give_back h a xss))"
      using mail_inv_take [OF r(2)] by blast
    obtain m2 p2 h2 where d: "discard_loop dbg x m1 p1 h1 =
        Ok (head_or_null (dropWhile (discarded h1) (x # xs)), m2, p2, h2)"
      "mail_inv m2 p2 h2 (tl (dropWhile (discarded h1) (x # xs)))
        (fold (give_back h1) (takeWhile (discarded h1) (x # xs)) (give_back h a xss))"
      "relinked (set (x # xs) \<union> set (concat (give_back h a xss))) h1 h2" "same_classes p1 p2"
      using Cons.IH [OF t(2,4,5,6)] by blast
    have disc: "discarded h1 = discarded h" using discarded_relinked [OF r(3)] by auto
    have k: "class_of h a < length xss"
      using Cons.prems(1,2) by (auto simp: mail_inv_def pool_rep_def has_header_def elim: in_useE)
    have step: "discard_loop dbg a m p h = discard_loop dbg x m1 p1 h1"
      using True r(1) t(1,3) read_code_header [OF Cons.prems(2)]
      by (subst discard_loop.simps) (simp add: discarded_def)
    have "relinked (set (a # x # xs) \<union> set (concat xss)) h h2"
      by (rule relinked_trans [OF r(3) d(3)]) (auto simp: set_give_back [OF k])
    then show ?thesis
      using step d True r(4) same_classes_trans
      by (auto simp: disc fold_give_back_relinked [OF r(3)])
  qed
qed

lemma Mbx_Get_ok:
  assumes inv: "mail_inv m p h xs xss"
  shows "\<exists>m' p' h'. Mbx_Get dbg m p h = Ok (head_or_null (dropWhile (discarded h) xs), m', p', h') \<and>
    mail_inv m' p' h' (tl (dropWhile (discarded h) xs))
      (fold (give_back h) (takeWhile (discarded h) xs) xss) \<and>
    relinked (set xs \<union> set (concat xss)) h h' \<and> same_classes p p'"
proof (cases xs)
  case Nil
  then show ?thesis using inv mail_inv_empty [of m p h xss] by (simp add: Mbx_Get_def)
next
  case (Cons x ys)
  then obtain m1 where t: "Mbx_GetFromHead m h = Ok (x, m1, h)" "mail_inv m1 p h ys xss"
    "x \<noteq> NULL" "has_header p h x" "x \<notin> set ys" "x \<notin> set (concat xss)"
    using mail_inv_take inv by blast
  then show ?thesis
    using discard_loop_ok [OF t(2,4,5,6), of dbg] Cons by (simp add: Mbx_Get_def)
qed

lemma set_fold_give_back:
  "\<forall>a \<in> set as. class_of h a < length xss \<Longrightarrow>
   set (concat (fold (give_back h) as xss)) = set as \<union> set (concat xss)"
  by (induction as arbitrary: xss) (auto simp: set_give_back)

lemma Mbx_Purge_ok:
  assumes "mail_inv m p h xs xss"
  shows "\<exists>m' p' h'. Mbx_Purge dbg m p h = Ok (m', p', h') \<and>
    mail_inv m' p' h' [] (fold (give_back h) xs xss) \<and> same_classes p p'"
  using assms
proof (induction "length xs" arbitrary: xs m p h xss rule: less_induct)
  case less
  show ?case
  proof (cases xs)
    case Nil
    then show ?thesis
      using less.prems by (subst Mbx_Purge.simps) (auto simp: mail_inv_def mbx_rep_def)
  next
    case (Cons x0 xs0)
    have rep: "mbx_rep m h xs" "distinct xs" and pool: "pool_rep p h xss"
      and apart: "set xs \<inter> set (concat xss) = {}"
      using less.prems mbx.rep_distinct by (auto simp: mail_inv_def)
    have head: "Mbx_Head m \<noteq> NULL" using rep(1) mbx_rep_Cons Cons by auto
    have cls: "\<forall>a \<in> set xs. class_of h a < length xss"
      using less.prems by (auto simp: mail_inv_def has_header_def pool_rep_def elim!: in_useE)
    let ?ds = "takeWhile (discarded h) xs" and ?ys = "dropWhile (discarded h) xs"
    obtain m1 p1 h1 where g: "Mbx_Get dbg m p h = Ok (head_or_null ?ys, m1, p1, h1)"
      "mail_inv m1 p1 h1 (tl ?ys) (fold (give_back h) ?ds xss)"
      "relinked (set xs \<union> set (concat xss)) h h1" "same_classes p p1"
      using Mbx_Get_ok [OF less.prems] by blast
    show ?thesis
    proof (cases ?ys)
      case Nil
      have "?ds = xs" using Nil by (metis append_Nil2 takeWhile_dropWhile_id)
      then have "mail_inv m1 p1 h1 [] (fold (give_back h) xs xss)"
        using g(2) Nil by (metis list.sel(2))
      then obtain m2 p2 h2 where "Mbx_Purge dbg m1 p1 h1 = Ok (m2, p2, h2)"
        "mail_inv m2 p2 h2 [] (fold (give_back h) xs xss)" "same_classes p1 p2"
        using less.hyps [of "[]" m1 p1 h1 "fold (give_back h) xs xss"] Cons by auto
      then show ?thesis
        using g head Nil same_classes_trans by (subst Mbx_Purge.simps) auto
    next
      case (Cons x ys)
      have xs: "xs = ?ds @ x # ys" using Cons by (metis takeWhile_dropWhile_id)
      have "\<forall>a \<in> set ?ds. class_of h a < length xss" using cls by (meson set_takeWhileD)
      then have free: "set (concat (fold (give_back h) ?ds xss)) = set ?ds \<union> set (concat xss)"
        by (rule set_fold_give_back)
      have "distinct (?ds @ x # ys)" "x \<in> set xs" using rep(2) xs by (metis, metis in_set_conv_decomp)
      then have x: "has_header p h x" "x \<notin> set ?ds" "x \<notin> set (concat xss)" "x \<notin> set ys"
        using less.prems apart by (auto simp: mail_inv_def)
      have "in_use p1 h1 x"
        using in_use_relinked [OF g(3,4)] has_header_in_use [OF x(1)] by simp
      moreover have "mail_inv m1 p1 h1 ys (fold (give_back h) ?ds xss)" using g(2) Cons by simp
      moreover have "x \<notin> set (concat (fold (give_back h) ?ds xss))" using x free by simp
      ultimately obtain p2 h2 where r: "RetBuffer dbg p1 h1 x = Ok (p2, h2)"
        "mail_inv m1 p2 h2 ys (give_back h1 x (fold (give_back h) ?ds xss))"
        "relinked (insert x (set (concat (fold (give_back h) ?ds xss)))) h1 h2" "same_classes p1 p2"
        using mail_inv_return [of m1 p1 h1 ys _ x] x(4) by blast
      have rl: "relinked (set xs \<union> set (concat xss)) h h2"
        by (rule relinked_trans [OF g(3) r(3)]) (use free \<open>x \<in> set xs\<close> in \<open>auto dest: set_takeWhileD\<close>)
      have "length ys < length xs" using arg_cong [OF xs, of length] by simp
      then obtain m3 p3 h3 where u: "Mbx_Purge dbg m1 p2 h2 = Ok (m3, p3, h3)"
        "mail_inv m3 p3 h3 [] (fold (give_back h2) ys (give_back h1 x (fold (give_back h) ?ds xss)))"
        "same_classes p2 p3"
        using less.hyps [OF _ r(2)] by blast
      have "fold (give_back h) xs xss = fold (give_back h) (?ds @ x # ys) xss"
        using xs by simp
      also have "\<dots> = fold (give_back h2) ys (give_back h1 x (fold (give_back h) ?ds xss))"
        by (simp add: fold_give_back_relinked [OF rl] give_back_relinked [OF g(3)] del: takeWhile_dropWhile_id)
      finally have "mail_inv m3 p3 h3 [] (fold (give_back h) xs xss)"
        using u(2) by (simp only:)
      moreover have "Mbx_Purge dbg m p h = Mbx_Purge dbg m1 p2 h2"
        using g(1) r(1) head Cons has_header_nonnull [OF x(1)] by (subst Mbx_Purge.simps) simp
      moreover have "same_classes p p3"
        using g(4) r(4) u(3) same_classes_trans by blast
      ultimately show ?thesis using u(1) by metis
    qed
  qed
qed

section \<open>Properties of the mailbox\<close>

definition ex_mbx :: "addr \<Rightarrow> addr \<Rightarrow> uint32 \<Rightarrow> TMailBox" where
  "ex_mbx p q n = \<lparr>CsMailBox = 0, Mbx_Head = p, Mbx_Tail = q, Count = n\<rparr>"

text \<open>A message with the given code, 22 bytes long, and a heap with three of them.\<close>

definition ex_msg :: "uint16 \<Rightarrow> addr \<Rightarrow> block" where
  "ex_msg c n = \<lparr>BUFF_CODE = 0, BUFF_PREV = NULL, BUFF_NEXT = n, bytes = put16 (replicate 22 0) 4 c\<rparr>"

definition ex_mail_heap :: heap where
  "ex_mail_heap = [10 \<mapsto> ex_msg DISCARDED 20, 20 \<mapsto> ex_msg 5 30, 30 \<mapsto> ex_msg 6 0]"

definition ex_mail_pool :: TBuffers where
  "ex_mail_pool = \<lparr>Buffers = Some (ex_que 1 0 0 0) # replicate 31 None,
     BuffersLength = 22 # replicate 31 0, ClassBufferNum = 1\<rparr>"

lemmas ex_mail_defs = ex_mbx_def ex_msg_def ex_mail_heap_def ex_mail_pool_def

lemma ex_mail_pool_rep: "pool_rep ex_mail_pool ex_mail_heap [[]]"
  by (simp add: pool_rep_def que_rep_def ex_que_def ex_mail_defs MAX_BUFF_CLASS_NO_def)

lemma ex_mail_inv: "mail_inv (ex_mbx 10 30 3) ex_mail_pool ex_mail_heap [10, 20, 30] [[]]"
  using ex_mail_pool_rep
  by (simp add: mail_inv_def mbx_rep_def queue_rep_def last_or_null_def has_header_def in_use_def
      ex_mail_defs MSG_HEADER_LENGTH_def)

lemma ex_mail_discarded:
  "discarded ex_mail_heap 10" "\<not> discarded ex_mail_heap 20" "\<not> discarded ex_mail_heap 30"
  by (simp_all add: discarded_def ex_mail_defs DISCARDED_def)

text \<open>A mailbox delivers in the order of posting. Whatever messages are added to an empty
  mailbox, the same number of removals hands them out in the order they were added, and
  nothing but their links changes.\<close>

theorem mailbox_is_fifo:
  assumes "mbx_rep m h []" "distinct as" "\<And>a. a \<in> set as \<Longrightarrow> allocated h a"
  shows "\<exists>m1 h1 m2 h2. put_all Mbx_Add m h as = Ok (m1, h1) \<and>
    take_n Mbx_GetFromHead (length as) m1 h1 = Ok (as, m2, h2) \<and> mbx_rep m2 h2 [] \<and>
    relinked (set as) h h2"
  using assms by (rule mbx.first_in_first_out)

theorem mailbox_is_fifo_witness:
  "\<exists>m1 h1 m2 h2. put_all Mbx_Add TMailBox_new ex_mail_heap [20, 10] = Ok (m1, h1) \<and>
    take_n Mbx_GetFromHead (length [20 :: addr, 10]) m1 h1 = Ok ([20, 10], m2, h2) \<and> mbx_rep m2 h2 [] \<and>
    relinked (set [20, 10]) ex_mail_heap h2"
  by (rule mailbox_is_fifo) (auto simp: mbx_rep_def TMailBox_new_def allocated_def ex_mail_heap_def)

text \<open>\<^verbatim>\<open>TMailBox::Get\<close> returns, and delivers the first message that is not discarded (or
  \<^verbatim>\<open>NULL\<close>). The discarded messages before it go back to the pool, each to its own class, in
  their order; the messages behind it stay queued; the debug and the release build agree.\<close>

theorem mailbox_Get_skips_discarded:
  assumes "mail_inv m p h xs xss"
  shows "\<exists>m' p' h'. Mbx_Get dbg m p h = Ok (head_or_null (dropWhile (discarded h) xs), m', p', h') \<and>
    mail_inv m' p' h' (tl (dropWhile (discarded h) xs))
      (fold (give_back h) (takeWhile (discarded h) xs) xss) \<and>
    relinked (set xs \<union> set (concat xss)) h h'"
  using Mbx_Get_ok [OF assms, of dbg] by blast

theorem mailbox_Get_skips_discarded_witness:
  "\<exists>m' p' h'. Mbx_Get True (ex_mbx 10 30 3) ex_mail_pool ex_mail_heap = Ok (20, m', p', h') \<and>
    mail_inv m' p' h' [30] [[10]]"
  using mailbox_Get_skips_discarded [OF ex_mail_inv, of True] ex_mail_discarded
  by (auto simp: give_back_def class_of_def ex_mail_defs)

text \<open>C21: purging. \<^verbatim>\<open>TMailBox::Purge\<close> ends with an empty mailbox, and every message it held,
  discarded or not, is back in the free list of its class, in the order of the queue: no
  buffer is lost and none is returned twice.\<close>

theorem mailbox_Purge_returns_all:
  assumes "mail_inv m p h xs xss"
  shows "\<exists>m' p' h'. Mbx_Purge dbg m p h = Ok (m', p', h') \<and>
    mail_inv m' p' h' [] (fold (give_back h) xs xss)"
  using Mbx_Purge_ok [OF assms, of dbg] by blast

theorem mailbox_Purge_returns_all_witness:
  "\<exists>m' p' h'. Mbx_Purge True (ex_mbx 10 30 3) ex_mail_pool ex_mail_heap = Ok (m', p', h') \<and>
    mail_inv m' p' h' [] [[10, 20, 30]]"
  using mailbox_Purge_returns_all [OF ex_mail_inv, of True]
  by (simp add: give_back_def class_of_def ex_mail_defs)

end
