(* ===== verification/Post_Office.thy ===== *)
theory Post_Office
  imports Mail_Box
begin

text \<open>
  \<^verbatim>\<open>Kernel/postOffice.cpp\<close>: class \<^verbatim>\<open>TPostOffice\<close>, the mailboxes of all threads with a
  counting semaphore each. The semaphores belong to Win32, which is not part of the
  program: \<open>ReleaseSemaphore\<close> and \<open>WaitForMultipleObjects\<close> are parameters, with what
  Microsoft documents of them as the hypothesis \<open>win32_documented\<close>. A wait that blocks
  for ever is \<^term>\<open>None\<close>.
\<close>

record win32 =
  ReleaseSemaphore :: "nat \<Rightarrow> nat"
  WaitForMultipleObjects :: "nat list \<Rightarrow> (uint32 \<times> nat list) option"

definition MAX_COUNT :: nat where "MAX_COUNT = 10000"

definition win32_documented :: "win32 \<Rightarrow> bool" where
  "win32_documented w \<longleftrightarrow>
     (\<forall>c < MAX_COUNT. ReleaseSemaphore w c = Suc c) \<and>
     (\<forall>c \<ge> MAX_COUNT. ReleaseSemaphore w c = c) \<and>
     (\<forall>cs. length cs \<le> 64 \<longrightarrow> (\<forall>c \<in> set cs. c = 0) \<longrightarrow> WaitForMultipleObjects w cs = None) \<and>
     (\<forall>cs. length cs \<le> 64 \<longrightarrow> (\<exists>c \<in> set cs. 0 < c) \<longrightarrow>
        (\<exists>i < length cs. 0 < cs ! i \<and>
           WaitForMultipleObjects w cs = Some (of_nat i, cs[i := cs ! i - 1])))"

record TPostOffice =
  MailBoxes :: "TMailBox option list"
  MailBoxesNum :: uint8
  semHandle :: "nat list"

definition MAX_NUM_OF_MAILBOXES :: nat where "MAX_NUM_OF_MAILBOXES = 255"

definition TPostOffice_new :: "(nat \<Rightarrow> bool) \<Rightarrow> uint8 \<Rightarrow> bool \<Rightarrow> TPostOffice res" where
  "TPostOffice_new created mailBoxesNum buffers =
     andThen (throwIf (mailBoxesNum = 0) 0x01010200) (\<lambda>_.
     andThen (throwIf (\<not> buffers) 0x01010200) (\<lambda>_.
     let n = unat mailBoxesNum in
     andThen (throwIf (\<exists>i \<in> set [0 ..< n]. \<not> created i) 0x01010222) (\<lambda>_.
     Ok \<lparr>MailBoxes = replicate n (Some TMailBox_new) @ replicate (MAX_NUM_OF_MAILBOXES - n) None,
         MailBoxesNum = mailBoxesNum, semHandle = replicate n 0\<rparr>)))"

definition mailbox_at :: "TPostOffice \<Rightarrow> nat \<Rightarrow> TMailBox res" where
  "mailbox_at po i = andThen (rd (MailBoxes po) i) (\<lambda>mb. case mb of
     None \<Rightarrow> Fault MemFault | Some m \<Rightarrow> Ok m)"

definition PO_Add :: "win32 \<Rightarrow> TPostOffice \<Rightarrow> heap \<Rightarrow> uint8 \<Rightarrow> addr \<Rightarrow> (TPostOffice \<times> heap) res" where
  "PO_Add w po h mailBoxID info =
     andThen (throwIf (MailBoxesNum po \<le> mailBoxID) 0x01010200) (\<lambda>_.
     andThen (mailbox_at po (unat mailBoxID)) (\<lambda>m.
     andThen (Mbx_Add m h info) (\<lambda>(m, h).
     andThen (rd (semHandle po) (unat mailBoxID)) (\<lambda>c.
     Ok (po\<lparr>MailBoxes := (MailBoxes po)[unat mailBoxID := Some m],
            semHandle := (semHandle po)[unat mailBoxID := ReleaseSemaphore w c]\<rparr>, h)))))"

definition PO_Get :: "bool \<Rightarrow> TPostOffice \<Rightarrow> TBuffers \<Rightarrow> heap \<Rightarrow> uint8
    \<Rightarrow> (addr \<times> TPostOffice \<times> TBuffers \<times> heap) res" where
  "PO_Get dbg po p h mailBoxID =
     andThen (throwIf (MailBoxesNum po \<le> mailBoxID) 0x01010200) (\<lambda>_.
     andThen (mailbox_at po (unat mailBoxID)) (\<lambda>m.
     andThen (Mbx_Get dbg m p h) (\<lambda>(info, m, p, h).
     Ok (info, po\<lparr>MailBoxes := (MailBoxes po)[unat mailBoxID := Some m]\<rparr>, p, h))))"

definition GetSync :: "bool \<Rightarrow> win32 \<Rightarrow> TPostOffice \<Rightarrow> TBuffers \<Rightarrow> heap
    \<Rightarrow> (addr \<times> uint8 \<times> TPostOffice \<times> TBuffers \<times> heap) res" where
  "GetSync dbg w po p h =
     (case WaitForMultipleObjects w (take (unat (MailBoxesNum po)) (semHandle po)) of
        None \<Rightarrow> None
      | Some (dwWaitResult, cs) \<Rightarrow>
          let mailBoxID = (ucast dwWaitResult :: uint8);
              po = po\<lparr>semHandle := cs @ drop (unat (MailBoxesNum po)) (semHandle po)\<rparr> in
          andThen (throwIf (MailBoxesNum po \<le> mailBoxID) 0x01010200) (\<lambda>_.
          andThen (mailbox_at po (unat mailBoxID)) (\<lambda>m.
          andThen (Mbx_Get dbg m p h) (\<lambda>(info, m, p, h).
          Ok (info, mailBoxID, po\<lparr>MailBoxes := (MailBoxes po)[unat mailBoxID := Some m]\<rparr>, p, h)))))"

definition PO_GetCount :: "TPostOffice \<Rightarrow> uint8 \<Rightarrow> uint32 res" where
  "PO_GetCount po mailBoxID =
     andThen (throwIf (MailBoxesNum po \<le> mailBoxID) 0x01010200) (\<lambda>_.
     andThen (mailbox_at po (unat mailBoxID)) (\<lambda>m. Ok (Mbx_GetCount m)))"

definition PurgeMailBox :: "bool \<Rightarrow> TPostOffice \<Rightarrow> TBuffers \<Rightarrow> heap \<Rightarrow> uint8
    \<Rightarrow> (TPostOffice \<times> TBuffers \<times> heap) res" where
  "PurgeMailBox dbg po p h mailBoxID =
     andThen (throwIf (MailBoxesNum po \<le> mailBoxID) 0x01010200) (\<lambda>_.
     andThen (mailbox_at po (unat mailBoxID)) (\<lambda>m.
     andThen (Mbx_Purge dbg m p h) (\<lambda>(m, p, h).
     Ok (po\<lparr>MailBoxes := (MailBoxes po)[unat mailBoxID := Some m]\<rparr>, p, h))))"

fun purge_from :: "bool \<Rightarrow> uint8 list \<Rightarrow> TPostOffice \<Rightarrow> TBuffers \<Rightarrow> heap \<Rightarrow> (TPostOffice \<times> TBuffers \<times> heap) res" where
  "purge_from dbg [] po p h = Ok (po, p, h)"
| "purge_from dbg (i # is) po p h =
     andThen (PurgeMailBox dbg po p h i) (\<lambda>(po, p, h). purge_from dbg is po p h)"

definition PO_Purge :: "bool \<Rightarrow> TPostOffice \<Rightarrow> TBuffers \<Rightarrow> heap \<Rightarrow> (TPostOffice \<times> TBuffers \<times> heap) res" where
  "PO_Purge dbg po p h = purge_from dbg (map of_nat [0 ..< unat (MailBoxesNum po)]) po p h"

section \<open>The post office owns its messages\<close>

text \<open>
  \<open>mss ! i\<close> are the messages in mailbox \<open>i\<close>. No message is in two mailboxes, none is free.
  \<open>tokens_ok\<close>: every semaphore counts at least the messages of its mailbox.
\<close>

definition office_rep :: "TPostOffice \<Rightarrow> TBuffers \<Rightarrow> heap \<Rightarrow> addr list list \<Rightarrow> addr list list \<Rightarrow> bool" where
  "office_rep po p h mss xss \<longleftrightarrow>
     length mss = unat (MailBoxesNum po) \<and> length (MailBoxes po) = MAX_NUM_OF_MAILBOXES \<and>
     length (semHandle po) = unat (MailBoxesNum po) \<and> pool_rep p h xss \<and>
     (\<forall>i < length mss. \<exists>m. MailBoxes po ! i = Some m \<and> mail_inv m p h (mss ! i) xss) \<and>
     (\<forall>i < length mss. \<forall>j < length mss. i \<noteq> j \<longrightarrow> set (mss ! i) \<inter> set (mss ! j) = {})"

definition tokens_ok :: "TPostOffice \<Rightarrow> addr list list \<Rightarrow> bool" where
  "tokens_ok po mss \<longleftrightarrow> (\<forall>i < length mss. length (mss ! i) \<le> semHandle po ! i)"

lemma office_rep_bound: "office_rep po p h mss xss \<Longrightarrow> i < length mss \<Longrightarrow> i < 255"
proof -
  assume "office_rep po p h mss xss" "i < length mss"
  moreover have "unat (MailBoxesNum po) < 2 ^ LENGTH(8)" by (rule unsigned_less)
  ultimately show "i < 255" by (simp add: office_rep_def)
qed

lemma office_rep_id:
  assumes "office_rep po p h mss xss" "i < length mss"
  shows "unat (of_nat i :: uint8) = i" "\<not> MailBoxesNum po \<le> of_nat i"
proof -
  show u: "unat (of_nat i :: uint8) = i"
    using office_rep_bound [OF assms] by (intro unat8) simp
  show "\<not> MailBoxesNum po \<le> of_nat i"
    using assms u by (simp add: word_le_nat_alt office_rep_def)
qed

lemma office_rep_mbx:
  assumes "office_rep po p h mss xss" "i < length mss"
  obtains m where "mailbox_at po i = Ok m" "MailBoxes po ! i = Some m" "mail_inv m p h (mss ! i) xss"
    "i < length (MailBoxes po)"
proof -
  obtain m where m: "MailBoxes po ! i = Some m" "mail_inv m p h (mss ! i) xss"
    using assms unfolding office_rep_def by blast
  have "i < length (MailBoxes po)"
    using office_rep_bound [OF assms] assms(1) by (simp add: office_rep_def MAX_NUM_OF_MAILBOXES_def)
  then show ?thesis using m that by (simp add: mailbox_at_def)
qed

lemma office_rep_disjoint:
  "office_rep po p h mss xss \<Longrightarrow> i < length mss \<Longrightarrow> j < length mss \<Longrightarrow> i \<noteq> j \<Longrightarrow>
   set (mss ! i) \<inter> set (mss ! j) = {}"
  unfolding office_rep_def by blast

lemma office_rep_free:
  assumes "office_rep po p h mss xss" "i < length mss"
  shows "set (mss ! i) \<inter> set (concat xss) = {}"
  using office_rep_mbx [OF assms] by (metis mail_inv_def)

lemma pool_rep_relinked:
  assumes rep: "pool_rep p h xss" and rl: "relinked S h h'" and S: "set (concat xss) \<inter> S = {}"
  shows "pool_rep p h' xss"
proof -
  have sub: "set (xss ! i) \<inter> S = {}" if "i < length xss" for i
    using S that by (metis (no_types, lifting) UN_I disjoint_iff nth_mem set_concat)
  have q: "que_rep q h (xss ! i) \<Longrightarrow> que_rep q h' (xss ! i)" if "i < length xss" for i q
    using sub [OF that] rl que.rep_frame by blast
  have "\<exists>q. Buffers p ! i = Some q \<and> que_rep q h' (xss ! i)" if "i < length xss" for i
    using rep q that unfolding pool_rep_def by blast
  then show ?thesis
    using rep buffer_ok_relinked [OF rl] by (simp add: pool_rep_def)
qed

lemma mail_inv_frame:
  assumes inv: "mail_inv m p h ys xss" and rl: "relinked S h h'" and S: "set ys \<inter> S = {}"
    and pool: "pool_rep p' h' xss'" "set (concat xss') \<subseteq> S \<union> set (concat xss)" and c: "same_classes p p'"
  shows "mail_inv m p' h' ys xss'"
proof -
  have "mbx_rep m h' ys"
    by (rule mbx.rep_frame [OF _ rl S]) (use inv in \<open>simp add: mail_inv_def\<close>)
  moreover have "set ys \<inter> set (concat xss') = {}"
    using inv S pool(2) by (auto simp: mail_inv_def)
  ultimately show ?thesis
    using inv pool(1) has_header_relinked [OF rl c] by (simp add: mail_inv_def)
qed

text \<open>One mailbox changed by an operation that only touches its messages and free buffers.\<close>

lemma office_rep_upd:
  assumes rep: "office_rep po p h mss xss" and i: "i < length mss"
    and m: "mail_inv m p' h' ys xss'" and rl: "relinked S h h'" and c: "same_classes p p'"
    and S: "\<And>j. j < length mss \<Longrightarrow> j \<noteq> i \<Longrightarrow> set (mss ! j) \<inter> (S \<union> set ys) = {}"
    and free: "set (concat xss') \<subseteq> S \<union> set (concat xss)"
    and sems: "length sems = length (semHandle po)"
  shows "office_rep (po\<lparr>MailBoxes := (MailBoxes po)[i := Some m], semHandle := sems\<rparr>) p' h'
    (mss[i := ys]) xss'"
proof -
  have pool: "pool_rep p' h' xss'" using m by (simp add: mail_inv_def)
  have "\<exists>m'. (MailBoxes po)[i := Some m] ! j = Some m' \<and> mail_inv m' p' h' (mss[i := ys] ! j) xss'"
    if j: "j < length mss" for j
  proof (cases "j = i")
    case True
    then show ?thesis using m j office_rep_mbx [OF rep j] by (metis nth_list_update_eq)
  next
    case False
    obtain m' where m': "MailBoxes po ! j = Some m'" "mail_inv m' p h (mss ! j) xss"
      using office_rep_mbx [OF rep j] by metis
    have "mail_inv m' p' h' (mss ! j) xss'"
      by (rule mail_inv_frame [OF m'(2) rl _ pool free c]) (use S [OF j False] in blast)
    then show ?thesis using False m' by simp
  qed
  moreover have "set (mss[i := ys] ! j) \<inter> set (mss[i := ys] ! k) = {}"
    if j: "j < length mss" "k < length mss" "j \<noteq> k" for j k
  proof -
    have "set (mss ! j) \<inter> set ys = {}" if "j \<noteq> i" using S [OF j(1) that] by blast
    moreover have "set (mss ! k) \<inter> set ys = {}" if "k \<noteq> i" using S [OF j(2) that] by blast
    moreover have "set (mss ! j) \<inter> set (mss ! k) = {}" by (rule office_rep_disjoint [OF rep j])
    ultimately show ?thesis using j by (cases "j = i"; cases "k = i") auto
  qed
  ultimately show ?thesis
    using rep i pool sems unfolding office_rep_def by simp
qed

definition posted :: "addr list list \<Rightarrow> nat \<Rightarrow> addr \<Rightarrow> addr list list" where
  "posted mss i a = mss[i := mss ! i @ [a]]"

lemma PO_Add_ok:
  assumes rep: "office_rep po p h mss xss" and i: "i < length mss" and a: "has_header p h a"
    and new: "\<forall>j < length mss. a \<notin> set (mss ! j)" "a \<notin> set (concat xss)"
  shows "\<exists>po' h'. PO_Add w po h (of_nat i) a = Ok (po', h') \<and>
    office_rep po' p h' (posted mss i a) xss \<and> relinked (insert a (set (mss ! i))) h h' \<and>
    semHandle po' = (semHandle po)[i := ReleaseSemaphore w (semHandle po ! i)] \<and>
    MailBoxesNum po' = MailBoxesNum po"
proof -
  obtain m where m: "mailbox_at po i = Ok m" "mail_inv m p h (mss ! i) xss"
    using office_rep_mbx [OF rep i] by metis
  note ids = office_rep_id [OF rep i]
  have free: "set (mss ! i) \<inter> set (concat xss) = {}" by (rule office_rep_free [OF rep i])
  obtain m' h' where add: "Mbx_Add m h a = Ok (m', h')" "mbx_rep m' h' (mss ! i @ [a])"
    "relinked (insert a (set (mss ! i))) h h'"
    using Mbx_Add_rep [of m h "mss ! i" a] m(2) in_use_allocated [OF has_header_in_use [OF a]] new(1) i
    by (auto simp: mail_inv_def)
  have pool: "pool_rep p h' xss"
    by (rule pool_rep_relinked [OF _ add(3)]) (use m(2) new(2) free in \<open>auto simp: mail_inv_def\<close>)
  have inv: "mail_inv m' p h' (mss ! i @ [a]) xss"
    using add(2) pool m(2) new(2) free a has_header_relinked [OF add(3) same_classes_refl]
    by (auto simp: mail_inv_def)
  have sem: "i < length (semHandle po)" using rep i by (simp add: office_rep_def)
  let ?po = "po\<lparr>MailBoxes := (MailBoxes po)[i := Some m'],
    semHandle := (semHandle po)[i := ReleaseSemaphore w (semHandle po ! i)]\<rparr>"
  have "PO_Add w po h (of_nat i) a = Ok (?po, h')"
    using ids m(1) add(1) sem by (simp add: PO_Add_def)
  moreover have "office_rep ?po p h' (posted mss i a) xss"
    unfolding posted_def
  proof (rule office_rep_upd [OF rep i inv add(3) same_classes_refl])
    show "set (mss ! j) \<inter> (insert a (set (mss ! i)) \<union> set (mss ! i @ [a])) = {}"
      if "j < length mss" "j \<noteq> i" for j
      using office_rep_disjoint [OF rep that(1) i that(2)] new(1) that by auto
  qed auto
  ultimately show ?thesis using add(3) by (intro exI [of _ ?po] exI [of _ h'] conjI) auto
qed

text \<open>Getting from mailbox \<open>i\<close>: what is left there and what becomes free.\<close>

definition rest_of :: "heap \<Rightarrow> addr list list \<Rightarrow> nat \<Rightarrow> addr list list" where
  "rest_of h mss i = mss[i := tl (dropWhile (discarded h) (mss ! i))]"

definition freed_by :: "heap \<Rightarrow> addr list list \<Rightarrow> nat \<Rightarrow> addr list list \<Rightarrow> addr list list" where
  "freed_by h mss i xss = fold (give_back h) (takeWhile (discarded h) (mss ! i)) xss"

lemma office_Get:
  assumes rep: "office_rep po p h mss xss" and i: "i < length mss" and m: "mailbox_at po i = Ok m"
    and sems: "length sems = length (semHandle po)"
  shows "\<exists>m' p' h'. Mbx_Get dbg m p h = Ok (head_or_null (dropWhile (discarded h) (mss ! i)), m', p', h') \<and>
    office_rep (po\<lparr>MailBoxes := (MailBoxes po)[i := Some m'], semHandle := sems\<rparr>) p' h'
      (rest_of h mss i) (freed_by h mss i xss) \<and>
    relinked (set (mss ! i) \<union> set (concat xss)) h h' \<and> same_classes p p'"
proof -
  have inv: "mail_inv m p h (mss ! i) xss" using office_rep_mbx [OF rep i] m by (metis Inr_inject option.inject)
  let ?xs = "mss ! i"
  obtain m' p' h' where g: "Mbx_Get dbg m p h = Ok (head_or_null (dropWhile (discarded h) ?xs), m', p', h')"
    "mail_inv m' p' h' (tl (dropWhile (discarded h) ?xs)) (freed_by h mss i xss)"
    "relinked (set ?xs \<union> set (concat xss)) h h'" "same_classes p p'"
    using Mbx_Get_ok [OF inv, of dbg] by (auto simp: freed_by_def)
  have cls: "\<forall>a \<in> set (takeWhile (discarded h) ?xs). class_of h a < length xss"
    using inv by (auto simp: mail_inv_def has_header_def pool_rep_def elim!: in_useE dest!: set_takeWhileD)
  have tl: "set (tl (dropWhile (discarded h) ?xs)) \<subseteq> set ?xs"
    by (metis list.set_sel(2) set_dropWhileD subsetI tl_Nil)
  have "office_rep (po\<lparr>MailBoxes := (MailBoxes po)[i := Some m'], semHandle := sems\<rparr>) p' h'
      (rest_of h mss i) (freed_by h mss i xss)"
    unfolding rest_of_def
  proof (rule office_rep_upd [OF rep i g(2,3,4) _ _ sems])
    show "set (mss ! j) \<inter> (set ?xs \<union> set (concat xss) \<union> set (tl (dropWhile (discarded h) ?xs))) = {}"
      if j: "j < length mss" "j \<noteq> i" for j
      using office_rep_disjoint [OF rep j(1) i j(2)] office_rep_free [OF rep j(1)] tl by blast
    show "set (concat (freed_by h mss i xss)) \<subseteq> set ?xs \<union> set (concat xss) \<union> set (concat xss)"
      using set_fold_give_back [OF cls] by (auto simp: freed_by_def dest: set_takeWhileD)
  qed
  then show ?thesis using g by blast
qed

section \<open>Waiting for a message\<close>

lemma tokens_ok_Add:
  assumes "win32_documented w" "tokens_ok po mss" "i < length mss" "i < length (semHandle po)"
    and "semHandle po ! i < MAX_COUNT"
    and "semHandle po' = (semHandle po)[i := ReleaseSemaphore w (semHandle po ! i)]"
  shows "tokens_ok po' (posted mss i a)"
  using assms by (auto simp: tokens_ok_def posted_def win32_documented_def nth_list_update)

lemma length_rest: "length (tl (dropWhile P xs)) \<le> length xs - 1"
  using length_dropWhile_le [of P xs] by simp

lemma length_rest_of [simp]: "length (rest_of h mss i) = length mss"
  by (simp add: rest_of_def)

lemma tokens_ok_taken:
  assumes "tokens_ok po mss" "length (semHandle po) = length mss" "i < length mss"
    and "semHandle po' = (semHandle po)[i := semHandle po ! i - 1]"
  shows "tokens_ok po' (rest_of h mss i)"
  unfolding tokens_ok_def
proof (intro allI impI)
  fix j assume j: "j < length (rest_of h mss i)"
  have "length (mss ! j) \<le> semHandle po ! j" using assms(1) j by (simp add: tokens_ok_def)
  then show "length (rest_of h mss i ! j) \<le> semHandle po' ! j"
    using j assms length_rest [of "discarded h" "mss ! i"] by (cases "j = i") (auto simp: rest_of_def)
qed

lemma GetSync_serves:
  assumes w: "win32_documented w" and rep: "office_rep po p h mss xss"
    and n: "length mss \<le> 64" and c: "\<exists>c \<in> set (semHandle po). 0 < c"
  shows "\<exists>i po' p' h'. i < length mss \<and> 0 < semHandle po ! i \<and>
    GetSync dbg w po p h = Ok (head_or_null (dropWhile (discarded h) (mss ! i)), of_nat i, po', p', h') \<and>
    office_rep po' p' h' (rest_of h mss i) (freed_by h mss i xss) \<and>
    semHandle po' = (semHandle po)[i := semHandle po ! i - 1] \<and>
    relinked (set (mss ! i) \<union> set (concat xss)) h h' \<and> same_classes p p'"
proof -
  let ?cs = "semHandle po"
  have len: "length ?cs = length mss" "unat (MailBoxesNum po) = length mss"
    using rep by (simp_all add: office_rep_def)
  obtain i where i: "i < length mss" "0 < ?cs ! i"
    "WaitForMultipleObjects w ?cs = Some (of_nat i, ?cs[i := ?cs ! i - 1])"
    using w n c len unfolding win32_documented_def by metis
  note ids = office_rep_id [OF rep i(1)]
  have id: "(ucast (of_nat i :: uint32) :: uint8) = of_nat i"
    using office_rep_bound [OF rep i(1)] by (simp add: unsigned_of_nat take_bit_nat_eq_self)
  obtain m where m: "mailbox_at po i = Ok m" using office_rep_mbx [OF rep i(1)] by metis
  let ?sems = "?cs[i := ?cs ! i - 1]"
  obtain m' p' h' where g: "Mbx_Get dbg m p h = Ok (head_or_null (dropWhile (discarded h) (mss ! i)), m', p', h')"
    "office_rep (po\<lparr>MailBoxes := (MailBoxes po)[i := Some m'], semHandle := ?sems\<rparr>) p' h'
      (rest_of h mss i) (freed_by h mss i xss)"
    "relinked (set (mss ! i) \<union> set (concat xss)) h h'" "same_classes p p'"
    using office_Get [OF rep i(1) m, of ?sems dbg] by auto
  let ?po = "po\<lparr>MailBoxes := (MailBoxes po)[i := Some m'], semHandle := ?sems\<rparr>"
  have "mailbox_at (po\<lparr>semHandle := ?sems\<rparr>) i = Ok m"
    using m by (simp add: mailbox_at_def)
  then have "GetSync dbg w po p h =
      Ok (head_or_null (dropWhile (discarded h) (mss ! i)), of_nat i, ?po, p', h')"
    using i(3) ids id g(1) len by (simp add: GetSync_def Let_def)
  then show ?thesis
    using i g by (intro exI [of _ i] exI [of _ ?po] exI conjI) auto
qed

lemma GetSync_ok:
  assumes w: "win32_documented w" and rep: "office_rep po p h mss xss" and tok: "tokens_ok po mss"
    and n: "length mss \<le> 64" and c: "\<exists>c \<in> set (semHandle po). 0 < c"
  shows "\<exists>i po' p' h'. i < length mss \<and> 0 < semHandle po ! i \<and>
    GetSync dbg w po p h = Ok (head_or_null (dropWhile (discarded h) (mss ! i)), of_nat i, po', p', h') \<and>
    office_rep po' p' h' (rest_of h mss i) (freed_by h mss i xss) \<and> tokens_ok po' (rest_of h mss i) \<and>
    semHandle po' = (semHandle po)[i := semHandle po ! i - 1] \<and>
    relinked (set (mss ! i) \<union> set (concat xss)) h h' \<and> same_classes p p'"
proof -
  have "length (semHandle po) = length mss" using rep by (simp add: office_rep_def)
  then show ?thesis
    using GetSync_serves [OF w rep n c, of dbg] tokens_ok_taken [OF tok] by blast
qed

lemma GetSync_blocks:
  assumes w: "win32_documented w" and rep: "office_rep po p h mss xss"
    and n: "length mss \<le> 64" and c: "\<forall>c \<in> set (semHandle po). c = 0"
  shows "GetSync dbg w po p h = None"
proof -
  have "length (semHandle po) = length mss" "unat (MailBoxesNum po) = length mss"
    using rep by (simp_all add: office_rep_def)
  then show ?thesis
    using w n c by (auto simp: GetSync_def win32_documented_def)
qed

text \<open>Whatever it returns, it took from one of the mailboxes.\<close>

lemma GetSync_inv:
  assumes "win32_documented w" "office_rep po p h mss xss" "length mss \<le> 64"
    and "GetSync dbg w po p h = Ok (a, mb, po', p', h')"
  shows "\<exists>i < length mss. a = head_or_null (dropWhile (discarded h) (mss ! i)) \<and> mb = of_nat i \<and>
    office_rep po' p' h' (rest_of h mss i) (freed_by h mss i xss) \<and>
    semHandle po' = (semHandle po)[i := semHandle po ! i - 1] \<and>
    relinked (set (mss ! i) \<union> set (concat xss)) h h' \<and> same_classes p p'"
proof -
  have "\<exists>c \<in> set (semHandle po). 0 < c"
    using GetSync_blocks [OF assms(1-3), of dbg] assms(4) by fastforce
  then show ?thesis
    using GetSync_serves [OF assms(1-3), of dbg] assms(4) by auto
qed

text \<open>The constructor: empty mailboxes, on any pool that is in order.\<close>

lemma TPostOffice_new_ok:
  assumes n: "n \<noteq> 0" "\<forall>i < unat n. created i" and rep: "pool_rep p h xss"
  shows "\<exists>po. TPostOffice_new created n True = Ok po \<and> office_rep po p h (replicate (unat n) []) xss \<and>
    semHandle po = replicate (unat n) 0"
proof -
  have "unat n < 2 ^ LENGTH(8)" by (rule unsigned_less)
  then have "unat n + (MAX_NUM_OF_MAILBOXES - unat n) = MAX_NUM_OF_MAILBOXES" by (simp add: MAX_NUM_OF_MAILBOXES_def)
  moreover have "mail_inv TMailBox_new p h [] xss"
    using rep by (simp add: mail_inv_def mbx_rep_def TMailBox_new_def queue_rep_def last_or_null_def)
  ultimately show ?thesis
    using n rep by (auto simp: TPostOffice_new_def Let_def office_rep_def nth_append)
qed

section \<open>Properties of the post office\<close>

text \<open>A system library for the witnesses: waits serve the first semaphore that is set.\<close>

fun first_set :: "nat list \<Rightarrow> nat \<Rightarrow> nat option" where
  "first_set [] k = None"
| "first_set (c # cs) k = (if 0 < c then Some k else first_set cs (Suc k))"

definition ex_win :: win32 where
  "ex_win = \<lparr>ReleaseSemaphore = (\<lambda>c. if c < 10000 then Suc c else c),
     WaitForMultipleObjects = (\<lambda>cs. map_option (\<lambda>i. (of_nat i, cs[i := cs ! i - 1])) (first_set cs 0))\<rparr>"

lemma first_set_None: "\<forall>c \<in> set cs. c = 0 \<Longrightarrow> first_set cs k = None"
  by (induction cs arbitrary: k) auto

lemma first_set_Some:
  "\<exists>c \<in> set cs. 0 < c \<Longrightarrow> \<exists>i < length cs. 0 < cs ! i \<and> first_set cs k = Some (k + i)"
proof (induction cs arbitrary: k)
  case (Cons c cs)
  show ?case
  proof (cases "0 < c")
    case False
    then have "\<exists>c \<in> set cs. 0 < c" using Cons.prems by auto
    then obtain i where "i < length cs" "0 < cs ! i" "first_set cs (Suc k) = Some (Suc k + i)"
      using Cons.IH by blast
    then show ?thesis using False by (intro exI [of _ "Suc i"]) simp
  qed (intro exI [of _ 0], simp)
qed simp

lemma ex_win_documented: "win32_documented ex_win"
  unfolding win32_documented_def
proof (intro conjI allI impI)
  fix cs :: "nat list"
  assume "\<exists>c \<in> set cs. 0 < c"
  then obtain i where "i < length cs" "0 < cs ! i" "first_set cs 0 = Some i"
    using first_set_Some [of cs 0] by auto
  then show "\<exists>i < length cs. 0 < cs ! i \<and>
      WaitForMultipleObjects ex_win cs = Some (of_nat i, cs[i := cs ! i - 1])"
    by (intro exI [of _ i]) (simp add: ex_win_def)
qed (auto simp: ex_win_def MAX_COUNT_def first_set_None)

definition ex_office :: "addr \<Rightarrow> addr \<Rightarrow> uint32 \<Rightarrow> nat \<Rightarrow> TPostOffice" where
  "ex_office p q n c = \<lparr>MailBoxes = [Some (ex_mbx p q n)] @ replicate 254 None, MailBoxesNum = 1, semHandle = [c]\<rparr>"

lemma ex_office_full: "office_rep (ex_office 10 30 3 3) ex_mail_pool ex_mail_heap [[10, 20, 30]] [[]]"
  using ex_mail_inv ex_mail_pool_rep by (simp add: office_rep_def ex_office_def MAX_NUM_OF_MAILBOXES_def)

lemma ex_office_empty: "office_rep (ex_office 0 0 0 0) ex_mail_pool ex_mail_heap [[]] [[]]"
  using ex_mail_pool_rep
  by (simp add: office_rep_def ex_office_def MAX_NUM_OF_MAILBOXES_def mail_inv_def mbx_rep_def ex_mbx_def)

lemma ex_header: "has_header ex_mail_pool ex_mail_heap 20"
  by (simp add: has_header_def in_use_def ex_mail_defs MSG_HEADER_LENGTH_def)

text \<open>C20: posting. A message that is a buffer in use and not queued anywhere is appended to the
  mailbox it is addressed to; every other mailbox, the free lists and all contents stay as
  they are, and every semaphore still counts at least the messages of its mailbox. The
  semaphore must be below its maximum of 10000, from where a token would be lost.\<close>

theorem post_appends_to_addressed_mailbox:
  assumes "win32_documented w" "office_rep po p h mss xss" "tokens_ok po mss" "i < length mss"
    and "has_header p h a" "\<forall>j < length mss. a \<notin> set (mss ! j)" "a \<notin> set (concat xss)"
    and "semHandle po ! i < MAX_COUNT"
  shows "\<exists>po' h'. PO_Add w po h (of_nat i) a = Ok (po', h') \<and> office_rep po' p h' (posted mss i a) xss \<and>
    tokens_ok po' (posted mss i a) \<and> relinked (insert a (set (mss ! i))) h h'"
proof -
  have "i < length (semHandle po)" using assms(2,4) by (simp add: office_rep_def)
  then show ?thesis
    using PO_Add_ok [OF assms(2,4,5,6,7), of w] tokens_ok_Add [OF assms(1,3,4) _ assms(8)] by blast
qed

theorem post_appends_to_addressed_mailbox_witness:
  "\<exists>po' h'. PO_Add ex_win (ex_office 0 0 0 0) ex_mail_heap (of_nat 0) 20 = Ok (po', h') \<and>
    office_rep po' ex_mail_pool h' (posted [[]] 0 20) [[]] \<and> tokens_ok po' (posted [[]] 0 20) \<and>
    relinked (insert 20 (set ([[]] ! 0))) ex_mail_heap h'"
  by (rule post_appends_to_addressed_mailbox [OF ex_win_documented ex_office_empty])
    (simp_all add: ex_header tokens_ok_def ex_office_def MAX_COUNT_def)

text \<open>C16: no lost message. As long as semaphores count at least the queued messages (which posting
  keeps), \<^verbatim>\<open>GetSync\<close> on at most 64 mailboxes blocks exactly when no semaphore is set, and then
  every mailbox is empty. Else it takes one token from a semaphore that is set and returns the
  number of that mailbox with the first message there that is not discarded, and keeps both
  invariants. It returns \<^verbatim>\<open>NULL\<close> when the mailbox was empty or all messages there were
  discarded: discarding leaves surplus tokens, which are used up in this way.\<close>

theorem GetSync_never_misses_a_message:
  assumes "win32_documented w" "office_rep po p h mss xss" "tokens_ok po mss" "length mss \<le> 64"
  shows "if \<forall>c \<in> set (semHandle po). c = 0
    then GetSync dbg w po p h = None \<and> (\<forall>i < length mss. mss ! i = [])
    else \<exists>i po' p' h'. i < length mss \<and> 0 < semHandle po ! i \<and>
      GetSync dbg w po p h = Ok (head_or_null (dropWhile (discarded h) (mss ! i)), of_nat i, po', p', h') \<and>
      semHandle po' = (semHandle po)[i := semHandle po ! i - 1] \<and>
      office_rep po' p' h' (rest_of h mss i) (freed_by h mss i xss) \<and> tokens_ok po' (rest_of h mss i)"
proof (cases "\<forall>c \<in> set (semHandle po). c = 0")
  case True
  have "length (semHandle po) = length mss" using assms(2) by (simp add: office_rep_def)
  then have "mss ! i = []" if "i < length mss" for i
    using that assms(3) True by (metis (no_types, lifting) length_0_conv le_zero_eq nth_mem tokens_ok_def)
  then show ?thesis using True GetSync_blocks [OF assms(1,2,4) True, of dbg] by simp
next
  case False
  then have "\<exists>c \<in> set (semHandle po). 0 < c" by auto
  from GetSync_ok [OF assms this, of dbg] show ?thesis unfolding if_not_P [OF False] by blast
qed

theorem GetSync_never_misses_a_message_witness:
  "\<exists>po' p' h'. GetSync True ex_win (ex_office 10 30 3 3) ex_mail_pool ex_mail_heap = Ok (20, 0, po', p', h') \<and>
    office_rep po' p' h' [[30]] [[10]] \<and> semHandle po' = [2]"
proof -
  have t: "tokens_ok (ex_office 10 30 3 3) [[10, 20, 30]]" by (simp add: tokens_ok_def ex_office_def)
  have s: "semHandle (ex_office 10 30 3 3) = [3]" by (simp add: ex_office_def)
  obtain po' p' h' where 1: "GetSync True ex_win (ex_office 10 30 3 3) ex_mail_pool ex_mail_heap =
      Ok (head_or_null (dropWhile (discarded ex_mail_heap) [10, 20, 30]), 0, po', p', h')"
    "semHandle po' = [2]"
    "office_rep po' p' h' (rest_of ex_mail_heap [[10, 20, 30]] 0) (freed_by ex_mail_heap [[10, 20, 30]] 0 [[]])"
    using GetSync_never_misses_a_message [OF ex_win_documented ex_office_full t, of True] s by auto
  then show ?thesis
    using ex_mail_discarded by (auto simp: rest_of_def freed_by_def give_back_def class_of_def ex_mail_defs)
qed

end
