(* ===== verification/Delta_Timer.thy ===== *)
theory Delta_Timer
  imports Post_Office
begin

text \<open>
  \<^verbatim>\<open>Kernel/timer.cpp\<close>: class \<^verbatim>\<open>CTimer\<close>. Running timers are messages in a list that starts at
  a dummy message and keeps, in the header field \<^verbatim>\<open>TIMER_COUNT\<close>, the ticks from one timer
  to the next (a delta list). The periodic interrupt handler decrements the first count and
  posts the timers that reach zero to their mailboxes.
\<close>

datatype TimerResolutionEnum = Timer1ms | Timer10ms | Timer100ms | Timer1s

fun resolution_ms :: "TimerResolutionEnum \<Rightarrow> nat" where
  "resolution_ms Timer1ms = 1"
| "resolution_ms Timer10ms = 10"
| "resolution_ms Timer100ms = 100"
| "resolution_ms Timer1s = 1000"

record CTimer =
  TimerResolution :: TimerResolutionEnum
  CsTimer :: nat
  Timer_Head :: addr

definition read32 :: "heap \<Rightarrow> addr \<Rightarrow> nat \<Rightarrow> uint32 res" where
  "read32 h a i = andThen (get_bytes h a) (\<lambda>bs. GetUint32 bs i)"

definition write32 :: "heap \<Rightarrow> addr \<Rightarrow> nat \<Rightarrow> uint32 \<Rightarrow> heap res" where
  "write32 h a i v = on_bytes h a (\<lambda>bs. SetUint32 bs i v)"

definition write16 :: "heap \<Rightarrow> addr \<Rightarrow> nat \<Rightarrow> uint16 \<Rightarrow> heap res" where
  "write16 h a i v = on_bytes h a (\<lambda>bs. SetUint16 bs i v)"

definition write8 :: "heap \<Rightarrow> addr \<Rightarrow> nat \<Rightarrow> uint8 \<Rightarrow> heap res" where
  "write8 h a i v = on_bytes h a (\<lambda>bs. wr bs i v)"

definition read8 :: "heap \<Rightarrow> addr \<Rightarrow> nat \<Rightarrow> uint8 res" where
  "read8 h a i = andThen (get_bytes h a) (\<lambda>bs. rd bs i)"

text \<open>
  The constructor; \<open>dummy\<close> is the address \<^verbatim>\<open>DummyMessage + BUFF_HEADER_LENGTH\<close> of the
  static dummy message of 26 bytes, \<open>started\<close> whether \<^verbatim>\<open>timeSetEvent\<close> got a timer.
\<close>

definition CTimer_new :: "addr \<Rightarrow> bool \<Rightarrow> bool \<Rightarrow> bool \<Rightarrow> TimerResolutionEnum \<Rightarrow> heap \<Rightarrow> (CTimer \<times> heap) res" where
  "CTimer_new dummy buffers postOffice started timerRes h =
     andThen (throwIf (\<not> buffers) 0x01010400) (\<lambda>_.
     andThen (throwIf (\<not> postOffice) 0x01010401) (\<lambda>_.
     andThen (set_prev h dummy NULL) (\<lambda>h.
     andThen (set_next h dummy NULL) (\<lambda>h.
     andThen (write32 h dummy TIMER_COUNT 0) (\<lambda>h.
     andThen (throwIf (\<not> started) 0x01010802) (\<lambda>_.
     Ok (\<lparr>TimerResolution = timerRes, CsTimer = 0, Timer_Head = dummy\<rparr>, h)))))))"

definition DisableTimer :: "CTimer \<Rightarrow> CTimer" where
  "DisableTimer t = t\<lparr>CsTimer := CsTimer t + 1\<rparr>"

definition EnableTimer :: "CTimer \<Rightarrow> CTimer" where
  "EnableTimer t = t\<lparr>CsTimer := CsTimer t - 1\<rparr>"

text \<open>The search of \<^verbatim>\<open>Add\<close>: returns \<open>prev\<close> and \<open>current\<close> where the loop stops.\<close>

partial_function (option) add_loop :: "addr \<Rightarrow> addr \<Rightarrow> addr \<Rightarrow> heap \<Rightarrow> (fault + (addr \<times> addr \<times> heap)) option" where
  [code]: "add_loop timer prev current h =
     andThen (read32 h timer TIMER_COUNT) (\<lambda>t.
     andThen (read32 h current TIMER_COUNT) (\<lambda>c.
     andThen (if c \<le> t then get_next h current else Ok NULL) (\<lambda>n.
     if c \<le> t \<and> n \<noteq> NULL
     then andThen (write32 h timer TIMER_COUNT (t - c)) (\<lambda>h. add_loop timer current n h)
     else Ok (prev, current, h))))"

definition Timer_Add :: "CTimer \<Rightarrow> heap \<Rightarrow> addr \<Rightarrow> (CTimer \<times> heap) res" where
  "Timer_Add T h timer =
     (let T = DisableTimer T in
      andThen (add_loop timer NULL (Timer_Head T) h) (\<lambda>(prev, current, h).
      andThen (read32 h timer TIMER_COUNT) (\<lambda>t.
      andThen (read32 h current TIMER_COUNT) (\<lambda>c.
      andThen (if t < c
        then andThen (write32 h current TIMER_COUNT (c - t)) (\<lambda>h.
             andThen (set_next h timer current) (\<lambda>h. set_next h prev timer))
        else andThen (write32 h timer TIMER_COUNT (t - c)) (\<lambda>h.
             andThen (set_next h timer NULL) (\<lambda>h. set_next h current timer))) (\<lambda>h.
      Ok (EnableTimer T, h))))))"

partial_function (option) timer_purge_loop :: "bool \<Rightarrow> addr \<Rightarrow> TBuffers \<Rightarrow> heap \<Rightarrow> (fault + (TBuffers \<times> heap)) option" where
  [code]: "timer_purge_loop dbg dummy p h =
     andThen (get_next h dummy) (\<lambda>tmp.
     if tmp = NULL then Ok (p, h)
     else andThen (get_next h tmp) (\<lambda>n.
          andThen (set_next h dummy n) (\<lambda>h.
          andThen (RetBuffer dbg p h tmp) (\<lambda>r. timer_purge_loop dbg dummy (fst r) (snd r)))))"

definition Timer_Purge :: "bool \<Rightarrow> CTimer \<Rightarrow> TBuffers \<Rightarrow> heap \<Rightarrow> (CTimer \<times> TBuffers \<times> heap) res" where
  "Timer_Purge dbg T p h =
     (let T = DisableTimer T in
      andThen (timer_purge_loop dbg (Timer_Head T) p h) (\<lambda>(p, h). Ok (EnableTimer T, p, h)))"

text \<open>\<^verbatim>\<open>count *= timerRes/TimerResolution\<close> divides the two enum values as integers first.\<close>

definition scaled :: "CTimer \<Rightarrow> uint32 \<Rightarrow> TimerResolutionEnum \<Rightarrow> uint32" where
  "scaled T ticks timerRes =
     ticks * of_nat (resolution_ms timerRes div resolution_ms (TimerResolution T))"

definition Timer_StartTimer :: "CTimer \<Rightarrow> heap \<Rightarrow> addr \<Rightarrow> uint8 \<Rightarrow> uint32 \<Rightarrow> TimerResolutionEnum
    \<Rightarrow> (CTimer \<times> heap) res" where
  "Timer_StartTimer T h timerMessage mailBoxId ticks timerRes =
     andThen (throwIf (ticks = 0) 0x21000403) (\<lambda>_.
     let ticks = scaled T ticks timerRes in
     andThen (write32 h timerMessage TIMER_COUNT ticks) (\<lambda>h.
     andThen (write8 h timerMessage (off MSG_FROM_AUTOMATE) 0) (\<lambda>h.
     andThen (write8 h timerMessage TIMER_MBX_ID mailBoxId) (\<lambda>h.
     Timer_Add T h timerMessage))))"

definition Timer_StopTimer :: "heap \<Rightarrow> addr \<Rightarrow> heap res" where
  "Timer_StopTimer h timerMessage =
     (if timerMessage = NULL then Ok h else write16 h timerMessage (off MSG_CODE) DISCARDED)"

definition read16 :: "heap \<Rightarrow> addr \<Rightarrow> nat \<Rightarrow> uint16 res" where
  "read16 h a i = andThen (get_bytes h a) (\<lambda>bs. GetUint16 bs i)"

text \<open>\<^verbatim>\<open>memcpy\<close> of \<open>n\<close> bytes from the start of one block to the start of another.\<close>

definition copy_block :: "heap \<Rightarrow> addr \<Rightarrow> addr \<Rightarrow> nat \<Rightarrow> heap res" where
  "copy_block h dst src n =
     andThen (get_bytes h src) (\<lambda>s.
     if length s < n then Fault MemFault
     else on_bytes h dst (\<lambda>d. if length d < n then Fault MemFault else Ok (take n s @ drop n d)))"

definition RestartTimer :: "bool \<Rightarrow> CTimer \<Rightarrow> TBuffers \<Rightarrow> heap \<Rightarrow> addr \<Rightarrow> uint32 \<Rightarrow> TimerResolutionEnum
    \<Rightarrow> (addr \<times> CTimer \<times> TBuffers \<times> heap) res" where
  "RestartTimer dbg T p h timerMessage ticks timerRes =
     andThen (throwIf (ticks = 0) 0x21000406) (\<lambda>_.
     andThen (throwIf (timerMessage = NULL) 0x21000407) (\<lambda>_.
     andThen (read16 h timerMessage (off MSG_CODE)) (\<lambda>code.
     andThen (throwIf (code = DISCARDED) 0x21090408) (\<lambda>_.
     let ticks = scaled T ticks timerRes in
     andThen (read16 h timerMessage (off MSG_LENGTH)) (\<lambda>len.
     andThen (GetBuffer dbg p h (of_nat MSG_HEADER_LENGTH + ucast len)) (\<lambda>(tmp, p, h).
     andThen (on_bytes h tmp (\<lambda>bs. if length bs < MSG_HEADER_LENGTH then Fault MemFault
        else Ok (replicate MSG_HEADER_LENGTH 0 @ drop MSG_HEADER_LENGTH bs))) (\<lambda>h.
     andThen (copy_block h tmp timerMessage (MSG_HEADER_LENGTH + unat len)) (\<lambda>h.
     andThen (write32 h tmp TIMER_COUNT ticks) (\<lambda>h.
     andThen (Timer_Add T h tmp) (\<lambda>(T, h).
     andThen (Timer_StopTimer h timerMessage) (\<lambda>h.
     Ok (tmp, T, p, h))))))))))))"

definition TimerRunning :: "heap \<Rightarrow> addr \<Rightarrow> bool res" where
  "TimerRunning h timerMessage =
     andThen (throwIf (timerMessage = NULL) 0x21000409) (\<lambda>_.
     andThen (read16 h timerMessage (off MSG_CODE)) (\<lambda>code. Ok (code \<noteq> DISCARDED)))"

definition Timer_IsEmpty :: "CTimer \<Rightarrow> heap \<Rightarrow> bool res" where
  "Timer_IsEmpty T h = andThen (get_next h (Timer_Head T)) (\<lambda>n. Ok (n = NULL))"

text \<open>The interrupt handler: the loop posts every timer whose count is zero.\<close>

partial_function (option) expire_loop :: "win32 \<Rightarrow> addr \<Rightarrow> TPostOffice \<Rightarrow> heap \<Rightarrow> (fault + (TPostOffice \<times> heap)) option" where
  [code]: "expire_loop w dummy po h =
     andThen (get_next h dummy) (\<lambda>tmp.
     andThen (read32 h tmp TIMER_COUNT) (\<lambda>c.
     if c = 0
     then andThen (get_next h tmp) (\<lambda>n.
          andThen (set_next h dummy n) (\<lambda>h.
          andThen (read8 h tmp TIMER_MBX_ID) (\<lambda>mbx.
          andThen (PO_Add w po h mbx tmp) (\<lambda>r.
          andThen (get_next (snd r) dummy) (\<lambda>n.
          if n = NULL then Ok (fst r, snd r) else expire_loop w dummy (fst r) (snd r))))))
     else Ok (po, h)))"

definition TimerIntHandler :: "win32 \<Rightarrow> CTimer \<Rightarrow> TPostOffice \<Rightarrow> heap \<Rightarrow> (TPostOffice \<times> heap) res" where
  "TimerIntHandler w T po h =
     andThen (get_next h (Timer_Head T)) (\<lambda>tmp.
     if tmp \<noteq> NULL
     then andThen (read32 h tmp TIMER_COUNT) (\<lambda>c.
          andThen (write32 h tmp TIMER_COUNT (c - 1)) (\<lambda>h.
          expire_loop w (Timer_Head T) po h))
     else Ok (po, h))"

section \<open>The delta list, abstractly\<close>

text \<open>
  A running timer with the ticks it comes after its predecessor. \<open>dinsert\<close> inserts a timer
  that expires \<open>c\<close> ticks after the start of the list; \<open>deadlines\<close> are the ticks to expiry.
\<close>

fun dinsert :: "nat \<Rightarrow> addr \<Rightarrow> (nat \<times> addr) list \<Rightarrow> (nat \<times> addr) list" where
  "dinsert c a [] = [(c, a)]"
| "dinsert c a ((d, b) # ds) =
     (if c < d then (c, a) # (d - c, b) # ds else (d, b) # dinsert (c - d) a ds)"

fun deadlines :: "nat \<Rightarrow> (nat \<times> addr) list \<Rightarrow> (nat \<times> addr) list" where
  "deadlines t [] = []"
| "deadlines t ((d, a) # ds) = (t + d, a) # deadlines (t + d) ds"

text \<open>The abstract timer queue: by deadline, those with equal deadlines in order of starting.\<close>

fun queue_insert :: "nat \<times> addr \<Rightarrow> (nat \<times> addr) list \<Rightarrow> (nat \<times> addr) list" where
  "queue_insert x [] = [x]"
| "queue_insert x (y # ys) = (if fst x < fst y then x # y # ys else y # queue_insert x ys)"

lemma deadlines_dinsert:
  "deadlines t (dinsert c a ds) = queue_insert (t + c, a) (deadlines t ds)"
proof (induction c a ds arbitrary: t rule: dinsert.induct)
  case (2 c a d b ds)
  then show ?case
    using 2 [of "t + d"] by (cases "c < d") auto
qed simp

lemma sorted_deadlines: "sorted (map fst (deadlines t ds))"
proof (induction ds arbitrary: t)
  case (Cons x ds)
  have "t \<le> u" if "u \<in> set (map fst (deadlines t ds))" for t u and ds :: "(nat \<times> addr) list"
    using that
  proof (induction ds arbitrary: t)
    case (Cons x ds)
    then show ?case by (cases x) fastforce
  qed simp
  then show ?case using Cons by (cases x) auto
qed simp

text \<open>One tick: the first count goes down by one, and the timers at zero expire.\<close>

definition after_tick :: "(nat \<times> addr) list \<Rightarrow> (nat \<times> addr) list" where
  "after_tick ds = (case ds of [] \<Rightarrow> [] | (d, a) # ds \<Rightarrow> (d - 1, a) # ds)"

definition expired :: "(nat \<times> addr) list \<Rightarrow> addr list" where
  "expired ds = map snd (takeWhile (\<lambda>x. fst x = 0) (after_tick ds))"

definition still_running :: "(nat \<times> addr) list \<Rightarrow> (nat \<times> addr) list" where
  "still_running ds = dropWhile (\<lambda>x. fst x = 0) (after_tick ds)"

definition positive :: "(nat \<times> addr) list \<Rightarrow> bool" where
  "positive ds \<longleftrightarrow> ds = [] \<or> 0 < fst (hd ds)"

lemma deadlines_shift: "deadlines (t + k) ds = map (\<lambda>(u, a). (u + k, a)) (deadlines t ds)"
proof (induction ds arbitrary: t)
  case (Cons x ds)
  obtain d a where x: "x = (d, a)" by (cases x)
  have eq: "t + k + d = t + d + k" by simp
  show ?case unfolding x deadlines.simps eq Cons [of "t + d"] by (simp add: eq)
qed simp

lemma deadlines_zeros:
  "deadlines 0 ds = map (\<lambda>a. (0, a)) (map snd (takeWhile (\<lambda>x. fst x = 0) ds))
     @ deadlines 0 (dropWhile (\<lambda>x. fst x = 0) ds)"
  by (induction ds) auto

lemma deadlines_after_tick:
  assumes "positive ds"
  shows "map (\<lambda>(u, a). (u + 1, a)) (deadlines 0 (after_tick ds)) = deadlines 0 ds"
proof (cases ds)
  case (Cons x xs)
  then obtain d a where "ds = (Suc d, a) # xs"
    using assms by (cases x; cases "fst x") (auto simp: positive_def)
  then show ?thesis
    using deadlines_shift [of d 1 xs] by (simp add: after_tick_def)
qed (simp add: after_tick_def)

lemma deadlines_ge: "x \<in> set (deadlines t ds) \<Longrightarrow> t \<le> fst x"
  by (induction ds arbitrary: t) fastforce+

text \<open>Exactly the timers with one tick to go expire; all others come one tick closer.\<close>

lemma tick_deadlines:
  assumes "positive ds"
  shows "deadlines 0 ds = map (\<lambda>a. (1, a)) (expired ds) @
    map (\<lambda>(u, a). (u + 1, a)) (deadlines 0 (still_running ds))"
  using deadlines_after_tick [OF assms] deadlines_zeros [of "after_tick ds"]
  by (simp add: expired_def still_running_def comp_def)

lemma positive_still_running: "positive (still_running ds)"
  using hd_dropWhile [of "\<lambda>x. fst x = 0" "after_tick ds"]
  unfolding positive_def still_running_def by blast

lemma positive_dinsert: "0 < c \<Longrightarrow> positive ds \<Longrightarrow> positive (dinsert c a ds)"
  by (cases ds) (auto simp: positive_def split: if_splits)

section \<open>Links and counts\<close>

definition next_of :: "heap \<Rightarrow> addr \<Rightarrow> addr" where
  "next_of h a = (case h a of None \<Rightarrow> NULL | Some b \<Rightarrow> BUFF_NEXT b)"

definition count_of :: "heap \<Rightarrow> addr \<Rightarrow> uint32" where
  "count_of h a = (case h a of None \<Rightarrow> 0 | Some b \<Rightarrow> le32 (bytes b) TIMER_COUNT)"

definition has_count :: "heap \<Rightarrow> addr \<Rightarrow> bool" where
  "has_count h a \<longleftrightarrow> a \<noteq> NULL \<and> (case h a of None \<Rightarrow> False | Some b \<Rightarrow> TIMER_COUNT + 4 \<le> length (bytes b))"

text \<open>\<open>retimed S h h'\<close>: only links and timer counts of blocks of \<open>S\<close> differ.\<close>

definition same_but_timer :: "block option \<Rightarrow> block option \<Rightarrow> bool" where
  "same_but_timer x y \<longleftrightarrow> map_option BUFF_CODE x = map_option BUFF_CODE y \<and>
     map_option (length \<circ> bytes) x = map_option (length \<circ> bytes) y \<and>
     (\<forall>i. i < TIMER_COUNT \<or> TIMER_COUNT + 4 \<le> i \<longrightarrow>
        map_option (\<lambda>b. bytes b ! i) x = map_option (\<lambda>b. bytes b ! i) y)"

definition retimed :: "addr set \<Rightarrow> heap \<Rightarrow> heap \<Rightarrow> bool" where
  "retimed S h h' \<longleftrightarrow> (\<forall>a. same_but_timer (h a) (h' a) \<and> (a \<notin> S \<longrightarrow> h' a = h a))"

lemma same_but_timer_trans: "same_but_timer x y \<Longrightarrow> same_but_timer y z \<Longrightarrow> same_but_timer x z"
  by (simp add: same_but_timer_def)

lemma retimed_refl [simp]: "retimed S h h"
  by (simp add: retimed_def same_but_timer_def)

lemma retimed_trans:
  "retimed S h h' \<Longrightarrow> retimed T h' h'' \<Longrightarrow> S \<subseteq> U \<Longrightarrow> T \<subseteq> U \<Longrightarrow> retimed U h h''"
  unfolding retimed_def by (metis same_but_timer_trans subsetD)

lemma retimed_out: "retimed S h h' \<Longrightarrow> a \<notin> S \<Longrightarrow> h' a = h a"
  by (simp add: retimed_def)

lemma retimed_has_count: "retimed S h h' \<Longrightarrow> has_count h' a = has_count h a"
proof -
  assume "retimed S h h'"
  then have "same_but_timer (h a) (h' a)" by (simp add: retimed_def)
  then show ?thesis by (cases "h a"; cases "h' a") (auto simp: same_but_timer_def has_count_def)
qed

lemma has_countE:
  assumes "has_count h a"
  obtains b where "a \<noteq> NULL" "h a = Some b" "10 \<le> length (bytes b)" "block_at h a = Ok b"
  using assms by (auto simp: has_count_def TIMER_COUNT_def split: option.splits)

lemma read_count: "has_count h a \<Longrightarrow> read32 h a TIMER_COUNT = Ok (count_of h a)"
  by (auto simp: read32_def get_bytes_def count_of_def TIMER_COUNT_def elim!: has_countE)

lemma get_next_of: "has_count h a \<Longrightarrow> get_next h a = Ok (next_of h a)"
  by (auto simp: get_next_def next_of_def elim!: has_countE)

lemma write_count:
  assumes "has_count h a"
  shows "\<exists>h'. write32 h a TIMER_COUNT v = Ok h' \<and> retimed {a} h h' \<and> next_of h' = next_of h \<and>
    count_of h' = (count_of h)(a := v)"
proof -
  obtain b where b: "a \<noteq> NULL" "h a = Some b" "10 \<le> length (bytes b)" "block_at h a = Ok b"
    using has_countE [OF assms] .
  let ?h = "h(a \<mapsto> b\<lparr>bytes := put32 (bytes b) TIMER_COUNT v\<rparr>)"
  have "write32 h a TIMER_COUNT v = Ok ?h"
    using b by (simp add: write32_def on_bytes_def TIMER_COUNT_def)
  moreover have "retimed {a} h ?h"
    using b by (auto simp: retimed_def same_but_timer_def TIMER_COUNT_def)
  ultimately show ?thesis
    using b by (intro exI [of _ ?h]) (auto simp: next_of_def count_of_def TIMER_COUNT_def fun_eq_iff)
qed

lemma write_next:
  assumes "has_count h a"
  shows "\<exists>h'. set_next h a v = Ok h' \<and> retimed {a} h h' \<and> next_of h' = (next_of h)(a := v) \<and>
    count_of h' = count_of h"
proof -
  obtain b where b: "a \<noteq> NULL" "h a = Some b" "block_at h a = Ok b"
    using has_countE [OF assms] .
  let ?h = "h(a \<mapsto> b\<lparr>BUFF_NEXT := v\<rparr>)"
  have "set_next h a v = Ok ?h"
    using b by (simp add: set_next_def modify_def)
  moreover have "retimed {a} h ?h"
    using b by (auto simp: retimed_def same_but_timer_def)
  ultimately show ?thesis
    using b by (intro exI [of _ ?h]) (auto simp: next_of_def count_of_def fun_eq_iff)
qed

text \<open>Paths of the successor function, and linking a block into one.\<close>

fun path :: "(addr \<Rightarrow> addr) \<Rightarrow> addr \<Rightarrow> addr list \<Rightarrow> bool" where
  "path n p [] = (p = NULL)"
| "path n p (x # xs) = (p = x \<and> x \<noteq> NULL \<and> path n (n x) xs)"

lemma path_cong: "(\<And>x. x \<in> set xs \<Longrightarrow> n' x = n x) \<Longrightarrow> path n' p xs = path n p xs"
  by (induction xs arbitrary: p) auto

lemma path_append_Cons: "path n p (us @ x # vs) \<Longrightarrow> n x = head_or_null vs \<and> x \<noteq> NULL"
  by (induction us arbitrary: p) (cases vs; auto)+

lemma path_insert:
  assumes "path n p (us @ x # vs)" "a \<notin> set (us @ x # vs)" "a \<noteq> NULL" "distinct (us @ x # vs)"
  shows "path (n(a := head_or_null vs, x := a)) p (us @ x # a # vs)"
  using assms
proof (induction us arbitrary: p)
  case Nil
  define m where "m = n(a := head_or_null vs, x := a)"
  have m: "m x = a" "m a = head_or_null vs" using Nil(2) by (auto simp: m_def)
  have "path m q vs = path n q vs" for q
    by (rule path_cong) (use Nil in \<open>auto simp: m_def\<close>)
  moreover have "path n (n x) vs" "p = x" "x \<noteq> NULL" using Nil(1) by simp_all
  moreover have "n x = head_or_null vs"
    by (rule conjunct1 [OF path_append_Cons [OF Nil(1)]])
  ultimately have "path m p (x # a # vs)"
    unfolding path.simps m using Nil(3) by simp
  then show ?case unfolding m_def append_Nil .
next
  case (Cons u us)
  have "path (n(a := head_or_null vs, x := a)) (n u) (us @ x # a # vs)"
    by (rule Cons.IH) (use Cons.prems in auto)
  moreover have "(n(a := head_or_null vs, x := a)) u = n u"
    using Cons.prems by auto
  ultimately show ?case using Cons.prems(1) by (simp del: fun_upd_apply)
qed

section \<open>Starting a timer inserts it into the delta list\<close>

definition timer_rep :: "CTimer \<Rightarrow> heap \<Rightarrow> addr list \<Rightarrow> bool" where
  "timer_rep T h ts \<longleftrightarrow> path (next_of h) (Timer_Head T) (Timer_Head T # ts) \<and>
     distinct (Timer_Head T # ts) \<and> (\<forall>a \<in> set (Timer_Head T # ts). has_count h a) \<and>
     count_of h (Timer_Head T) = 0"

text \<open>The constructor: only the dummy message, in the block it got.\<close>

lemma CTimer_new_ok:
  assumes "h dummy = Some b" "TIMER_COUNT + 4 \<le> length (bytes b)" "dummy \<noteq> NULL"
  shows "\<exists>b'. CTimer_new dummy True True True res h = Ok (\<lparr>TimerResolution = res, CsTimer = 0, Timer_Head = dummy\<rparr>, h(dummy \<mapsto> b')) \<and>
    timer_rep \<lparr>TimerResolution = res, CsTimer = 0, Timer_Head = dummy\<rparr> (h(dummy \<mapsto> b')) []"
proof -
  let ?b = "b\<lparr>BUFF_PREV := NULL, BUFF_NEXT := NULL, bytes := put32 (bytes b) TIMER_COUNT 0\<rparr>"
  have "CTimer_new dummy True True True res h = Ok (\<lparr>TimerResolution = res, CsTimer = 0, Timer_Head = dummy\<rparr>, h(dummy \<mapsto> ?b))"
    using assms by (simp add: CTimer_new_def set_prev_def set_next_def modify_def block_at_def write32_def on_bytes_def)
  then show ?thesis
    using assms by (intro exI [of _ ?b]) (simp add: timer_rep_def next_of_def count_of_def has_count_def)
qed

definition deltas :: "heap \<Rightarrow> addr list \<Rightarrow> (nat \<times> addr) list" where
  "deltas h ts = map (\<lambda>a. (unat (count_of h a), a)) ts"

lemma deltas_simps [simp]:
  "deltas h [] = []" "deltas h (a # ts) = (unat (count_of h a), a) # deltas h ts"
  "deltas h (ts @ us) = deltas h ts @ deltas h us"
  by (simp_all add: deltas_def)

lemma deltas_cong: "(\<And>x. x \<in> set ts \<Longrightarrow> count_of h' x = count_of h x) \<Longrightarrow> deltas h' ts = deltas h ts"
  by (simp add: deltas_def)

lemma map_snd_deltas [simp]: "map snd (deltas h ts) = ts"
  by (simp add: deltas_def comp_def)

lemma unat_diff: "c \<le> t \<Longrightarrow> unat (t - c) = unat t - unat (c :: uint32)"
  by (simp add: unat_sub_if_size word_le_nat_alt)

definition stops_at :: "heap \<Rightarrow> addr \<Rightarrow> addr \<Rightarrow> addr list \<Rightarrow> bool" where
  "stops_at h a cur vs \<longleftrightarrow> count_of h a < count_of h cur \<or> vs = []"

lemma add_loop_ok:
  assumes "path (next_of h) p (us @ cur # vs)" "\<forall>x \<in> set (cur # vs). has_count h x"
    and "has_count h a" "a \<notin> set (us @ cur # vs)"
  shows "\<exists>ms cur' vs' h'. add_loop a prev cur h = Ok (if ms = [] then prev else last ms, cur', h') \<and>
    cur # vs = ms @ cur' # vs' \<and> retimed {a} h h' \<and> next_of h' = next_of h \<and>
    (\<forall>x. x \<noteq> a \<longrightarrow> count_of h' x = count_of h x) \<and> stops_at h' a cur' vs' \<and>
    dinsert (unat (count_of h a)) a (deltas h (cur # vs)) =
      deltas h ms @ dinsert (unat (count_of h' a)) a (deltas h (cur' # vs'))"
  using assms
proof (induction vs arbitrary: us cur prev h)
  case Nil
  have n: "next_of h cur = NULL" using path_append_Cons [OF Nil(1)] by simp
  have "add_loop a prev cur h = Ok (prev, cur, h)"
    using Nil n by (subst add_loop.simps) (simp add: read_count get_next_of)
  then show ?case
    by (intro exI [of _ "[]"] exI [of _ cur] exI [of _ h]) (simp add: stops_at_def)
next
  case (Cons v vs)
  let ?t = "count_of h a" and ?c = "count_of h cur"
  have n: "next_of h cur = v" using path_append_Cons [OF Cons.prems(1)] by simp
  have v: "v \<noteq> NULL" using path_append_Cons [of "next_of h" p "us @ [cur]" v vs] Cons.prems(1) by simp
  show ?case
  proof (cases "?c \<le> ?t")
    case False
    then have "add_loop a prev cur h = Ok (prev, cur, h)"
      using Cons.prems by (subst add_loop.simps) (simp add: read_count)
    then show ?thesis
      using False by (intro exI [of _ "[]"] exI [of _ cur] exI [of _ "v # vs"] exI [of _ h])
        (simp add: stops_at_def)
  next
    case True
    obtain h1 where w: "write32 h a TIMER_COUNT (?t - ?c) = Ok h1" "retimed {a} h h1"
      "next_of h1 = next_of h" "count_of h1 = (count_of h)(a := ?t - ?c)"
      using write_count [OF Cons.prems(3)] by blast
    have step: "add_loop a prev cur h = add_loop a cur v h1"
      using Cons.prems True n v w(1) by (subst add_loop.simps) (simp add: read_count get_next_of)
    have same: "\<And>x. x \<noteq> a \<Longrightarrow> count_of h1 x = count_of h x" using w(4) by simp
    have "\<exists>ms cur' vs' h'. add_loop a cur v h1 = Ok (if ms = [] then cur else last ms, cur', h') \<and>
      v # vs = ms @ cur' # vs' \<and> retimed {a} h1 h' \<and> next_of h' = next_of h1 \<and>
      (\<forall>x. x \<noteq> a \<longrightarrow> count_of h' x = count_of h1 x) \<and> stops_at h' a cur' vs' \<and>
      dinsert (unat (count_of h1 a)) a (deltas h1 (v # vs)) =
        deltas h1 ms @ dinsert (unat (count_of h' a)) a (deltas h1 (cur' # vs'))"
    proof (rule Cons.IH)
      show "path (next_of h1) p ((us @ [cur]) @ v # vs)" using Cons.prems(1) w(3) by simp
    qed (use Cons.prems retimed_has_count [OF w(2)] in auto)
    then obtain ms cur' vs' h' where i: "add_loop a cur v h1 = Ok (if ms = [] then cur else last ms, cur', h')"
      "v # vs = ms @ cur' # vs'" "retimed {a} h1 h'" "next_of h' = next_of h1"
      "\<forall>x. x \<noteq> a \<longrightarrow> count_of h' x = count_of h1 x" "stops_at h' a cur' vs'"
      "dinsert (unat (count_of h1 a)) a (deltas h1 (v # vs)) =
        deltas h1 ms @ dinsert (unat (count_of h' a)) a (deltas h1 (cur' # vs'))"
      by blast
    have "set ms \<union> set (cur' # vs') = set (v # vs)" using i(2) by (metis set_append)
    then have "a \<notin> set ms" "a \<notin> set (cur' # vs')" "a \<notin> set (v # vs)" using Cons.prems(4) by auto
    then have d: "deltas h1 ms = deltas h ms" "deltas h1 (cur' # vs') = deltas h (cur' # vs')"
      "deltas h1 (v # vs) = deltas h (v # vs)"
      using same by (metis deltas_cong)+
    have "dinsert (unat ?t) a (deltas h (cur # v # vs)) =
        (unat ?c, cur) # dinsert (unat (count_of h1 a)) a (deltas h (v # vs))"
      using True w(4) by (simp add: word_le_nat_alt unat_diff)
    also have "\<dots> = deltas h (cur # ms) @ dinsert (unat (count_of h' a)) a (deltas h (cur' # vs'))"
      using i(7) unfolding d by simp
    finally have D: "dinsert (unat ?t) a (deltas h (cur # v # vs)) =
      deltas h (cur # ms) @ dinsert (unat (count_of h' a)) a (deltas h (cur' # vs'))" .
    have rt: "retimed {a} h h'" by (rule retimed_trans [OF w(2) i(3)]) auto
    show ?thesis
      using step i w(3) same rt D
      by (intro exI [of _ "cur # ms"] exI [of _ cur'] exI [of _ vs'] exI [of _ h']) auto
  qed
qed

text \<open>Linking \<open>a\<close> in behind \<open>p\<close>, after the counts were settled in \<open>h2\<close>.\<close>

lemma link_behind:
  assumes path: "path (next_of h2) q (us @ p # vs)" and d: "distinct (us @ p # vs)" "a \<notin> set (us @ p # vs)"
    and hc: "has_count h2 a" "has_count h2 p"
  shows "\<exists>h4. andThen (set_next h2 a (head_or_null vs)) (\<lambda>h. set_next h p a) = Ok h4 \<and>
    path (next_of h4) q (us @ p # a # vs) \<and> count_of h4 = count_of h2 \<and> retimed {a, p} h2 h4"
proof -
  obtain h3 where 3: "set_next h2 a (head_or_null vs) = Ok h3" "retimed {a} h2 h3"
    "next_of h3 = (next_of h2)(a := head_or_null vs)" "count_of h3 = count_of h2"
    using write_next [OF hc(1)] by blast
  obtain h4 where 4: "set_next h3 p a = Ok h4" "retimed {p} h3 h4"
    "next_of h4 = (next_of h3)(p := a)" "count_of h4 = count_of h3"
    using write_next [of h3 p] hc(2) retimed_has_count [OF 3(2)] by blast
  have "a \<noteq> NULL" using hc(1) by (auto elim: has_countE)
  then have "path (next_of h4) q (us @ p # a # vs)"
    unfolding 4(3) 3(3) by (intro path_insert [OF path d(2) _ d(1)])
  moreover have "retimed {a, p} h2 h4" by (rule retimed_trans [OF 3(2) 4(2)]) auto
  ultimately show ?thesis using 3 4 by simp
qed

lemma Timer_Add_ok:
  assumes rep: "timer_rep T h ts" and a: "has_count h a" "a \<notin> set (Timer_Head T # ts)"
  shows "\<exists>h' ts'. Timer_Add T h a = Ok (T, h') \<and> timer_rep T h' ts' \<and>
    deltas h' ts' = dinsert (unat (count_of h a)) a (deltas h ts) \<and>
    retimed (insert a (set (Timer_Head T # ts))) h h'"
proof -
  let ?H = "Timer_Head T" and ?S = "insert a (set (Timer_Head T # ts))"
  have path: "path (next_of h) ?H ([] @ ?H # ts)" and dist: "distinct (?H # ts)"
    and hc: "\<forall>x \<in> set (?H # ts). has_count h x" and H0: "count_of h ?H = 0"
    using rep by (auto simp: timer_rep_def)
  have lock: "Timer_Head (DisableTimer T) = ?H" "EnableTimer (DisableTimer T) = T"
    by (simp_all add: DisableTimer_def EnableTimer_def)
  have a': "a \<notin> set ([] @ ?H # ts)" using a(2) by simp
  obtain ms cur vs h1 where l: "add_loop a NULL ?H h = Ok (if ms = [] then NULL else last ms, cur, h1)"
    "?H # ts = ms @ cur # vs" "retimed {a} h h1" "next_of h1 = next_of h"
    "\<forall>x. x \<noteq> a \<longrightarrow> count_of h1 x = count_of h x" "stops_at h1 a cur vs"
    "dinsert (unat (count_of h a)) a (deltas h (?H # ts)) =
      deltas h ms @ dinsert (unat (count_of h1 a)) a (deltas h (cur # vs))"
    using add_loop_ok [OF path hc a(1) a', of NULL] by blast
  let ?t = "count_of h1 a" and ?c = "count_of h1 cur"
  have memb: "set (?H # ts) = set ms \<union> set (cur # vs)" using l(2) by simp
  have cur: "cur \<noteq> a" "a \<notin> set ms" "a \<notin> set vs" using a(2) memb by auto
  have dist': "distinct (ms @ cur # vs)" using dist l(2) by simp
  have hc1: "has_count h1 x" if "x \<in> insert a (set (ms @ cur # vs))" for x
    using that hc a(1) retimed_has_count [OF l(3)] l(2) by auto
  have path1: "path (next_of h1) ?H (ms @ cur # vs)" using path l(2,4) by simp
  have D: "(0, ?H) # dinsert (unat (count_of h a)) a (deltas h ts) =
      deltas h ms @ dinsert (unat ?t) a ((unat ?c, cur) # deltas h vs)"
    using l(5,7) H0 cur(1) by simp
  show ?thesis
  proof (cases "?t < ?c")
    case True
    have "ms \<noteq> []"
    proof
      assume "ms = []"
      then have "cur = ?H" using l(2) by simp
      then show False using True H0 l(5) cur(1) by simp
    qed
    then obtain us p where ms: "ms = us @ [p]" by (cases ms rule: rev_cases) auto
    obtain h2 where 2: "write32 h1 cur TIMER_COUNT (?c - ?t) = Ok h2" "retimed {cur} h1 h2"
      "next_of h2 = next_of h1" "count_of h2 = (count_of h1)(cur := ?c - ?t)"
      using write_count [of h1 cur] hc1 by auto
    have path2: "path (next_of h2) ?H (us @ p # cur # vs)"
      using path1 2(3) ms by simp
    have hc2: "has_count h2 a" "has_count h2 p"
      using hc1 ms retimed_has_count [OF 2(2)] by auto
    obtain h4 where 4: "andThen (set_next h2 a cur) (\<lambda>h. set_next h p a) = Ok h4"
      "path (next_of h4) ?H (us @ p # a # cur # vs)" "count_of h4 = count_of h2" "retimed {a, p} h2 h4"
      using link_behind [OF path2 _ _ hc2] dist' ms cur by auto
    have "retimed ?S h h2" by (rule retimed_trans [OF l(3) 2(2)]) (use memb in auto)
    then have rt: "retimed ?S h h4" by (rule retimed_trans [OF _ 4(4)]) (use memb ms in auto)
    obtain ts' where ts': "us @ p # a # cur # vs = ?H # ts'" using 4(2) by (cases us) auto
    have add: "Timer_Add T h a = Ok (T, h4)"
      using l(1) 2(1) 4(1) True ms hc1 lock by (simp add: Timer_Add_def Let_def read_count)
    have "set (?H # ts') = insert a (set (?H # ts))" "distinct (?H # ts')"
      using ts' [symmetric] memb ms dist' cur by auto
    moreover have "?H \<in> set ms" using l(2) \<open>ms \<noteq> []\<close> by (cases ms) auto
    then have "count_of h4 ?H = 0" using H0 l(5) 2(4) 4(3) cur dist' by auto
    ultimately have "timer_rep T h4 ts'"
      using 4(2) ts' hc a(1) retimed_has_count [OF rt] by (simp add: timer_rep_def)
    have "count_of h4 a = ?t" "count_of h4 cur = ?c - ?t"
      using 2(4) 4(3) cur(1) by simp_all
    moreover have oth: "count_of h4 x = count_of h x" if "x \<noteq> a" "x \<noteq> cur" for x
      using that 2(4) 4(3) l(5) by simp
    have "deltas h4 ms = deltas h ms" "deltas h4 vs = deltas h vs"
      by (rule deltas_cong, rule oth, use cur dist' in auto)+
    ultimately have "deltas h4 (us @ p # a # cur # vs) =
        deltas h ms @ (unat ?t, a) # (unat ?c - unat ?t, cur) # deltas h vs"
      using True ms by (simp add: unat_diff less_imp_le)
    then have "deltas h4 (?H # ts') = (0, ?H) # dinsert (unat (count_of h a)) a (deltas h ts)"
      using D True ts' by (simp add: word_less_nat_alt)
    then have "deltas h4 ts' = dinsert (unat (count_of h a)) a (deltas h ts)" by simp
    with add rt \<open>timer_rep T h4 ts'\<close> show ?thesis by blast
  next
    case False
    then have vs: "vs = []" using l(6) by (simp add: stops_at_def)
    obtain h2 where 2: "write32 h1 a TIMER_COUNT (?t - ?c) = Ok h2" "retimed {a} h1 h2"
      "next_of h2 = next_of h1" "count_of h2 = (count_of h1)(a := ?t - ?c)"
      using write_count [of h1 a] hc1 by auto
    have path2: "path (next_of h2) ?H (ms @ cur # [])"
      using path1 2(3) vs by simp
    have hc2: "has_count h2 a" "has_count h2 cur"
      using hc1 retimed_has_count [OF 2(2)] by auto
    obtain h4 where 4: "andThen (set_next h2 a NULL) (\<lambda>h. set_next h cur a) = Ok h4"
      "path (next_of h4) ?H (ms @ cur # a # [])" "count_of h4 = count_of h2" "retimed {a, cur} h2 h4"
      using link_behind [OF path2 _ _ hc2] dist' vs cur by auto
    have "retimed ?S h h2" by (rule retimed_trans [OF l(3) 2(2)]) auto
    then have rt: "retimed ?S h h4" by (rule retimed_trans [OF _ 4(4)]) (use memb in auto)
    obtain ts' where ts': "ms @ cur # a # [] = ?H # ts'" using 4(2) by (cases ms) auto
    have add: "Timer_Add T h a = Ok (T, h4)"
      using l(1) 2(1) 4(1) False hc1 lock by (simp add: Timer_Add_def Let_def read_count)
    have "set (?H # ts') = insert a (set (?H # ts))" "distinct (?H # ts')"
      using ts' [symmetric] memb vs dist' cur by auto
    moreover have "a \<noteq> ?H" using a(2) by auto
    then have "count_of h4 ?H = 0" using H0 l(5) 2(4) 4(3) by simp
    ultimately have "timer_rep T h4 ts'"
      using 4(2) ts' hc a(1) retimed_has_count [OF rt] by (simp add: timer_rep_def)
    have "count_of h4 a = ?t - ?c" using 2(4) 4(3) by simp
    moreover have oth: "count_of h4 x = count_of h x" if "x \<noteq> a" for x
      using that 2(4) 4(3) l(5) by simp
    have "deltas h4 ms = deltas h ms"
      by (rule deltas_cong, rule oth) (use cur in auto)
    moreover have "count_of h4 cur = ?c" using oth l(5) cur(1) by simp
    ultimately have "deltas h4 (ms @ cur # a # []) = deltas h ms @ [(unat ?c, cur), (unat ?t - unat ?c, a)]"
      using False by (simp add: unat_diff)
    then have "deltas h4 (?H # ts') = (0, ?H) # dinsert (unat (count_of h a)) a (deltas h ts)"
      using D False vs ts' by (simp add: word_less_nat_alt)
    then have "deltas h4 ts' = dinsert (unat (count_of h a)) a (deltas h ts)" by simp
    with add rt \<open>timer_rep T h4 ts'\<close> show ?thesis by blast
  qed
qed

section \<open>The interrupt handler posts the expired timers\<close>

definition mbx_of :: "heap \<Rightarrow> addr \<Rightarrow> uint8" where
  "mbx_of h a = (case h a of None \<Rightarrow> 0 | Some b \<Rightarrow> bytes b ! TIMER_MBX_ID)"

definition apart :: "addr list list \<Rightarrow> addr list list \<Rightarrow> addr \<Rightarrow> bool" where
  "apart mss xss a \<longleftrightarrow> (\<forall>j < length mss. a \<notin> set (mss ! j)) \<and> a \<notin> set (concat xss)"

definition timers_ok :: "TBuffers \<Rightarrow> heap \<Rightarrow> addr list list \<Rightarrow> addr list list \<Rightarrow> addr list \<Rightarrow> bool" where
  "timers_ok p h mss xss ts \<longleftrightarrow> (\<forall>a \<in> set ts. has_header p h a \<and> unat (mbx_of h a) < length mss \<and> apart mss xss a)"

definition post_timer :: "heap \<Rightarrow> addr \<Rightarrow> addr list list \<Rightarrow> addr list list" where
  "post_timer h a mss = posted mss (unat (mbx_of h a)) a"

lemma length_posted [simp]: "length (posted mss i a) = length mss"
  by (simp add: posted_def)

lemma office_rep_local:
  assumes rep: "office_rep po p h mss xss"
    and same: "\<And>x. \<not> apart mss xss x \<Longrightarrow> h' x = h x"
  shows "office_rep po p h' mss xss"
proof -
  have m: "h' x = h x" if "i < length mss" "x \<in> set (mss ! i)" for i x
    using same that by (auto simp: apart_def)
  have x: "h' x = h x" if "x \<in> set (concat xss)" for x
    using same that by (auto simp: apart_def)
  have c: "h' x = h x" if "i < length xss" "x \<in> set (xss ! i)" for i x
    using x that nth_mem by (fastforce simp: set_concat)
  have "\<exists>q. Buffers p ! i = Some q \<and> que_rep q h' (xss ! i)" if i: "i < length xss" for i
  proof -
    obtain q where "Buffers p ! i = Some q" "que_rep q h (xss ! i)"
      using rep i unfolding office_rep_def pool_rep_def by blast
    then show ?thesis using c [OF i] que.rep_local by blast
  qed
  then have pool: "pool_rep p h' xss"
    using rep c by (simp add: office_rep_def pool_rep_def buffer_ok_def)
  have "\<exists>mb. MailBoxes po ! i = Some mb \<and> mail_inv mb p h' (mss ! i) xss" if i: "i < length mss" for i
  proof -
    obtain mb where mb: "MailBoxes po ! i = Some mb" "mail_inv mb p h (mss ! i) xss"
      using rep i unfolding office_rep_def by blast
    then have "mbx_rep mb h' (mss ! i)"
      using mbx.rep_local [of mb h "mss ! i" h'] m [OF i] by (simp add: mail_inv_def)
    moreover have "has_header p h' a" if "a \<in> set (mss ! i)" for a
      using mb(2) m [OF i that] that by (simp add: mail_inv_def has_header_def in_use_def)
    ultimately show ?thesis using mb pool by (auto simp: mail_inv_def)
  qed
  then show ?thesis using rep pool by (simp add: office_rep_def)
qed

lemma timer_rep_local:
  assumes "timer_rep T h ts" "\<And>x. x \<in> set (Timer_Head T # ts) \<Longrightarrow> h' x = h x"
  shows "timer_rep T h' ts" and "deltas h' ts = deltas h ts"
proof -
  have "next_of h' x = next_of h x" "count_of h' x = count_of h x" "has_count h' x = has_count h x"
    if "x \<in> set (Timer_Head T # ts)" for x
    using assms(2) [OF that] by (simp_all add: next_of_def count_of_def has_count_def)
  then show "timer_rep T h' ts" "deltas h' ts = deltas h ts"
    using assms(1) path_cong [of "Timer_Head T # ts" "next_of h'" "next_of h"]
    by (auto simp: timer_rep_def deltas_def)
qed

lemma timer_rep_unlink:
  assumes rep: "timer_rep T h (t # ts)"
  shows "get_next h (Timer_Head T) = Ok t" "get_next h t = Ok (head_or_null ts)"
    "\<exists>h'. set_next h (Timer_Head T) (head_or_null ts) = Ok h' \<and> timer_rep T h' ts \<and>
       relinked {Timer_Head T} h h' \<and> count_of h' = count_of h"
proof -
  let ?H = "Timer_Head T"
  have p: "path (next_of h) ?H (?H # t # ts)" and d: "distinct (?H # t # ts)"
    and hc: "\<forall>a \<in> set (?H # t # ts). has_count h a" and c0: "count_of h ?H = 0"
    using rep by (simp_all add: timer_rep_def)
  have n: "next_of h t = head_or_null ts"
    using path_append_Cons [of "next_of h" ?H "[?H]" t ts] p by simp
  show "get_next h ?H = Ok t" "get_next h t = Ok (head_or_null ts)"
    using p hc n by (auto simp: get_next_of)
  obtain b where b: "?H \<noteq> NULL" "h ?H = Some b" using hc by (auto elim: has_countE)
  let ?h = "h(?H \<mapsto> b\<lparr>BUFF_NEXT := head_or_null ts\<rparr>)"
  have "set_next h ?H (head_or_null ts) = Ok ?h"
    using b by (simp add: set_next_def modify_def)
  moreover have "path (next_of ?h) q ts = path (next_of h) q ts" for q
    by (rule path_cong) (use d in \<open>auto simp: next_of_def\<close>)
  then have "path (next_of ?h) ?H (?H # ts)"
    using p n b by (simp add: next_of_def)
  moreover have cc: "count_of ?h = count_of h" using b by (auto simp: count_of_def fun_eq_iff)
  moreover have "\<forall>a \<in> set (?H # ts). has_count ?h a" using hc b by (auto simp: has_count_def)
  ultimately show "\<exists>h'. set_next h ?H (head_or_null ts) = Ok h' \<and> timer_rep T h' ts \<and>
      relinked {?H} h h' \<and> count_of h' = count_of h"
    using b d c0 relinked_upd_links(1) [of h ?H b "{?H}"]
    by (intro exI [of _ ?h]) (auto simp: timer_rep_def)
qed

lemma read_mbx: "has_header p h a \<Longrightarrow> read8 h a TIMER_MBX_ID = Ok (mbx_of h a)"
  by (auto simp: has_header_def read8_def get_bytes_def mbx_of_def TIMER_MBX_ID_def MSG_HEADER_LENGTH_def
      elim!: in_useE)

lemma mbx_of_relinked: "relinked S h h' \<Longrightarrow> mbx_of h' a = mbx_of h a"
proof -
  assume "relinked S h h'"
  then have "same_content (h a) (h' a)" by (simp add: relinked_def)
  then show ?thesis by (cases "h a"; cases "h' a") (auto simp: mbx_of_def)
qed

lemma apart_posted:
  "i < length mss \<Longrightarrow> apart (posted mss i a) xss x \<longleftrightarrow> apart mss xss x \<and> x \<noteq> a"
  unfolding apart_def posted_def by (auto simp: nth_list_update split: if_splits)

lemma count_of_relinked: "relinked S h h' \<Longrightarrow> count_of h' = count_of h"
proof
  fix a assume "relinked S h h'"
  then have "same_content (h a) (h' a)" by (simp add: relinked_def)
  then show "count_of h' a = count_of h a"
    by (cases "h a"; cases "h' a") (auto simp: count_of_def)
qed

text \<open>One timer posted: it moves from the list to its mailbox, the rest is as before.\<close>

lemma expire_step:
  assumes rep: "timer_rep T h (t # ts)" and off: "office_rep po p h mss xss"
    and ok: "timers_ok p h mss xss (t # ts)" and H: "apart mss xss (Timer_Head T)" and z: "count_of h t = 0"
  shows "\<exists>po' h'. expire_loop w (Timer_Head T) po h =
      (if ts = [] then Ok (po', h') else expire_loop w (Timer_Head T) po' h') \<and>
    timer_rep T h' ts \<and> office_rep po' p h' (post_timer h t mss) xss \<and>
    timers_ok p h' (post_timer h t mss) xss ts \<and> apart (post_timer h t mss) xss (Timer_Head T) \<and>
    relinked UNIV h h'"
proof -
  let ?H = "Timer_Head T" and ?i = "unat (mbx_of h t)"
  have t: "has_header p h t" "?i < length mss" "apart mss xss t" and dist: "distinct (?H # t # ts)"
    and hc: "has_count h t"
    using ok rep by (auto simp: timers_ok_def timer_rep_def)
  obtain h1 where u: "get_next h ?H = Ok t" "get_next h t = Ok (head_or_null ts)"
    "set_next h ?H (head_or_null ts) = Ok h1" "timer_rep T h1 ts" "relinked {?H} h h1"
    using timer_rep_unlink [OF rep] by blast
  have off1: "office_rep po p h1 mss xss"
    by (rule office_rep_local [OF off]) (metis H relinked_out [OF u(5)] singletonD)
  have t1: "has_header p h1 t" "mbx_of h1 t = mbx_of h t"
    using t(1) has_header_relinked [OF u(5) same_classes_refl] mbx_of_relinked [OF u(5)] by auto
  obtain po2 h2 where a: "PO_Add w po h1 (of_nat ?i) t = Ok (po2, h2)"
    "office_rep po2 p h2 (posted mss ?i t) xss" "relinked (insert t (set (mss ! ?i))) h1 h2"
    using PO_Add_ok [OF off1 t(2) t1(1), of w] t(3) unfolding apart_def by blast
  have out: "x \<notin> insert t (set (mss ! ?i))" if "x \<in> set (?H # ts)" for x
  proof -
    have "apart mss xss x" using that H ok by (auto simp: timers_ok_def)
    then show ?thesis using that dist t(2) by (auto simp: apart_def)
  qed
  have rep2: "timer_rep T h2 ts"
    by (rule timer_rep_local(1) [OF u(4)]) (use relinked_out [OF a(3)] out in blast)
  have rl: "relinked UNIV h h2" by (rule relinked_trans [OF u(5) a(3)]) auto
  have n2: "get_next h2 ?H = Ok (head_or_null ts)"
  proof -
    have "path (next_of h2) ?H ([] @ ?H # ts)" "has_count h2 ?H"
      using rep2 by (auto simp: timer_rep_def)
    then show ?thesis using path_append_Cons [of "next_of h2" ?H "[]" ?H ts] get_next_of by metis
  qed
  have "x \<noteq> NULL" if "x \<in> set ts" for x
    using that rep2 by (auto simp: timer_rep_def elim: has_countE)
  then have hn: "head_or_null ts = NULL \<longleftrightarrow> ts = []" by (cases ts) auto
  have "expire_loop w ?H po h = (if ts = [] then Ok (po2, h2) else expire_loop w ?H po2 h2)"
    using u a(1) z n2 hn read_count [OF hc] read_mbx [OF t1(1)] t1(2)
    by (subst expire_loop.simps) simp
  moreover have "timers_ok p h2 (post_timer h t mss) xss ts"
    using ok dist t(2) has_header_relinked [OF rl same_classes_refl] mbx_of_relinked [OF rl]
    by (auto simp: timers_ok_def post_timer_def apart_posted)
  moreover have "apart (post_timer h t mss) xss ?H"
    using H dist t(2) by (simp add: post_timer_def apart_posted)
  ultimately show ?thesis
    using rep2 a(2) rl by (auto simp: post_timer_def)
qed

lemma post_timer_relinked: "relinked S h h' \<Longrightarrow> post_timer h' = post_timer h"
  by (rule ext)+ (simp add: post_timer_def mbx_of_relinked)

lemma length_fold_post [simp]: "length (fold (post_timer h) as mss) = length mss"
  by (induction as arbitrary: mss) (auto simp: post_timer_def)

lemma expire_loop_ok:
  assumes "timer_rep T h (t # ts)" "office_rep po p h mss xss" "timers_ok p h mss xss (t # ts)"
    and "apart mss xss (Timer_Head T)"
  shows "\<exists>po' h'. expire_loop w (Timer_Head T) po h = Ok (po', h') \<and>
    timer_rep T h' (dropWhile (\<lambda>a. count_of h a = 0) (t # ts)) \<and> relinked UNIV h h' \<and>
    office_rep po' p h' (fold (post_timer h) (takeWhile (\<lambda>a. count_of h a = 0) (t # ts)) mss) xss"
  using assms
proof (induction ts arbitrary: t po h mss)
  case (Cons t2 ts)
  show ?case
  proof (cases "count_of h t = 0")
    case True
    obtain po1 h1 where 1: "expire_loop w (Timer_Head T) po h = expire_loop w (Timer_Head T) po1 h1"
      "timer_rep T h1 (t2 # ts)" "office_rep po1 p h1 (post_timer h t mss) xss"
      "timers_ok p h1 (post_timer h t mss) xss (t2 # ts)" "apart (post_timer h t mss) xss (Timer_Head T)"
      "relinked UNIV h h1"
      using expire_step [OF Cons.prems True, of w] by auto
    then obtain po2 h2 where 2: "expire_loop w (Timer_Head T) po1 h1 = Ok (po2, h2)"
      "timer_rep T h2 (dropWhile (\<lambda>a. count_of h1 a = 0) (t2 # ts))" "relinked UNIV h1 h2"
      "office_rep po2 p h2 (fold (post_timer h1) (takeWhile (\<lambda>a. count_of h1 a = 0) (t2 # ts))
         (post_timer h t mss)) xss"
      using Cons.IH [OF 1(2,3,4,5)] by blast
    have "relinked UNIV h h2" by (rule relinked_trans [OF 1(6) 2(3)]) auto
    then show ?thesis
      using 1(1) 2 True by (simp add: count_of_relinked [OF 1(6)] post_timer_relinked [OF 1(6)])
  next
    case False
    then show ?thesis
      using Cons.prems timer_rep_unlink(1) [OF Cons.prems(1)]
      by (subst expire_loop.simps) (auto simp: timer_rep_def read_count)
  qed
next
  case Nil
  show ?case
  proof (cases "count_of h t = 0")
    case True
    then show ?thesis using expire_step [OF Nil True, of w] by auto
  next
    case False
    then show ?thesis
      using Nil timer_rep_unlink(1) [OF Nil(1)]
      by (subst expire_loop.simps) (auto simp: timer_rep_def read_count)
  qed
qed

lemma same_but_timer_Some:
  assumes "same_but_timer (Some b) y"
  obtains c where "y = Some c" "BUFF_CODE c = BUFF_CODE b" "length (bytes c) = length (bytes b)"
    "\<And>i. i < 6 \<or> 10 \<le> i \<Longrightarrow> bytes c ! i = bytes b ! i"
proof -
  obtain c where c: "y = Some c" using assms by (cases y) (auto simp: same_but_timer_def)
  show ?thesis
    by (rule that [OF c]) (use assms c in \<open>auto simp: same_but_timer_def TIMER_COUNT_def\<close>)
qed

lemma retimed_header:
  assumes rt: "retimed S h h'" and a: "has_header p h a"
  shows "has_header p h' a" "mbx_of h' a = mbx_of h a" "discarded h' a = discarded h a"
proof -
  obtain b where b: "a \<noteq> NULL" "h a = Some b" using a by (auto simp: has_header_def elim: in_useE)
  have "same_but_timer (Some b) (h' a)" using rt b(2) unfolding retimed_def by metis
  then obtain c where c: "h' a = Some c" "BUFF_CODE c = BUFF_CODE b" "length (bytes c) = length (bytes b)"
    "\<And>i. i < 6 \<or> 10 \<le> i \<Longrightarrow> bytes c ! i = bytes b ! i"
    using same_but_timer_Some by metis
  then show "has_header p h' a" using a b by (simp add: has_header_def in_use_def)
  show "mbx_of h' a = mbx_of h a" using b c by (simp add: mbx_of_def TIMER_MBX_ID_def)
  show "discarded h' a = discarded h a" using b c by (simp add: discarded_def le16_def)
qed

lemma has_header_has_count: "has_header p h a \<Longrightarrow> has_count h a"
  by (auto simp: has_header_def has_count_def MSG_HEADER_LENGTH_def TIMER_COUNT_def elim!: in_useE)

lemma zeros_deltas:
  "map snd (takeWhile (\<lambda>x. fst x = 0) (deltas h ts)) = takeWhile (\<lambda>a. count_of h a = 0) ts"
  "dropWhile (\<lambda>x. fst x = 0) (deltas h ts) = deltas h (dropWhile (\<lambda>a. count_of h a = 0) ts)"
  by (induction ts) (auto simp: unat_eq_zero)

lemma TimerIntHandler_ok:
  assumes rep: "timer_rep T h ts" and pos: "positive (deltas h ts)" and off: "office_rep po p h mss xss"
    and ok: "timers_ok p h mss xss ts" and H: "apart mss xss (Timer_Head T)"
  shows "\<exists>po' h' ts'. TimerIntHandler w T po h = Ok (po', h') \<and> timer_rep T h' ts' \<and>
    deltas h' ts' = still_running (deltas h ts) \<and>
    office_rep po' p h' (fold (post_timer h) (expired (deltas h ts)) mss) xss"
proof (cases ts)
  case Nil
  have "path (next_of h) (Timer_Head T) ([] @ Timer_Head T # [])" "has_count h (Timer_Head T)"
    using rep Nil by (simp_all add: timer_rep_def)
  then have "next_of h (Timer_Head T) = NULL" "has_count h (Timer_Head T)"
    using path_append_Cons by fastforce+
  then have "TimerIntHandler w T po h = Ok (po, h)"
    by (simp add: TimerIntHandler_def get_next_of)
  then show ?thesis
    using rep off Nil
    by (intro exI [of _ po] exI [of _ h] exI [of _ "[]"])
      (simp add: expired_def still_running_def after_tick_def)
next
  case (Cons t us)
  let ?H = "Timer_Head T"
  have t: "has_count h t" "?H \<noteq> t" "t \<noteq> NULL" "count_of h t \<noteq> 0" "apart mss xss t"
    using rep pos ok Cons
    by (auto simp: timer_rep_def positive_def timers_ok_def unat_gt_0 elim: has_countE)
  obtain h1 where 1: "write32 h t TIMER_COUNT (count_of h t - 1) = Ok h1" "retimed {t} h h1"
    "next_of h1 = next_of h" "count_of h1 = (count_of h)(t := count_of h t - 1)"
    using write_count [OF t(1)] by blast
  have rep1: "timer_rep T h1 (t # us)"
    using rep Cons 1(3,4) t(2) retimed_has_count [OF 1(2)] by (simp add: timer_rep_def)
  have off1: "office_rep po p h1 mss xss"
    by (rule office_rep_local [OF off]) (metis t(5) retimed_out [OF 1(2)] singletonD)
  have ok1: "timers_ok p h1 mss xss (t # us)"
    using ok Cons retimed_header(1,2) [OF 1(2)] unfolding timers_ok_def by metis
  have "unat (count_of h t) \<noteq> 0" using t(4) by (simp add: unat_eq_zero)
  then have "1 \<le> count_of h t" by (simp add: word_le_nat_alt)
  then have "unat (count_of h t - 1) = unat (count_of h t) - 1" by (simp add: unat_diff)
  moreover have "deltas h1 us = deltas h us"
    by (rule deltas_cong) (use rep Cons 1(4) in \<open>auto simp: timer_rep_def\<close>)
  ultimately have d1: "deltas h1 (t # us) = after_tick (deltas h ts)"
    using Cons 1(4) by (simp add: after_tick_def)
  let ?Z = "\<lambda>a. count_of h1 a = 0"
  obtain po2 h2 where 2: "expire_loop w ?H po h1 = Ok (po2, h2)" "timer_rep T h2 (dropWhile ?Z (t # us))"
    "relinked UNIV h1 h2" "office_rep po2 p h2 (fold (post_timer h1) (takeWhile ?Z (t # us)) mss) xss"
    using expire_loop_ok [OF rep1 off1 ok1 H, of w] by blast
  have "TimerIntHandler w T po h = Ok (po2, h2)"
    using timer_rep_unlink(1) [of T h t us] rep Cons t(1,3) 1(1) 2(1)
    by (simp add: TimerIntHandler_def read_count)
  moreover have "deltas h2 (dropWhile ?Z (t # us)) = still_running (deltas h ts)"
    unfolding still_running_def d1 [symmetric] zeros_deltas
    by (simp add: deltas_def count_of_relinked [OF 2(3)])
  moreover have "expired (deltas h ts) = takeWhile ?Z (t # us)"
    unfolding expired_def d1 [symmetric] zeros_deltas ..
  moreover have "fold (post_timer h1) (takeWhile ?Z (t # us)) mss = fold (post_timer h) (takeWhile ?Z (t # us)) mss"
  proof (rule fold_cong)
    fix a assume "a \<in> set (takeWhile ?Z (t # us))"
    then have "has_header p h a" using ok Cons by (auto simp: timers_ok_def dest: set_takeWhileD)
    then show "post_timer h1 a = post_timer h a"
      using retimed_header(2) [OF 1(2)] by (auto simp: post_timer_def)
  qed auto
  ultimately show ?thesis using 2 by metis
qed

section \<open>Starting a timer\<close>

lemma write8_ok:
  assumes "has_header p h a" "i < MSG_HEADER_LENGTH"
  shows "\<exists>h' b. write8 h a i v = Ok h' \<and> h a = Some b \<and> h' = h(a \<mapsto> b\<lparr>bytes := (bytes b)[i := v]\<rparr>)"
  using assms by (auto simp: has_header_def write8_def on_bytes_def elim!: in_useE)

text \<open>The header of \<open>a\<close> set up by \<^verbatim>\<open>StartTimer\<close>, everything else untouched.\<close>

lemma start_setup:
  assumes a: "has_header p h a"
  shows "\<exists>h3. andThen (write32 h a TIMER_COUNT c) (\<lambda>h. andThen (write8 h a (off MSG_FROM_AUTOMATE) 0)
      (\<lambda>h. write8 h a TIMER_MBX_ID m)) = Ok h3 \<and> has_header p h3 a \<and> count_of h3 a = c \<and>
    mbx_of h3 a = m \<and> discarded h3 a = discarded h a \<and> (\<forall>x. x \<noteq> a \<longrightarrow> h3 x = h x)"
proof -
  obtain b where b: "a \<noteq> NULL" "h a = Some b" using a by (auto simp: has_header_def elim: in_useE)
  have len: "21 \<le> length (bytes b)" "0 < length (bytes b)" "1 < length (bytes b)" using a b by (auto simp: has_header_def MSG_HEADER_LENGTH_def)
  let ?bs = "(put32 (bytes b) 6 c)[0 := 0, 1 := m]"
  let ?h = "h(a \<mapsto> b\<lparr>bytes := ?bs\<rparr>)"
  have w: "andThen (write32 h a TIMER_COUNT c) (\<lambda>h. andThen (write8 h a (off MSG_FROM_AUTOMATE) 0)
      (\<lambda>h. write8 h a TIMER_MBX_ID m)) = Ok ?h"
    using b len by (simp add: write32_def write8_def on_bytes_def TIMER_COUNT_def TIMER_MBX_ID_def)
  have "has_header p ?h a" using a b by (simp add: has_header_def in_use_def)
  moreover have "count_of ?h a = c" using len by (simp add: count_of_def TIMER_COUNT_def)
  moreover have "mbx_of ?h a = m" using len by (simp add: mbx_of_def TIMER_MBX_ID_def)
  moreover have "discarded ?h a = discarded h a" using b len by (simp add: discarded_def)
  ultimately show ?thesis using w by (intro exI [of _ ?h]) simp
qed

lemma Timer_StartTimer_ok:
  assumes rep: "timer_rep T h ts" and a: "has_header p h a" "a \<notin> set (Timer_Head T # ts)" and n: "n \<noteq> 0"
  shows "\<exists>h' ts'. Timer_StartTimer T h a m n r = Ok (T, h') \<and> timer_rep T h' ts' \<and>
    deltas h' ts' = dinsert (unat (scaled T n r)) a (deltas h ts) \<and>
    has_header p h' a \<and> mbx_of h' a = m \<and> discarded h' a = discarded h a \<and>
    (\<forall>x. x \<notin> insert a (set (Timer_Head T # ts)) \<longrightarrow> h' x = h x)"
proof -
  obtain h3 where 3: "andThen (write32 h a TIMER_COUNT (scaled T n r))
      (\<lambda>h. andThen (write8 h a (off MSG_FROM_AUTOMATE) 0) (\<lambda>h. write8 h a TIMER_MBX_ID m)) = Ok h3"
    "has_header p h3 a" "count_of h3 a = scaled T n r" "mbx_of h3 a = m"
    "discarded h3 a = discarded h a" "\<forall>x. x \<noteq> a \<longrightarrow> h3 x = h x"
    using start_setup [OF a(1)] by blast
  have same: "h3 x = h x" if "x \<in> set (Timer_Head T # ts)" for x
    using that a(2) 3(6) by metis
  note rep3 = timer_rep_local(1) [OF rep same] and d3 = timer_rep_local(2) [OF rep same]
  obtain h4 ts' where 4: "Timer_Add T h3 a = Ok (T, h4)" "timer_rep T h4 ts'"
    "deltas h4 ts' = dinsert (unat (count_of h3 a)) a (deltas h3 ts)"
    "retimed (insert a (set (Timer_Head T # ts))) h3 h4"
    using Timer_Add_ok [OF rep3 has_header_has_count [OF 3(2)] a(2)] by blast
  have "Timer_StartTimer T h a m n r = Ok (T, h4)"
    using n 3(1) 4(1) by (auto simp: Timer_StartTimer_def Let_def)
  then show ?thesis
    using 3 4 d3 retimed_header [OF 4(4) 3(2)] retimed_out [OF 4(4)]
    by (intro exI [of _ h4] exI [of _ ts']) auto
qed

lemma timer_rep_of_deltas: "deltas h ts = ds \<Longrightarrow> ts = map snd ds"
  by (metis map_snd_deltas)

section \<open>Properties of the timer\<close>

text \<open>The dummy message at 500 and the message at 20 of the mail heap.\<close>

definition ex_timer_heap :: heap where
  "ex_timer_heap = ex_mail_heap(500 \<mapsto> \<lparr>BUFF_CODE = 0, BUFF_PREV = 0, BUFF_NEXT = 0, bytes = replicate 26 0\<rparr>)"

definition ex_timer :: CTimer where
  "ex_timer = \<lparr>TimerResolution = Timer1s, CsTimer = 0, Timer_Head = 500\<rparr>"

lemma ex_timer_rep: "timer_rep ex_timer ex_timer_heap []"
  by (simp add: timer_rep_def ex_timer_def ex_timer_heap_def next_of_def has_count_def count_of_def
      TIMER_COUNT_def le32_def)

lemma ex_timer_header: "has_header ex_mail_pool ex_timer_heap 20"
  by (simp add: has_header_def in_use_def ex_timer_heap_def ex_mail_defs MSG_HEADER_LENGTH_def)

text \<open>C22: starting a timer is an insertion by deadline. The message gets the mailbox and its ticks,
  and enters the list behind every running timer that expires no later and before all that
  expire later; the deadlines of the others do not change, and nothing outside the list does.\<close>

theorem StartTimer_inserts_by_deadline:
  assumes "timer_rep T h ts" "has_header p h a" "a \<notin> set (Timer_Head T # ts)" "n \<noteq> 0"
  shows "\<exists>h' ts'. Timer_StartTimer T h a m n r = Ok (T, h') \<and> timer_rep T h' ts' \<and>
    deadlines 0 (deltas h' ts') =
      queue_insert (unat (scaled T n r), a) (deadlines 0 (deltas h ts)) \<and>
    has_header p h' a \<and> mbx_of h' a = m \<and>
    (\<forall>x. x \<notin> insert a (set (Timer_Head T # ts)) \<longrightarrow> h' x = h x)"
  using Timer_StartTimer_ok [OF assms] deadlines_dinsert [of 0] by (metis add_0)

theorem StartTimer_inserts_by_deadline_witness:
  "\<exists>h' ts'. Timer_StartTimer ex_timer ex_timer_heap 20 0 7 Timer1s = Ok (ex_timer, h') \<and>
    timer_rep ex_timer h' ts' \<and>
    deadlines 0 (deltas h' ts') = queue_insert (unat (scaled ex_timer 7 Timer1s), 20) (deadlines 0 (deltas ex_timer_heap [])) \<and>
    has_header ex_mail_pool h' 20 \<and> mbx_of h' 20 = 0 \<and>
    (\<forall>x. x \<notin> insert 20 (set [Timer_Head ex_timer]) \<longrightarrow> h' x = ex_timer_heap x)"
  by (rule StartTimer_inserts_by_deadline [OF ex_timer_rep ex_timer_header])
    (simp_all add: ex_timer_def)

text \<open>C23: a tick. When the counts are in order, the interrupt handler returns; exactly the
  timers with one tick to go leave the list and are posted, in the order of the list, each to
  the mailbox in its header; every other timer is one tick closer to its deadline. Stopped
  timers are posted too (the mailbox drops them).\<close>

theorem tick_posts_exactly_the_due_timers:
  assumes "timer_rep T h ts" "positive (deltas h ts)" "office_rep po p h mss xss"
    and "timers_ok p h mss xss ts" "apart mss xss (Timer_Head T)"
  shows "\<exists>po' h' ts' due. TimerIntHandler w T po h = Ok (po', h') \<and> timer_rep T h' ts' \<and>
    deadlines 0 (deltas h ts) = map (\<lambda>a. (1, a)) due @ map (\<lambda>(u, a). (u + 1, a)) (deadlines 0 (deltas h' ts')) \<and>
    positive (deltas h' ts') \<and> office_rep po' p h' (fold (post_timer h) due mss) xss"
  using TimerIntHandler_ok [OF assms, of w] tick_deadlines [OF assms(2)] positive_still_running
  by metis

definition ex_tick_heap :: heap where
  "ex_tick_heap = ex_mail_heap(500 \<mapsto> \<lparr>BUFF_CODE = 0, BUFF_PREV = 0, BUFF_NEXT = 20, bytes = replicate 26 0\<rparr>,
     20 \<mapsto> \<lparr>BUFF_CODE = 0, BUFF_PREV = 0, BUFF_NEXT = 0, bytes = put32 (replicate 22 0) 6 1\<rparr>)"

lemma ex_tick_facts:
  "timer_rep ex_timer ex_tick_heap [20]" "deltas ex_tick_heap [20] = [(1, 20)]"
  "office_rep (ex_office 0 0 0 0) ex_mail_pool ex_tick_heap [[]] [[]]"
  "timers_ok ex_mail_pool ex_tick_heap [[]] [[]] [20]" "apart [[]] [[]] x"
proof -
  show "timer_rep ex_timer ex_tick_heap [20]" "deltas ex_tick_heap [20] = [(1, 20)]"
    by (simp_all add: timer_rep_def ex_timer_def ex_tick_heap_def next_of_def has_count_def count_of_def
      TIMER_COUNT_def le32_def [of "replicate 26 0"])
  show "office_rep (ex_office 0 0 0 0) ex_mail_pool ex_tick_heap [[]] [[]]"
    by (rule office_rep_local [OF ex_office_empty]) (simp add: apart_def)
  show "timers_ok ex_mail_pool ex_tick_heap [[]] [[]] [20]"
    by (simp add: timers_ok_def has_header_def in_use_def ex_tick_heap_def ex_mail_pool_def mbx_of_def
      apart_def MSG_HEADER_LENGTH_def TIMER_MBX_ID_def put32_def)
  show "apart [[]] [[]] x" by (simp add: apart_def)
qed

theorem tick_posts_exactly_the_due_timers_witness:
  "\<exists>po' h' ts' due. TimerIntHandler ex_win ex_timer (ex_office 0 0 0 0) ex_tick_heap = Ok (po', h') \<and>
    timer_rep ex_timer h' ts' \<and>
    deadlines 0 (deltas ex_tick_heap [20]) =
      map (\<lambda>a. (1, a)) due @ map (\<lambda>(u, a). (u + 1, a)) (deadlines 0 (deltas h' ts')) \<and>
    positive (deltas h' ts') \<and> office_rep po' ex_mail_pool h' (fold (post_timer ex_tick_heap) due [[]]) [[]]"
  by (rule tick_posts_exactly_the_due_timers [OF ex_tick_facts(1) _ ex_tick_facts(3,4,5)])
    (simp add: ex_tick_facts(2) positive_def del: deltas_simps)

text \<open>C24: coarse resolutions. A timer whose unit is finer than the resolution of the system
  gets a count of zero, whatever its length, because \<^verbatim>\<open>timerRes/TimerResolution\<close> is an integer
  division; it goes to the front of an empty list, and the next tick makes its count
  \<open>0xffffffff\<close> instead of expiring it.\<close>

theorem fine_timer_wraps_on_coarse_clock:
  assumes "timer_rep T h []" "has_header p h a" "a \<noteq> Timer_Head T" "n \<noteq> 0"
    and "resolution_ms r < resolution_ms (TimerResolution T)"
  shows "\<exists>h1 h2. Timer_StartTimer T h a m n r = Ok (T, h1) \<and> deltas h1 [a] = [(0, a)] \<and>
    TimerIntHandler w T po h1 = Ok (po, h2) \<and> deltas h2 [a] = [(2 ^ 32 - 1, a)]"
proof -
  have "scaled T n r = 0" using assms(5) by (simp add: scaled_def)
  moreover have "a \<notin> set (Timer_Head T # [])" using assms(3) by simp
  ultimately obtain h1 ts where 1: "Timer_StartTimer T h a m n r = Ok (T, h1)" "timer_rep T h1 ts"
    "deltas h1 ts = [(0, a)]"
    using Timer_StartTimer_ok [OF assms(1,2) _ assms(4)] by fastforce
  have ts: "ts = [a]" using timer_rep_of_deltas [OF 1(3)] by simp
  have rep: "timer_rep T h1 (a # [])" using 1(2) ts by simp
  have a: "has_count h1 a" "a \<noteq> NULL" "count_of h1 a = 0"
    using rep 1(3) ts by (auto simp: timer_rep_def unat_eq_zero)
  obtain h2 where 2: "write32 h1 a TIMER_COUNT (count_of h1 a - 1) = Ok h2" "retimed {a} h1 h2"
    "next_of h2 = next_of h1" "count_of h2 = (count_of h1)(a := count_of h1 a - 1)"
    using write_count [OF a(1)] by blast
  have rep2: "timer_rep T h2 (a # [])"
    using rep 2(3,4) retimed_has_count [OF 2(2)] by (auto simp: timer_rep_def)
  then have "has_count h2 a" by (simp add: timer_rep_def)
  moreover have "count_of h2 a = - 1" using 2(4) a by simp
  ultimately have "expire_loop w (Timer_Head T) po h2 = Ok (po, h2)"
    using timer_rep_unlink(1) [OF rep2] by (subst expire_loop.simps) (simp add: read_count)
  then have "TimerIntHandler w T po h1 = Ok (po, h2)"
    using timer_rep_unlink(1) [OF rep] a 2(1) by (simp add: TimerIntHandler_def read_count)
  then show ?thesis
    using 1 ts 2(4) a
    by (intro exI [of _ h1] exI [of _ h2]) (simp add: unsigned_minus_1_eq_mask mask_eq_exp_minus_1)
qed

theorem fine_timer_wraps_on_coarse_clock_witness:
  "\<exists>h1 h2. Timer_StartTimer ex_timer ex_timer_heap 20 0 5 Timer100ms = Ok (ex_timer, h1) \<and>
    deltas h1 [20] = [(0, 20)] \<and>
    TimerIntHandler ex_win ex_timer (ex_office 0 0 0 0) h1 = Ok (ex_office 0 0 0 0, h2) \<and>
    deltas h2 [20] = [(2 ^ 32 - 1, 20)]"
  by (rule fine_timer_wraps_on_coarse_clock [OF ex_timer_rep ex_timer_header]) (simp_all add: ex_timer_def)

end
