(* ===== verification/Msg_Interface.thy ===== *)
theory Msg_Interface
  imports Delta_Timer
begin

text \<open>
  \<^verbatim>\<open>Kernel/msgInterface.cpp\<close> and the two parameter codings derived from it,
  \<^verbatim>\<open>standardMsg.cpp\<close> (class \<^verbatim>\<open>stdMsg_pc8_pl8\<close>: one byte code, one byte length) and
  \<^verbatim>\<open>stdMsgpc16pl16.cpp\<close> (class \<^verbatim>\<open>stdMsg_pc16_pl16\<close>: two bytes each). The two files are the
  same code except for how a field is read and written; the record \<open>fmt\<close> holds these
  differences. A pointer into a message is the offset from its start; operations on a
  message take and return its bytes.
\<close>

section \<open>Moving bytes\<close>

text \<open>\<^verbatim>\<open>memmove(bs + dst, bs + src, n)\<close> inside one array, and \<^verbatim>\<open>memcpy(bs + dst, xs, n)\<close>.\<close>

definition memmove :: "uint8 list \<Rightarrow> nat \<Rightarrow> nat \<Rightarrow> nat \<Rightarrow> uint8 list res" where
  "memmove bs dst src n =
     (if src + n \<le> length bs \<and> dst + n \<le> length bs
      then Ok (take dst bs @ take n (drop src bs) @ drop (dst + n) bs) else Fault MemFault)"

definition memcpy :: "uint8 list \<Rightarrow> nat \<Rightarrow> uint8 list \<Rightarrow> nat \<Rightarrow> uint8 list res" where
  "memcpy bs dst xs n =
     (if n \<le> length xs \<and> dst + n \<le> length bs
      then Ok (take dst bs @ take n xs @ drop (dst + n) bs) else Fault MemFault)"

lemma memmove_append:
  "length ys = length us \<Longrightarrow> memmove (xs @ us @ vs) (length xs) src n =
   (if src + n \<le> length (xs @ us @ vs) \<and> n \<le> length us + length vs
    then Ok (xs @ take n (drop src (xs @ us @ vs)) @ drop n (us @ vs)) else Fault MemFault)"
  by (simp add: memmove_def)

lemma memcpy_append: "length ys = n \<Longrightarrow> length us = n \<Longrightarrow>
   memcpy (xs @ us @ vs) (length xs) ys n = Ok (xs @ ys @ vs)"
  by (simp add: memcpy_def)

section \<open>Header fields of a message\<close>

definition GetMsgInfoLength :: "uint8 list \<Rightarrow> uint16 res" where
  "GetMsgInfoLength msg = GetUint16 msg (off MSG_LENGTH)"

definition SetMsgInfoLength :: "uint8 list \<Rightarrow> uint16 \<Rightarrow> uint8 list res" where
  "SetMsgInfoLength msg len = SetUint16 msg (off MSG_LENGTH) len"

section \<open>Copying and bit fields\<close>

definition MI_CopyMessage :: "uint8 list \<Rightarrow> uint8 list \<Rightarrow> uint8 list res" where
  "MI_CopyMessage newMessage currentMessage =
     andThen (GetMsgInfoLength currentMessage) (\<lambda>len.
     memcpy newMessage 0 currentMessage (unat len + MSG_HEADER_LENGTH))"

definition MI_CopyMessageInfo :: "uint8 list \<Rightarrow> uint8 list \<Rightarrow> uint8 list res" where
  "MI_CopyMessageInfo newMessage currentMessage =
     andThen (GetMsgInfoLength currentMessage) (\<lambda>len.
     andThen (memcpy newMessage MSG_HEADER_LENGTH (drop MSG_HEADER_LENGTH currentMessage) (unat len)) (\<lambda>bs.
     SetMsgInfoLength bs len))"

definition SetBitParamByteBasic :: "uint8 list \<Rightarrow> uint8 \<Rightarrow> nat \<Rightarrow> uint32 \<Rightarrow> uint8 list res" where
  "SetBitParamByteBasic msg param offset msk =
     andThen (rd msg offset) (\<lambda>v.
     andThen (wr msg offset (ucast (ucast v AND NOT msk))) (\<lambda>msg.
     andThen (rd msg offset) (\<lambda>v. wr msg offset (v OR param))))"

definition SetBitParamWordBasic :: "uint8 list \<Rightarrow> uint16 \<Rightarrow> nat \<Rightarrow> uint32 \<Rightarrow> uint8 list res" where
  "SetBitParamWordBasic msg param offset msk =
     andThen (GetUint16 msg offset) (\<lambda>newValue.
     let newValue = ucast (ucast newValue AND NOT msk); newValue = newValue OR param
     in SetUint16 msg offset newValue)"

definition SetBitParamDWordBasic :: "uint8 list \<Rightarrow> uint32 \<Rightarrow> nat \<Rightarrow> uint32 \<Rightarrow> uint8 list res" where
  "SetBitParamDWordBasic msg param offset msk =
     andThen (GetUint32 msg offset) (\<lambda>newValue.
     let newValue = newValue AND NOT msk; newValue = newValue OR param
     in SetUint32 msg offset newValue)"

definition GetBitParamByteBasic :: "uint8 list \<Rightarrow> nat \<Rightarrow> uint32 \<Rightarrow> uint8 res" where
  "GetBitParamByteBasic msg offset msk = andThen (rd msg offset) (\<lambda>v. Ok (ucast (ucast v AND msk)))"

definition GetBitParamWordBasic :: "uint8 list \<Rightarrow> nat \<Rightarrow> uint32 \<Rightarrow> uint16 res" where
  "GetBitParamWordBasic msg offset msk = andThen (GetUint16 msg offset) (\<lambda>v. Ok (ucast (ucast v AND msk)))"

definition GetBitParamDWordBasic :: "uint8 list \<Rightarrow> nat \<Rightarrow> uint32 \<Rightarrow> uint32 res" where
  "GetBitParamDWordBasic msg offset msk = andThen (GetUint32 msg offset) (\<lambda>v. Ok (v AND msk))"

section \<open>The parameter codings\<close>

record fmt =
  PARAM_LENGTH_OFFSET :: nat
  PARAM_HEADER_LENGTH :: nat
  END_LENGTH :: nat
  getField :: "uint8 list \<Rightarrow> nat \<Rightarrow> uint32 res"
  setField :: "uint8 list \<Rightarrow> nat \<Rightarrow> uint32 \<Rightarrow> uint8 list res"

definition pc8 :: fmt where
  "pc8 = \<lparr>PARAM_LENGTH_OFFSET = 1, PARAM_HEADER_LENGTH = 2, END_LENGTH = 2,
     getField = (\<lambda>bs i. andThen (rd bs i) (\<lambda>v. Ok (ucast v))),
     setField = (\<lambda>bs i v. wr bs i (ucast v))\<rparr>"

definition pc16 :: fmt where
  "pc16 = \<lparr>PARAM_LENGTH_OFFSET = 2, PARAM_HEADER_LENGTH = 4, END_LENGTH = 2,
     getField = (\<lambda>bs i. andThen (GetUint16 bs i) (\<lambda>v. Ok (ucast v))),
     setField = (\<lambda>bs i v. SetUint16 bs i (ucast v))\<rparr>"

text \<open>
  The loop of \<^verbatim>\<open>FindParam\<close>: \<open>tmp\<close> and \<open>cur\<close> are the pointer and \<^verbatim>\<open>CurrentOffset\<close>. The
  result is the pointer, \<^term>\<open>None\<close> for \<^verbatim>\<open>NULL\<close>, and the new \<^verbatim>\<open>CurrentOffset\<close> (which stays
  inside the message, so it is a number here).
\<close>

partial_function (option) find_loop :: "fmt \<Rightarrow> bool \<Rightarrow> uint8 list \<Rightarrow> nat \<Rightarrow> uint32 \<Rightarrow> nat \<Rightarrow> nat
    \<Rightarrow> (fault + (nat option \<times> nat)) option" where
  [code]: "find_loop F dbg bs len paramCode tmp cur =
     andThen (getField F bs tmp) (\<lambda>c.
     if c = 0 then Ok (None, 0)
     else andThen (getField F bs (tmp + PARAM_LENGTH_OFFSET F)) (\<lambda>l.
          if c = paramCode then Ok (Some tmp, cur + (unat l + PARAM_HEADER_LENGTH F))
          else andThen (assertC dbg (cur + (unat l + PARAM_HEADER_LENGTH F) < len)) (\<lambda>_.
               find_loop F dbg bs len paramCode (tmp + (unat l + PARAM_HEADER_LENGTH F))
                 (cur + (unat l + PARAM_HEADER_LENGTH F)))))"

definition FindParam :: "fmt \<Rightarrow> bool \<Rightarrow> uint8 list \<Rightarrow> uint32 \<Rightarrow> nat \<Rightarrow> (nat option \<times> nat) res" where
  "FindParam F dbg bs paramCode startOffset =
     andThen (GetMsgInfoLength bs) (\<lambda>il.
     let len = unat il + MSG_HEADER_LENGTH in
     if len = MSG_HEADER_LENGTH then Ok (None, startOffset)
     else find_loop F dbg bs len paramCode (off MSG_INFO + startOffset) startOffset)"

definition SetENDOfParams :: "fmt \<Rightarrow> uint8 list \<Rightarrow> uint8 list res" where
  "SetENDOfParams F bs =
     andThen (GetMsgInfoLength bs) (\<lambda>il.
     andThen (setField F bs (unat il + MSG_HEADER_LENGTH) 0) (\<lambda>bs.
     andThen (GetMsgInfoLength bs) (\<lambda>il.
     SetMsgInfoLength bs (il + of_nat (END_LENGTH F)))))"

partial_function (option) place_loop :: "fmt \<Rightarrow> bool \<Rightarrow> uint8 list \<Rightarrow> nat \<Rightarrow> uint32 \<Rightarrow> nat \<Rightarrow> nat
    \<Rightarrow> (fault + (nat \<times> nat)) option" where
  [code]: "place_loop F dbg bs len paramCode tmp cur =
     andThen (getField F bs tmp) (\<lambda>c.
     if c = 0 \<or> paramCode < c then Ok (tmp, cur)
     else andThen (getField F bs (tmp + PARAM_LENGTH_OFFSET F)) (\<lambda>l.
          andThen (assertC dbg (cur + (unat l + PARAM_HEADER_LENGTH F) < len)) (\<lambda>_.
          place_loop F dbg bs len paramCode (tmp + (unat l + PARAM_HEADER_LENGTH F))
            (cur + (unat l + PARAM_HEADER_LENGTH F)))))"

definition FindParamPlace :: "fmt \<Rightarrow> bool \<Rightarrow> uint8 list \<Rightarrow> uint32 \<Rightarrow> nat \<Rightarrow> (nat \<times> nat \<times> uint8 list) res" where
  "FindParamPlace F dbg bs paramCode startOffset =
     andThen (GetMsgInfoLength bs) (\<lambda>il.
     andThen (if il = 0 then SetENDOfParams F bs else Ok bs) (\<lambda>bs.
     andThen (place_loop F dbg bs (unat il) paramCode (off MSG_INFO) startOffset) (\<lambda>(tmp, cur).
     Ok (tmp, cur, bs))))"

definition AddParam :: "fmt \<Rightarrow> bool \<Rightarrow> uint8 list \<Rightarrow> uint32 \<Rightarrow> uint32 \<Rightarrow> uint8 list \<Rightarrow> uint8 list res" where
  "AddParam F dbg bs paramCode paramLength param =
     andThen (FindParamPlace F dbg bs paramCode 0) (\<lambda>(tmp, cur, bs).
     andThen (GetMsgInfoLength bs) (\<lambda>il.
     andThen (memmove bs (tmp + unat paramLength + PARAM_HEADER_LENGTH F) tmp (unat (ucast il - of_nat cur :: uint32))) (\<lambda>bs.
     andThen (setField F bs tmp paramCode) (\<lambda>bs.
     andThen (setField F bs (tmp + PARAM_LENGTH_OFFSET F) paramLength) (\<lambda>bs.
     andThen (memcpy bs (tmp + PARAM_HEADER_LENGTH F) param (unat paramLength)) (\<lambda>bs.
     andThen (GetMsgInfoLength bs) (\<lambda>il.
     SetMsgInfoLength bs (il + ucast paramLength + of_nat (PARAM_HEADER_LENGTH F)))))))))"

text \<open>\<^verbatim>\<open>AddParam(uint8 *param)\<close>: code, length and value in one array.\<close>

definition AddParam_coded :: "fmt \<Rightarrow> bool \<Rightarrow> uint8 list \<Rightarrow> uint8 list \<Rightarrow> uint8 list res" where
  "AddParam_coded F dbg bs param =
     andThen (getField F param 0) (\<lambda>c.
     andThen (getField F param (PARAM_LENGTH_OFFSET F)) (\<lambda>l.
     AddParam F dbg bs c l (drop (PARAM_HEADER_LENGTH F) param)))"

definition AddParamByte :: "fmt \<Rightarrow> bool \<Rightarrow> uint8 list \<Rightarrow> uint32 \<Rightarrow> uint8 \<Rightarrow> uint8 list res" where
  "AddParamByte F dbg bs paramCode param = AddParam F dbg bs paramCode 1 [param]"

definition AddParamWord :: "fmt \<Rightarrow> bool \<Rightarrow> uint8 list \<Rightarrow> uint32 \<Rightarrow> uint16 \<Rightarrow> uint8 list res" where
  "AddParamWord F dbg bs paramCode param =
     AddParam F dbg bs paramCode 2 (put16 (replicate 2 0) 0 param)"

definition AddParamDWord :: "fmt \<Rightarrow> bool \<Rightarrow> uint8 list \<Rightarrow> uint32 \<Rightarrow> uint32 \<Rightarrow> uint8 list res" where
  "AddParamDWord F dbg bs paramCode param =
     AddParam F dbg bs paramCode 4 (put32 (replicate 4 0) 0 param)"

definition RemoveParam :: "fmt \<Rightarrow> bool \<Rightarrow> uint8 list \<Rightarrow> uint32 \<Rightarrow> (bool \<times> uint8 list) res" where
  "RemoveParam F dbg bs paramCode =
     andThen (assertC dbg (paramCode \<noteq> 0)) (\<lambda>_.
     andThen (FindParamPlace F dbg bs paramCode 0) (\<lambda>(tmp, cur, bs).
     andThen (getField F bs tmp) (\<lambda>c.
     if c \<noteq> paramCode then Ok (False, bs)
     else andThen (GetMsgInfoLength bs) (\<lambda>il.
          andThen (getField F bs (tmp + PARAM_LENGTH_OFFSET F)) (\<lambda>l.
          andThen (SetMsgInfoLength bs (il - 2 - ucast l)) (\<lambda>bs.
          andThen (GetMsgInfoLength bs) (\<lambda>il.
          andThen (memmove bs tmp (tmp + unat l + PARAM_HEADER_LENGTH F)
             (unat (ucast il - of_nat cur - of_nat (PARAM_HEADER_LENGTH F) - l))) (\<lambda>bs.
          Ok (True, bs)))))))))"

text \<open>
  \<^verbatim>\<open>GetParam\<close> and its variants search from the start, \<^verbatim>\<open>GetNextParam\<close> and its variants from
  \<^verbatim>\<open>CurrentOffset\<close>, passed in as \<open>start\<close>; all return the new \<^verbatim>\<open>CurrentOffset\<close>.
\<close>

definition GetParam :: "fmt \<Rightarrow> bool \<Rightarrow> uint8 list \<Rightarrow> uint32 \<Rightarrow> nat \<Rightarrow> (nat option \<times> nat) res" where
  "GetParam F dbg bs paramCode start = FindParam F dbg bs paramCode start"

definition GetParam_len :: "fmt \<Rightarrow> bool \<Rightarrow> uint8 list \<Rightarrow> uint32 \<Rightarrow> nat \<Rightarrow> (nat option \<times> uint32 \<times> nat) res" where
  "GetParam_len F dbg bs paramCode start =
     andThen (FindParam F dbg bs paramCode start) (\<lambda>(tmp, cur). case tmp of
       None \<Rightarrow> Ok (None, 0, cur)
     | Some tmp \<Rightarrow> andThen (getField F bs (tmp + PARAM_LENGTH_OFFSET F)) (\<lambda>paramLen.
         Ok (Some (tmp + PARAM_HEADER_LENGTH F), paramLen, cur)))"

definition GetParamByte :: "fmt \<Rightarrow> bool \<Rightarrow> uint8 list \<Rightarrow> uint32 \<Rightarrow> nat \<Rightarrow> (uint8 option \<times> nat) res" where
  "GetParamByte F dbg bs paramCode start =
     andThen (FindParam F dbg bs paramCode start) (\<lambda>(tmp, cur). case tmp of
       None \<Rightarrow> Ok (None, cur)
     | Some tmp \<Rightarrow> andThen (rd bs (tmp + PARAM_HEADER_LENGTH F)) (\<lambda>v. Ok (Some v, cur)))"

definition GetParamWord :: "fmt \<Rightarrow> bool \<Rightarrow> uint8 list \<Rightarrow> uint32 \<Rightarrow> nat \<Rightarrow> (uint16 option \<times> nat) res" where
  "GetParamWord F dbg bs paramCode start =
     andThen (FindParam F dbg bs paramCode start) (\<lambda>(tmp, cur). case tmp of
       None \<Rightarrow> Ok (None, cur)
     | Some tmp \<Rightarrow> andThen (GetUint16 bs (tmp + PARAM_HEADER_LENGTH F)) (\<lambda>v. Ok (Some v, cur)))"

definition GetParamDWord :: "fmt \<Rightarrow> bool \<Rightarrow> uint8 list \<Rightarrow> uint32 \<Rightarrow> nat \<Rightarrow> (uint32 option \<times> nat) res" where
  "GetParamDWord F dbg bs paramCode start =
     andThen (FindParam F dbg bs paramCode start) (\<lambda>(tmp, cur). case tmp of
       None \<Rightarrow> Ok (None, cur)
     | Some tmp \<Rightarrow> andThen (GetUint32 bs (tmp + PARAM_HEADER_LENGTH F)) (\<lambda>v. Ok (Some v, cur)))"


section \<open>The laws of a coding\<close>

text \<open>
  What the operations need of the field functions: a field of \<open>w\<close> bytes is stored as
  \<open>code c\<close>, and what was stored is read back. From this the behaviour of the search and of
  the insertion follows for both codings.
\<close>

locale param_coding =
  fixes F :: fmt and w :: nat and code :: "uint32 \<Rightarrow> uint8 list" and fits :: "uint32 \<Rightarrow> bool"
  assumes w_pos: "0 < w" "w \<le> 2" and header: "PARAM_LENGTH_OFFSET F = w" "PARAM_HEADER_LENGTH F = 2 * w"
    and end_len: "END_LENGTH F = 2"
    and length_code: "length (code c) = w"
    and zero_fits: "fits 0"
    and get_code: "fits c \<Longrightarrow> getField F (xs @ code c @ ys) (length xs) = Ok c"
    and set_code: "length zs = w \<Longrightarrow> setField F (xs @ zs @ ys) (length xs) c = Ok (xs @ code c @ ys)"

definition field8 :: "uint32 \<Rightarrow> uint8 list" where
  "field8 c = [ucast c]"

definition field16 :: "uint32 \<Rightarrow> uint8 list" where
  "field16 c = put16 [0, 0] 0 (ucast c)"

lemma nth_append_at [simp]: "(xs @ y # ys) ! length xs = y" "(xs @ y # z # ys) ! Suc (length xs) = z"
  by (simp_all add: nth_append)

lemma le16_append: "le16 (xs @ a # b # ys) (length xs) = push_bit 8 (ucast b) OR ucast a"
  by (simp add: le16_def)

lemma put16_append: "put16 (xs @ a # b # ys) (length xs) v = xs @ ucast v # ucast (drop_bit 8 v) # ys"
  by (simp add: put16_def list_update_append)

text \<open>Parameters as a list of codes and values, their bytes, and where the search finds a code.\<close>

type_synonym params = "(uint32 \<times> uint8 list) list"

fun enc :: "(uint32 \<Rightarrow> uint8 list) \<Rightarrow> params \<Rightarrow> uint8 list" where
  "enc code [] = []"
| "enc code ((c, v) # ps) = code c @ code (of_nat (length v)) @ v @ enc code ps"

fun wf_params :: "(uint32 \<Rightarrow> bool) \<Rightarrow> params \<Rightarrow> bool" where
  "wf_params fits [] = True"
| "wf_params fits ((c, v) # ps) =
     (c \<noteq> 0 \<and> fits c \<and> fits (of_nat (length v)) \<and> length v < 2 ^ 32 \<and> wf_params fits ps)"

fun found_at :: "nat \<Rightarrow> uint32 \<Rightarrow> params \<Rightarrow> nat \<Rightarrow> nat \<Rightarrow> nat option \<times> nat" where
  "found_at w c [] tmp cur = (None, 0)"
| "found_at w c ((d, v) # ps) tmp cur =
     (if d = c then (Some tmp, cur + (length v + 2 * w))
      else found_at w c ps (tmp + (length v + 2 * w)) (cur + (length v + 2 * w)))"

text \<open>The parameters before the place of a new one, and those behind it.\<close>

definition upto_code :: "uint32 \<Rightarrow> params \<Rightarrow> params" where
  "upto_code c ps = takeWhile (\<lambda>x. fst x \<le> c) ps"

definition beyond_code :: "uint32 \<Rightarrow> params \<Rightarrow> params" where
  "beyond_code c ps = dropWhile (\<lambda>x. fst x \<le> c) ps"

lemma upto_beyond: "upto_code c ps @ beyond_code c ps = ps"
  by (simp add: upto_code_def beyond_code_def)

lemma enc_append [simp]: "enc code (ps @ qs) = enc code ps @ enc code qs"
  by (induction code ps rule: enc.induct) auto

lemma wf_params_append [simp]: "wf_params fits (ps @ qs) \<longleftrightarrow> wf_params fits ps \<and> wf_params fits qs"
  by (induction fits ps rule: wf_params.induct) auto

lemma length_enc_split: "length (enc code ps) = length (enc code (upto_code c ps)) + length (enc code (beyond_code c ps))"
  by (metis enc_append length_append upto_beyond)

context param_coding
begin

lemma get_code_at: "fits c \<Longrightarrow> length xs = i \<Longrightarrow> getField F (xs @ code c @ ys) i = Ok c"
  using get_code by blast

lemma get_len_at:
  assumes "fits (of_nat (length v))"
  shows "getField F (xs @ code c @ code (of_nat (length v)) @ ys) (length xs + w) = Ok (of_nat (length v))"
  using get_code_at [OF assms, of "xs @ code c" "length xs + w" ys] by (simp add: length_code)

lemma find_loop_ok:
  assumes "wf_params fits ps" "cur + length (enc code ps) < len"
  shows "find_loop F dbg (xs @ enc code ps @ code 0 @ ys) len c (length xs) cur =
    Ok (found_at w c ps (length xs) cur)"
  using assms
proof (induction ps arbitrary: xs cur)
  case Nil
  then show ?case using get_code [OF zero_fits] by (subst find_loop.simps) simp
next
  case (Cons x ps)
  obtain d v where x: "x = (d, v)" by (cases x)
  let ?l = "of_nat (length v) :: uint32"
  have wf: "d \<noteq> 0" "fits d" "fits ?l" "unat ?l = length v" "wf_params fits ps"
    using Cons.prems(1) unat32 by (auto simp: x)
  let ?k = "length v + 2 * w"
  let ?ys = "enc code ps @ code 0 @ ys"
  have bs: "xs @ enc code (x # ps) @ code 0 @ ys = xs @ code d @ code ?l @ v @ ?ys"
    by (simp add: x)
  have lt: "cur + ?k < len" "cur + ?k + length (enc code ps) < len"
    using Cons.prems(2) by (simp_all add: x length_code)
  have IH: "find_loop F dbg ((xs @ code d @ code ?l @ v) @ ?ys) len c (length (xs @ code d @ code ?l @ v)) (cur + ?k) =
      Ok (found_at w c ps (length (xs @ code d @ code ?l @ v)) (cur + ?k))"
    by (rule Cons.IH [OF wf(5) lt(2)])
  have pos: "length (xs @ code d @ code ?l @ v) = length xs + ?k" by (simp add: length_code)
  show ?case
    unfolding bs
    using get_code [OF wf(2), of xs] get_len_at [OF wf(3), of xs d "v @ ?ys"] wf(1,4) lt(1) IH
    by (subst find_loop.simps) (simp add: header pos x del: length_append)
qed

lemma place_loop_ok:
  assumes "wf_params fits ps" "ps = [] \<or> cur + length (enc code ps) < len"
  shows "place_loop F dbg (xs @ enc code ps @ code 0 @ ys) len c (length xs) cur =
    Ok (length xs + length (enc code (upto_code c ps)), cur + length (enc code (upto_code c ps)))"
  using assms
proof (induction ps arbitrary: xs cur)
  case Nil
  then show ?case using get_code [OF zero_fits]
    by (subst place_loop.simps) (simp add: upto_code_def)
next
  case (Cons x ps)
  obtain d v where x: "x = (d, v)" by (cases x)
  let ?l = "of_nat (length v) :: uint32"
  have wf: "d \<noteq> 0" "fits d" "fits ?l" "unat ?l = length v" "wf_params fits ps"
    using Cons.prems(1) unat32 by (auto simp: x)
  let ?k = "length v + 2 * w"
  let ?ys = "enc code ps @ code 0 @ ys"
  have bs: "xs @ enc code (x # ps) @ code 0 @ ys = xs @ code d @ code ?l @ v @ ?ys"
    by (simp add: x)
  have lt: "cur + ?k < len" "cur + ?k + length (enc code ps) < len"
    using Cons.prems(2) by (simp_all add: x length_code)
  have IH: "place_loop F dbg ((xs @ code d @ code ?l @ v) @ ?ys) len c (length (xs @ code d @ code ?l @ v)) (cur + ?k) =
      Ok (length (xs @ code d @ code ?l @ v) + length (enc code (upto_code c ps)),
        cur + ?k + length (enc code (upto_code c ps)))"
    by (rule Cons.IH [OF wf(5)]) (use lt in simp)
  have pos: "length (xs @ code d @ code ?l @ v) = length xs + ?k" by (simp add: length_code)
  show ?case
    unfolding bs
    using get_code [OF wf(2), of xs] get_len_at [OF wf(3), of xs d "v @ ?ys"] wf(1,4) lt(1) IH
    by (subst place_loop.simps)
      (auto simp: header pos x upto_code_def not_le simp del: length_append, simp add: length_code)
qed

end

text \<open>A message whose parameter part holds \<open>ps\<close>, and one freshly prepared.\<close>

definition holds :: "(uint32 \<Rightarrow> uint8 list) \<Rightarrow> (uint32 \<Rightarrow> bool) \<Rightarrow> uint8 list \<Rightarrow> params \<Rightarrow> bool" where
  "holds code fits bs ps \<longleftrightarrow> (\<exists>pre rest. bs = pre @ enc code ps @ code 0 @ rest \<and>
     length pre = MSG_HEADER_LENGTH \<and> le16 pre (off MSG_LENGTH) = of_nat (length (enc code ps) + 2) \<and>
     length (enc code ps) + 2 < 2 ^ 16 \<and> wf_params fits ps \<and> 2 \<le> length (code 0) + length rest)"

definition fresh :: "uint8 list \<Rightarrow> bool" where
  "fresh bs \<longleftrightarrow> MSG_HEADER_LENGTH + 2 \<le> length bs \<and> le16 bs (off MSG_LENGTH) = 0"

lemma put16_append_left: "a + 1 < length xs \<Longrightarrow> put16 (xs @ ys) a v = put16 xs a v @ ys"
  by (simp add: put16_def list_update_append)

lemma le16_append_left: "a + 1 < length xs \<Longrightarrow> le16 (xs @ ys) a = le16 xs a"
  by (simp add: le16_def nth_append)

lemma GetMsgInfoLength_append [simp]:
  "length pre = MSG_HEADER_LENGTH \<Longrightarrow> GetMsgInfoLength (pre @ ys) = Ok (le16 pre (off MSG_LENGTH))"
  by (simp add: GetMsgInfoLength_def MSG_HEADER_LENGTH_def le16_append_left)

lemma SetMsgInfoLength_append [simp]:
  "length pre = MSG_HEADER_LENGTH \<Longrightarrow> SetMsgInfoLength (pre @ ys) v = Ok (put16 pre (off MSG_LENGTH) v @ ys)"
  by (simp add: SetMsgInfoLength_def MSG_HEADER_LENGTH_def put16_append_left)

lemma unat_sub_offset:
  assumes "k \<le> unat (il :: uint16)"
  shows "unat (ucast il - of_nat k :: uint32) = unat il - k"
proof -
  have il: "unat il < 2 ^ LENGTH(16)" by (rule unsigned_less)
  have "unat (of_nat k :: uint32) = k" using assms il by (intro unat32) simp
  moreover have "unat (ucast il :: uint32) = unat il"
    using il by (simp add: unsigned_ucast_eq unsigned_take_bit_eq take_bit_nat_eq_self)
  ultimately show ?thesis using assms by (simp add: unat_diff word_le_nat_alt)
qed

context param_coding
begin

lemma holds_il:
  assumes "holds code fits bs ps"
  obtains pre rest where "bs = pre @ enc code ps @ code 0 @ rest" "length pre = MSG_HEADER_LENGTH"
    "le16 pre (off MSG_LENGTH) = of_nat (length (enc code ps) + 2)"
    "unat (le16 pre (off MSG_LENGTH)) = length (enc code ps) + 2" "le16 pre (off MSG_LENGTH) \<noteq> 0"
    "wf_params fits ps" "2 \<le> w + length rest" "length (enc code ps) + 2 < 2 ^ 16"
proof -
  obtain pre rest where h: "bs = pre @ enc code ps @ code 0 @ rest" "length pre = MSG_HEADER_LENGTH"
    "le16 pre (off MSG_LENGTH) = of_nat (length (enc code ps) + 2)" "length (enc code ps) + 2 < 2 ^ 16"
    "wf_params fits ps" "2 \<le> w + length rest"
    using assms by (auto simp: holds_def length_code)
  have u: "unat (le16 pre (off MSG_LENGTH)) = length (enc code ps) + 2"
    unfolding h(3) by (rule unat16 [OF h(4)])
  then have "le16 pre (off MSG_LENGTH) \<noteq> 0" by (metis add_is_0 unat_0 zero_neq_numeral)
  then show ?thesis using that [OF h(1,2,3) u _ h(5,6,4)] by blast
qed

lemma FindParam_ok:
  assumes "holds code fits bs (ps @ qs)"
  shows "FindParam F dbg bs c (length (enc code ps)) =
    Ok (found_at w c qs (MSG_HEADER_LENGTH + length (enc code ps)) (length (enc code ps)))"
proof -
  obtain pre rest where h: "bs = pre @ enc code (ps @ qs) @ code 0 @ rest" "length pre = MSG_HEADER_LENGTH"
    "unat (le16 pre (off MSG_LENGTH)) = length (enc code (ps @ qs)) + 2" "wf_params fits (ps @ qs)"
    using holds_il [OF assms] by metis
  have "find_loop F dbg ((pre @ enc code ps) @ enc code qs @ code 0 @ rest)
      (length (enc code (ps @ qs)) + 2 + MSG_HEADER_LENGTH) c (length (pre @ enc code ps)) (length (enc code ps)) =
    Ok (found_at w c qs (length (pre @ enc code ps)) (length (enc code ps)))"
    by (rule find_loop_ok) (use h(4) in auto)
  then show ?thesis
    using h by (simp add: FindParam_def MSG_HEADER_LENGTH_def Let_def)
qed

lemma found_at_None: "c \<notin> fst ` set ps \<Longrightarrow> found_at w c ps tmp cur = (None, 0)"
  by (induction w c ps tmp cur rule: found_at.induct) auto

lemma found_at_Some:
  "found_at w c (before @ (c, v) # after) tmp cur =
   (Some (tmp + length (enc code before)), cur + (length (enc code before) + length v + 2 * w))"
  if "c \<notin> fst ` set before"
  using that
proof (induction before arbitrary: tmp cur)
  case (Cons x before)
  then show ?case by (cases x) (auto simp: length_code)
qed simp

lemma first_occurrence:
  assumes "map_of ps c = Some v"
  obtains before after where "ps = before @ (c, v) # after" "c \<notin> fst ` set before"
  using assms
proof (induction ps arbitrary: thesis)
  case (Cons x ps)
  show ?case
  proof (cases "fst x = c")
    case True
    then show ?thesis using Cons.prems(2) Cons.prems(1) [of "[]" ps] by (cases x) auto
  next
    case False
    then have "map_of ps c = Some v" using Cons.prems(2) by (cases x) auto
    then obtain before after where "ps = before @ (c, v) # after" "c \<notin> fst ` set before"
      using Cons.IH by blast
    then show ?thesis using False Cons.prems(1) [of "x # before" after] by auto
  qed
qed simp

text \<open>The first parameter with the code is found, with its length and its bytes.\<close>

lemma GetParam_len_ok:
  assumes "holds code fits bs ps" "map_of ps c = Some v"
  shows "\<exists>p cur. GetParam_len F dbg bs c 0 = Ok (Some p, of_nat (length v), cur) \<and>
    p + length v \<le> length bs \<and> take (length v) (drop p bs) = v"
proof -
  obtain before after where ps: "ps = before @ (c, v) # after" "c \<notin> fst ` set before"
    using first_occurrence [OF assms(2)] .
  obtain pre rest where h: "bs = pre @ enc code ps @ code 0 @ rest" "length pre = MSG_HEADER_LENGTH"
    "wf_params fits ps"
    using holds_il [OF assms(1)] by metis
  have fits: "fits (of_nat (length v))" using h(3) ps(1) by simp
  let ?p = "MSG_HEADER_LENGTH + length (enc code before)"
  let ?xs = "pre @ enc code before" and ?ys = "enc code after @ code 0 @ rest"
  have bs: "bs = ?xs @ code c @ code (of_nat (length v)) @ v @ ?ys" using h(1) ps(1) by simp
  have len: "length ?xs = ?p" using h(2) by simp
  have "FindParam F dbg bs c 0 = Ok (Some ?p, length (enc code before) + length v + 2 * w)"
    using FindParam_ok [of bs "[]" ps dbg c] assms(1) found_at_Some [OF ps(2), of v after] ps(1) by simp
  moreover have "getField F bs (?p + w) = Ok (of_nat (length v))"
    using get_len_at [OF fits, of ?xs c "v @ ?ys"] bs len by simp
  moreover have "take (length v) (drop (?p + 2 * w) bs) = v" "?p + 2 * w + length v \<le> length bs"
    using bs len length_code by simp_all
  ultimately show ?thesis by (simp add: GetParam_len_def header)
qed

lemma GetParam_len_none:
  assumes "holds code fits bs ps" "map_of ps c = None"
  shows "GetParam_len F dbg bs c 0 = Ok (None, 0, 0)"
  using FindParam_ok [of bs "[]" ps dbg c] assms found_at_None [of c ps] 
  by (simp add: GetParam_len_def map_of_eq_None_iff)

lemma SetENDOfParams_fresh:
  assumes "fresh bs"
  shows "\<exists>bs'. SetENDOfParams F bs = Ok bs' \<and> holds code fits bs' [] \<and> length bs' = length bs \<and>
    take (off MSG_LENGTH) bs' = take (off MSG_LENGTH) bs"
proof -
  let ?pre = "take MSG_HEADER_LENGTH bs" and ?z = "take w (drop MSG_HEADER_LENGTH bs)"
    and ?rest = "drop (MSG_HEADER_LENGTH + w) bs"
  have len: "MSG_HEADER_LENGTH + 2 \<le> length bs" and il: "le16 bs (off MSG_LENGTH) = 0"
    using assms by (simp_all add: fresh_def)
  have bs: "bs = ?pre @ ?z @ ?rest"
    by (metis add.commute append_take_drop_id drop_drop)
  have lz: "length ?z = w" "length ?pre = MSG_HEADER_LENGTH" "2 \<le> w + length ?rest"
    using len w_pos by auto
  have pre: "le16 ?pre (off MSG_LENGTH) = 0"
    using il by (simp add: le16_def MSG_HEADER_LENGTH_def)
  have G: "GetMsgInfoLength (?pre @ ys) = Ok 0" for ys
    using pre lz(2) by simp
  have "GetMsgInfoLength bs = Ok 0" using G [of "?z @ ?rest"] bs by simp
  moreover have "setField F bs MSG_HEADER_LENGTH 0 = Ok (?pre @ code 0 @ ?rest)"
    using set_code [OF lz(1), of ?pre ?rest 0] bs lz(2) by simp
  ultimately have "SetENDOfParams F bs = Ok (put16 ?pre (off MSG_LENGTH) 2 @ code 0 @ ?rest)"
    using G lz(2) by (simp add: SetENDOfParams_def end_len)
  moreover have "holds code fits (put16 ?pre (off MSG_LENGTH) 2 @ code 0 @ ?rest) []"
    unfolding holds_def using lz
    by (intro exI [of _ "put16 ?pre (off MSG_LENGTH) 2"] exI [of _ ?rest])
      (simp add: length_code MSG_HEADER_LENGTH_def)
  moreover have "length (put16 ?pre (off MSG_LENGTH) 2 @ code 0 @ ?rest) = length bs"
    using len w_pos by (simp add: length_code)
  moreover have "take (off MSG_LENGTH) (put16 ?pre (off MSG_LENGTH) 2 @ code 0 @ ?rest) = take (off MSG_LENGTH) bs"
    using len by (simp add: put16_def MSG_HEADER_LENGTH_def)
  ultimately show ?thesis by blast
qed

text \<open>Insertion behind all parameters with codes up to the new one.\<close>

lemma insert_bytes:
  assumes bs: "bs = xs @ A @ code 0 @ rest" and room: "length A + 2 + (length v + 2 * w) \<le> length (A @ code 0 @ rest)"
    and two: "2 \<le> w + length rest"
  shows "\<exists>rest'. andThen (memmove bs (length xs + length v + 2 * w) (length xs) (length A + 2)) (\<lambda>bs.
      andThen (setField F bs (length xs) c) (\<lambda>bs. andThen (setField F bs (length xs + w) (of_nat (length v))) (\<lambda>bs.
      memcpy bs (length xs + 2 * w) v (length v)))) =
    Ok (xs @ code c @ code (of_nat (length v)) @ v @ A @ code 0 @ rest') \<and>
    length rest' + (length v + 2 * w) = length rest \<and> 2 \<le> w + length rest'"
proof -
  let ?K = "length v + 2 * w" and ?n = "length A + 2"
  let ?M = "A @ code 0 @ rest"
  define Y where "Y = take ?K ?M"
  let ?s = "take (2 - w) rest"
  have lenY: "length Y = ?K" using room by (simp add: Y_def)
  have n: "take ?n ?M = A @ code 0 @ ?s"
    using w_pos by (simp add: length_code)
  define rest' where "rest' = ?s @ drop (?K + ?n) ?M"
  have mv: "memmove bs (length xs + length v + 2 * w) (length xs) ?n = Ok (xs @ Y @ A @ code 0 @ rest')"
    using room n w_pos by (simp add: memmove_def bs length_code rest'_def Y_def add.assoc)
  define Y1 Y2 Y3 where "Y1 = take w Y" and "Y2 = take w (drop w Y)" and "Y3 = drop (2 * w) Y"
  have Y: "Y = Y1 @ Y2 @ Y3" and lY: "length Y1 = w" "length Y2 = w" "length Y3 = length v"
    using lenY by (simp_all add: Y1_def Y2_def Y3_def mult_2 flip: drop_drop)
  let ?tail = "A @ code 0 @ rest'"
  have 1: "setField F (xs @ Y @ ?tail) (length xs) c = Ok (xs @ code c @ Y2 @ Y3 @ ?tail)"
    using set_code [OF lY(1), of xs "Y2 @ Y3 @ ?tail" c] Y by simp
  have 2: "setField F (xs @ code c @ Y2 @ Y3 @ ?tail) (length xs + w) (of_nat (length v)) =
      Ok (xs @ code c @ code (of_nat (length v)) @ Y3 @ ?tail)"
    using set_code [OF lY(2), of "xs @ code c" "Y3 @ ?tail" "of_nat (length v)"] by (simp add: length_code)
  have 3: "memcpy (xs @ code c @ code (of_nat (length v)) @ Y3 @ ?tail) (length xs + 2 * w) v (length v) =
      Ok (xs @ code c @ code (of_nat (length v)) @ v @ ?tail)"
    using memcpy_append [of v "length v" Y3 "xs @ code c @ code (of_nat (length v))" ?tail] lY(3)
    by (simp add: length_code mult_2 add.assoc)
  have "length rest' + ?K = length rest" "2 \<le> w + length rest'"
    using room two w_pos by (auto simp: rest'_def length_code min_def)
  with mv 1 2 3 show ?thesis by (intro exI [of _ rest']) simp
qed

lemma AddParam_ok:
  assumes h: "holds code fits bs ps" and c: "c \<noteq> 0" "fits c" "fits (of_nat (length v))" "length v < 2 ^ 32"
    and room: "MSG_HEADER_LENGTH + length (enc code ps) + 2 + (length v + 2 * w) \<le> length bs"
    and small: "length (enc code ps) + 2 + (length v + 2 * w) < 2 ^ 16"
  shows "\<exists>bs'. AddParam F dbg bs c (of_nat (length v)) v = Ok bs' \<and>
    holds code fits bs' (upto_code c ps @ (c, v) # beyond_code c ps) \<and> length bs' = length bs \<and>
    take (off MSG_LENGTH) bs' = take (off MSG_LENGTH) bs"
proof -
  let ?B = "enc code (upto_code c ps)" and ?A = "enc code (beyond_code c ps)"
  obtain pre rest where b: "bs = pre @ enc code ps @ code 0 @ rest" "length pre = MSG_HEADER_LENGTH"
    "le16 pre (off MSG_LENGTH) = of_nat (length (enc code ps) + 2)"
    "unat (le16 pre (off MSG_LENGTH)) = length (enc code ps) + 2" "le16 pre (off MSG_LENGTH) \<noteq> 0"
    "wf_params fits ps" "2 \<le> w + length rest"
    using holds_il [OF h] by metis
  have AB: "enc code ps = ?B @ ?A" by (metis enc_append upto_beyond)
  have place: "FindParamPlace F dbg bs c 0 = Ok (MSG_HEADER_LENGTH + length ?B, length ?B, bs)"
    using place_loop_ok [OF b(6), of 0 "unat (le16 pre (off MSG_LENGTH))" dbg pre rest c] b(1,2,4,5)
    by (simp add: FindParamPlace_def MSG_HEADER_LENGTH_def)
  have cnt: "unat (ucast (le16 pre (off MSG_LENGTH)) - of_nat (length ?B) :: uint32) = length ?A + 2"
    using b(4) AB by (subst unat_sub_offset) simp_all
  have u: "unat (of_nat (length v) :: uint32) = length v" by (rule unat32 [OF c(4)])
  have bs: "bs = (pre @ ?B) @ ?A @ code 0 @ rest" using b(1) AB by simp
  have room': "length ?A + 2 + (length v + 2 * w) \<le> length (?A @ code 0 @ rest)"
    using room b(2) arg_cong [OF bs, of length] AB by simp
  obtain rest' where ins: "andThen (memmove bs (length (pre @ ?B) + length v + 2 * w) (length (pre @ ?B)) (length ?A + 2)) (\<lambda>bs.
      andThen (setField F bs (length (pre @ ?B)) c) (\<lambda>bs. andThen (setField F bs (length (pre @ ?B) + w) (of_nat (length v))) (\<lambda>bs.
      memcpy bs (length (pre @ ?B) + 2 * w) v (length v)))) =
    Ok ((pre @ ?B) @ code c @ code (of_nat (length v)) @ v @ ?A @ code 0 @ rest')"
    "length rest' + (length v + 2 * w) = length rest" "2 \<le> w + length rest'"
    using insert_bytes [OF bs room' b(7), of c] by blast
  let ?il = "le16 pre (off MSG_LENGTH) + ucast (of_nat (length v) :: uint32) + of_nat (2 * w)"
  let ?new = "upto_code c ps @ (c, v) # beyond_code c ps"
  let ?bs = "put16 pre (off MSG_LENGTH) ?il @ enc code ?new @ code 0 @ rest'"
  have enc: "enc code ?new = ?B @ code c @ code (of_nat (length v)) @ v @ ?A" by simp
  have G: "GetMsgInfoLength bs = Ok (le16 pre (off MSG_LENGTH))" using b(1,2) by simp
  have "AddParam F dbg bs c (of_nat (length v)) v =
     andThen (andThen (memmove bs (length (pre @ ?B) + length v + 2 * w) (length (pre @ ?B)) (length ?A + 2)) (\<lambda>bs.
      andThen (setField F bs (length (pre @ ?B)) c) (\<lambda>bs. andThen (setField F bs (length (pre @ ?B) + w) (of_nat (length v))) (\<lambda>bs.
      memcpy bs (length (pre @ ?B) + 2 * w) v (length v)))))
      (\<lambda>bs. andThen (GetMsgInfoLength bs) (\<lambda>il. SetMsgInfoLength bs
         (il + ucast (of_nat (length v) :: uint32) + of_nat (2 * w))))"
    using place G cnt u b(2) by (simp add: AddParam_def header andThen_assoc add.assoc)
  also have "\<dots> = Ok ?bs" unfolding ins(1) andThen_simps using b(2) enc by simp
  finally have add: "AddParam F dbg bs c (of_nat (length v)) v = Ok ?bs" .
  have "ucast (of_nat (length v) :: uint32) = (of_nat (length v) :: uint16)"
    using u by (intro word_unat_eq_iff [THEN iffD2])
      (simp add: unsigned_ucast_eq unsigned_take_bit_eq unat_of_nat take_bit_eq_mod)
  then have il: "?il = of_nat (length (enc code ?new) + 2)"
    using b(3) AB by (simp add: enc length_code)
  have "length (enc code ?new) + 2 = length (enc code ps) + 2 + (length v + 2 * w)"
    using AB by (simp add: enc length_code)
  then have "holds code fits ?bs ?new"
    unfolding holds_def using b(2,6) c il ins(3) small upto_beyond [of c ps]
    by (intro exI [of _ "put16 pre (off MSG_LENGTH) ?il"] exI [of _ rest'])
      (simp add: length_code MSG_HEADER_LENGTH_def del: enc.simps, metis wf_params.simps(2) wf_params_append)
  moreover have "length ?bs = length bs"
    using ins(2) b(1) AB by (simp add: length_code enc)
  moreover have "take (off MSG_LENGTH) ?bs = take (off MSG_LENGTH) bs"
    using b(1,2) by (simp add: put16_def MSG_HEADER_LENGTH_def)
  ultimately show ?thesis using add by blast
qed

end

text \<open>The removal stops at the first larger code or at the end, never at the code itself.\<close>

context param_coding
begin

lemma RemoveParam_nothing:
  assumes h: "holds code fits bs ps" and c: "c \<noteq> 0"
  shows "RemoveParam F dbg bs c = Ok (False, bs)"
proof -
  let ?B = "enc code (upto_code c ps)"
  obtain pre rest where b: "bs = pre @ enc code ps @ code 0 @ rest" "length pre = MSG_HEADER_LENGTH"
    "unat (le16 pre (off MSG_LENGTH)) = length (enc code ps) + 2" "le16 pre (off MSG_LENGTH) \<noteq> 0"
    "wf_params fits ps"
    using holds_il [OF h] by metis
  have place: "FindParamPlace F dbg bs c 0 = Ok (MSG_HEADER_LENGTH + length ?B, length ?B, bs)"
    using place_loop_ok [OF b(5), of 0 "unat (le16 pre (off MSG_LENGTH))" dbg pre rest c] b(1,2,3,4)
    by (simp add: FindParamPlace_def MSG_HEADER_LENGTH_def)
  have "\<exists>d. getField F bs (MSG_HEADER_LENGTH + length ?B) = Ok d \<and> d \<noteq> c"
  proof (cases "beyond_code c ps")
    case Nil
    then have "bs = (pre @ ?B) @ code 0 @ rest" using b(1) upto_beyond [of c ps] by simp
    then show ?thesis using get_code_at [OF zero_fits, of "pre @ ?B"] b(2) c by force
  next
    case (Cons x qs)
    obtain d v where x: "x = (d, v)" by (cases x)
    have "\<not> fst x \<le> c" using Cons hd_dropWhile [of "\<lambda>x. fst x \<le> c" ps] by (simp add: beyond_code_def)
    moreover have "fits d"
      using b(5) Cons x upto_beyond [of c ps] by (metis wf_params.simps(2) wf_params_append)
    moreover have "enc code ps = ?B @ code d @ code (of_nat (length v)) @ v @ enc code qs"
      using Cons x upto_beyond [of c ps] by (metis enc.simps(2) enc_append)
    then have "bs = (pre @ ?B) @ code d @ code (of_nat (length v)) @ v @ enc code qs @ code 0 @ rest"
      using b(1) by simp
    ultimately show ?thesis using get_code_at [of d "pre @ ?B"] b(2) x by force
  qed
  then show ?thesis
    using place c by (auto simp: RemoveParam_def)
qed

end

text \<open>The new list of parameters: sorted if the old one was, with the new value first found
  only when the code was not there before.\<close>

lemma sorted_insert_params:
  assumes "sorted (map fst ps)"
  shows "sorted (map fst (upto_code c ps @ (c, v) # beyond_code c ps))"
  using assms
proof (induction ps)
  case (Cons x ps)
  show ?case
  proof (cases "fst x \<le> c")
    case True
    have "set (upto_code c ps) \<union> set (beyond_code c ps) = set ps"
      by (metis set_append upto_beyond)
    then have "\<forall>y \<in> set (upto_code c ps @ (c, v) # beyond_code c ps). fst x \<le> fst y"
      using Cons.prems True by auto
    then show ?thesis using Cons True by (auto simp: upto_code_def beyond_code_def)
  next
    case False
    then show ?thesis using Cons.prems
      by (auto simp: upto_code_def beyond_code_def not_le intro: less_imp_le order.trans)
  qed
qed (simp add: upto_code_def beyond_code_def)

lemma beyond_larger:
  assumes "sorted (map fst ps)" "x \<in> set (beyond_code c ps)"
  shows "c < fst x"
  using assms
proof (induction ps)
  case (Cons y ps)
  then show ?case
    by (cases "fst y \<le> c") (auto simp: beyond_code_def not_le)
qed (simp add: beyond_code_def)

lemma map_of_insert_params:
  assumes "sorted (map fst ps)"
  shows "map_of (upto_code c ps @ (c, v) # beyond_code c ps) d =
    (if d = c \<and> map_of ps c = None then Some v else map_of ps d)"
proof -
  have "map_of ps d = (map_of (beyond_code c ps) ++ map_of (upto_code c ps)) d" for d
    using upto_beyond [of c ps] by (metis map_of_append)
  moreover have "map_of (beyond_code c ps) c = None"
    using beyond_larger [OF assms] by (fastforce simp: map_of_eq_None_iff)
  ultimately show ?thesis
    by (cases "d = c") (auto simp: map_add_def split: option.splits)
qed

interpretation pc8: param_coding pc8 1 field8 "\<lambda>c. unat c < 2 ^ 8"
proof (unfold_locales, goal_cases)
  case (8 c xs ys)
  have "ucast (ucast c :: uint8) = c"
    using 8 by (intro word_unat_eq_iff [THEN iffD2]) (simp add: unsigned_ucast_eq unsigned_take_bit_eq take_bit_nat_eq_self)
  then show ?case by (simp add: pc8_def field8_def)
next
  case (9 zs xs ys c)
  then obtain z where "zs = [z]" by (cases zs) auto
  then show ?case by (simp add: pc8_def field8_def)
qed (auto simp: pc8_def field8_def)

interpretation pc16: param_coding pc16 2 field16 "\<lambda>c. unat c < 2 ^ 16"
proof (unfold_locales, goal_cases)
  case (8 c xs ys)
  have "ucast (ucast c :: uint16) = c"
    using 8 by (intro word_unat_eq_iff [THEN iffD2]) (simp add: unsigned_ucast_eq unsigned_take_bit_eq take_bit_nat_eq_self)
  moreover have "le16 (xs @ field16 c @ ys) (length xs) = ucast c"
    using split16 [of "ucast c"] by (simp add: field16_def put16_def le16_append)
  ultimately show ?case by (simp add: pc16_def field16_def)
next
  case (9 zs xs ys c)
  then obtain a b where "zs = [a, b]" by (cases zs; cases "tl zs") auto
  then show ?case by (simp add: pc16_def field16_def put16_append) (simp add: put16_def)
qed (auto simp: pc16_def field16_def)

section \<open>The two-byte coding by its own names\<close>

definition pc16_FindParam :: "bool \<Rightarrow> uint8 list \<Rightarrow> uint32 \<Rightarrow> nat \<Rightarrow> (nat option \<times> nat) res" where
  "pc16_FindParam = FindParam pc16"
definition pc16_FindParamPlace :: "bool \<Rightarrow> uint8 list \<Rightarrow> uint32 \<Rightarrow> nat \<Rightarrow> (nat \<times> nat \<times> uint8 list) res" where
  "pc16_FindParamPlace = FindParamPlace pc16"
definition pc16_GetParam :: "bool \<Rightarrow> uint8 list \<Rightarrow> uint32 \<Rightarrow> nat \<Rightarrow> (nat option \<times> nat) res" where
  "pc16_GetParam = GetParam pc16"
definition pc16_GetParam_len :: "bool \<Rightarrow> uint8 list \<Rightarrow> uint32 \<Rightarrow> nat \<Rightarrow> (nat option \<times> uint32 \<times> nat) res" where
  "pc16_GetParam_len = GetParam_len pc16"
definition pc16_GetParamByte :: "bool \<Rightarrow> uint8 list \<Rightarrow> uint32 \<Rightarrow> nat \<Rightarrow> (uint8 option \<times> nat) res" where
  "pc16_GetParamByte = GetParamByte pc16"
definition pc16_GetParamWord :: "bool \<Rightarrow> uint8 list \<Rightarrow> uint32 \<Rightarrow> nat \<Rightarrow> (uint16 option \<times> nat) res" where
  "pc16_GetParamWord = GetParamWord pc16"
definition pc16_GetParamDWord :: "bool \<Rightarrow> uint8 list \<Rightarrow> uint32 \<Rightarrow> nat \<Rightarrow> (uint32 option \<times> nat) res" where
  "pc16_GetParamDWord = GetParamDWord pc16"
definition pc16_AddParam :: "bool \<Rightarrow> uint8 list \<Rightarrow> uint32 \<Rightarrow> uint32 \<Rightarrow> uint8 list \<Rightarrow> uint8 list res" where
  "pc16_AddParam = AddParam pc16"
definition pc16_AddParam_coded :: "bool \<Rightarrow> uint8 list \<Rightarrow> uint8 list \<Rightarrow> uint8 list res" where
  "pc16_AddParam_coded = AddParam_coded pc16"
definition pc16_AddParamByte :: "bool \<Rightarrow> uint8 list \<Rightarrow> uint32 \<Rightarrow> uint8 \<Rightarrow> uint8 list res" where
  "pc16_AddParamByte = AddParamByte pc16"
definition pc16_AddParamWord :: "bool \<Rightarrow> uint8 list \<Rightarrow> uint32 \<Rightarrow> uint16 \<Rightarrow> uint8 list res" where
  "pc16_AddParamWord = AddParamWord pc16"
definition pc16_AddParamDWord :: "bool \<Rightarrow> uint8 list \<Rightarrow> uint32 \<Rightarrow> uint32 \<Rightarrow> uint8 list res" where
  "pc16_AddParamDWord = AddParamDWord pc16"
definition pc16_RemoveParam :: "bool \<Rightarrow> uint8 list \<Rightarrow> uint32 \<Rightarrow> (bool \<times> uint8 list) res" where
  "pc16_RemoveParam = RemoveParam pc16"
definition pc16_SetENDOfParams :: "uint8 list \<Rightarrow> uint8 list res" where
  "pc16_SetENDOfParams = SetENDOfParams pc16"

section \<open>Properties of the parameter codings\<close>

abbreviation holds8 :: "uint8 list \<Rightarrow> params \<Rightarrow> bool" where
  "holds8 \<equiv> holds field8 (\<lambda>c. unat c < 2 ^ 8)"

abbreviation holds16 :: "uint8 list \<Rightarrow> params \<Rightarrow> bool" where
  "holds16 \<equiv> holds field16 (\<lambda>c. unat c < 2 ^ 16)"

text \<open>A message of 40 bytes with the parameters 3 and 5 in the one-byte coding.\<close>

definition ex_msg8 :: "uint8 list" where
  "ex_msg8 = replicate 19 0 @ [9, 0] @ [3, 2, 11, 12, 5, 1, 7, 0] @ replicate 11 0"

definition ex_msg16 :: "uint8 list" where
  "ex_msg16 = replicate 19 0 @ [7, 0] @ [3, 0, 1, 0, 9, 0, 0] @ replicate 12 0"

lemma ex_msg8_holds: "holds8 ex_msg8 [(3, [11, 12]), (5, [7])]"
  unfolding holds_def
  by (rule exI [of _ "replicate 19 0 @ [9, 0]"], rule exI [of _ "replicate 11 0"])
    (simp add: nth_append ex_msg8_def field8_def MSG_HEADER_LENGTH_def le16_def)

lemma ex_msg16_holds: "holds16 ex_msg16 [(3, [9])]"
  unfolding holds_def
  by (rule exI [of _ "replicate 19 0 @ [7, 0]"], rule exI [of _ "replicate 12 0"])
    (simp add: nth_append ex_msg16_def field16_def put16_def MSG_HEADER_LENGTH_def le16_def)

text \<open>C25: parameters round-trip (one-byte coding). Adding a parameter that is not there yet to a
  message sorted by code, in a buffer with room for it, returns with asserts on or off; the
  message then holds the old parameters and the new one, still sorted; reading it back gives
  its length and its bytes; no header field but the length changes.\<close>

theorem pc8_add_then_get:
  assumes "holds8 bs ps" "sorted (map fst ps)" "map_of ps c = None" "c \<noteq> 0" "unat c < 256" "length v < 256"
    and "MSG_HEADER_LENGTH + length (enc field8 ps) + 2 + (length v + 2) \<le> length bs"
    and "length (enc field8 ps) + 2 + (length v + 2) < 2 ^ 16"
  shows "\<exists>bs' qs p cur. AddParam pc8 dbg bs c (of_nat (length v)) v = Ok bs' \<and> holds8 bs' qs \<and>
    sorted (map fst qs) \<and> map_of qs = (map_of ps)(c \<mapsto> v) \<and>
    GetParam_len pc8 dbg bs' c 0 = Ok (Some p, of_nat (length v), cur) \<and>
    take (length v) (drop p bs') = v \<and> take 19 bs' = take 19 bs"
proof -
  let ?qs = "upto_code c ps @ (c, v) # beyond_code c ps"
  have len: "unat (of_nat (length v) :: uint32) < 2 ^ 8" using assms(6) unat32 [of "length v"] by simp
  obtain bs' where a: "AddParam pc8 dbg bs c (of_nat (length v)) v = Ok bs'" "holds8 bs' ?qs"
    "take 19 bs' = take 19 bs"
    using pc8.AddParam_ok [OF assms(1,4) _ len] assms(5-8) by auto
  have m: "map_of ?qs = (map_of ps)(c \<mapsto> v)"
    using map_of_insert_params [OF assms(2)] assms(3) by (auto simp: fun_eq_iff)
  then have "map_of ?qs c = Some v" by (simp only: fun_upd_same)
  then show ?thesis
    using a m sorted_insert_params [OF assms(2)] pc8.GetParam_len_ok [OF a(2)] by blast
qed

theorem pc8_add_then_get_witness:
  "\<exists>bs' qs p cur. AddParam pc8 True ex_msg8 4 (of_nat (length [1, 2, 3 :: uint8])) [1, 2, 3] = Ok bs' \<and>
    holds8 bs' qs \<and> sorted (map fst qs) \<and>
    map_of qs = (map_of [(3, [11, 12]), (5, [7])])(4 \<mapsto> [1, 2, 3]) \<and>
    GetParam_len pc8 True bs' 4 0 = Ok (Some p, of_nat (length [1, 2, 3 :: uint8]), cur) \<and>
    take (length [1, 2, 3 :: uint8]) (drop p bs') = [1, 2, 3] \<and> take 19 bs' = take 19 ex_msg8"
  by (rule pc8_add_then_get [OF ex_msg8_holds]) (simp_all add: field8_def ex_msg8_def MSG_HEADER_LENGTH_def)

text \<open>Parameters round-trip (two-byte coding), as for one byte, with codes and lengths up to
  \<open>2 ^ 16 - 1\<close>.\<close>

theorem pc16_add_then_get:
  assumes "holds16 bs ps" "sorted (map fst ps)" "map_of ps c = None" "c \<noteq> 0" "unat c < 65536"
    and "MSG_HEADER_LENGTH + length (enc field16 ps) + 2 + (length v + 4) \<le> length bs"
    and "length (enc field16 ps) + 2 + (length v + 4) < 2 ^ 16"
  shows "\<exists>bs' qs p cur. pc16_AddParam dbg bs c (of_nat (length v)) v = Ok bs' \<and> holds16 bs' qs \<and>
    sorted (map fst qs) \<and> map_of qs = (map_of ps)(c \<mapsto> v) \<and>
    pc16_GetParam_len dbg bs' c 0 = Ok (Some p, of_nat (length v), cur) \<and>
    take (length v) (drop p bs') = v \<and> take 19 bs' = take 19 bs"
proof -
  let ?qs = "upto_code c ps @ (c, v) # beyond_code c ps"
  have len: "unat (of_nat (length v) :: uint32) < 2 ^ 16" using assms(7) unat32 [of "length v"] by simp
  obtain bs' where a: "AddParam pc16 dbg bs c (of_nat (length v)) v = Ok bs'" "holds16 bs' ?qs"
    "take 19 bs' = take 19 bs"
    using pc16.AddParam_ok [OF assms(1,4) _ len] assms(5-7) by auto
  have m: "map_of ?qs = (map_of ps)(c \<mapsto> v)"
    using map_of_insert_params [OF assms(2)] assms(3) by (auto simp: fun_eq_iff)
  then have "map_of ?qs c = Some v" by (simp only: fun_upd_same)
  then show ?thesis
    unfolding pc16_AddParam_def pc16_GetParam_len_def
    using a m sorted_insert_params [OF assms(2)] pc16.GetParam_len_ok [OF a(2)] by blast
qed

theorem pc16_add_then_get_witness:
  "\<exists>bs' qs p cur. pc16_AddParam True ex_msg16 4 (of_nat (length [1, 2 :: uint8])) [1, 2] = Ok bs' \<and>
    holds16 bs' qs \<and> sorted (map fst qs) \<and> map_of qs = (map_of [(3, [9])])(4 \<mapsto> [1, 2]) \<and>
    pc16_GetParam_len True bs' 4 0 = Ok (Some p, of_nat (length [1, 2 :: uint8]), cur) \<and>
    take (length [1, 2 :: uint8]) (drop p bs') = [1, 2] \<and> take 19 bs' = take 19 ex_msg16"
  by (rule pc16_add_then_get [OF ex_msg16_holds])
    (simp_all add: field16_def ex_msg16_def MSG_HEADER_LENGTH_def)

text \<open>\<^verbatim>\<open>RemoveParam\<close> never removes a parameter, in either coding: its search for the place
  steps over the code it looks for, so the code found there always differs, and the call
  returns \<^verbatim>\<open>false\<close> with the message unchanged, even when the parameter is there.\<close>

theorem RemoveParam_never_removes:
  assumes "holds8 bs ps" "holds16 cs qs" "c \<noteq> 0"
  shows "RemoveParam pc8 dbg bs c = Ok (False, bs) \<and> pc16_RemoveParam dbg cs c = Ok (False, cs)"
  using pc8.RemoveParam_nothing [OF assms(1,3)] pc16.RemoveParam_nothing [OF assms(2,3)]
  by (simp add: pc16_RemoveParam_def)

theorem RemoveParam_never_removes_witness:
  "RemoveParam pc8 True ex_msg8 3 = Ok (False, ex_msg8) \<and> pc16_RemoveParam True ex_msg16 3 = Ok (False, ex_msg16)"
  by (rule RemoveParam_never_removes [OF ex_msg8_holds ex_msg16_holds]) simp

end
