(* ===== verification/Log_Interface.thy ===== *)
theory Log_Interface
  imports Msg_Interface
begin

text \<open>
  \<^verbatim>\<open>Kernel/logAutomate.cpp\<close>: class \<^verbatim>\<open>LogInterface\<close>, the buffer in which one log record is
  built (code, length, then parameters of one code byte, one length byte and the value), and
  the functions of class \<^verbatim>\<open>LogAutomateNew\<close> that build the records of an automate. The
  logger of the server is a \<^verbatim>\<open>LogFile\<close>, whose \<^verbatim>\<open>Write\<close> returns at once, so a record has no
  effect after it was built. The time of day (\<^verbatim>\<open>time\<close>) is an argument.
\<close>

record LogInterface =
  ComputerId :: uint8
  LogBuffer :: "uint8 list"
  ParamOffset :: uint16

text \<open>The constructor leaves the 8192 bytes of the buffer as they are (\<open>raw\<close>).\<close>

definition LogInterface_new :: "uint8 list \<Rightarrow> LogInterface" where
  "LogInterface_new raw = \<lparr>ComputerId = INVALID_08, LogBuffer = raw, ParamOffset = 0\<rparr>"

definition LogWrite :: "LogInterface \<Rightarrow> LogInterface" where
  "LogWrite L = L"

definition GetNewLogInfoLength :: "LogInterface \<Rightarrow> uint16 res" where
  "GetNewLogInfoLength L = GetUint16 (LogBuffer L) 2"

definition SetLogInfoLength :: "LogInterface \<Rightarrow> uint16 \<Rightarrow> LogInterface res" where
  "SetLogInfoLength L len = andThen (SetUint16 (LogBuffer L) 2 len) (\<lambda>bs. Ok (L\<lparr>LogBuffer := bs\<rparr>))"

definition SetMsgLogCode :: "LogInterface \<Rightarrow> uint16 \<Rightarrow> LogInterface res" where
  "SetMsgLogCode L code = andThen (SetUint16 (LogBuffer L) 0 code) (\<lambda>bs. Ok (L\<lparr>LogBuffer := bs\<rparr>))"

text \<open>\<^verbatim>\<open>LogBuffer[ParamOffset++] = b\<close>\<close>

definition log_byte :: "LogInterface \<Rightarrow> uint8 \<Rightarrow> LogInterface res" where
  "log_byte L b = andThen (wr (LogBuffer L) (unat (ParamOffset L)) b) (\<lambda>bs.
     Ok (L\<lparr>LogBuffer := bs, ParamOffset := ParamOffset L + 1\<rparr>))"

definition log_longer :: "LogInterface \<Rightarrow> uint16 \<Rightarrow> LogInterface res" where
  "log_longer L n = andThen (GetNewLogInfoLength L) (\<lambda>len. SetLogInfoLength L (len + n))"

definition LogAddParam :: "bool \<Rightarrow> LogInterface \<Rightarrow> uint8 \<Rightarrow> uint8 \<Rightarrow> uint8 list \<Rightarrow> LogInterface res" where
  "LogAddParam dbg L code len xs =
     andThen (assertC dbg (len \<noteq> 0)) (\<lambda>_.
     andThen (log_byte L code) (\<lambda>L.
     andThen (log_byte L len) (\<lambda>L.
     andThen (memcpy (LogBuffer L) (unat (ParamOffset L)) xs (unat len)) (\<lambda>bs.
     log_longer (L\<lparr>LogBuffer := bs, ParamOffset := ParamOffset L + ucast len\<rparr>) (ucast len + 2)))))"

definition LogAddParam_coded :: "bool \<Rightarrow> LogInterface \<Rightarrow> uint16 \<Rightarrow> uint8 list \<Rightarrow> LogInterface res" where
  "LogAddParam_coded dbg L len xs =
     andThen (assertC dbg (3 < len)) (\<lambda>_.
     andThen (memcpy (LogBuffer L) (unat (ParamOffset L)) xs (unat len)) (\<lambda>bs.
     andThen (log_longer (L\<lparr>LogBuffer := bs\<rparr>) (len + 2)) (\<lambda>L.
     Ok (L\<lparr>ParamOffset := ParamOffset L + len\<rparr>))))"

definition LogAddParamByte :: "LogInterface \<Rightarrow> uint8 \<Rightarrow> uint8 \<Rightarrow> LogInterface res" where
  "LogAddParamByte L code param =
     andThen (log_byte L code) (\<lambda>L.
     andThen (log_byte L 1) (\<lambda>L.
     andThen (log_byte L param) (\<lambda>L.
     log_longer L 3)))"

definition LogAddParamWord :: "LogInterface \<Rightarrow> uint8 \<Rightarrow> uint16 \<Rightarrow> LogInterface res" where
  "LogAddParamWord L code param =
     andThen (log_byte L code) (\<lambda>L.
     andThen (log_byte L 2) (\<lambda>L.
     andThen (SetUint16 (LogBuffer L) (unat (ParamOffset L)) param) (\<lambda>bs.
     andThen (log_longer (L\<lparr>LogBuffer := bs\<rparr>) 4) (\<lambda>L.
     Ok (L\<lparr>ParamOffset := ParamOffset L + 2\<rparr>)))))"

definition LogAddParamDWord :: "LogInterface \<Rightarrow> uint8 \<Rightarrow> uint32 \<Rightarrow> LogInterface res" where
  "LogAddParamDWord L code param =
     andThen (log_byte L code) (\<lambda>L.
     andThen (log_byte L 4) (\<lambda>L.
     andThen (SetUint32 (LogBuffer L) (unat (ParamOffset L)) param) (\<lambda>bs.
     andThen (log_longer (L\<lparr>LogBuffer := bs\<rparr>) 6) (\<lambda>L.
     Ok (L\<lparr>ParamOffset := ParamOffset L + 4\<rparr>)))))"

datatype log_code = LOG_START | LOG_END | LOG_EVENT_START | LOG_EVENT_END | LOG_EVENT_MESSAGE
  | LOG_MESSAGE_SENT | LOG_MESSAGE_RECV | LOG_START_TIMER | LOG_STOP_TIMER | LOG_USER_DATA
  | LOG_STRING | LOG_BUFFER

fun log_code_value :: "log_code \<Rightarrow> uint16" where
  "log_code_value LOG_START = 1"
| "log_code_value LOG_END = 2"
| "log_code_value LOG_EVENT_START = 3"
| "log_code_value LOG_EVENT_END = 4"
| "log_code_value LOG_EVENT_MESSAGE = 5"
| "log_code_value LOG_MESSAGE_SENT = 6"
| "log_code_value LOG_MESSAGE_RECV = 7"
| "log_code_value LOG_START_TIMER = 8"
| "log_code_value LOG_STOP_TIMER = 9"
| "log_code_value LOG_USER_DATA = 0xa"
| "log_code_value LOG_STRING = 0xb"
| "log_code_value LOG_BUFFER = 0xc"

definition LOG_PARAM_STATE :: uint8 where "LOG_PARAM_STATE = 0x01"
definition LOG_PARAM_CALL_ID :: uint8 where "LOG_PARAM_CALL_ID = 0x02"
definition LOG_PARAM_MESSAGE :: uint8 where "LOG_PARAM_MESSAGE = 0x04"
definition LOG_PARAM_TIMER_ID :: uint8 where "LOG_PARAM_TIMER_ID = 0x05"
definition LOG_PARAM_STRING :: uint8 where "LOG_PARAM_STRING = 0x06"
definition LOG_PARAM_USER_DATA :: uint8 where "LOG_PARAM_USER_DATA = 0x07"
definition LOG_PARAM_TIME :: uint8 where "LOG_PARAM_TIME = 0x08"
definition LOG_PARAM_COMPUTER_ID :: uint8 where "LOG_PARAM_COMPUTER_ID = 0x09"
definition LOG_PARAM_AUTOMATE :: uint8 where "LOG_PARAM_AUTOMATE = 0x0a"
definition LOG_PARAM_OBJECT_ID :: uint8 where "LOG_PARAM_OBJECT_ID = 0x0b"

lemmas log_params = LOG_PARAM_STATE_def LOG_PARAM_CALL_ID_def LOG_PARAM_MESSAGE_def
  LOG_PARAM_TIMER_ID_def LOG_PARAM_STRING_def LOG_PARAM_USER_DATA_def LOG_PARAM_TIME_def
  LOG_PARAM_COMPUTER_ID_def LOG_PARAM_AUTOMATE_def LOG_PARAM_OBJECT_ID_def

definition PrepareNewRecord :: "uint32 \<Rightarrow> LogInterface \<Rightarrow> log_code \<Rightarrow> uint8 \<Rightarrow> uint32 \<Rightarrow> LogInterface res" where
  "PrepareNewRecord ltime L code automate objectId =
     andThen (SetMsgLogCode L (log_code_value code)) (\<lambda>L.
     andThen (SetLogInfoLength (L\<lparr>ParamOffset := 4\<rparr>) 4) (\<lambda>L.
     andThen (LogAddParamDWord L LOG_PARAM_TIME ltime) (\<lambda>L.
     andThen (LogAddParamByte L LOG_PARAM_COMPUTER_ID (ComputerId L)) (\<lambda>L.
     andThen (LogAddParamByte L LOG_PARAM_AUTOMATE automate) (\<lambda>L.
     LogAddParamDWord L LOG_PARAM_OBJECT_ID objectId)))))"

section \<open>A record holds what was logged\<close>

text \<open>
  \<open>log_rep L code xs\<close>: the record under construction has the code \<open>code\<close>, its length field
  says how far it goes, and behind the two fields lie the bytes \<open>xs\<close>. A parameter is the
  bytes \<open>tlv c v\<close>.
\<close>

definition log_rep :: "LogInterface \<Rightarrow> uint16 \<Rightarrow> uint8 list \<Rightarrow> bool" where
  "log_rep L code xs \<longleftrightarrow> length (LogBuffer L) = 8192 \<and> 4 + length xs \<le> 8192 \<and>
     unat (ParamOffset L) = 4 + length xs \<and> le16 (LogBuffer L) 2 = ParamOffset L \<and>
     le16 (LogBuffer L) 0 = code \<and> (\<forall>j < length xs. LogBuffer L ! (4 + j) = xs ! j)"

definition tlv :: "uint8 \<Rightarrow> uint8 list \<Rightarrow> uint8 list" where
  "tlv c v = c # of_nat (length v) # v"

definition bytes16 :: "uint16 \<Rightarrow> uint8 list" where
  "bytes16 v = [ucast v, ucast (drop_bit 8 v)]"

definition bytes32 :: "uint32 \<Rightarrow> uint8 list" where
  "bytes32 v = [ucast v, ucast (drop_bit 8 v), ucast (drop_bit 16 v), ucast (drop_bit 24 v)]"

lemma length_tlv [simp]: "length (tlv c v) = length v + 2"
  by (simp add: tlv_def)

lemma length_bytes [simp]: "length (bytes16 v) = 2" "length (bytes32 w) = 4"
  by (simp_all add: bytes16_def bytes32_def)

lemma log_rep_extend:
  assumes rep: "log_rep L code xs" and fits: "4 + length xs + length ys \<le> 8192"
    and len: "length bs = 8192" and n: "n = of_nat (length ys)"
    and low: "\<And>j. j < 4 + length xs \<Longrightarrow> bs ! j = LogBuffer L ! j"
    and new: "\<forall>j < length ys. bs ! (4 + length xs + j) = ys ! j"
  shows "log_rep (L\<lparr>LogBuffer := put16 bs 2 (le16 bs 2 + n), ParamOffset := ParamOffset L + n\<rparr>) code (xs @ ys)"
proof -
  have "unat n = length ys" using fits n unat16 [of "length ys"] by simp
  then have "unat (ParamOffset L + n) = 4 + length xs + length ys"
    using rep fits by (simp add: log_rep_def unat_word_ariths)
  moreover have "bs ! (4 + j) = (xs @ ys) ! j" if "j < length xs + length ys" for j
    using rep low [of "4 + j"] new [rule_format, of "j - length xs"] that
    by (cases "j < length xs") (auto simp: log_rep_def nth_append)
  moreover have "le16 bs 2 = le16 (LogBuffer L) 2" "le16 bs 0 = le16 (LogBuffer L) 0"
    by (simp_all add: le16_def low)
  ultimately show ?thesis
    using rep fits len by (simp add: log_rep_def)
qed

lemma log_offset:
  assumes "log_rep L code xs" "4 + length xs + k \<le> 8192"
  shows "unat (ParamOffset L) = 4 + length xs" "k < 2 ^ 16 \<Longrightarrow> unat (ParamOffset L + of_nat k) = 4 + length xs + k"
  using assms by (auto simp: log_rep_def unat_word_ariths unat16)

lemma log_longer_in: "length (LogBuffer L) = 8192 \<Longrightarrow>
  log_longer L n = Ok (L\<lparr>LogBuffer := put16 (LogBuffer L) 2 (le16 (LogBuffer L) 2 + n)\<rparr>)"
  by (simp add: log_longer_def GetNewLogInfoLength_def SetLogInfoLength_def)

lemma log_byte_in: "unat (ParamOffset L) < length (LogBuffer L) \<Longrightarrow>
  log_byte L b = Ok (L\<lparr>LogBuffer := (LogBuffer L)[unat (ParamOffset L) := b], ParamOffset := ParamOffset L + 1\<rparr>)"
  by (simp add: log_byte_def)

text \<open>The two bytes before the value.\<close>

lemma log_two_bytes:
  assumes "log_rep L code xs" "4 + length xs + 2 \<le> 8192"
  shows "andThen (log_byte L b) (\<lambda>L. andThen (log_byte L c) f) =
    f (L\<lparr>LogBuffer := (LogBuffer L)[4 + length xs := b, 4 + length xs + 1 := c], ParamOffset := ParamOffset L + 2\<rparr>)"
  using log_offset(1) [OF assms] log_offset(2) [of L code xs 1] assms
  by (simp add: log_byte_in log_rep_def add.assoc)

lemma LogAddParamByte_ok:
  assumes "log_rep L code xs" "length xs \<le> 8192 - 7"
  shows "\<exists>L'. LogAddParamByte L c v = Ok L' \<and> log_rep L' code (xs @ tlv c [v]) \<and> ComputerId L' = ComputerId L"
proof -
  let ?o = "4 + length xs"
  let ?bs = "(LogBuffer L)[?o := c, ?o + 1 := 1, ?o + 2 := v]"
  have l: "length (LogBuffer L) = 8192" using assms by (simp add: log_rep_def)
  have "LogAddParamByte L c v =
      Ok (L\<lparr>LogBuffer := put16 ?bs 2 (le16 ?bs 2 + of_nat 3), ParamOffset := ParamOffset L + of_nat 3\<rparr>)"
    using log_offset(2) [OF assms(1), of 2] assms l
    by (simp add: LogAddParamByte_def log_two_bytes [OF assms(1)] log_byte_in log_longer_in add.assoc)
  moreover have "log_rep (L\<lparr>LogBuffer := put16 ?bs 2 (le16 ?bs 2 + of_nat 3), ParamOffset := ParamOffset L + of_nat 3\<rparr>)
      code (xs @ tlv c [v])"
    by (rule log_rep_extend [OF assms(1)])
      (use assms(2) l in \<open>simp_all add: tlv_def All_less_Suc2 nth_list_update\<close>)
  ultimately show ?thesis by simp
qed

lemma LogAddParamWord_ok:
  assumes "log_rep L code xs" "length xs \<le> 8192 - 8"
  shows "\<exists>L'. LogAddParamWord L c v = Ok L' \<and> log_rep L' code (xs @ tlv c (bytes16 v)) \<and> ComputerId L' = ComputerId L"
proof -
  let ?o = "4 + length xs"
  let ?bs = "put16 ((LogBuffer L)[?o := c, ?o + 1 := 2]) (?o + 2) v"
  have l: "length (LogBuffer L) = 8192" using assms by (simp add: log_rep_def)
  have "LogAddParamWord L c v =
      Ok (L\<lparr>LogBuffer := put16 ?bs 2 (le16 ?bs 2 + of_nat 4), ParamOffset := ParamOffset L + of_nat 4\<rparr>)"
    using log_offset(2) [OF assms(1), of 2] assms l
    by (simp add: LogAddParamWord_def log_two_bytes [OF assms(1)] log_longer_in add.assoc)
  moreover have "log_rep (L\<lparr>LogBuffer := put16 ?bs 2 (le16 ?bs 2 + of_nat 4), ParamOffset := ParamOffset L + of_nat 4\<rparr>)
      code (xs @ tlv c (bytes16 v))"
    by (rule log_rep_extend [OF assms(1)])
      (use assms(2) l in \<open>simp_all add: tlv_def bytes16_def put16_def All_less_Suc2 nth_list_update\<close>)
  ultimately show ?thesis by simp
qed

lemma LogAddParamDWord_ok:
  assumes "log_rep L code xs" "length xs \<le> 8192 - 10"
  shows "\<exists>L'. LogAddParamDWord L c v = Ok L' \<and> log_rep L' code (xs @ tlv c (bytes32 v)) \<and> ComputerId L' = ComputerId L"
proof -
  let ?o = "4 + length xs"
  let ?bs = "put32 ((LogBuffer L)[?o := c, ?o + 1 := 4]) (?o + 2) v"
  have l: "length (LogBuffer L) = 8192" using assms by (simp add: log_rep_def)
  have "LogAddParamDWord L c v =
      Ok (L\<lparr>LogBuffer := put16 ?bs 2 (le16 ?bs 2 + of_nat 6), ParamOffset := ParamOffset L + of_nat 6\<rparr>)"
    using log_offset(2) [OF assms(1), of 2] assms l
    by (simp add: LogAddParamDWord_def log_two_bytes [OF assms(1)] log_longer_in add.assoc)
  moreover have "log_rep (L\<lparr>LogBuffer := put16 ?bs 2 (le16 ?bs 2 + of_nat 6), ParamOffset := ParamOffset L + of_nat 6\<rparr>)
      code (xs @ tlv c (bytes32 v))"
    by (rule log_rep_extend [OF assms(1)])
      (use assms(2) l in \<open>simp_all add: tlv_def bytes32_def put32_def All_less_Suc2 nth_list_update\<close>)
  ultimately show ?thesis by simp
qed

lemma LogAddParam_ok:
  assumes "log_rep L code xs" "length xs \<le> 8192 - 6 - length v" "0 < length v" "length v < 256"
  shows "\<exists>L'. LogAddParam dbg L c (of_nat (length v)) v = Ok L' \<and> log_rep L' code (xs @ tlv c v) \<and>
    ComputerId L' = ComputerId L"
proof -
  let ?o = "4 + length xs" and ?n = "of_nat (length v) :: uint8"
  let ?cs = "(LogBuffer L)[?o := c, ?o + 1 := ?n]"
  let ?bs = "take (?o + 2) ?cs @ v @ drop (?o + 2 + length v) ?cs"
  have l: "length (LogBuffer L) = 8192" using assms by (simp add: log_rep_def)
  have n: "unat ?n = length v" "?n \<noteq> 0" using assms(3,4) unat8 [of "length v"] by (auto simp: unat_eq_zero)
  have u: "ucast ?n + 2 = (of_nat (length v + 2) :: uint16)"
    using n(1) by (metis of_nat_add of_nat_numeral of_nat_unat)
  have "LogAddParam dbg L c ?n v =
      Ok (L\<lparr>LogBuffer := put16 ?bs 2 (le16 ?bs 2 + of_nat (length v + 2)), ParamOffset := ParamOffset L + of_nat (length v + 2)\<rparr>)"
    using log_offset(2) [OF assms(1), of 2] assms l n u
    by (simp add: LogAddParam_def log_two_bytes [OF assms(1)] log_longer_in memcpy_def add.assoc add.commute
        del: of_nat_add)
  moreover have "log_rep (L\<lparr>LogBuffer := put16 ?bs 2 (le16 ?bs 2 + of_nat (length v + 2)), ParamOffset := ParamOffset L + of_nat (length v + 2)\<rparr>)
      code (xs @ tlv c v)"
  proof (rule log_rep_extend [OF assms(1)])
    show "?bs ! j = LogBuffer L ! j" if "j < 4 + length xs" for j
      using that l assms(2) by (simp add: nth_append)
    have "?bs ! (4 + length xs + j) = tlv c v ! j" if "j < length v + 2" for j
    proof (cases "j < 2")
      case True
      then have "j = 0 \<or> j = 1" by linarith
      then show ?thesis using l assms(2) by (auto simp: tlv_def nth_append)
    next
      case False
      then have i: "4 + length xs + j = ?o + 2 + (j - 2)" "j - 2 < length v" using that by linarith+
      have "?o + 2 \<le> length ?cs" using l assms(2,3,4) by simp
      then have "?bs ! (?o + 2 + (j - 2)) = v ! (j - 2)" using i(2) by (rule nth_splice)
      moreover have "tlv c v ! j = v ! (j - 2)" using False by (simp add: tlv_def nth_Cons' numeral_2_eq_2)
      ultimately show ?thesis by (simp only: i(1))
    qed
    then show "\<forall>j < length (tlv c v). ?bs ! (4 + length xs + j) = tlv c v ! j" by simp
  qed (use assms(2,4) l in simp_all)
  ultimately show ?thesis by simp
qed


text \<open>The four parameters that open every record.\<close>

definition log_head :: "uint32 \<Rightarrow> uint8 \<Rightarrow> uint8 \<Rightarrow> uint32 \<Rightarrow> uint8 list" where
  "log_head ltime computer automate objectId =
     tlv LOG_PARAM_TIME (bytes32 ltime) @ tlv LOG_PARAM_COMPUTER_ID [computer] @
     tlv LOG_PARAM_AUTOMATE [automate] @ tlv LOG_PARAM_OBJECT_ID (bytes32 objectId)"

lemma length_log_head [simp]: "length (log_head t c a obj) = 18"
  by (simp add: log_head_def)

lemma PrepareNewRecord_ok:
  assumes "length (LogBuffer L) = 8192"
  shows "\<exists>L'. PrepareNewRecord t L code a obj = Ok L' \<and> ComputerId L' = ComputerId L \<and>
    log_rep L' (log_code_value code) (log_head t (ComputerId L) a obj)"
proof -
  let ?bs = "put16 (put16 (LogBuffer L) 0 (log_code_value code)) 2 4"
  let ?L = "L\<lparr>ParamOffset := 4, LogBuffer := ?bs\<rparr>"
  have rep: "log_rep ?L (log_code_value code) []" using assms by (simp add: log_rep_def)
  obtain L1 where 1: "LogAddParamDWord ?L LOG_PARAM_TIME t = Ok L1" "ComputerId L1 = ComputerId L"
    "log_rep L1 (log_code_value code) (tlv LOG_PARAM_TIME (bytes32 t))"
    using LogAddParamDWord_ok [OF rep] by fastforce
  obtain L2 where 2: "LogAddParamByte L1 LOG_PARAM_COMPUTER_ID (ComputerId L1) = Ok L2" "ComputerId L2 = ComputerId L"
    "log_rep L2 (log_code_value code) (tlv LOG_PARAM_TIME (bytes32 t) @ tlv LOG_PARAM_COMPUTER_ID [ComputerId L])"
    using LogAddParamByte_ok [OF 1(3)] 1(2) by fastforce
  obtain L3 where 3: "LogAddParamByte L2 LOG_PARAM_AUTOMATE a = Ok L3" "ComputerId L3 = ComputerId L"
    "log_rep L3 (log_code_value code) ((tlv LOG_PARAM_TIME (bytes32 t) @ tlv LOG_PARAM_COMPUTER_ID [ComputerId L]) @
       tlv LOG_PARAM_AUTOMATE [a])"
    using LogAddParamByte_ok [OF 2(3)] 2(2) by fastforce
  obtain L4 where 4: "LogAddParamDWord L3 LOG_PARAM_OBJECT_ID obj = Ok L4" "ComputerId L4 = ComputerId L"
    "log_rep L4 (log_code_value code) (log_head t (ComputerId L) a obj)"
    using LogAddParamDWord_ok [OF 3(3)] 3(2) by (fastforce simp: log_head_def)
  have "PrepareNewRecord t L code a obj = Ok L4"
    using 1(1) 2(1) 3(1) 4(1) assms by (simp add: PrepareNewRecord_def SetMsgLogCode_def SetLogInfoLength_def)
  then show ?thesis using 4 by blast
qed

lemma log_rep_length: "log_rep L code xs \<Longrightarrow> length (LogBuffer L) = 8192"
  by (simp add: log_rep_def)

end
