(* ===== verification/Kernel_API.thy ===== *)
theory Kernel_API
  imports Log_Interface
begin

text \<open>
  \<^verbatim>\<open>Kernel/messages.cpp\<close> (class \<^verbatim>\<open>MessageHandler\<close>) and \<^verbatim>\<open>Kernel/kernelAPI.cpp\<close> (class
  \<^verbatim>\<open>KernelAPI\<close>): what an automate does with the message it processes and with the one it
  builds. The classes up to \<^verbatim>\<open>FiniteStateMachine\<close> are records, each extending the one it is
  derived from; \<^verbatim>\<open>GetAutomate\<close> and \<^verbatim>\<open>GetMbxId\<close> are not virtual, and no class of the program
  overrides \<^verbatim>\<open>GetGroup\<close>. The record \<open>kernel\<close> holds what the static pointers of the kernel
  refer to, and the global data of the application.
\<close>

section \<open>The objects\<close>

text \<open>
  A message interface with its two pointers. \<^verbatim>\<open>GetMessageInterface\<close> is pure virtual; its
  implementations return one member object whatever coding is asked for.
\<close>

record MessageInterface =
  coding :: fmt
  MI_Current :: addr
  MI_New :: addr
  CurrentOffset :: nat

record MessageHandler =
  CurrentMessage :: addr
  NewMessage :: addr
  StandardMsgCoding :: MessageInterface

record KernelAPI = MessageHandler +
  mbxId :: uint8
  automateId :: uint8
  Resolution :: TimerResolutionEnum

record LogAutomateNew = KernelAPI +
  LogFlag :: uint16

record TimerBlock =
  TCount :: uint32
  SignalId :: uint16
  Valid :: bool
  TimerBuffer :: addr

text \<open>
  A handler (\<^verbatim>\<open>PROC_FUN_PTR\<close>) is a name of type \<open>'p\<close>, or \<^verbatim>\<open>DoNothing\<close>; a null pointer is
  \<^term>\<open>None\<close>. The array \<^verbatim>\<open>PBranch\<close> has \<^verbatim>\<open>maxNumOfProceduresPerState\<close> entries, \<^term>\<open>None\<close>
  until they are written.
\<close>

datatype 'p proc = DoNothing | Proc 'p

record 'p SBranch =
  EventCode :: uint16
  ProcPtr :: "'p proc"

record 'p SState =
  StateValid :: bool
  NumOfBranches :: uint16
  UnexpectedEventProcPtr :: "'p proc option"
  PBranch :: "'p SBranch option list"

record 'p FiniteStateMachine = LogAutomateNew +
  Next :: nat
  ReturnMemory :: bool
  TimerStore :: "TimerBlock list"
  NumOfStates :: uint16
  NumOfTimers :: uint16
  MaxNumOfProcPerState :: uint16
  States :: "'p SState list"
  ConnectionId :: uint32
  GroupId :: uint8
  CallId :: uint32
  LeftMbx :: uint8
  LeftAutomate :: uint8
  LeftGroup :: uint8
  LeftObjectId :: uint32
  RightMbx :: uint8
  RightAutomate :: uint8
  RightGroup :: uint8
  RightObjectId :: uint32
  State :: uint8

record 'g kernel =
  memory :: heap
  pool :: TBuffers
  office :: TPostOffice
  timers :: CTimer
  attached :: bool
  LogingObject :: "LogInterface option"
  SysLogFlag :: uint16
  CallCounter :: uint32
  app :: 'g

section \<open>Access to the kernel\<close>

text \<open>The static pointers of \<^verbatim>\<open>KernelAPI\<close> are set together (\<open>attached\<close>) or all null.\<close>

definition deref :: "'g kernel \<Rightarrow> unit res" where
  "deref K = (if attached K then Ok () else Fault MemFault)"

definition API_GetBuffer :: "bool \<Rightarrow> 'g kernel \<Rightarrow> uint32 \<Rightarrow> (addr \<times> 'g kernel) res" where
  "API_GetBuffer dbg K n =
     andThen (deref K) (\<lambda>_.
     andThen (GetBuffer dbg (pool K) (memory K) n) (\<lambda>(a, p, h).
     Ok (a, K\<lparr>pool := p, memory := h\<rparr>)))"

definition API_RetBuffer :: "bool \<Rightarrow> 'g kernel \<Rightarrow> addr \<Rightarrow> 'g kernel res" where
  "API_RetBuffer dbg K a =
     andThen (deref K) (\<lambda>_.
     andThen (RetBuffer dbg (pool K) (memory K) a) (\<lambda>(p, h).
     Ok (K\<lparr>pool := p, memory := h\<rparr>)))"

definition GetBufferLength :: "'g kernel \<Rightarrow> addr \<Rightarrow> uint32 res" where
  "GetBufferLength K buff = andThen (deref K) (\<lambda>_. GetLength (pool K) (memory K) buff)"

definition IsBufferSmall :: "'g kernel \<Rightarrow> addr \<Rightarrow> uint32 \<Rightarrow> bool res" where
  "IsBufferSmall K buff n = andThen (GetBufferLength K buff) (\<lambda>l. Ok (l \<le> n))"

definition API_Add :: "win32 \<Rightarrow> 'g kernel \<Rightarrow> uint8 \<Rightarrow> addr \<Rightarrow> 'g kernel res" where
  "API_Add w K mbx msg =
     andThen (deref K) (\<lambda>_.
     andThen (PO_Add w (office K) (memory K) mbx msg) (\<lambda>(po, h).
     Ok (K\<lparr>office := po, memory := h\<rparr>)))"

text \<open>The inline accessors of \<^verbatim>\<open>messages.h\<close>, for the field \<open>f\<close> of the message \<open>a\<close>.\<close>

definition get8 :: "'g kernel \<Rightarrow> addr \<Rightarrow> msg_field \<Rightarrow> uint8 res" where
  "get8 K a f = read8 (memory K) a (off f)"

definition get16 :: "'g kernel \<Rightarrow> addr \<Rightarrow> msg_field \<Rightarrow> uint16 res" where
  "get16 K a f = read16 (memory K) a (off f)"

definition get32 :: "'g kernel \<Rightarrow> addr \<Rightarrow> msg_field \<Rightarrow> uint32 res" where
  "get32 K a f = read32 (memory K) a (off f)"

definition set8 :: "'g kernel \<Rightarrow> addr \<Rightarrow> msg_field \<Rightarrow> uint8 \<Rightarrow> 'g kernel res" where
  "set8 K a f v = andThen (write8 (memory K) a (off f) v) (\<lambda>h. Ok (K\<lparr>memory := h\<rparr>))"

definition set16 :: "'g kernel \<Rightarrow> addr \<Rightarrow> msg_field \<Rightarrow> uint16 \<Rightarrow> 'g kernel res" where
  "set16 K a f v = andThen (write16 (memory K) a (off f) v) (\<lambda>h. Ok (K\<lparr>memory := h\<rparr>))"

definition set32 :: "'g kernel \<Rightarrow> addr \<Rightarrow> msg_field \<Rightarrow> uint32 \<Rightarrow> 'g kernel res" where
  "set32 K a f v = andThen (write32 (memory K) a (off f) v) (\<lambda>h. Ok (K\<lparr>memory := h\<rparr>))"

section \<open>Class MessageHandler\<close>

definition MessageHandler_new :: "fmt \<Rightarrow> MessageHandler" where
  "MessageHandler_new F = \<lparr>CurrentMessage = NULL, NewMessage = NULL,
     StandardMsgCoding = \<lparr>coding = F, MI_Current = NULL, MI_New = NULL, CurrentOffset = 0\<rparr>\<rparr>"

definition MI_ParseMessage :: "MessageInterface \<Rightarrow> addr \<Rightarrow> MessageInterface" where
  "MI_ParseMessage I mess = I\<lparr>MI_Current := mess\<rparr>"

definition MI_SetNewMessage :: "MessageInterface \<Rightarrow> addr \<Rightarrow> MessageInterface" where
  "MI_SetNewMessage I buff = I\<lparr>MI_New := buff\<rparr>"

definition ParseMessage :: "bool \<Rightarrow> 'p FiniteStateMachine \<Rightarrow> 'g kernel \<Rightarrow> addr \<Rightarrow> 'p FiniteStateMachine res" where
  "ParseMessage dbg F K msg =
     andThen (assertC dbg (msg \<noteq> NULL)) (\<lambda>_.
     let F = F\<lparr>CurrentMessage := msg\<rparr> in
     andThen (get8 K (CurrentMessage F) MSG_INFO_CODING) (\<lambda>_.
     Ok (F\<lparr>StandardMsgCoding := MI_ParseMessage (StandardMsgCoding F) msg\<rparr>)))"

definition PrepareNewMessage_at :: "bool \<Rightarrow> 'p FiniteStateMachine \<Rightarrow> 'g kernel \<Rightarrow> addr \<Rightarrow> 'p FiniteStateMachine res" where
  "PrepareNewMessage_at dbg F K msg =
     andThen (assertC dbg (NewMessage F = NULL)) (\<lambda>_.
     let F = F\<lparr>NewMessage := msg\<rparr> in
     andThen (get8 K (NewMessage F) MSG_INFO_CODING) (\<lambda>_.
     Ok (F\<lparr>StandardMsgCoding := MI_SetNewMessage (StandardMsgCoding F) msg\<rparr>)))"

definition PrepareNewMessage :: "bool \<Rightarrow> 'p FiniteStateMachine \<Rightarrow> 'g kernel \<Rightarrow> uint32 \<Rightarrow> uint16 \<Rightarrow> uint8
    \<Rightarrow> ('p FiniteStateMachine \<times> 'g kernel) res" where
  "PrepareNewMessage dbg F K len code infoCoding =
     andThen (assertC dbg (NewMessage F = NULL)) (\<lambda>_.
     andThen (API_GetBuffer dbg K (len + of_nat MSG_HEADER_LENGTH)) (\<lambda>(a, K).
     let F = F\<lparr>NewMessage := a\<rparr> in
     andThen (set8 K (NewMessage F) MSG_INFO_CODING infoCoding) (\<lambda>K.
     andThen (set16 K (NewMessage F) MSG_CODE code) (\<lambda>K.
     andThen (set16 K (NewMessage F) MSG_LENGTH 0) (\<lambda>K.
     andThen (get8 K (NewMessage F) MSG_INFO_CODING) (\<lambda>_.
     Ok (F\<lparr>StandardMsgCoding := MI_SetNewMessage (StandardMsgCoding F) (NewMessage F)\<rparr>, K)))))))"

text \<open>\<^verbatim>\<open>CopyMessage\<close> of the interface, from \<open>src\<close> into the buffer \<open>dst\<close>.\<close>

definition copy_into :: "bool \<Rightarrow> 'g kernel \<Rightarrow> addr \<Rightarrow> addr \<Rightarrow> 'g kernel res" where
  "copy_into dbg K dst src =
     andThen (assertC dbg (dst \<noteq> NULL)) (\<lambda>_.
     andThen (assertC dbg (src \<noteq> NULL)) (\<lambda>_.
     andThen (get_bytes (memory K) src) (\<lambda>s.
     andThen (on_bytes (memory K) dst (\<lambda>d. MI_CopyMessage d s)) (\<lambda>h.
     Ok (K\<lparr>memory := h\<rparr>)))))"

definition return_new :: "bool \<Rightarrow> 'p FiniteStateMachine \<Rightarrow> 'g kernel \<Rightarrow> 'g kernel res" where
  "return_new dbg F K = (if NewMessage F \<noteq> NULL then API_RetBuffer dbg K (NewMessage F) else Ok K)"

definition CopyMessage :: "bool \<Rightarrow> 'p FiniteStateMachine \<Rightarrow> 'g kernel \<Rightarrow> ('p FiniteStateMachine \<times> 'g kernel) res" where
  "CopyMessage dbg F K =
     andThen (assertC dbg (CurrentMessage F \<noteq> NULL)) (\<lambda>_.
     andThen (return_new dbg F K) (\<lambda>K.
     andThen (get16 K (CurrentMessage F) MSG_LENGTH) (\<lambda>len.
     andThen (API_GetBuffer dbg K (ucast len + of_nat MSG_HEADER_LENGTH)) (\<lambda>(a, K).
     andThen (throwIf (a = NULL) 0x01010600) (\<lambda>_.
     andThen (get8 K (CurrentMessage F) MSG_INFO_CODING) (\<lambda>_.
     andThen (copy_into dbg K a (MI_Current (StandardMsgCoding F))) (\<lambda>K.
     Ok (F\<lparr>NewMessage := a, StandardMsgCoding := MI_SetNewMessage (StandardMsgCoding F) a\<rparr>, K))))))))"

definition CopyMessage_from :: "bool \<Rightarrow> 'p FiniteStateMachine \<Rightarrow> 'g kernel \<Rightarrow> addr \<Rightarrow> ('p FiniteStateMachine \<times> 'g kernel) res" where
  "CopyMessage_from dbg F K msg =
     andThen (assertC dbg (msg \<noteq> NULL)) (\<lambda>_.
     andThen (return_new dbg F K) (\<lambda>K.
     andThen (get16 K msg MSG_LENGTH) (\<lambda>len.
     andThen (API_GetBuffer dbg K (ucast len + of_nat MSG_HEADER_LENGTH)) (\<lambda>(a, K).
     andThen (throwIf (a = NULL) 0x01010600) (\<lambda>_.
     andThen (get8 K (CurrentMessage F) MSG_INFO_CODING) (\<lambda>_.
     andThen (copy_into dbg K a msg) (\<lambda>K.
     Ok (F\<lparr>NewMessage := a, StandardMsgCoding := MI_SetNewMessage (StandardMsgCoding F) a\<rparr>, K))))))))"

definition CopyMessageInfo :: "bool \<Rightarrow> 'p FiniteStateMachine \<Rightarrow> 'g kernel \<Rightarrow> uint8 \<Rightarrow> uint16
    \<Rightarrow> ('p FiniteStateMachine \<times> 'g kernel) res" where
  "CopyMessageInfo dbg F K infoCoding lengthCorrection =
     andThen (assertC dbg (CurrentMessage F \<noteq> NULL)) (\<lambda>_.
     andThen (if NewMessage F = NULL
       then andThen (get16 K (CurrentMessage F) MSG_LENGTH) (\<lambda>len.
            andThen (API_GetBuffer dbg K (ucast len + of_nat MSG_HEADER_LENGTH + ucast lengthCorrection)) (\<lambda>(a, K).
            andThen (throwIf (a = NULL) 0x01010600) (\<lambda>_. Ok (F\<lparr>NewMessage := a\<rparr>, K))))
       else Ok (F, K)) (\<lambda>(F, K).
     andThen (get8 K (CurrentMessage F) MSG_INFO_CODING) (\<lambda>_.
     let F = F\<lparr>StandardMsgCoding := MI_SetNewMessage (StandardMsgCoding F) (NewMessage F)\<rparr> in
     andThen (assertC dbg (MI_Current (StandardMsgCoding F) \<noteq> NULL)) (\<lambda>_.
     andThen (get_bytes (memory K) (MI_Current (StandardMsgCoding F))) (\<lambda>s.
     andThen (on_bytes (memory K) (NewMessage F) (\<lambda>d. MI_CopyMessageInfo d s)) (\<lambda>h.
     andThen (set8 (K\<lparr>memory := h\<rparr>) (NewMessage F) MSG_INFO_CODING infoCoding) (\<lambda>K.
     Ok (F, K))))))))"

definition CheckBufferSize :: "bool \<Rightarrow> 'p FiniteStateMachine \<Rightarrow> 'g kernel \<Rightarrow> uint32 \<Rightarrow> ('p FiniteStateMachine \<times> 'g kernel) res" where
  "CheckBufferSize dbg F K paramLength =
     andThen (get16 K (NewMessage F) MSG_LENGTH) (\<lambda>il.
     andThen (IsBufferSmall K (NewMessage F) (ucast il + of_nat MSG_HEADER_LENGTH + paramLength + 8)) (\<lambda>small.
     if small
     then andThen (API_GetBuffer dbg K (ucast il + of_nat MSG_HEADER_LENGTH + paramLength + 10)) (\<lambda>(tmp1, K).
          andThen (copy_block (memory K) tmp1 (NewMessage F) (unat il + MSG_HEADER_LENGTH)) (\<lambda>h.
          andThen (API_RetBuffer dbg (K\<lparr>memory := h\<rparr>) (NewMessage F)) (\<lambda>K.
          let F = F\<lparr>NewMessage := tmp1\<rparr> in
          andThen (get8 K (NewMessage F) MSG_INFO_CODING) (\<lambda>_.
          Ok (F\<lparr>StandardMsgCoding := MI_SetNewMessage (StandardMsgCoding F) (NewMessage F)\<rparr>, K)))))
     else Ok (F, K)))"

text \<open>
  The operations on parameters of the new message delegate to the interface, whose own
  \<^verbatim>\<open>NewMessage\<close> they change; \<open>op\<close> is the interface's operation on the bytes. Each of them
  first searches the place of the parameter, which is where \<^verbatim>\<open>CurrentOffset\<close> ends up.
\<close>

definition on_new :: "bool \<Rightarrow> 'p FiniteStateMachine \<Rightarrow> 'g kernel \<Rightarrow> uint32 \<Rightarrow> (fmt \<Rightarrow> uint8 list \<Rightarrow> ('a \<times> uint8 list) res)
    \<Rightarrow> ('a \<times> 'p FiniteStateMachine \<times> 'g kernel) res" where
  "on_new dbg F K paramCode op =
     (let I = StandardMsgCoding F in
      andThen (get8 K (NewMessage F) MSG_INFO_CODING) (\<lambda>_.
      andThen (assertC dbg (MI_New I \<noteq> NULL)) (\<lambda>_.
      andThen (get_bytes (memory K) (MI_New I)) (\<lambda>bs.
      andThen (op (coding I) bs) (\<lambda>(r, bs').
      andThen (FindParamPlace (coding I) dbg bs paramCode 0) (\<lambda>(_, cur, _).
      andThen (on_bytes (memory K) (MI_New I) (\<lambda>_. Ok bs')) (\<lambda>h.
      Ok (r, F\<lparr>StandardMsgCoding := I\<lparr>CurrentOffset := cur\<rparr>\<rparr>, K\<lparr>memory := h\<rparr>))))))))"

definition add_new :: "bool \<Rightarrow> 'p FiniteStateMachine \<Rightarrow> 'g kernel \<Rightarrow> uint32 \<Rightarrow> (fmt \<Rightarrow> uint8 list \<Rightarrow> uint8 list res)
    \<Rightarrow> ('p FiniteStateMachine \<times> 'g kernel) res" where
  "add_new dbg F K paramCode op =
     andThen (on_new dbg F K paramCode (\<lambda>I bs. andThen (op I bs) (\<lambda>bs. Ok ((), bs)))) (\<lambda>(_, F, K). Ok (F, K))"

definition MH_AddParam :: "bool \<Rightarrow> 'p FiniteStateMachine \<Rightarrow> 'g kernel \<Rightarrow> uint32 \<Rightarrow> uint32 \<Rightarrow> uint8 list
    \<Rightarrow> ('p FiniteStateMachine \<times> 'g kernel) res" where
  "MH_AddParam dbg F K paramCode paramLength param =
     andThen (CheckBufferSize dbg F K paramLength) (\<lambda>(F, K).
     add_new dbg F K paramCode (\<lambda>I bs. AddParam I dbg bs paramCode paramLength param))"

definition MH_AddParamByte :: "bool \<Rightarrow> 'p FiniteStateMachine \<Rightarrow> 'g kernel \<Rightarrow> uint32 \<Rightarrow> uint8
    \<Rightarrow> ('p FiniteStateMachine \<times> 'g kernel) res" where
  "MH_AddParamByte dbg F K paramCode param =
     andThen (CheckBufferSize dbg F K 1) (\<lambda>(F, K).
     add_new dbg F K paramCode (\<lambda>I bs. AddParamByte I dbg bs paramCode param))"

definition MH_AddParamWord :: "bool \<Rightarrow> 'p FiniteStateMachine \<Rightarrow> 'g kernel \<Rightarrow> uint32 \<Rightarrow> uint16
    \<Rightarrow> ('p FiniteStateMachine \<times> 'g kernel) res" where
  "MH_AddParamWord dbg F K paramCode param =
     andThen (CheckBufferSize dbg F K 2) (\<lambda>(F, K).
     add_new dbg F K paramCode (\<lambda>I bs. AddParamWord I dbg bs paramCode param))"

definition MH_AddParamDWord :: "bool \<Rightarrow> 'p FiniteStateMachine \<Rightarrow> 'g kernel \<Rightarrow> uint32 \<Rightarrow> uint32
    \<Rightarrow> ('p FiniteStateMachine \<times> 'g kernel) res" where
  "MH_AddParamDWord dbg F K paramCode param =
     andThen (CheckBufferSize dbg F K 4) (\<lambda>(F, K).
     add_new dbg F K paramCode (\<lambda>I bs. AddParamDWord I dbg bs paramCode param))"

definition MH_RemoveParam :: "bool \<Rightarrow> 'p FiniteStateMachine \<Rightarrow> 'g kernel \<Rightarrow> uint32
    \<Rightarrow> (bool \<times> 'p FiniteStateMachine \<times> 'g kernel) res" where
  "MH_RemoveParam dbg F K paramCode = on_new dbg F K paramCode (\<lambda>I bs. RemoveParam I dbg bs paramCode)"

text \<open>
  Reading parameters of the current message: \<^verbatim>\<open>GetParam\<close> and its kin search from the start
  of the parameters, \<^verbatim>\<open>GetNextParam\<close> and its kin from behind the one found last.
\<close>

definition on_current :: "bool \<Rightarrow> 'p FiniteStateMachine \<Rightarrow> 'g kernel \<Rightarrow> (fmt \<Rightarrow> uint8 list \<Rightarrow> ('a \<times> nat) res)
    \<Rightarrow> ('a \<times> 'p FiniteStateMachine) res" where
  "on_current dbg F K op =
     (let I = StandardMsgCoding F in
      andThen (get8 K (CurrentMessage F) MSG_INFO_CODING) (\<lambda>_.
      andThen (assertC dbg (MI_Current I \<noteq> NULL)) (\<lambda>_.
      andThen (get_bytes (memory K) (MI_Current I)) (\<lambda>bs.
      andThen (op (coding I) bs) (\<lambda>(v, cur).
      Ok (v, F\<lparr>StandardMsgCoding := I\<lparr>CurrentOffset := cur\<rparr>\<rparr>))))))"

definition next_offset :: "'p FiniteStateMachine \<Rightarrow> nat" where
  "next_offset F = CurrentOffset (StandardMsgCoding F)"

definition MH_GetParam :: "bool \<Rightarrow> 'p FiniteStateMachine \<Rightarrow> 'g kernel \<Rightarrow> uint32 \<Rightarrow> (nat option \<times> 'p FiniteStateMachine) res" where
  "MH_GetParam dbg F K c = on_current dbg F K (\<lambda>I bs. GetParam I dbg bs c 0)"

definition MH_GetParam_len :: "bool \<Rightarrow> 'p FiniteStateMachine \<Rightarrow> 'g kernel \<Rightarrow> uint32
    \<Rightarrow> ((nat option \<times> uint32) \<times> 'p FiniteStateMachine) res" where
  "MH_GetParam_len dbg F K c =
     on_current dbg F K (\<lambda>I bs. andThen (GetParam_len I dbg bs c 0) (\<lambda>(p, l, cur). Ok ((p, l), cur)))"

definition MH_GetParamByte :: "bool \<Rightarrow> 'p FiniteStateMachine \<Rightarrow> 'g kernel \<Rightarrow> uint32 \<Rightarrow> (uint8 option \<times> 'p FiniteStateMachine) res" where
  "MH_GetParamByte dbg F K c = on_current dbg F K (\<lambda>I bs. GetParamByte I dbg bs c 0)"

definition MH_GetParamWord :: "bool \<Rightarrow> 'p FiniteStateMachine \<Rightarrow> 'g kernel \<Rightarrow> uint32 \<Rightarrow> (uint16 option \<times> 'p FiniteStateMachine) res" where
  "MH_GetParamWord dbg F K c = on_current dbg F K (\<lambda>I bs. GetParamWord I dbg bs c 0)"

definition MH_GetParamDWord :: "bool \<Rightarrow> 'p FiniteStateMachine \<Rightarrow> 'g kernel \<Rightarrow> uint32 \<Rightarrow> (uint32 option \<times> 'p FiniteStateMachine) res" where
  "MH_GetParamDWord dbg F K c = on_current dbg F K (\<lambda>I bs. GetParamDWord I dbg bs c 0)"

definition MH_GetNextParam :: "bool \<Rightarrow> 'p FiniteStateMachine \<Rightarrow> 'g kernel \<Rightarrow> uint32 \<Rightarrow> (nat option \<times> 'p FiniteStateMachine) res" where
  "MH_GetNextParam dbg F K c = on_current dbg F K (\<lambda>I bs. GetParam I dbg bs c (next_offset F))"

definition MH_GetNextParam_len :: "bool \<Rightarrow> 'p FiniteStateMachine \<Rightarrow> 'g kernel \<Rightarrow> uint32
    \<Rightarrow> ((nat option \<times> uint32) \<times> 'p FiniteStateMachine) res" where
  "MH_GetNextParam_len dbg F K c =
     on_current dbg F K (\<lambda>I bs. andThen (GetParam_len I dbg bs c (next_offset F)) (\<lambda>(p, l, cur). Ok ((p, l), cur)))"

definition MH_GetNextParamByte :: "bool \<Rightarrow> 'p FiniteStateMachine \<Rightarrow> 'g kernel \<Rightarrow> uint32 \<Rightarrow> (uint8 option \<times> 'p FiniteStateMachine) res" where
  "MH_GetNextParamByte dbg F K c = on_current dbg F K (\<lambda>I bs. GetParamByte I dbg bs c (next_offset F))"

definition MH_GetNextParamWord :: "bool \<Rightarrow> 'p FiniteStateMachine \<Rightarrow> 'g kernel \<Rightarrow> uint32 \<Rightarrow> (uint16 option \<times> 'p FiniteStateMachine) res" where
  "MH_GetNextParamWord dbg F K c = on_current dbg F K (\<lambda>I bs. GetParamWord I dbg bs c (next_offset F))"

definition MH_GetNextParamDWord :: "bool \<Rightarrow> 'p FiniteStateMachine \<Rightarrow> 'g kernel \<Rightarrow> uint32 \<Rightarrow> (uint32 option \<times> 'p FiniteStateMachine) res" where
  "MH_GetNextParamDWord dbg F K c = on_current dbg F K (\<lambda>I bs. GetParamDWord I dbg bs c (next_offset F))"

text \<open>The bit parameters of the interface are not overridden: nothing is found, nothing is set.\<close>

definition MH_GetBitParam :: "'p FiniteStateMachine \<Rightarrow> 'g kernel \<Rightarrow> bool res" where
  "MH_GetBitParam F K = andThen (get8 K (CurrentMessage F) MSG_INFO_CODING) (\<lambda>_. Ok False)"

definition MH_SetBitParam :: "'p FiniteStateMachine \<Rightarrow> 'g kernel \<Rightarrow> addr res" where
  "MH_SetBitParam F K = andThen (get8 K (CurrentMessage F) MSG_INFO_CODING) (\<lambda>_. Ok NULL)"

definition ClearMessage :: "bool \<Rightarrow> 'p FiniteStateMachine \<Rightarrow> 'g kernel \<Rightarrow> ('p FiniteStateMachine \<times> 'g kernel) res" where
  "ClearMessage dbg F K =
     andThen (API_RetBuffer dbg K (CurrentMessage F)) (\<lambda>K. Ok (F\<lparr>CurrentMessage := NULL\<rparr>, K))"

definition MessageHandler_delete :: "bool \<Rightarrow> 'p FiniteStateMachine \<Rightarrow> 'g kernel \<Rightarrow> 'g kernel res" where
  "MessageHandler_delete dbg F K =
     andThen (assertC dbg (CurrentMessage F = NULL)) (\<lambda>_.
     andThen (assertC dbg (NewMessage F = NULL)) (\<lambda>_.
     return_new dbg F K))"

section \<open>Class KernelAPI\<close>

text \<open>
  The constructor used by every automate leaves the static pointers null; the other one, and
  \<^verbatim>\<open>SetKernelObjects\<close>, set them to the kernel's objects, which \<open>given\<close> says are all there.
\<close>

definition KernelAPI_new :: "'g kernel \<Rightarrow> 'g kernel" where
  "KernelAPI_new K = K\<lparr>attached := False\<rparr>"

definition SetKernelObjects :: "bool \<Rightarrow> 'g kernel \<Rightarrow> 'g kernel res" where
  "SetKernelObjects given K =
     andThen (throwIf (\<not> given) 0x01010200) (\<lambda>_. Ok (K\<lparr>attached := True\<rparr>))"

definition GetDefaultParamCoding :: uint8 where "GetDefaultParamCoding = 0x00"

definition SetTimerResolution :: "'p FiniteStateMachine \<Rightarrow> TimerResolutionEnum \<Rightarrow> 'p FiniteStateMachine" where
  "SetTimerResolution F r = F\<lparr>Resolution := r\<rparr>"

definition API_StartTimer :: "bool \<Rightarrow> 'p FiniteStateMachine \<Rightarrow> 'g kernel \<Rightarrow> uint16 \<Rightarrow> uint32 \<Rightarrow> (addr \<times> 'g kernel) res" where
  "API_StartTimer dbg F K code ticks =
     andThen (API_GetBuffer dbg K (of_nat MSG_HEADER_LENGTH)) (\<lambda>(timer, K).
     andThen (set8 K timer MSG_TO_AUTOMATE (automateId F)) (\<lambda>K.
     andThen (set8 K timer MSG_TO_GROUP (GroupId F)) (\<lambda>K.
     andThen (set16 K timer MSG_CODE code) (\<lambda>K.
     andThen (set32 K timer CALL_ID (CallId F)) (\<lambda>K.
     andThen (set32 K timer MSG_OBJECT_ID_TO (ConnectionId F)) (\<lambda>K.
     andThen (set8 K timer MSG_INFO_CODING GetDefaultParamCoding) (\<lambda>K.
     andThen (set16 K timer MSG_LENGTH 0) (\<lambda>K.
     andThen (Timer_StartTimer (timers K) (memory K) timer (mbxId F) ticks (Resolution F)) (\<lambda>(T, h).
     Ok (timer, K\<lparr>timers := T, memory := h\<rparr>))))))))))"

definition API_StopTimer :: "'g kernel \<Rightarrow> addr \<Rightarrow> 'g kernel res" where
  "API_StopTimer K timer =
     andThen (deref K) (\<lambda>_. andThen (Timer_StopTimer (memory K) timer) (\<lambda>h. Ok (K\<lparr>memory := h\<rparr>)))"

definition API_IsTimerRunning :: "'g kernel \<Rightarrow> addr \<Rightarrow> bool res" where
  "API_IsTimerRunning K timer = andThen (deref K) (\<lambda>_. TimerRunning (memory K) timer)"

definition SetMessageFromData :: "'p FiniteStateMachine \<Rightarrow> 'g kernel \<Rightarrow> 'g kernel res" where
  "SetMessageFromData F K =
     andThen (set8 K (NewMessage F) MSG_FROM_AUTOMATE (automateId F)) (\<lambda>K.
     andThen (set8 K (NewMessage F) MSG_FROM_GROUP (GroupId F)) (\<lambda>K.
     set32 K (NewMessage F) MSG_OBJECT_ID_FROM (ConnectionId F)))"

definition SendMessage :: "win32 \<Rightarrow> 'p FiniteStateMachine \<Rightarrow> 'g kernel \<Rightarrow> uint8 \<Rightarrow> ('p FiniteStateMachine \<times> 'g kernel) res" where
  "SendMessage w F K mbx =
     andThen (SetMessageFromData F K) (\<lambda>K.
     andThen (API_Add w K mbx (NewMessage F)) (\<lambda>K.
     Ok (F\<lparr>NewMessage := NULL\<rparr>, K)))"

definition SendMessage_msg :: "win32 \<Rightarrow> 'g kernel \<Rightarrow> uint8 \<Rightarrow> addr \<Rightarrow> 'g kernel res" where
  "SendMessage_msg w K mbx msg = API_Add w K mbx msg"

text \<open>The receiver's data, then the message goes to the mailbox \<open>mbx\<close>.\<close>

definition send_to :: "win32 \<Rightarrow> 'p FiniteStateMachine \<Rightarrow> 'g kernel \<Rightarrow> uint8 \<Rightarrow> uint8 \<Rightarrow> uint32 \<Rightarrow> uint32 \<Rightarrow> uint8
    \<Rightarrow> ('p FiniteStateMachine \<times> 'g kernel) res" where
  "send_to w F K automate grp obj callId mbx =
     andThen (set8 K (NewMessage F) MSG_TO_AUTOMATE automate) (\<lambda>K.
     andThen (set8 K (NewMessage F) MSG_TO_GROUP grp) (\<lambda>K.
     andThen (set32 K (NewMessage F) MSG_OBJECT_ID_TO obj) (\<lambda>K.
     andThen (set32 K (NewMessage F) CALL_ID callId) (\<lambda>K.
     andThen (API_Add w K mbx (NewMessage F)) (\<lambda>K.
     Ok (F\<lparr>NewMessage := NULL\<rparr>, K))))))"

definition SendMessageLeft :: "win32 \<Rightarrow> 'p FiniteStateMachine \<Rightarrow> 'g kernel \<Rightarrow> ('p FiniteStateMachine \<times> 'g kernel) res" where
  "SendMessageLeft w F K =
     andThen (SetMessageFromData F K) (\<lambda>K.
     send_to w F K (LeftAutomate F) (LeftGroup F) (LeftObjectId F) (CallId F) (LeftMbx F))"

definition SendMessageRight :: "win32 \<Rightarrow> 'p FiniteStateMachine \<Rightarrow> 'g kernel \<Rightarrow> ('p FiniteStateMachine \<times> 'g kernel) res" where
  "SendMessageRight w F K =
     andThen (SetMessageFromData F K) (\<lambda>K.
     send_to w F K (RightAutomate F) (RightGroup F) (RightObjectId F) (CallId F) (RightMbx F))"

definition ReturnMsg :: "win32 \<Rightarrow> 'p FiniteStateMachine \<Rightarrow> 'g kernel \<Rightarrow> uint8 \<Rightarrow> ('p FiniteStateMachine \<times> 'g kernel) res" where
  "ReturnMsg w F K mbx =
     andThen (SetMessageFromData F K) (\<lambda>K.
     andThen (get8 K (CurrentMessage F) MSG_FROM_AUTOMATE) (\<lambda>automate.
     andThen (set8 K (NewMessage F) MSG_TO_AUTOMATE automate) (\<lambda>K.
     andThen (get8 K (CurrentMessage F) MSG_FROM_GROUP) (\<lambda>grp.
     andThen (set8 K (NewMessage F) MSG_TO_GROUP grp) (\<lambda>K.
     andThen (get32 K (CurrentMessage F) MSG_OBJECT_ID_FROM) (\<lambda>obj.
     andThen (set32 K (NewMessage F) MSG_OBJECT_ID_TO obj) (\<lambda>K.
     andThen (get32 K (CurrentMessage F) CALL_ID) (\<lambda>callId.
     andThen (set32 K (NewMessage F) CALL_ID callId) (\<lambda>K.
     andThen (API_Add w K mbx (NewMessage F)) (\<lambda>K.
     Ok (F\<lparr>NewMessage := NULL\<rparr>, K)))))))))))"

definition API_GetCount :: "'g kernel \<Rightarrow> uint8 \<Rightarrow> uint32 res" where
  "API_GetCount K mbx = andThen (deref K) (\<lambda>_. PO_GetCount (office K) mbx)"

definition GetMsg :: "bool \<Rightarrow> 'g kernel \<Rightarrow> uint8 \<Rightarrow> (addr \<times> 'g kernel) res" where
  "GetMsg dbg K mbx =
     andThen (deref K) (\<lambda>_.
     andThen (PO_Get dbg (office K) (pool K) (memory K) mbx) (\<lambda>(a, po, p, h).
     Ok (a, K\<lparr>office := po, pool := p, memory := h\<rparr>)))"

definition API_PurgeMailBox :: "bool \<Rightarrow> 'p FiniteStateMachine \<Rightarrow> 'g kernel \<Rightarrow> 'g kernel res" where
  "API_PurgeMailBox dbg F K =
     andThen (deref K) (\<lambda>_.
     andThen (PurgeMailBox dbg (office K) (pool K) (memory K) (mbxId F)) (\<lambda>(po, p, h).
     Ok (K\<lparr>office := po, pool := p, memory := h\<rparr>)))"

definition Discard :: "bool \<Rightarrow> 'g kernel \<Rightarrow> addr \<Rightarrow> 'g kernel res" where
  "Discard dbg K buff = API_RetBuffer dbg K buff"

section \<open>The state of the kernel\<close>

text \<open>
  \<open>kernel_ok K mss xss ts\<close>: the kernel is attached, its mailboxes hold the messages \<open>mss\<close>, its
  free lists the buffers \<open>xss\<close>, its timer list the timers \<open>ts\<close>, all apart. A message is
  \<open>owned\<close> by an automate when it is a buffer of the pool that is in none of them.
\<close>

definition kernel_ok :: "'g kernel \<Rightarrow> addr list list \<Rightarrow> addr list list \<Rightarrow> addr list \<Rightarrow> bool" where
  "kernel_ok K mss xss ts \<longleftrightarrow> attached K \<and> office_rep (office K) (pool K) (memory K) mss xss \<and>
     timer_rep (timers K) (memory K) ts \<and> timers_ok (pool K) (memory K) mss xss ts \<and>
     apart mss xss (Timer_Head (timers K))"

definition owned :: "'g kernel \<Rightarrow> addr list list \<Rightarrow> addr list list \<Rightarrow> addr list \<Rightarrow> addr \<Rightarrow> bool" where
  "owned K mss xss ts a \<longleftrightarrow> has_header (pool K) (memory K) a \<and> apart mss xss a \<and>
     a \<notin> set (Timer_Head (timers K) # ts)"

lemma kernel_okD:
  assumes "kernel_ok K mss xss ts"
  shows "attached K" "office_rep (office K) (pool K) (memory K) mss xss"
    "pool_rep (pool K) (memory K) xss" "deref K = Ok ()"
  using assms by (simp_all add: kernel_ok_def office_rep_def deref_def)

lemma kernel_ok_apart:
  "kernel_ok K mss xss ts \<Longrightarrow> x \<in> set (Timer_Head (timers K) # ts) \<Longrightarrow> apart mss xss x"
  by (auto simp: kernel_ok_def timers_ok_def)

text \<open>An operation that leaves the blocks of the timer list alone keeps what holds of it.\<close>

lemma kernel_ok_change:
  assumes ok: "kernel_ok K mss xss ts" and rep: "office_rep (office K') (pool K') (memory K') mss' xss'"
    and K': "attached K'" "timers K' = timers K" "same_classes (pool K) (pool K')" "length mss' = length mss"
    and same: "\<And>x. x \<in> set (Timer_Head (timers K) # ts) \<Longrightarrow> memory K' x = memory K x \<and> apart mss' xss' x"
  shows "kernel_ok K' mss' xss' ts"
proof -
  have "timer_rep (timers K) (memory K') ts"
    by (rule timer_rep_local(1)) (use ok same in \<open>auto simp: kernel_ok_def\<close>)
  moreover have "has_header (pool K') (memory K') x \<and> unat (mbx_of (memory K') x) < length mss'"
    if "x \<in> set ts" for x
  proof -
    have "memory K' x = memory K x" using same that by simp
    moreover have "has_header (pool K) (memory K) x" "unat (mbx_of (memory K) x) < length mss"
      using ok that by (auto simp: kernel_ok_def timers_ok_def)
    ultimately show ?thesis
      using K'(3,4) by (auto simp: has_header_def in_use_def mbx_of_def same_classes_def split: option.splits)
  qed
  ultimately show ?thesis
    using rep K'(1,2) same by (simp add: kernel_ok_def timers_ok_def)
qed

text \<open>\<open>upd a f K\<close>: the bytes of the message \<open>a\<close> changed by \<open>f\<close>, nothing else.\<close>

definition upd :: "addr \<Rightarrow> (uint8 list \<Rightarrow> uint8 list) \<Rightarrow> 'g kernel \<Rightarrow> 'g kernel" where
  "upd a f K = K\<lparr>memory := (memory K)(a \<mapsto> (the (memory K a))\<lparr>bytes := f (bytes (the (memory K a)))\<rparr>)\<rparr>"

definition msg_bytes :: "'g kernel \<Rightarrow> addr \<Rightarrow> uint8 list" where
  "msg_bytes K a = bytes (the (memory K a))"

lemma upd_simps [simp]:
  "pool (upd a f K) = pool K" "office (upd a f K) = office K" "timers (upd a f K) = timers K"
  "attached (upd a f K) = attached K" "LogingObject (upd a f K) = LogingObject K"
  "SysLogFlag (upd a f K) = SysLogFlag K" "CallCounter (upd a f K) = CallCounter K" "app (upd a f K) = app K"
  "msg_bytes (upd a f K) a = f (msg_bytes K a)" "x \<noteq> a \<Longrightarrow> memory (upd a f K) x = memory K x"
  "x \<noteq> a \<Longrightarrow> msg_bytes (upd a f K) x = msg_bytes K x"
  by (simp_all add: upd_def msg_bytes_def)

lemma upd_upd [simp]: "upd a g (upd a f K) = upd a (\<lambda>bs. g (f bs)) K"
  by (simp add: upd_def)

lemma owned_msg:
  assumes "owned K mss xss ts a"
  obtains b where "a \<noteq> NULL" "memory K a = Some b" "msg_bytes K a = bytes b" "21 \<le> length (bytes b)"
  using assms by (auto simp: owned_def has_header_def msg_bytes_def MSG_HEADER_LENGTH_def elim!: in_useE)

lemma owned_length: "owned K mss xss ts a \<Longrightarrow> 21 \<le> length (msg_bytes K a)"
  by (metis owned_msg)

lemma owned_upd:
  "owned K mss xss ts a \<Longrightarrow> (\<And>bs. length (f bs) = length bs) \<Longrightarrow> owned (upd a f K) mss xss ts a"
  by (auto simp: owned_def has_header_def in_use_def upd_def split: option.splits)

lemma kernel_ok_upd:
  assumes "kernel_ok K mss xss ts" "owned K mss xss ts a"
  shows "kernel_ok (upd a f K) mss xss ts"
proof (rule kernel_ok_change [OF assms(1)])
  have "memory (upd a f K) x = memory K x" if "\<not> apart mss xss x" for x
    using that assms(2) by (intro upd_simps) (auto simp: owned_def)
  then show "office_rep (office (upd a f K)) (pool (upd a f K)) (memory (upd a f K)) mss xss"
    using office_rep_local kernel_okD(2) [OF assms(1)] by (metis upd_simps(1,2))
  show "memory (upd a f K) x = memory K x \<and> apart mss xss x" if "x \<in> set (Timer_Head (timers K) # ts)" for x
    using that assms kernel_ok_apart [OF assms(1) that] by (auto simp: owned_def intro: upd_simps)
qed (use kernel_okD [OF assms(1)] in auto)

text \<open>The accessors, on a message with a header.\<close>

lemma set_upd:
  assumes "owned K mss xss ts a"
  shows "off f < 21 \<Longrightarrow> set8 K a f v = Ok (upd a (\<lambda>bs. bs[off f := v]) K)"
    and "off f + 1 < 21 \<Longrightarrow> set16 K a f v2 = Ok (upd a (\<lambda>bs. put16 bs (off f) v2) K)"
    and "off f + 3 < 21 \<Longrightarrow> set32 K a f v4 = Ok (upd a (\<lambda>bs. put32 bs (off f) v4) K)"
proof -
  obtain b where b: "a \<noteq> NULL" "memory K a = Some b" "21 \<le> length (bytes b)"
    by (rule owned_msg [OF assms])
  show "off f < 21 \<Longrightarrow> set8 K a f v = Ok (upd a (\<lambda>bs. bs[off f := v]) K)"
    "off f + 1 < 21 \<Longrightarrow> set16 K a f v2 = Ok (upd a (\<lambda>bs. put16 bs (off f) v2) K)"
    "off f + 3 < 21 \<Longrightarrow> set32 K a f v4 = Ok (upd a (\<lambda>bs. put32 bs (off f) v4) K)"
    using b by (simp_all add: set8_def set16_def set32_def write8_def write16_def write32_def on_bytes_def upd_def)
qed

lemma get_msg:
  assumes "owned K mss xss ts a"
  shows "off f < 21 \<Longrightarrow> get8 K a f = Ok (msg_bytes K a ! off f)"
    and "off f + 1 < 21 \<Longrightarrow> get16 K a f = Ok (le16 (msg_bytes K a) (off f))"
    and "off f + 3 < 21 \<Longrightarrow> get32 K a f = Ok (le32 (msg_bytes K a) (off f))"
proof -
  obtain b where b: "a \<noteq> NULL" "memory K a = Some b" "21 \<le> length (bytes b)"
    by (rule owned_msg [OF assms])
  show "off f < 21 \<Longrightarrow> get8 K a f = Ok (msg_bytes K a ! off f)"
    "off f + 1 < 21 \<Longrightarrow> get16 K a f = Ok (le16 (msg_bytes K a) (off f))"
    "off f + 3 < 21 \<Longrightarrow> get32 K a f = Ok (le32 (msg_bytes K a) (off f))"
    using b by (simp_all add: get8_def get16_def get32_def read8_def read16_def read32_def get_bytes_def msg_bytes_def)
qed

text \<open>Taking a buffer makes it the automate's own; returning it, or posting it, gives it away.\<close>

lemma apart_subset:
  "apart mss xss x \<Longrightarrow> length mss' = length mss \<Longrightarrow> (\<And>i. i < length mss \<Longrightarrow> set (mss' ! i) \<subseteq> set (mss ! i)) \<Longrightarrow>
   set (concat xss') \<subseteq> set (concat xss) \<Longrightarrow> apart mss' xss' x"
  unfolding apart_def by (metis subsetD)

lemma set_concat_nth: "y \<in> set (concat xss) \<longleftrightarrow> (\<exists>j < length xss. y \<in> set (xss ! j))"
proof -
  have "y \<in> set (concat xss) \<longleftrightarrow> (\<exists>ys \<in> set xss. y \<in> set ys)" by (simp add: set_concat)
  then show ?thesis by (metis in_set_conv_nth)
qed

lemma take_from_class:
  assumes "k < length xss" "xss ! k = x # xs" "pool_rep p h xss"
  shows "set (concat (xss[k := xs])) \<subseteq> set (concat xss)" "x \<in> set (concat xss)" "x \<notin> set (concat (xss[k := xs]))"
proof -
  have mem: "set (xss ! j) \<subseteq> set (concat xss)" if "j < length xss" for j
    using that by (auto simp: set_concat_nth)
  show sub: "set (concat (xss[k := xs])) \<subseteq> set (concat xss)"
  proof
    fix y assume "y \<in> set (concat (xss[k := xs]))"
    then obtain j where j: "j < length xss" "y \<in> set (xss[k := xs] ! j)"
      by (auto simp: set_concat_nth)
    then have "y \<in> set (xss ! j)" using assms(1,2) by (cases "j = k") auto
    then show "y \<in> set (concat xss)" using mem [OF j(1)] by blast
  qed
  show "x \<in> set (concat xss)" using mem [OF assms(1)] assms(2) by auto
  have "x \<notin> set xs" using pool_rep_que [OF assms(3,1)] assms(2) que.rep_distinct by (metis distinct.simps(2))
  moreover have "x \<notin> set (xss ! j)" if "j < length xss" "j \<noteq> k" for j
    using pool_rep_disjoint [OF assms(3) that(1) assms(1) that(2)] assms(2) by auto
  ultimately show "x \<notin> set (concat (xss[k := xs]))"
    using assms(1) by (auto simp: set_concat_nth nth_list_update split: if_splits)
qed

lemma office_rep_take:
  assumes rep: "office_rep po p h mss xss" and p': "pool_rep p' h xss'" "same_classes p p'"
    and sub: "set (concat xss') \<subseteq> set (concat xss)"
  shows "office_rep po p' h mss xss'"
proof -
  have "\<exists>m. MailBoxes po ! i = Some m \<and> mail_inv m p' h (mss ! i) xss'" if i: "i < length mss" for i
  proof -
    obtain m where m: "MailBoxes po ! i = Some m" "mail_inv m p h (mss ! i) xss"
      using rep i unfolding office_rep_def by blast
    have "mail_inv m p' h (mss ! i) xss'"
      by (rule mail_inv_frame [OF m(2) relinked_refl [of "{}"] _ p'(1) _ p'(2)]) (use sub in auto)
    then show ?thesis using m(1) by blast
  qed
  then show ?thesis using rep p'(1) by (simp add: office_rep_def)
qed

lemma buffer_taken:
  assumes ok: "kernel_ok K mss xss ts" and kn: "k < length xss" and x: "xss ! k = x # xs"
    and p': "pool_rep p' (memory K) (xss[k := xs])" "same_classes (pool K) p'"
    and len: "n \<le> BuffersLength (pool K) ! k" and big: "21 \<le> n"
  shows "kernel_ok (K\<lparr>pool := p'\<rparr>) mss (xss[k := xs]) ts" "owned (K\<lparr>pool := p'\<rparr>) mss (xss[k := xs]) ts x"
    "unat n \<le> length (msg_bytes K x)"
proof -
  note rep = kernel_okD(3) [OF ok] and off = kernel_okD(2) [OF ok]
  note take = take_from_class [OF kn x rep]
  have free: "i < length mss \<Longrightarrow> x \<notin> set (mss ! i)" for i
    using office_rep_free [OF off] take(2) by blast
  have b: "buffer_ok (memory K) (of_nat k) (unat (BuffersLength (pool K) ! k)) x"
    using pool_rep_buffer [OF rep kn, of x] x by simp
  have "21 \<le> unat n" using big by (simp add: word_le_nat_alt)
  moreover have "unat (of_nat k :: uint8) = k" using pool_rep_bounds(4) [OF rep kn] by (simp add: unat8)
  moreover have "x \<noteq> NULL" using pool_rep_que [OF rep kn] x queue_rep_mem by (metis list.set_intros(1) que_rep_def)
  ultimately have hdr: "has_header p' (memory K) x" "unat n \<le> length (msg_bytes K x)"
    using b p'(2) kn rep len
    by (auto simp: has_header_def in_use_def buffer_ok_def same_classes_def MSG_HEADER_LENGTH_def msg_bytes_def
        pool_rep_def word_le_nat_alt)
  have ne: "y \<noteq> x \<and> apart mss (xss[k := xs]) y" if "y \<in> set (Timer_Head (timers K) # ts)" for y
    using kernel_ok_apart [OF ok that] take(1,2) by (auto simp: apart_def)
  show "kernel_ok (K\<lparr>pool := p'\<rparr>) mss (xss[k := xs]) ts"
    by (rule kernel_ok_change [OF ok]) (use office_rep_take [OF off p' take(1)] kernel_okD [OF ok] p'(2) ne in auto)
  show "owned (K\<lparr>pool := p'\<rparr>) mss (xss[k := xs]) ts x"
    using hdr(1) free take(3) ne by (auto simp: owned_def apart_def)
  show "unat n \<le> length (msg_bytes K x)" by (rule hdr(2))
qed

lemma API_GetBuffer_ok:
  assumes ok: "kernel_ok K mss xss ts" and k: "best_class (pool K) n k" and x: "xss ! k = x # xs"
    and big: "21 \<le> n"
  shows "\<exists>p'. API_GetBuffer dbg K n = Ok (x, K\<lparr>pool := p'\<rparr>) \<and> same_classes (pool K) p' \<and>
    kernel_ok (K\<lparr>pool := p'\<rparr>) mss (xss[k := xs]) ts \<and> owned (K\<lparr>pool := p'\<rparr>) mss (xss[k := xs]) ts x \<and>
    unat n \<le> length (msg_bytes K x)"
proof -
  note rep = kernel_okD(3) [OF ok]
  have kn: "k < length xss" by (rule best_class_bound [OF rep k])
  obtain p' where p': "get_from dbg (pool K) (memory K) k = Ok (x, p', memory K)" "pool_rep p' (memory K) (xss[k := xs])"
    "same_classes (pool K) p'"
    using get_from_hit [OF rep kn x, of dbg] by (auto simp: same_classes_def)
  have "n \<le> BuffersLength (pool K) ! k" using k by (simp add: best_class_def)
  moreover have "API_GetBuffer dbg K n = Ok (x, K\<lparr>pool := p'\<rparr>)"
    using p'(1) GetBuffer_best [OF rep k] kernel_okD(4) [OF ok] by (simp add: API_GetBuffer_def)
  ultimately show ?thesis using p'(3) buffer_taken [OF ok kn x p'(2,3) _ big] by blast
qed

text \<open>Conversely, a request that is served is served from some class whose buffers are long enough.\<close>

lemma get_from_inv:
  assumes "pool_rep p h xss" "k < length xss" "get_from dbg p h k = Ok (a, p', h')"
  shows "\<exists>j xs. k \<le> j \<and> j < length xss \<and> xss ! j = a # xs \<and> pool_rep p' h (xss[j := xs]) \<and> same_classes p p' \<and> h' = h"
  using assms
proof (induction "length xss - k" arbitrary: k p)
  case (Suc n)
  show ?case
  proof (cases "xss ! k")
    case (Cons x xs)
    then show ?thesis using get_from_hit [OF Suc.prems(1,2) Cons, of dbg] Suc.prems(3)
      by (intro exI [of _ k] exI [of _ xs]) (auto simp: same_classes_def Suc.prems(2))
  next
    case Nil
    then have d: "\<not> dbg" using get_from_debug_empty [OF Suc.prems(1,2)] Suc.prems(3) by (cases dbg) auto
    show ?thesis
    proof (cases "k + 1 < length xss")
      case True
      let ?p = "p\<lparr>Buffers := (Buffers p)[k := Some (Que_LockBuff (que_at p k))]\<rparr>"
      have "get_from dbg ?p h (k + 1) = Ok (a, p', h')" "pool_rep ?p h xss"
        using get_from_next [OF Suc.prems(1) True Nil] Suc.prems(3) d by simp_all
      then have "\<exists>j xs. k + 1 \<le> j \<and> j < length xss \<and> xss ! j = a # xs \<and> pool_rep p' h (xss[j := xs]) \<and>
          same_classes ?p p' \<and> h' = h"
        using Suc.hyps(1) [of "k + 1" ?p] Suc.hyps(2) True by simp
      then show ?thesis by (auto simp: same_classes_def intro: Suc_leD)
    next
      case False
      then have "\<forall>m. k \<le> m \<and> m < length xss \<longrightarrow> xss ! m = []" using Nil Suc.prems(2) by (metis Suc_eq_plus1 Suc_leI le_antisym not_less_eq_eq linorder_not_less)
      then show ?thesis using get_from_exhausted [OF Suc.prems(1,2)] Suc.prems(3) d by simp
    qed
  qed
qed simp

lemma find_class_inv:
  "find_class lens n len i = Ok k \<Longrightarrow> i \<le> n \<Longrightarrow> k \<le> n \<and> (k < n \<longrightarrow> len \<le> lens ! k)"
proof (induction lens n len i rule: find_class.induct)
  case (1 lens n len i)
  have l: "i < length lens" using "1.prems"(1) by (subst (asm) find_class.simps) (auto simp: rd_def split: if_splits)
  then have i: "(if lens ! i < len \<and> i < n then find_class lens n len (i + 1) else Ok i) = Ok k"
    using "1.prems"(1) by (subst (asm) find_class.simps) simp
  show ?case
  proof (cases "lens ! i < len \<and> i < n")
    case True
    then show ?thesis using "1.IH" [OF _ True] i l by (simp add: Suc_le_eq)
  next
    case False
    then show ?thesis using i "1.prems"(2) by auto
  qed
qed

lemma API_GetBuffer_inv:
  assumes ok: "kernel_ok K mss xss ts" and big: "21 \<le> n" and run: "API_GetBuffer dbg K n = Ok (a, K')"
  shows "\<exists>k xs p'. k < length xss \<and> xss ! k = a # xs \<and> K' = K\<lparr>pool := p'\<rparr> \<and> same_classes (pool K) p' \<and>
    kernel_ok K' mss (xss[k := xs]) ts \<and> owned K' mss (xss[k := xs]) ts a \<and> unat n \<le> length (msg_bytes K a)"
proof -
  note rep = kernel_okD(3) [OF ok]
  let ?n = "unat (ClassBufferNum (pool K))"
  obtain l p' h' where l: "find_class (BuffersLength (pool K)) ?n n 0 = Ok l" "l \<noteq> ?n"
    "get_from dbg (pool K) (memory K) l = Ok (a, p', h')" "K' = K\<lparr>pool := p', memory := h'\<rparr>"
    using run kernel_okD(4) [OF ok] by (auto simp: API_GetBuffer_def GetBuffer_def throwIf_def split: if_splits)
  have ln: "l < length xss" "n \<le> BuffersLength (pool K) ! l"
    using find_class_inv [OF l(1)] l(2) rep by (auto simp: pool_rep_def)
  obtain j xs where j: "l \<le> j" "j < length xss" "xss ! j = a # xs" "pool_rep p' (memory K) (xss[j := xs])"
    "same_classes (pool K) p'" "h' = memory K"
    using get_from_inv [OF rep ln(1) l(3)] by blast
  have "BuffersLength (pool K) ! l \<le> BuffersLength (pool K) ! j"
  proof -
    have "sorted (take (length xss) (BuffersLength (pool K)))" "length xss \<le> length (BuffersLength (pool K))"
      using rep by (auto simp: pool_rep_def)
    then have "take (length xss) (BuffersLength (pool K)) ! l \<le> take (length xss) (BuffersLength (pool K)) ! j"
      using j(1,2) by (intro sorted_nth_mono) auto
    then show ?thesis using j(1,2) by simp
  qed
  then have len: "n \<le> BuffersLength (pool K) ! j" using ln(2) by simp
  have K': "K' = K\<lparr>pool := p'\<rparr>" using l(4) j(6) by simp
  show ?thesis unfolding K' using buffer_taken [OF ok j(2,3,4,5) len big] j(2,3,5) by blast
qed

lemma apart_give_back:
  "class_of h a < length xss \<Longrightarrow> apart mss (give_back h a xss) x \<longleftrightarrow> apart mss xss x \<and> x \<noteq> a"
  by (auto simp: apart_def set_give_back)

lemma API_RetBuffer_ok:
  assumes ok: "kernel_ok K mss xss ts" and a: "owned K mss xss ts a"
  shows "\<exists>p' h'. API_RetBuffer dbg K a = Ok (K\<lparr>pool := p', memory := h'\<rparr>) \<and> same_classes (pool K) p' \<and>
    kernel_ok (K\<lparr>pool := p', memory := h'\<rparr>) mss (give_back (memory K) a xss) ts \<and>
    relinked (insert a (set (concat xss))) (memory K) h'"
proof -
  note rep = kernel_okD(3) [OF ok] and off = kernel_okD(2) [OF ok]
  have a': "in_use (pool K) (memory K) a" "apart mss xss a" "a \<notin> set (concat xss)"
    using a by (auto simp: owned_def apart_def has_header_def)
  obtain p' h' where r: "RetBuffer dbg (pool K) (memory K) a = Ok (p', h')"
    "pool_rep p' h' (give_back (memory K) a xss)" "relinked (insert a (set (concat xss))) (memory K) h'"
    "same_classes (pool K) p'"
    using RetBuffer_in_use [OF rep a'(1,3)] by blast
  have cls: "class_of (memory K) a < length xss"
    using a'(1) rep by (auto simp: pool_rep_def elim!: in_useE)
  have "office_rep (office K) p' h' mss (give_back (memory K) a xss)"
  proof -
    have "\<exists>m. MailBoxes (office K) ! i = Some m \<and> mail_inv m p' h' (mss ! i) (give_back (memory K) a xss)"
      if i: "i < length mss" for i
    proof -
      obtain m where m: "MailBoxes (office K) ! i = Some m" "mail_inv m (pool K) (memory K) (mss ! i) xss"
        using off i unfolding office_rep_def by blast
      have "mail_inv m p' h' (mss ! i) (give_back (memory K) a xss)"
        by (rule mail_inv_frame [OF m(2) r(3) _ r(2) _ r(4)])
          (use a'(2) i office_rep_free [OF off i] in \<open>auto simp: apart_def set_give_back [OF cls]\<close>)
      then show ?thesis using m(1) by blast
    qed
    then show ?thesis using off r(2) by (simp add: office_rep_def)
  qed
  moreover have "h' x = memory K x \<and> apart mss (give_back (memory K) a xss) x"
    if "x \<in> set (Timer_Head (timers K) # ts)" for x
  proof -
    have x: "apart mss xss x" "x \<noteq> a" using kernel_ok_apart [OF ok that] a that by (auto simp: owned_def)
    then have "x \<notin> insert a (set (concat xss))" by (auto simp: apart_def)
    then show ?thesis using x relinked_out [OF r(3)] apart_give_back [OF cls] by blast
  qed
  ultimately have "kernel_ok (K\<lparr>pool := p', memory := h'\<rparr>) mss (give_back (memory K) a xss) ts"
    by (intro kernel_ok_change [OF ok]) (use kernel_okD [OF ok] r(4) in auto)
  then show ?thesis
    using r kernel_okD(4) [OF ok] by (auto simp: API_RetBuffer_def)
qed

lemma API_Add_ok:
  assumes ok: "kernel_ok K mss xss ts" and a: "owned K mss xss ts a" and i: "i < length mss"
  shows "\<exists>po' h'. API_Add w K (of_nat i) a = Ok (K\<lparr>office := po', memory := h'\<rparr>) \<and>
    kernel_ok (K\<lparr>office := po', memory := h'\<rparr>) (posted mss i a) xss ts \<and>
    relinked (insert a (set (mss ! i))) (memory K) h' \<and>
    semHandle po' = (semHandle (office K))[i := ReleaseSemaphore w (semHandle (office K) ! i)]"
proof -
  have a': "has_header (pool K) (memory K) a" "\<forall>j < length mss. a \<notin> set (mss ! j)" "a \<notin> set (concat xss)"
    using a by (auto simp: owned_def apart_def)
  obtain po' h' where r: "PO_Add w (office K) (memory K) (of_nat i) a = Ok (po', h')"
    "office_rep po' (pool K) h' (posted mss i a) xss" "relinked (insert a (set (mss ! i))) (memory K) h'"
    "semHandle po' = (semHandle (office K))[i := ReleaseSemaphore w (semHandle (office K) ! i)]"
    using PO_Add_ok [OF kernel_okD(2) [OF ok] i a'] by blast
  have "h' x = memory K x \<and> apart (posted mss i a) xss x" if "x \<in> set (Timer_Head (timers K) # ts)" for x
  proof -
    have x: "apart mss xss x" "x \<noteq> a" using kernel_ok_apart [OF ok that] a that by (auto simp: owned_def)
    then have "x \<notin> insert a (set (mss ! i))" using i by (auto simp: apart_def)
    then show ?thesis using x relinked_out [OF r(3)] apart_posted [OF i] by blast
  qed
  then have "kernel_ok (K\<lparr>office := po', memory := h'\<rparr>) (posted mss i a) xss ts"
    by (intro kernel_ok_change [OF ok]) (use kernel_okD [OF ok] r(2) in auto)
  then show ?thesis using r kernel_okD(4) [OF ok] by (auto simp: API_Add_def)
qed

section \<open>A new message\<close>

text \<open>
  The calls every handler of the server ends with: prepare a message without parameters, set
  the receiving automate and object, send it to a mailbox. \<open>header_of\<close> is the header it gets.
\<close>

definition post_new :: "bool \<Rightarrow> win32 \<Rightarrow> 'p FiniteStateMachine \<Rightarrow> 'g kernel \<Rightarrow> uint16 \<Rightarrow> uint8 \<Rightarrow> uint32 \<Rightarrow> uint8
    \<Rightarrow> ('p FiniteStateMachine \<times> 'g kernel) res" where
  "post_new dbg w F K code automate obj mbx =
     andThen (PrepareNewMessage dbg F K 0x00 code 0x00) (\<lambda>(F, K).
     andThen (set8 K (NewMessage F) MSG_TO_AUTOMATE automate) (\<lambda>K.
     andThen (set32 K (NewMessage F) MSG_OBJECT_ID_TO obj) (\<lambda>K.
     SendMessage w F K mbx)))"

definition header_of :: "'p FiniteStateMachine \<Rightarrow> uint16 \<Rightarrow> uint8 \<Rightarrow> uint32 \<Rightarrow> uint8 list \<Rightarrow> uint8 list" where
  "header_of F code automate obj bs =
     put32 ((put32 ((put16 (put16 (bs[18 := 0]) 4 code) 19 0)[2 := automate]) 10 obj)
       [0 := automateId F, 1 := GroupId F]) 6 (ConnectionId F)"

lemma header_of_fields:
  "21 \<le> length bs \<Longrightarrow> le16 (header_of F code automate obj bs) 4 = code"
  "21 \<le> length bs \<Longrightarrow> header_of F code automate obj bs ! 2 = automate"
  "21 \<le> length bs \<Longrightarrow> le32 (header_of F code automate obj bs) 10 = obj"
  "length (header_of F code automate obj bs) = length bs"
  "21 \<le> length bs \<Longrightarrow> le16 (header_of F code automate obj bs) 19 = 0"
  by (simp_all add: header_of_def)

text \<open>Once it has its buffer, the rest of the calls cannot fail.\<close>

lemma post_with_buffer:
  assumes F: "NewMessage F = NULL" and get: "API_GetBuffer dbg K 21 = Ok (x, K\<lparr>pool := p'\<rparr>)"
    and ok: "kernel_ok (K\<lparr>pool := p'\<rparr>) mss xss ts" "owned (K\<lparr>pool := p'\<rparr>) mss xss ts x" and i: "i < length mss"
  shows "\<exists>po' h'. post_new dbg w F K code automate obj (of_nat i) =
      Ok (F\<lparr>NewMessage := NULL, StandardMsgCoding := MI_SetNewMessage (StandardMsgCoding F) x\<rparr>,
          K\<lparr>pool := p', office := po', memory := h'\<rparr>) \<and>
    kernel_ok (K\<lparr>pool := p', office := po', memory := h'\<rparr>) (posted mss i x) xss ts \<and>
    bytes (the (h' x)) = header_of F code automate obj (msg_bytes K x) \<and>
    (\<forall>y. y \<noteq> x \<longrightarrow> same_content (memory K y) (h' y)) \<and>
    map_option BUFF_CODE (h' x) = map_option BUFF_CODE (memory K x) \<and>
    semHandle po' = (semHandle (office K))[i := ReleaseSemaphore w (semHandle (office K) ! i)]"
proof -
  let ?F = "F\<lparr>NewMessage := x, StandardMsgCoding := MI_SetNewMessage (StandardMsgCoding F) x\<rparr>"
  let ?f = "\<lambda>bs. put16 (put16 (bs[18 := 0]) 4 code) 19 0"
  let ?K = "K\<lparr>pool := p'\<rparr>"
  have o: "owned (upd x g ?K) mss xss ts x" if "\<And>bs. length (g bs) = length bs" for g
    using owned_upd [OF ok(2)] that by blast
  have 1: "PrepareNewMessage dbg F K 0 code 0 = Ok (?F, upd x ?f ?K)"
    using F get by (simp add: PrepareNewMessage_def MSG_HEADER_LENGTH_def set_upd [OF ok(2)] set_upd [OF o] get_msg [OF o])
  let ?g = "header_of F code automate obj"
  let ?K2 = "upd x ?g ?K"
  have 2: "post_new dbg w F K code automate obj (of_nat i) =
      andThen (API_Add w ?K2 (of_nat i) x) (\<lambda>K. Ok (?F\<lparr>NewMessage := NULL\<rparr>, K))"
    by (simp add: post_new_def 1 SendMessage_def SetMessageFromData_def set_upd [OF o] header_of_def [abs_def])
  have 3: "owned ?K2 mss xss ts x" by (rule o) (simp add: header_of_def)
  obtain po' h' where 4: "API_Add w ?K2 (of_nat i) x = Ok (?K2\<lparr>office := po', memory := h'\<rparr>)"
    "kernel_ok (?K2\<lparr>office := po', memory := h'\<rparr>) (posted mss i x) xss ts"
    "relinked (insert x (set (mss ! i))) (memory ?K2) h'"
    "semHandle po' = (semHandle (office ?K2))[i := ReleaseSemaphore w (semHandle (office ?K2) ! i)]"
    using API_Add_ok [OF kernel_ok_upd [OF ok] 3 i, of w] by blast
  have K2: "?K2\<lparr>office := po', memory := h'\<rparr> = K\<lparr>pool := p', office := po', memory := h'\<rparr>"
    by (simp add: upd_def)
  obtain b where b: "memory K x = Some b"
    by (rule owned_msg [OF ok(2)]) simp
  have c: "same_content (memory ?K2 y) (h' y)" for y using 4(3) by (simp add: relinked_def)
  have "same_content (memory K y) (h' y)" if "y \<noteq> x" for y using c [of y] that by (simp add: upd_def)
  moreover have "bytes (the (h' x)) = header_of F code automate obj (msg_bytes K x) \<and>
      map_option BUFF_CODE (h' x) = map_option BUFF_CODE (memory K x)"
    using c [of x] b by (cases "h' x") (auto simp: upd_def msg_bytes_def)
  ultimately show ?thesis
    using 2 4 unfolding K2 by (intro exI [of _ po'] exI [of _ h']) (auto simp: upd_def)
qed

lemma post_new_ok:
  assumes ok: "kernel_ok K mss xss ts" and F: "NewMessage F = NULL"
    and k: "best_class (pool K) 21 k" "xss ! k = x # xs" and i: "i < length mss"
  shows "\<exists>p' po' h'. post_new dbg w F K code automate obj (of_nat i) =
      Ok (F\<lparr>NewMessage := NULL, StandardMsgCoding := MI_SetNewMessage (StandardMsgCoding F) x\<rparr>,
          K\<lparr>pool := p', office := po', memory := h'\<rparr>) \<and>
    kernel_ok (K\<lparr>pool := p', office := po', memory := h'\<rparr>) (posted mss i x) (xss[k := xs]) ts \<and>
    same_classes (pool K) p' \<and> bytes (the (h' x)) = header_of F code automate obj (msg_bytes K x) \<and>
    (\<forall>y. y \<noteq> x \<longrightarrow> same_content (memory K y) (h' y)) \<and>
    map_option BUFF_CODE (h' x) = map_option BUFF_CODE (memory K x) \<and>
    semHandle po' = (semHandle (office K))[i := ReleaseSemaphore w (semHandle (office K) ! i)]"
proof -
  obtain p' where p': "API_GetBuffer dbg K 21 = Ok (x, K\<lparr>pool := p'\<rparr>)" "same_classes (pool K) p'"
    "kernel_ok (K\<lparr>pool := p'\<rparr>) mss (xss[k := xs]) ts" "owned (K\<lparr>pool := p'\<rparr>) mss (xss[k := xs]) ts x"
    using API_GetBuffer_ok [OF ok k(1,2)] by blast
  show ?thesis using post_with_buffer [OF F p'(1,3,4) i] p'(2) by blast
qed

text \<open>And if the calls return, they have taken one free buffer and put it into the mailbox.\<close>

lemma post_new_inv:
  assumes ok: "kernel_ok K mss xss ts" and F: "NewMessage F = NULL"
    and run: "post_new dbg w F K code automate obj mbx = Ok (F', K')"
  shows "\<exists>k x xs p' po' h'. k < length xss \<and> xss ! k = x # xs \<and> unat mbx < length mss \<and>
    F' = F\<lparr>NewMessage := NULL, StandardMsgCoding := MI_SetNewMessage (StandardMsgCoding F) x\<rparr> \<and>
    K' = K\<lparr>pool := p', office := po', memory := h'\<rparr> \<and>
    kernel_ok K' (posted mss (unat mbx) x) (xss[k := xs]) ts \<and> same_classes (pool K) p' \<and>
    msg_bytes K' x = header_of F code automate obj (msg_bytes K x) \<and>
    (\<forall>y. y \<noteq> x \<longrightarrow> same_content (memory K y) (h' y)) \<and>
    semHandle po' = (semHandle (office K))[unat mbx := ReleaseSemaphore w (semHandle (office K) ! unat mbx)]"
proof -
  obtain x K1 where get: "API_GetBuffer dbg K 21 = Ok (x, K1)"
    using run F by (auto simp: post_new_def PrepareNewMessage_def MSG_HEADER_LENGTH_def)
  then obtain k xs p' where k: "k < length xss" "xss ! k = x # xs" "K1 = K\<lparr>pool := p'\<rparr>" "same_classes (pool K) p'"
    "kernel_ok K1 mss (xss[k := xs]) ts" "owned K1 mss (xss[k := xs]) ts x"
    using API_GetBuffer_inv [OF ok _ get] by auto
  have i: "unat mbx < length mss"
  proof (rule ccontr)
    assume "\<not> unat mbx < length mss"
    then have "MailBoxesNum (office K) \<le> mbx"
      using kernel_okD(2) [OF ok] by (simp add: office_rep_def word_le_nat_alt)
    then have "API_Add w (K\<lparr>pool := p', memory := h\<rparr>) mbx a = Fault (Thrown 0x01010200)"
      "API_Add w (K\<lparr>pool := p'\<rparr>) mbx a = Fault (Thrown 0x01010200)" for h a
      using kernel_okD(1) [OF ok] by (simp_all add: API_Add_def PO_Add_def deref_def)
    then show False
      using run k(3) get F
      by (auto simp: post_new_def PrepareNewMessage_def MSG_HEADER_LENGTH_def SendMessage_def SetMessageFromData_def
          set8_def set16_def set32_def)
  qed
  note g = get [unfolded k(3)] and kok = k(5) [unfolded k(3)] and own = k(6) [unfolded k(3)]
  have m: "of_nat (unat mbx) = mbx" by simp
  obtain po' h' where r: "(F', K') = (F\<lparr>NewMessage := NULL, StandardMsgCoding := MI_SetNewMessage (StandardMsgCoding F) x\<rparr>,
          K\<lparr>pool := p', office := po', memory := h'\<rparr>)"
    "kernel_ok (K\<lparr>pool := p', office := po', memory := h'\<rparr>) (posted mss (unat mbx) x) (xss[k := xs]) ts"
    "bytes (the (h' x)) = header_of F code automate obj (msg_bytes K x)"
    "\<forall>y. y \<noteq> x \<longrightarrow> same_content (memory K y) (h' y)"
    "semHandle po' = (semHandle (office K))[unat mbx := ReleaseSemaphore w (semHandle (office K) ! unat mbx)]"
    using post_with_buffer [OF F g kok own i, of w code automate obj] run unfolding m by auto
  show ?thesis
    by (rule exI [of _ k], rule exI [of _ x], rule exI [of _ xs], rule exI [of _ p'], rule exI [of _ po'], rule exI [of _ h'])
      (use r k(1,2,4) i in \<open>simp add: msg_bytes_def\<close>)
qed

end
