(* ===== verification/Fsm.thy ===== *)
theory Fsm
  imports Kernel_API
begin

text \<open>
  \<^verbatim>\<open>Kernel/fsm.cpp\<close>: class \<^verbatim>\<open>FiniteStateMachine\<close>, the table-driven automate, with the log
  functions of its base class \<^verbatim>\<open>LogAutomateNew\<close> (\<^verbatim>\<open>logAutomate.cpp\<close>). A handler named \<open>p\<close> is
  run by the argument \<open>run\<close>, which the automate of the application supplies; the argument
  \<open>clk\<close> answers the calls of \<^verbatim>\<open>time\<close> made while one message is processed.
\<close>

section \<open>Logging an automate\<close>

definition BIT_LOG_STARTED :: uint16 where "BIT_LOG_STARTED = 0x0001"
definition BIT_LOG_ENDED :: uint16 where "BIT_LOG_ENDED = 0x0002"
definition BIT_EVENT_START :: uint16 where "BIT_EVENT_START = 0x0004"
definition BIT_EVENT_END :: uint16 where "BIT_EVENT_END = 0x0008"
definition BIT_LOG_MESSAGE :: uint16 where "BIT_LOG_MESSAGE = 0x0010"
definition BIT_START_TIMER :: uint16 where "BIT_START_TIMER = 0x0020"
definition BIT_STOP_TIMER :: uint16 where "BIT_STOP_TIMER = 0x0040"
definition BIT_SEND_MESSAGE :: uint16 where "BIT_SEND_MESSAGE = 0x0080"
definition BIT_RECV_MESSAGE :: uint16 where "BIT_RECV_MESSAGE = 0x0100"
definition BIT_STRING :: uint16 where "BIT_STRING = 0x0200"
definition BIT_USER_PARAM :: uint16 where "BIT_USER_PARAM = 0x0400"
definition BIT_ALL_STARTED :: uint16 where "BIT_ALL_STARTED = 0xffff"

lemmas log_bits = BIT_LOG_STARTED_def BIT_LOG_ENDED_def BIT_EVENT_START_def BIT_EVENT_END_def
  BIT_LOG_MESSAGE_def BIT_START_TIMER_def BIT_STOP_TIMER_def BIT_SEND_MESSAGE_def
  BIT_RECV_MESSAGE_def BIT_STRING_def BIT_USER_PARAM_def BIT_ALL_STARTED_def

text \<open>The constructor of \<^verbatim>\<open>LogAutomateNew\<close> also resets the static pointer to the logger.\<close>

definition LogAutomateNew_new :: "'p FiniteStateMachine \<Rightarrow> 'g kernel \<Rightarrow> 'p FiniteStateMachine \<times> 'g kernel" where
  "LogAutomateNew_new F K = (F\<lparr>LogFlag := BIT_ALL_STARTED\<rparr>, (KernelAPI_new K)\<lparr>LogingObject := None\<rparr>)"

definition SetLogInterface :: "LogInterface option \<Rightarrow> 'g kernel \<Rightarrow> 'g kernel" where
  "SetLogInterface L K = K\<lparr>LogingObject := L\<rparr>"

text \<open>The two masks: that of the automate and that of the system.\<close>

definition SetLogFlag :: "'p FiniteStateMachine \<Rightarrow> uint16 \<Rightarrow> 'p FiniteStateMachine" where
  "SetLogFlag F newFlag = F\<lparr>LogFlag := newFlag\<rparr>"

definition ClearLogFlag :: "'p FiniteStateMachine \<Rightarrow> 'p FiniteStateMachine" where
  "ClearLogFlag F = SetLogFlag F 0"

definition StartAll :: "'p FiniteStateMachine \<Rightarrow> 'p FiniteStateMachine" where
  "StartAll F = SetLogFlag F BIT_ALL_STARTED"

definition StartLogFunc :: "'p FiniteStateMachine \<Rightarrow> uint16 \<Rightarrow> 'p FiniteStateMachine" where
  "StartLogFunc F flag = F\<lparr>LogFlag := LogFlag F OR flag\<rparr>"

definition StopLogFunc :: "'p FiniteStateMachine \<Rightarrow> uint16 \<Rightarrow> 'p FiniteStateMachine" where
  "StopLogFunc F flag = F\<lparr>LogFlag := LogFlag F AND NOT flag\<rparr>"

definition SysSetLogFlag :: "'g kernel \<Rightarrow> uint16 \<Rightarrow> 'g kernel" where
  "SysSetLogFlag K newFlag = K\<lparr>SysLogFlag := newFlag\<rparr>"

definition SysClearLogFlag :: "'g kernel \<Rightarrow> 'g kernel" where
  "SysClearLogFlag K = SysSetLogFlag K 0"

definition SysStartAll :: "'g kernel \<Rightarrow> 'g kernel" where
  "SysStartAll K = SysSetLogFlag K BIT_ALL_STARTED"

definition SysStartLogFunc :: "'g kernel \<Rightarrow> uint16 \<Rightarrow> 'g kernel" where
  "SysStartLogFunc K flag = K\<lparr>SysLogFlag := SysLogFlag K OR flag\<rparr>"

definition SysStopLogFunc :: "'g kernel \<Rightarrow> uint16 \<Rightarrow> 'g kernel" where
  "SysStopLogFunc K flag = K\<lparr>SysLogFlag := SysLogFlag K AND NOT flag\<rparr>"

text \<open>The common body: a new record, its parameters (\<open>rest\<close>), \<^verbatim>\<open>Write\<close>.\<close>

definition log_record :: "uint32 \<Rightarrow> log_code \<Rightarrow> uint8 \<Rightarrow> uint32 \<Rightarrow> (LogInterface \<Rightarrow> LogInterface res)
    \<Rightarrow> 'g kernel \<Rightarrow> 'g kernel res" where
  "log_record ltime code automate obj rest K =
     (case LogingObject K of
        None \<Rightarrow> Fault MemFault
      | Some L \<Rightarrow> andThen (PrepareNewRecord ltime L code automate obj) (\<lambda>L.
          andThen (rest L) (\<lambda>L. Ok (K\<lparr>LogingObject := Some (LogWrite L)\<rparr>))))"

definition logs :: "'p FiniteStateMachine \<Rightarrow> 'g kernel \<Rightarrow> uint16 \<Rightarrow> bool" where
  "logs F K flag \<longleftrightarrow> LogFlag F AND flag AND SysLogFlag K \<noteq> 0"

definition LogStarted :: "uint32 \<Rightarrow> 'p FiniteStateMachine \<Rightarrow> 'g kernel \<Rightarrow> 'g kernel res" where
  "LogStarted t F K = (if logs F K BIT_LOG_STARTED
     then log_record t LOG_START (automateId F) (ConnectionId F) Ok K else Ok K)"

definition LogEnded :: "uint32 \<Rightarrow> 'p FiniteStateMachine \<Rightarrow> 'g kernel \<Rightarrow> 'g kernel res" where
  "LogEnded t F K = (if logs F K BIT_LOG_ENDED
     then log_record t LOG_END (automateId F) (ConnectionId F) Ok K else Ok K)"

definition LogAutomateEventStart :: "uint32 \<Rightarrow> 'p FiniteStateMachine \<Rightarrow> 'g kernel \<Rightarrow> 'g kernel res" where
  "LogAutomateEventStart t F K = (if logs F K BIT_EVENT_START
     then log_record t LOG_EVENT_START (automateId F) (ConnectionId F)
       (\<lambda>L. andThen (LogAddParamByte L LOG_PARAM_STATE (State F)) (\<lambda>L.
            LogAddParamDWord L LOG_PARAM_CALL_ID (CallId F))) K
     else Ok K)"

definition LogAutomateEventEnd :: "uint32 \<Rightarrow> 'p FiniteStateMachine \<Rightarrow> 'g kernel \<Rightarrow> 'g kernel res" where
  "LogAutomateEventEnd t F K = (if logs F K BIT_EVENT_END
     then log_record t LOG_EVENT_END (automateId F) (ConnectionId F)
       (\<lambda>L. andThen (LogAddParamByte L LOG_PARAM_STATE (State F)) (\<lambda>L.
            LogAddParamDWord L LOG_PARAM_CALL_ID (CallId F))) K
     else Ok K)"

text \<open>Messages are logged with their length cut to one byte.\<close>

definition log_bytes :: "bool \<Rightarrow> uint32 \<Rightarrow> log_code \<Rightarrow> uint8 \<Rightarrow> uint32 \<Rightarrow> uint16 \<Rightarrow> addr \<Rightarrow> 'g kernel \<Rightarrow> 'g kernel res" where
  "log_bytes dbg t code automate obj len msg K =
     log_record t code automate obj (\<lambda>L. andThen (get_bytes (memory K) msg) (\<lambda>bs.
       LogAddParam dbg L LOG_PARAM_MESSAGE (ucast len) bs)) K"

definition LogMessage :: "bool \<Rightarrow> uint32 \<Rightarrow> 'p FiniteStateMachine \<Rightarrow> 'g kernel \<Rightarrow> uint16 \<Rightarrow> addr \<Rightarrow> 'g kernel res" where
  "LogMessage dbg t F K len msg = (if logs F K BIT_LOG_MESSAGE
     then log_bytes dbg t LOG_EVENT_MESSAGE (automateId F) (ConnectionId F) len msg K else Ok K)"

definition LogSendMessage :: "bool \<Rightarrow> uint32 \<Rightarrow> 'p FiniteStateMachine \<Rightarrow> 'g kernel \<Rightarrow> uint16 \<Rightarrow> addr \<Rightarrow> 'g kernel res" where
  "LogSendMessage dbg t F K len msg = (if logs F K BIT_SEND_MESSAGE
     then log_bytes dbg t LOG_MESSAGE_SENT (automateId F) (ConnectionId F) len msg K else Ok K)"

definition LogRecvMessage :: "bool \<Rightarrow> uint32 \<Rightarrow> 'p FiniteStateMachine \<Rightarrow> 'g kernel \<Rightarrow> uint16 \<Rightarrow> addr \<Rightarrow> 'g kernel res" where
  "LogRecvMessage dbg t F K len msg = (if logs F K BIT_RECV_MESSAGE
     then log_bytes dbg t LOG_MESSAGE_RECV (automateId F) (ConnectionId F) len msg K else Ok K)"

definition LogBuffer_msg :: "bool \<Rightarrow> uint32 \<Rightarrow> 'p FiniteStateMachine \<Rightarrow> 'g kernel \<Rightarrow> uint16 \<Rightarrow> addr \<Rightarrow> 'g kernel res" where
  "LogBuffer_msg dbg t F K len msg = (if logs F K BIT_SEND_MESSAGE
     then log_bytes dbg t LOG_BUFFER 0xff 0xffff len msg K else Ok K)"

definition LogStartTimer :: "uint32 \<Rightarrow> 'p FiniteStateMachine \<Rightarrow> 'g kernel \<Rightarrow> uint16 \<Rightarrow> 'g kernel res" where
  "LogStartTimer t F K tmrId = (if logs F K BIT_START_TIMER
     then log_record t LOG_START_TIMER (automateId F) (ConnectionId F)
       (\<lambda>L. LogAddParamWord L LOG_PARAM_TIMER_ID tmrId) K else Ok K)"

definition LogStopTimer :: "uint32 \<Rightarrow> 'p FiniteStateMachine \<Rightarrow> 'g kernel \<Rightarrow> uint16 \<Rightarrow> 'g kernel res" where
  "LogStopTimer t F K tmrId = (if logs F K BIT_STOP_TIMER
     then log_record t LOG_STOP_TIMER (automateId F) (ConnectionId F)
       (\<lambda>L. LogAddParamWord L LOG_PARAM_TIMER_ID tmrId) K else Ok K)"

text \<open>\<open>str\<close> is the formatted text; \<^verbatim>\<open>_vsnprintf\<close> fails when it has more than 127 characters.\<close>

definition LogString :: "bool \<Rightarrow> uint32 \<Rightarrow> 'p FiniteStateMachine \<Rightarrow> 'g kernel \<Rightarrow> uint8 list \<Rightarrow> 'g kernel res" where
  "LogString dbg t F K str = (if LogFlag F AND BIT_STRING \<noteq> 0
     then if 127 < length str then Ok K
          else log_record t LOG_STRING (automateId F) (ConnectionId F)
            (\<lambda>L. LogAddParam dbg L LOG_PARAM_STRING (of_nat (length str)) str) K
     else Ok K)"

definition LogUserParam :: "bool \<Rightarrow> uint32 \<Rightarrow> 'p FiniteStateMachine \<Rightarrow> 'g kernel \<Rightarrow> uint8 \<Rightarrow> uint8 list \<Rightarrow> 'g kernel res" where
  "LogUserParam dbg t F K len param = (if LogFlag F AND BIT_USER_PARAM \<noteq> 0
     then log_record t LOG_USER_DATA (automateId F) (ConnectionId F)
       (\<lambda>L. LogAddParam dbg L LOG_PARAM_USER_DATA len param) K
     else Ok K)"

section \<open>States and timers of an automate\<close>

definition TimerBlock_new :: TimerBlock where
  "TimerBlock_new = \<lparr>TCount = INVALID_32, SignalId = INVALID_16, Valid = False, TimerBuffer = NULL\<rparr>"

definition SState_new :: "uint16 \<Rightarrow> 'p SState res" where
  "SState_new maxNumOfProceduresPerState =
     andThen (throwIf (maxNumOfProceduresPerState = 0) 0x01010200) (\<lambda>_.
     Ok \<lparr>StateValid = False, NumOfBranches = 0, UnexpectedEventProcPtr = None,
         PBranch = replicate (unat maxNumOfProceduresPerState) None\<rparr>)"

definition SetState :: "'p FiniteStateMachine \<Rightarrow> uint8 \<Rightarrow> 'p FiniteStateMachine" where
  "SetState F s = F\<lparr>State := s\<rparr>"

definition SetInitialState :: "'p FiniteStateMachine \<Rightarrow> 'p FiniteStateMachine" where
  "SetInitialState F = SetState F 0"

text \<open>\<^verbatim>\<open>SetCallId()\<close> draws a fresh call id from the static counter (\<^verbatim>\<open>GetPointId()\<close> is 0).\<close>

definition SetCallId :: "'p FiniteStateMachine \<Rightarrow> 'g kernel \<Rightarrow> 'p FiniteStateMachine \<times> 'g kernel" where
  "SetCallId F K = (F\<lparr>CallId := CallCounter K OR 0\<rparr>, K\<lparr>CallCounter := (CallCounter K + 1) mod 0x0fffffff\<rparr>)"

definition SetCallIdFromMsg :: "'p FiniteStateMachine \<Rightarrow> 'g kernel \<Rightarrow> 'p FiniteStateMachine res" where
  "SetCallIdFromMsg F K = andThen (get32 K (CurrentMessage F) CALL_ID) (\<lambda>c. Ok (F\<lparr>CallId := c\<rparr>))"

definition SetCallId_to :: "'p FiniteStateMachine \<Rightarrow> uint32 \<Rightarrow> 'p FiniteStateMachine" where
  "SetCallId_to F i = F\<lparr>CallId := i\<rparr>"

definition SetObjectId :: "'p FiniteStateMachine \<Rightarrow> uint32 \<Rightarrow> 'p FiniteStateMachine" where
  "SetObjectId F i = F\<lparr>ConnectionId := i\<rparr>"

definition SetGroup :: "'p FiniteStateMachine \<Rightarrow> uint8 \<Rightarrow> 'p FiniteStateMachine" where
  "SetGroup F i = F\<lparr>GroupId := i\<rparr>"

text \<open>The partners of the automate: mailbox, automate type, group and object.\<close>

definition SetLeft :: "'p FiniteStateMachine \<Rightarrow> uint8 \<Rightarrow> uint8 \<Rightarrow> uint8 \<Rightarrow> uint32 \<Rightarrow> 'p FiniteStateMachine" where
  "SetLeft F mbx automate grp i = F\<lparr>LeftMbx := mbx, LeftAutomate := automate, LeftGroup := grp, LeftObjectId := i\<rparr>"

definition SetRight :: "'p FiniteStateMachine \<Rightarrow> uint8 \<Rightarrow> uint8 \<Rightarrow> uint8 \<Rightarrow> uint32 \<Rightarrow> 'p FiniteStateMachine" where
  "SetRight F mbx automate grp i = F\<lparr>RightMbx := mbx, RightAutomate := automate, RightGroup := grp, RightObjectId := i\<rparr>"

text \<open>
  The constructor. \<open>raw\<close> is the memory of the object, whose fields keep what was there
  unless they are set; \<open>F\<close> is the coding of its message interface.
\<close>

definition FiniteStateMachine_new :: "'p FiniteStateMachine \<Rightarrow> fmt \<Rightarrow> 'g kernel \<Rightarrow> uint8 \<Rightarrow> uint8 \<Rightarrow> uint16 \<Rightarrow> uint16 \<Rightarrow> uint16 \<Rightarrow> bool
    \<Rightarrow> ('p FiniteStateMachine \<times> 'g kernel) res" where
  "FiniteStateMachine_new raw F K automateId1 mbxId1 numOfTimers numOfStates maxNumOfProceduresPerState getMemory =
     (let obj = raw\<lparr>CurrentMessage := CurrentMessage (MessageHandler_new F), NewMessage := NewMessage (MessageHandler_new F),
            StandardMsgCoding := StandardMsgCoding (MessageHandler_new F),
            automateId := automateId1, mbxId := mbxId1, Resolution := Timer1s\<rparr>;
          (obj, K) = LogAutomateNew_new obj K in
      andThen (throwIf (numOfStates = 0) 0x01010200) (\<lambda>_.
      let obj = obj\<lparr>NumOfStates := numOfStates, NumOfTimers := (if numOfTimers = 0 then 1 else numOfTimers)\<rparr> in
      andThen (throwIf (maxNumOfProceduresPerState = 0) 0x01010200) (\<lambda>_.
      let obj = obj\<lparr>MaxNumOfProcPerState := maxNumOfProceduresPerState, TimerStore := [],
            ReturnMemory := getMemory, States := []\<rparr> in
      andThen (if getMemory
        then andThen (SState_new (MaxNumOfProcPerState obj)) (\<lambda>s.
             Ok (obj\<lparr>States := replicate (unat (NumOfStates obj)) s\<rparr>))
        else Ok obj) (\<lambda>obj.
      let obj = obj\<lparr>TimerStore := replicate (unat (NumOfTimers obj)) TimerBlock_new, Next := NULL, CallId := 0xffffffff\<rparr>
      in Ok (SetInitialState obj, K)))))"

definition SetFSMStructures :: "'p FiniteStateMachine \<Rightarrow> 'p SState list \<Rightarrow> 'p FiniteStateMachine" where
  "SetFSMStructures F states = F\<lparr>States := states, ReturnMemory := False\<rparr>"

definition InitTimerBlock :: "'p FiniteStateMachine \<Rightarrow> uint16 \<Rightarrow> uint32 \<Rightarrow> uint16 \<Rightarrow> 'p FiniteStateMachine res" where
  "InitTimerBlock F tmrId ticks signalId =
     andThen (throwIf (NumOfTimers F < tmrId) 0x01010200) (\<lambda>_.
     andThen (wr (TimerStore F) (unat tmrId)
       \<lparr>TCount = ticks, SignalId = signalId, Valid = True, TimerBuffer = NULL\<rparr>) (\<lambda>ts.
     Ok (F\<lparr>TimerStore := ts\<rparr>)))"

text \<open>The checks that \<^verbatim>\<open>StartTimer\<close>, \<^verbatim>\<open>StopTimer\<close>, \<^verbatim>\<open>IsTimerRunning\<close> and \<^verbatim>\<open>setTimerCount\<close> open with.\<close>

definition timer_block :: "bool \<Rightarrow> 'p FiniteStateMachine \<Rightarrow> uint16 \<Rightarrow> TimerBlock res" where
  "timer_block dbg F tmrId =
     andThen (assertC dbg (\<not> NumOfTimers F < tmrId)) (\<lambda>_.
     andThen (rd (TimerStore F) (unat tmrId)) (\<lambda>b.
     andThen (assertC dbg (Valid b)) (\<lambda>_. Ok b)))"

definition set_buffer :: "'p FiniteStateMachine \<Rightarrow> uint16 \<Rightarrow> addr \<Rightarrow> 'p FiniteStateMachine res" where
  "set_buffer F tmrId a =
     andThen (rd (TimerStore F) (unat tmrId)) (\<lambda>b.
     andThen (wr (TimerStore F) (unat tmrId) (b\<lparr>TimerBuffer := a\<rparr>)) (\<lambda>ts. Ok (F\<lparr>TimerStore := ts\<rparr>)))"

definition StartTimer :: "bool \<Rightarrow> uint32 \<Rightarrow> 'p FiniteStateMachine \<Rightarrow> 'g kernel \<Rightarrow> uint16 \<Rightarrow> ('p FiniteStateMachine \<times> 'g kernel) res" where
  "StartTimer dbg t F K tmrId =
     andThen (timer_block dbg F tmrId) (\<lambda>b.
     andThen (assertC dbg (TimerBuffer b = NULL)) (\<lambda>_.
     andThen (API_StartTimer dbg F K (SignalId b) (TCount b)) (\<lambda>(a, K).
     andThen (set_buffer F tmrId a) (\<lambda>F.
     andThen (LogStartTimer t F K tmrId) (\<lambda>K. Ok (F, K))))))"

definition StopTimer :: "bool \<Rightarrow> uint32 \<Rightarrow> 'p FiniteStateMachine \<Rightarrow> 'g kernel \<Rightarrow> uint16 \<Rightarrow> ('p FiniteStateMachine \<times> 'g kernel) res" where
  "StopTimer dbg t F K tmrId =
     andThen (timer_block dbg F tmrId) (\<lambda>b.
     if TimerBuffer b = NULL then Ok (F, K)
     else andThen (API_StopTimer K (TimerBuffer b)) (\<lambda>K.
          andThen (set_buffer F tmrId NULL) (\<lambda>F.
          andThen (LogStopTimer t F K tmrId) (\<lambda>K. Ok (F, K)))))"

definition RestartTimer_fsm :: "bool \<Rightarrow> uint32 \<Rightarrow> 'p FiniteStateMachine \<Rightarrow> 'g kernel \<Rightarrow> uint16 \<Rightarrow> ('p FiniteStateMachine \<times> 'g kernel) res" where
  "RestartTimer_fsm dbg t F K tmrId =
     andThen (StopTimer dbg t F K tmrId) (\<lambda>(F, K). StartTimer dbg t F K tmrId)"

definition ResetTimer :: "'p FiniteStateMachine \<Rightarrow> uint16 \<Rightarrow> 'p FiniteStateMachine res" where
  "ResetTimer F tmrId = set_buffer F tmrId NULL"

definition IsTimerRunning :: "bool \<Rightarrow> 'p FiniteStateMachine \<Rightarrow> 'g kernel \<Rightarrow> uint16 \<Rightarrow> bool res" where
  "IsTimerRunning dbg F K tmrId =
     andThen (timer_block dbg F tmrId) (\<lambda>b.
     if TimerBuffer b = NULL then Ok False else API_IsTimerRunning K (TimerBuffer b))"

definition setTimerCount :: "bool \<Rightarrow> 'p FiniteStateMachine \<Rightarrow> uint16 \<Rightarrow> uint32 \<Rightarrow> 'p FiniteStateMachine res" where
  "setTimerCount dbg F tmrId ticks =
     andThen (timer_block dbg F tmrId) (\<lambda>b.
     andThen (wr (TimerStore F) (unat tmrId) (b\<lparr>TCount := ticks\<rparr>)) (\<lambda>ts. Ok (F\<lparr>TimerStore := ts\<rparr>)))"

fun stop_all :: "bool \<Rightarrow> uint32 \<Rightarrow> uint16 list \<Rightarrow> 'p FiniteStateMachine \<Rightarrow> 'g kernel \<Rightarrow> ('p FiniteStateMachine \<times> 'g kernel) res" where
  "stop_all dbg t [] F K = Ok (F, K)"
| "stop_all dbg t (i # is) F K =
     andThen (IsTimerRunning dbg F K i) (\<lambda>running.
     andThen (if running then StopTimer dbg t F K i else Ok (F, K)) (\<lambda>(F, K).
     stop_all dbg t is F K))"

definition timer_ids :: "'p FiniteStateMachine \<Rightarrow> uint16 list" where
  "timer_ids F = map of_nat [0 ..< unat (NumOfTimers F)]"

definition Reset :: "bool \<Rightarrow> uint32 \<Rightarrow> 'p FiniteStateMachine \<Rightarrow> 'g kernel \<Rightarrow> ('p FiniteStateMachine \<times> 'g kernel) res" where
  "Reset dbg t F K = stop_all dbg t (timer_ids F) (SetInitialState F) K"

text \<open>The destructor stops every running timer, then the base class returns the new message.\<close>

fun delete_timers :: "bool \<Rightarrow> uint32 \<Rightarrow> uint16 list \<Rightarrow> 'p FiniteStateMachine \<Rightarrow> 'g kernel \<Rightarrow> ('p FiniteStateMachine \<times> 'g kernel) res" where
  "delete_timers dbg t [] F K = Ok (F, K)"
| "delete_timers dbg t (i # is) F K =
     andThen (assertC dbg (\<not> NumOfTimers F < i)) (\<lambda>_.
     andThen (rd (TimerStore F) (unat i)) (\<lambda>b.
     if \<not> Valid b then delete_timers dbg t is F K
     else if TimerBuffer b = NULL then delete_timers dbg t is F K
     else andThen (API_StopTimer K (TimerBuffer b)) (\<lambda>K.
          andThen (set_buffer F i NULL) (\<lambda>F.
          andThen (LogStopTimer t F K i) (\<lambda>K.
          delete_timers dbg t is F K)))))"

definition FiniteStateMachine_delete :: "bool \<Rightarrow> uint32 \<Rightarrow> 'p FiniteStateMachine \<Rightarrow> 'g kernel \<Rightarrow> 'g kernel res" where
  "FiniteStateMachine_delete dbg t F K =
     andThen (delete_timers dbg t (timer_ids F) F K) (\<lambda>(F, K). MessageHandler_delete dbg F K)"

section \<open>Binding and dispatching events\<close>

fun find_branch :: "'p SBranch option list \<Rightarrow> uint16 \<Rightarrow> nat list \<Rightarrow> 'p proc option res" where
  "find_branch branches event [] = Ok None"
| "find_branch branches event (i # is) =
     andThen (rd branches i) (\<lambda>b. case b of
       None \<Rightarrow> Fault MemFault
     | Some b \<Rightarrow> if EventCode b = event then Ok (Some (ProcPtr b)) else find_branch branches event is)"

definition GetProcedure :: "bool \<Rightarrow> 'p FiniteStateMachine \<Rightarrow> uint16 \<Rightarrow> 'p proc option res" where
  "GetProcedure dbg F event =
     andThen (rd (States F) (unat (State F))) (\<lambda>s.
     andThen (assertC dbg (StateValid s)) (\<lambda>_.
     andThen (find_branch (PBranch s) event [0 ..< unat (NumOfBranches s)]) (\<lambda>p. case p of
       Some p \<Rightarrow> Ok (Some p)
     | None \<Rightarrow> Ok (UnexpectedEventProcPtr s))))"

text \<open>The write of the new branch comes before the check that there was room for it.\<close>

definition InitEventProc :: "'p FiniteStateMachine \<Rightarrow> uint8 \<Rightarrow> uint16 \<Rightarrow> 'p proc \<Rightarrow> 'p FiniteStateMachine res" where
  "InitEventProc F state event p =
     andThen (rd (States F) (unat state)) (\<lambda>s.
     let s = (if StateValid s then s else s\<lparr>StateValid := True, UnexpectedEventProcPtr := Some DoNothing\<rparr>) in
     andThen (find_branch (PBranch s) event [0 ..< unat (NumOfBranches s)]) (\<lambda>q.
     andThen (throwIf (q \<noteq> None) 0x01010200) (\<lambda>_.
     andThen (wr (PBranch s) (unat (NumOfBranches s)) (Some \<lparr>EventCode = event, ProcPtr = p\<rparr>)) (\<lambda>bs.
     let s = s\<lparr>PBranch := bs, NumOfBranches := NumOfBranches s + 1\<rparr> in
     andThen (throwIf (MaxNumOfProcPerState F < NumOfBranches s) 0x01010200) (\<lambda>_.
     Ok (F\<lparr>States := (States F)[unat state := s]\<rparr>))))))"

definition InitUnexpectedEventProc :: "'p FiniteStateMachine \<Rightarrow> uint8 \<Rightarrow> 'p proc \<Rightarrow> 'p FiniteStateMachine res" where
  "InitUnexpectedEventProc F state p =
     andThen (rd (States F) (unat state)) (\<lambda>s.
     andThen (throwIf (\<not> StateValid s) 0x01010200) (\<lambda>_.
     Ok (F\<lparr>States := (States F)[unat state := s\<lparr>UnexpectedEventProcPtr := Some p\<rparr>]\<rparr>)))"

definition run_proc :: "('p \<Rightarrow> 'p FiniteStateMachine \<Rightarrow> 'g kernel \<Rightarrow> ('p FiniteStateMachine \<times> 'g kernel) res) \<Rightarrow> 'p proc option
    \<Rightarrow> 'p FiniteStateMachine \<Rightarrow> 'g kernel \<Rightarrow> ('p FiniteStateMachine \<times> 'g kernel) res" where
  "run_proc run p F K = (case p of
       None \<Rightarrow> Fault MemFault
     | Some DoNothing \<Rightarrow> Ok (F, K)
     | Some (Proc q) \<Rightarrow> run q F K)"

definition Process :: "bool \<Rightarrow> (nat \<Rightarrow> uint32) \<Rightarrow> ('p \<Rightarrow> 'p FiniteStateMachine \<Rightarrow> 'g kernel \<Rightarrow> ('p FiniteStateMachine \<times> 'g kernel) res)
    \<Rightarrow> 'p FiniteStateMachine \<Rightarrow> 'g kernel \<Rightarrow> addr \<Rightarrow> ('p FiniteStateMachine \<times> 'g kernel) res" where
  "Process dbg clk run F K msg =
     andThen (ParseMessage dbg F K msg) (\<lambda>F.
     andThen (get16 K (CurrentMessage F) MSG_CODE) (\<lambda>_.
     andThen (LogAutomateEventStart (clk 0) F K) (\<lambda>K.
     andThen (get16 K (CurrentMessage F) MSG_LENGTH) (\<lambda>len.
     andThen (LogMessage dbg (clk 1) F K (len + of_nat MSG_HEADER_LENGTH) msg) (\<lambda>K.
     andThen (get16 K (CurrentMessage F) MSG_CODE) (\<lambda>code.
     andThen (GetProcedure dbg F code) (\<lambda>p.
     andThen (run_proc run p F K) (\<lambda>(F, K).
     andThen (ClearMessage dbg F K) (\<lambda>(F, K).
     andThen (LogAutomateEventEnd (clk 2) F K) (\<lambda>K.
     Ok (F, K)))))))))))"

text \<open>\<open>noFree\<close> is the virtual \<^verbatim>\<open>NoFreeInstances\<close>.\<close>

definition NoFreeObjectProcedure :: "bool \<Rightarrow> (nat \<Rightarrow> uint32) \<Rightarrow> ('p FiniteStateMachine \<Rightarrow> 'g kernel \<Rightarrow> ('p FiniteStateMachine \<times> 'g kernel) res)
    \<Rightarrow> 'p FiniteStateMachine \<Rightarrow> 'g kernel \<Rightarrow> addr \<Rightarrow> ('p FiniteStateMachine \<times> 'g kernel) res" where
  "NoFreeObjectProcedure dbg clk noFree F K msg =
     andThen (ParseMessage dbg F K msg) (\<lambda>F.
     andThen (get16 K (CurrentMessage F) MSG_LENGTH) (\<lambda>len.
     andThen (LogMessage dbg (clk 0) F K (len + of_nat MSG_HEADER_LENGTH) msg) (\<lambda>K.
     andThen (noFree F K) (\<lambda>(F, K).
     ClearMessage dbg F K))))"

section \<open>The transition table\<close>

text \<open>
  \<open>table s bs\<close>: the state \<open>s\<close> has the branches \<open>bs\<close>, in the order they were bound. Looking an
  event up is \<open>branch_of\<close>; binding one appends it.
\<close>

definition table :: "'p SState \<Rightarrow> (uint16 \<times> 'p proc) list \<Rightarrow> bool" where
  "table s bs \<longleftrightarrow> unat (NumOfBranches s) = length bs \<and> length bs \<le> length (PBranch s) \<and>
     (\<forall>i < length bs. PBranch s ! i = Some \<lparr>EventCode = fst (bs ! i), ProcPtr = snd (bs ! i)\<rparr>)"

definition bound_events :: "'p FiniteStateMachine \<Rightarrow> (uint8 \<Rightarrow> (uint16 \<times> 'p proc) list) \<Rightarrow> bool" where
  "bound_events F T \<longleftrightarrow> length (States F) \<le> 256 \<and>
     (\<forall>i < length (States F). let s = States F ! i in
        table s (T (of_nat i)) \<and> length (PBranch s) = unat (MaxNumOfProcPerState F) \<and>
        distinct (map fst (T (of_nat i))) \<and>
        (StateValid s \<longleftrightarrow> T (of_nat i) \<noteq> []) \<and> (T (of_nat i) \<noteq> [] \<longrightarrow> UnexpectedEventProcPtr s = Some DoNothing))"

lemma find_branch_ok:
  assumes "table s bs" "i \<le> length bs"
  shows "find_branch (PBranch s) e [i ..< length bs] = Ok (map_of (drop i bs) e)"
  using assms(2)
proof (induction i rule: inc_induct)
  case (step i)
  have d: "drop i bs = bs ! i # drop (Suc i) bs" using step.hyps by (simp add: Cons_nth_drop_Suc)
  have u: "[i ..< length bs] = i # [Suc i ..< length bs]" using step.hyps by (simp add: upt_conv_Cons)
  show ?case
    using step assms(1) by (simp add: table_def d u)
qed simp

lemma GetProcedure_ok:
  assumes b: "bound_events F T" and s: "unat (State F) < length (States F)" "T (State F) \<noteq> []"
  shows "GetProcedure dbg F e = Ok (Some (case map_of (T (State F)) e of Some p \<Rightarrow> p | None \<Rightarrow> DoNothing))"
proof -
  let ?s = "States F ! unat (State F)"
  have t: "table ?s (T (State F))" "StateValid ?s" "UnexpectedEventProcPtr ?s = Some DoNothing"
    using b s unfolding bound_events_def by (auto simp: Let_def dest!: spec [of _ "unat (State F)"])
  have "unat (NumOfBranches ?s) = length (T (State F))" using t(1) by (simp add: table_def)
  then show ?thesis
    using s t find_branch_ok [OF t(1), of 0 e] by (auto simp: GetProcedure_def split: option.splits)
qed

lemma bound_events_state:
  assumes "bound_events F T" "unat st < length (States F)"
  shows "table (States F ! unat st) (T st)" "length (PBranch (States F ! unat st)) = unat (MaxNumOfProcPerState F)"
    "StateValid (States F ! unat st) \<longleftrightarrow> T st \<noteq> []"
    "T st \<noteq> [] \<longrightarrow> UnexpectedEventProcPtr (States F ! unat st) = Some DoNothing" "distinct (map fst (T st))"
  using assms unfolding bound_events_def by (auto simp: Let_def dest!: spec [of _ "unat st"])

lemma InitEventProc_ok:
  assumes b: "bound_events F T" and st: "unat st < length (States F)"
    and e: "e \<notin> set (map fst (T st))" and room: "length (T st) < unat (MaxNumOfProcPerState F)"
  shows "\<exists>S. InitEventProc F st e p = Ok (F\<lparr>States := S\<rparr>) \<and>
    bound_events (F\<lparr>States := S\<rparr>) (T(st := T st @ [(e, p)])) \<and> length S = length (States F)"
proof -
  let ?s = "States F ! unat st"
  note s = bound_events_state [OF b st]
  let ?s1 = "if StateValid ?s then ?s else ?s\<lparr>StateValid := True, UnexpectedEventProcPtr := Some DoNothing\<rparr>"
  have s1: "table ?s1 (T st)" "PBranch ?s1 = PBranch ?s" "NumOfBranches ?s1 = NumOfBranches ?s" "StateValid ?s1"
    "UnexpectedEventProcPtr ?s1 = Some DoNothing"
    using s(1,3,4) by (auto simp: table_def)
  have n: "unat (NumOfBranches ?s) = length (T st)" using s(1) by (simp add: table_def)
  have "unat (MaxNumOfProcPerState F) < 2 ^ LENGTH(16)" by (rule unsigned_less)
  then have n1: "unat (NumOfBranches ?s + 1) = length (T st) + 1" using n room by (simp add: unat_word_ariths)
  let ?s2 = "?s1\<lparr>PBranch := (PBranch ?s1)[length (T st) := Some \<lparr>EventCode = e, ProcPtr = p\<rparr>], NumOfBranches := NumOfBranches ?s1 + 1\<rparr>"
  let ?F = "F\<lparr>States := (States F)[unat st := ?s2]\<rparr>"
  have "map_of (T st) e = None" using e by (simp add: map_of_eq_None_iff)
  then have f: "find_branch (PBranch ?s1) e [0 ..< unat (NumOfBranches ?s1)] = Ok None"
    using find_branch_ok [OF s(1), of 0 e] n s1(2,3) by simp
  have le: "\<not> MaxNumOfProcPerState F < NumOfBranches ?s1 + 1"
    using n1 room s1(3) by (simp add: word_less_nat_alt)
  have "InitEventProc F st e p = Ok ?F"
    unfolding InitEventProc_def Let_def using st f le s(2) n room s1(2,3) by simp
  moreover have t2: "table ?s2 (T st @ [(e, p)])"
    using s1(1-3) n1 s(2) room by (auto simp: table_def nth_append nth_list_update)
  have "bound_events ?F (T(st := T st @ [(e, p)]))"
    unfolding bound_events_def Let_def
  proof (intro conjI allI impI, goal_cases)
    case 1
    then show ?case using b by (simp add: bound_events_def)
  next
    fix i assume i: "i < length (States ?F)"
    then have u: "unat (of_nat i :: uint8) = i" using b by (simp add: bound_events_def unat8)
    have iff: "of_nat i = st \<longleftrightarrow> i = unat st" using u by auto
    have o: "table (States F ! i) (T (of_nat i))" "length (PBranch (States F ! i)) = unat (MaxNumOfProcPerState F)"
      "StateValid (States F ! i) \<longleftrightarrow> T (of_nat i) \<noteq> []" "distinct (map fst (T (of_nat i)))"
      "T (of_nat i) \<noteq> [] \<longrightarrow> UnexpectedEventProcPtr (States F ! i) = Some DoNothing"
      using bound_events_state [OF b, of "of_nat i"] i u by auto
    show "table (States ?F ! i) ((T(st := T st @ [(e, p)])) (of_nat i))"
      using t2 o(1) i iff by (auto simp: nth_list_update)
    show "length (PBranch (States ?F ! i)) = unat (MaxNumOfProcPerState ?F)"
      using s(2) o(2) i iff by (auto simp: nth_list_update)
    show "distinct (map fst ((T(st := T st @ [(e, p)])) (of_nat i)))"
      using s(5) e o(4) by auto
    show "StateValid (States ?F ! i) \<longleftrightarrow> (T(st := T st @ [(e, p)])) (of_nat i) \<noteq> []"
      using s1(4) o(3) i iff by (auto simp: nth_list_update)
    show "UnexpectedEventProcPtr (States ?F ! i) = Some DoNothing" if "(T(st := T st @ [(e, p)])) (of_nat i) \<noteq> []"
      using s1(5) o(5) i iff that by (auto simp: nth_list_update)
  qed
  ultimately show ?thesis by (intro exI [of _ "(States F)[unat st := ?s2]"]) simp
qed

text \<open>A sequence of bindings, as \<^verbatim>\<open>Initialize\<close> of an automate makes them.\<close>

type_synonym 'p binding = "uint8 \<times> uint16 \<times> 'p proc"

fun init_events :: "'p FiniteStateMachine \<Rightarrow> 'p binding list \<Rightarrow> 'p FiniteStateMachine res" where
  "init_events F [] = Ok F"
| "init_events F ((st, e, p) # bs) = andThen (InitEventProc F st e p) (\<lambda>F. init_events F bs)"

definition bindings_of :: "uint8 \<Rightarrow> 'p binding list \<Rightarrow> (uint16 \<times> 'p proc) list" where
  "bindings_of st bs = map snd (filter (\<lambda>b. fst b = st) bs)"

definition fits_table :: "'p FiniteStateMachine \<Rightarrow> 'p binding list \<Rightarrow> bool" where
  "fits_table F bs \<longleftrightarrow> (\<forall>b \<in> set bs. unat (fst b) < length (States F)) \<and>
     (\<forall>st. distinct (map fst (bindings_of st bs)) \<and> length (bindings_of st bs) \<le> unat (MaxNumOfProcPerState F))"

lemma bindings_of_simps [simp]:
  "bindings_of st [] = []"
  "bindings_of st ((st', e, p) # bs) = (if st' = st then (e, p) # bindings_of st bs else bindings_of st bs)"
  "bindings_of st (bs @ cs) = bindings_of st bs @ bindings_of st cs"
  by (simp_all add: bindings_of_def)

lemma init_events_ok:
  assumes "bound_events F (\<lambda>st. bindings_of st bs)" "fits_table F (bs @ cs)"
  shows "\<exists>S. init_events F cs = Ok (F\<lparr>States := S\<rparr>) \<and> length S = length (States F) \<and>
    bound_events (F\<lparr>States := S\<rparr>) (\<lambda>st. bindings_of st (bs @ cs))"
  using assms
proof (induction cs arbitrary: F bs)
  case Nil
  then show ?case by (intro exI [of _ "States F"]) simp
next
  case (Cons c cs)
  obtain st e p where c: "c = (st, e, p)" by (cases c)
  have f: "distinct (map fst (bindings_of st (bs @ c # cs)))"
    "length (bindings_of st (bs @ c # cs)) \<le> unat (MaxNumOfProcPerState F)"
    using Cons.prems(2) unfolding fits_table_def by blast+
  have st: "unat st < length (States F)" using Cons.prems(2) c by (simp add: fits_table_def)
  have e: "e \<notin> set (map fst (bindings_of st bs))" "length (bindings_of st bs) < unat (MaxNumOfProcPerState F)"
    using f(1,2) by (auto simp: c)
  obtain S where 1: "InitEventProc F st e p = Ok (F\<lparr>States := S\<rparr>)" "length S = length (States F)"
    "bound_events (F\<lparr>States := S\<rparr>) ((\<lambda>st. bindings_of st bs)(st := bindings_of st bs @ [(e, p)]))"
    using InitEventProc_ok [OF Cons.prems(1) st e, of p] by blast
  have T: "(\<lambda>st. bindings_of st bs)(st := bindings_of st bs @ [(e, p)]) = (\<lambda>st. bindings_of st (bs @ [c]))"
    by (auto simp: c fun_eq_iff)
  have "fits_table (F\<lparr>States := S\<rparr>) ((bs @ [c]) @ cs)" using Cons.prems(2) 1(2) by (simp add: fits_table_def)
  then show ?case
    using Cons.IH [of "F\<lparr>States := S\<rparr>" "bs @ [c]"] 1 unfolding T by (auto simp: c)
qed

lemma bound_events_new:
  "0 < unat (MaxNumOfProcPerState F) \<Longrightarrow> n \<le> 256 \<Longrightarrow> SState_new (MaxNumOfProcPerState F) = Ok s \<Longrightarrow>
   States F = replicate n s \<Longrightarrow> bound_events F (\<lambda>_. [])"
  by (auto simp: bound_events_def SState_new_def throwIf_def table_def Let_def split: if_splits)

section \<open>Logging changes nothing but the logger\<close>

definition logger_ok :: "'g kernel \<Rightarrow> bool" where
  "logger_ok K \<longleftrightarrow> (\<exists>L. LogingObject K = Some L \<and> length (LogBuffer L) = 8192)"

lemma logger_same: "logger_ok K \<Longrightarrow> \<exists>L. K = K\<lparr>LogingObject := Some L\<rparr> \<and> length (LogBuffer L) = 8192"
  by (cases K) (auto simp: logger_ok_def)

lemma kernel_ok_logger [simp]:
  "kernel_ok (K\<lparr>LogingObject := L\<rparr>) mss xss ts = kernel_ok K mss xss ts"
  "owned (K\<lparr>LogingObject := L\<rparr>) mss xss ts a = owned K mss xss ts a"
  "msg_bytes (K\<lparr>LogingObject := L\<rparr>) a = msg_bytes K a"
  "logger_ok (K\<lparr>LogingObject := Some M\<rparr>) \<longleftrightarrow> length (LogBuffer M) = 8192"
  by (simp_all add: kernel_ok_def owned_def msg_bytes_def logger_ok_def)

lemma kernel_ok_app [simp]:
  "kernel_ok (K\<lparr>app := g\<rparr>) mss xss ts = kernel_ok K mss xss ts"
  "owned (K\<lparr>app := g\<rparr>) mss xss ts a = owned K mss xss ts a"
  "msg_bytes (K\<lparr>app := g\<rparr>) a = msg_bytes K a" "logger_ok (K\<lparr>app := g\<rparr>) = logger_ok K"
  by (simp_all add: kernel_ok_def owned_def msg_bytes_def logger_ok_def)

lemma log_record_ok:
  assumes "logger_ok K"
    and "\<And>L. log_rep L (log_code_value code) (log_head t (ComputerId L) a obj) \<Longrightarrow>
      \<exists>L'. rest L = Ok L' \<and> length (LogBuffer L') = 8192"
  shows "\<exists>L. log_record t code a obj rest K = Ok (K\<lparr>LogingObject := Some L\<rparr>) \<and> length (LogBuffer L) = 8192"
proof -
  obtain L where L: "LogingObject K = Some L" "length (LogBuffer L) = 8192"
    using assms(1) by (auto simp: logger_ok_def)
  obtain L1 where 1: "PrepareNewRecord t L code a obj = Ok L1" "ComputerId L1 = ComputerId L"
    "log_rep L1 (log_code_value code) (log_head t (ComputerId L) a obj)"
    using PrepareNewRecord_ok [OF L(2)] by blast
  then obtain L2 where "rest L1 = Ok L2" "length (LogBuffer L2) = 8192"
    using assms(2) [of L1] by auto
  then show ?thesis using L 1(1) by (intro exI [of _ L2]) (simp add: log_record_def LogWrite_def)
qed

lemma LogAddParam_take:
  assumes "unat n \<le> length xs"
  shows "LogAddParam dbg L c n xs = LogAddParam dbg L c n (take (unat n) xs)"
  using assms by (simp add: LogAddParam_def memcpy_def cong: if_cong)

text \<open>The parameters of an event record: the state and the call.\<close>

lemma log_state_ok:
  assumes "log_rep L code xs" "length xs \<le> 1000"
  shows "\<exists>L'. andThen (LogAddParamByte L LOG_PARAM_STATE s) (\<lambda>L. LogAddParamDWord L LOG_PARAM_CALL_ID c) = Ok L' \<and>
    log_rep L' code (xs @ tlv LOG_PARAM_STATE [s] @ tlv LOG_PARAM_CALL_ID (bytes32 c))"
proof -
  obtain L1 where 1: "LogAddParamByte L LOG_PARAM_STATE s = Ok L1" "log_rep L1 code (xs @ tlv LOG_PARAM_STATE [s])"
    using LogAddParamByte_ok [OF assms(1)] assms(2) by auto
  then show ?thesis using LogAddParamDWord_ok [OF 1(2)] assms(2) by fastforce
qed

lemma log_state_length:
  assumes "log_rep L code (log_head t c a obj)"
  shows "\<exists>L'. andThen (LogAddParamByte L LOG_PARAM_STATE s) (\<lambda>L. LogAddParamDWord L LOG_PARAM_CALL_ID d) = Ok L' \<and>
    length (LogBuffer L') = 8192"
  using log_state_ok [OF assms, of s d] log_rep_length by auto

lemma LogAutomateEventStart_ok:
  assumes "logger_ok K"
  shows "\<exists>L. LogAutomateEventStart t F K = Ok (K\<lparr>LogingObject := Some L\<rparr>) \<and> length (LogBuffer L) = 8192"
proof (cases "logs F K BIT_EVENT_START")
  case True
  have "\<exists>L. log_record t LOG_EVENT_START (automateId F) (ConnectionId F)
      (\<lambda>L. andThen (LogAddParamByte L LOG_PARAM_STATE (State F)) (\<lambda>L. LogAddParamDWord L LOG_PARAM_CALL_ID (CallId F))) K =
      Ok (K\<lparr>LogingObject := Some L\<rparr>) \<and> length (LogBuffer L) = 8192"
    by (rule log_record_ok [OF assms log_state_length])
  then show ?thesis using True by (simp add: LogAutomateEventStart_def)
next
  case False
  then show ?thesis
    using logger_same [OF assms] by (simp add: LogAutomateEventStart_def)
qed

lemma LogAutomateEventEnd_ok:
  assumes "logger_ok K"
  shows "\<exists>L. LogAutomateEventEnd t F K = Ok (K\<lparr>LogingObject := Some L\<rparr>) \<and> length (LogBuffer L) = 8192"
proof (cases "logs F K BIT_EVENT_END")
  case True
  have "\<exists>L. log_record t LOG_EVENT_END (automateId F) (ConnectionId F)
      (\<lambda>L. andThen (LogAddParamByte L LOG_PARAM_STATE (State F)) (\<lambda>L. LogAddParamDWord L LOG_PARAM_CALL_ID (CallId F))) K =
      Ok (K\<lparr>LogingObject := Some L\<rparr>) \<and> length (LogBuffer L) = 8192"
    by (rule log_record_ok [OF assms log_state_length])
  then show ?thesis using True by (simp add: LogAutomateEventEnd_def)
next
  case False
  then show ?thesis
    using logger_same [OF assms] by (simp add: LogAutomateEventEnd_def)
qed

text \<open>Every parameter keeps the size of the buffer, whatever its length.\<close>

lemma log_byte_size: "log_byte L b = Ok L' \<Longrightarrow> length (LogBuffer L') = length (LogBuffer L)"
  by (auto simp: log_byte_def wr_eq_Ok)

lemma log_longer_size: "log_longer L n = Ok L' \<Longrightarrow> length (LogBuffer L') = length (LogBuffer L)"
  by (auto simp: log_longer_def SetLogInfoLength_def SetUint16_def wr_eq_Ok)

lemma LogAddParam_size:
  assumes "LogAddParam dbg L c n v = Ok L'"
  shows "length (LogBuffer L') = length (LogBuffer L)"
  using assms
  by (auto simp: LogAddParam_def memcpy_def dest!: log_byte_size log_longer_size split: if_splits)

lemma LogMessage_inv:
  assumes K: "logger_ok K" and run: "LogMessage dbg t F K len m = Ok K'"
  shows "\<exists>L. K' = K\<lparr>LogingObject := Some L\<rparr> \<and> length (LogBuffer L) = 8192"
proof (cases "logs F K BIT_LOG_MESSAGE")
  case True
  obtain L where L: "LogingObject K = Some L" "length (LogBuffer L) = 8192"
    using K by (auto simp: logger_ok_def)
  obtain L1 where 1: "PrepareNewRecord t L LOG_EVENT_MESSAGE (automateId F) (ConnectionId F) = Ok L1"
    "log_rep L1 (log_code_value LOG_EVENT_MESSAGE) (log_head t (ComputerId L) (automateId F) (ConnectionId F))"
    using PrepareNewRecord_ok [OF L(2)] by blast
  obtain bs L2 where "LogAddParam dbg L1 LOG_PARAM_MESSAGE (ucast len) bs = Ok L2"
    "K' = K\<lparr>LogingObject := Some L2\<rparr>"
    using run True L(1) 1(1) by (auto simp: LogMessage_def log_bytes_def log_record_def LogWrite_def)
  then show ?thesis using LogAddParam_size log_rep_length [OF 1(2)] by metis
next
  case False
  then show ?thesis using run logger_same [OF K] by (auto simp: LogMessage_def)
qed

text \<open>A message can be logged when its length, cut to one byte, is not zero and in the buffer.\<close>

definition loggable :: "'g kernel \<Rightarrow> addr \<Rightarrow> bool" where
  "loggable K m \<longleftrightarrow> (let n = ucast (le16 (msg_bytes K m) 19 + 21) :: uint8 in n \<noteq> 0 \<and> unat n \<le> length (msg_bytes K m))"

lemma LogMessage_ok:
  assumes K: "logger_ok K" and m: "owned K mss xss ts m"
    and n: "ucast len \<noteq> (0 :: uint8)" "unat (ucast len :: uint8) \<le> length (msg_bytes K m)"
  shows "\<exists>L. LogMessage dbg t F K len m = Ok (K\<lparr>LogingObject := Some L\<rparr>) \<and> length (LogBuffer L) = 8192"
proof (cases "logs F K BIT_LOG_MESSAGE")
  case True
  let ?n = "ucast len :: uint8"
  obtain b where b: "m \<noteq> NULL" "memory K m = Some b" "msg_bytes K m = bytes b"
    by (rule owned_msg [OF m])
  let ?v = "take (unat ?n) (bytes b)"
  have "unat ?n < 2 ^ LENGTH(8)" by (rule unsigned_less)
  then have v: "length ?v = unat ?n" "0 < length ?v" "length ?v < 256"
    using n b(3) by (auto simp: unat_gt_0)
  have "\<exists>L'. LogAddParam dbg L LOG_PARAM_MESSAGE ?n (bytes b) = Ok L' \<and> length (LogBuffer L') = 8192"
    if L: "log_rep L (log_code_value LOG_EVENT_MESSAGE) (log_head t c (automateId F) (ConnectionId F))" for L c
  proof -
    have len: "length (log_head t c (automateId F) (ConnectionId F)) \<le> 8192 - 6 - length ?v"
      using v(3) by simp
    obtain L' where "LogAddParam dbg L LOG_PARAM_MESSAGE (of_nat (length ?v)) ?v = Ok L'"
      "log_rep L' (log_code_value LOG_EVENT_MESSAGE)
        (log_head t c (automateId F) (ConnectionId F) @ tlv LOG_PARAM_MESSAGE ?v)"
      using LogAddParam_ok [OF L len v(2,3)] by blast
    moreover have "of_nat (length ?v) = ?n" unfolding v(1) by simp
    moreover have "unat ?n \<le> length (bytes b)" using n(2) b(3) by simp
    ultimately show ?thesis using LogAddParam_take [of ?n "bytes b"] log_rep_length by metis
  qed
  then have "\<exists>L. log_bytes dbg t LOG_EVENT_MESSAGE (automateId F) (ConnectionId F) len m K =
      Ok (K\<lparr>LogingObject := Some L\<rparr>) \<and> length (LogBuffer L) = 8192"
    unfolding log_bytes_def using b(1,2) by (intro log_record_ok [OF K]) (simp add: get_bytes_def)
  then show ?thesis using True by (simp add: LogMessage_def)
next
  case False
  then show ?thesis using logger_same [OF K] by (simp add: LogMessage_def)
qed

section \<open>Processing one message\<close>

text \<open>Every buffer the kernel keeps track of: queued, free, or running as a timer.\<close>

definition holdings :: "addr list list \<Rightarrow> addr list list \<Rightarrow> addr list \<Rightarrow> addr multiset" where
  "holdings mss xss ts = mset (concat mss) + mset (concat xss) + mset ts"

lemma mset_concat_update:
  "i < length xss \<Longrightarrow> mset (concat (xss[i := ys])) + mset (xss ! i) = mset (concat xss) + mset ys"
proof (induction xss arbitrary: i)
  case (Cons x xss)
  show ?case
  proof (cases i)
    case (Suc j)
    then have "j < length xss" using Cons.prems by simp
    from Cons.IH [OF this] Suc show ?thesis by (simp add: add.assoc)
  qed (simp add: ac_simps)
qed simp

lemma holdings_post: "i < length mss \<Longrightarrow> holdings (posted mss i a) xss ts = add_mset a (holdings mss xss ts)"
  using mset_concat_update [of i mss "mss ! i @ [a]"] by (simp add: holdings_def posted_def)

lemma holdings_take: "k < length xss \<Longrightarrow> xss ! k = x # xs \<Longrightarrow>
  add_mset x (holdings mss (xss[k := xs]) ts) = holdings mss xss ts"
  using mset_concat_update [of k xss xs] by (simp add: holdings_def)

lemma holdings_give_back: "class_of h a < length xss \<Longrightarrow>
  holdings mss (give_back h a xss) ts = add_mset a (holdings mss xss ts)"
  using mset_concat_update [of "class_of h a" xss "xss ! class_of h a @ [a]"]
  by (simp add: holdings_def give_back_def)

text \<open>
  What \<^verbatim>\<open>Process\<close> does around the handler: before it, the message becomes the current one
  and is logged; after it, the buffer goes back to the pool. A message that can be logged and
  has a procedure reaches its handler, and once the handler is done nothing can fail.
\<close>

definition with_current :: "'p FiniteStateMachine \<Rightarrow> addr \<Rightarrow> 'p FiniteStateMachine" where
  "with_current F m = F\<lparr>CurrentMessage := m, StandardMsgCoding := MI_ParseMessage (StandardMsgCoding F) m\<rparr>"

definition finish :: "bool \<Rightarrow> uint32 \<Rightarrow> 'p FiniteStateMachine \<Rightarrow> 'g kernel \<Rightarrow> ('p FiniteStateMachine \<times> 'g kernel) res" where
  "finish dbg t F K = andThen (ClearMessage dbg F K) (\<lambda>(F, K). andThen (LogAutomateEventEnd t F K) (\<lambda>K. Ok (F, K)))"

lemma Process_started:
  assumes m: "owned K mss xss ts m" and log: "logger_ok K"
  shows "\<exists>L. length (LogBuffer L) = 8192 \<and> Process dbg clk run F K m =
    andThen (LogMessage dbg (clk 1) (with_current F m) (K\<lparr>LogingObject := Some L\<rparr>) (le16 (msg_bytes K m) 19 + 21) m) (\<lambda>K2.
    andThen (get16 K2 m MSG_CODE) (\<lambda>code.
    andThen (GetProcedure dbg (with_current F m) code) (\<lambda>p.
    andThen (run_proc run p (with_current F m) K2) (\<lambda>(F, K). finish dbg (clk 2) F K))))"
proof -
  let ?F = "with_current F m"
  have mn: "m \<noteq> NULL" using owned_msg [OF m] by blast
  have parse: "ParseMessage dbg F K m = Ok ?F"
    using mn by (simp add: ParseMessage_def with_current_def get_msg [OF m])
  obtain L1 where 1: "LogAutomateEventStart (clk 0) ?F K = Ok (K\<lparr>LogingObject := Some L1\<rparr>)" "length (LogBuffer L1) = 8192"
    using LogAutomateEventStart_ok [OF log] by blast
  have m1: "owned (K\<lparr>LogingObject := Some L1\<rparr>) mss xss ts m" using m by simp
  have c: "CurrentMessage ?F = m" by (simp add: with_current_def)
  show ?thesis
    by (rule exI [of _ L1])
      (simp add: Process_def finish_def parse c 1 get_msg [OF m] get_msg [OF m1] MSG_HEADER_LENGTH_def)
qed

lemma Process_reaches_handler:
  assumes m: "owned K mss xss ts m" and log: "logger_ok K" "loggable K m"
    and p: "GetProcedure dbg (with_current F m) (le16 (msg_bytes K m) 4) = Ok p"
  shows "\<exists>L. length (LogBuffer L) = 8192 \<and> Process dbg clk run F K m =
    andThen (run_proc run p (with_current F m) (K\<lparr>LogingObject := Some L\<rparr>)) (\<lambda>(F, K). finish dbg (clk 2) F K)"
proof -
  obtain L1 where 1: "length (LogBuffer L1) = 8192" "Process dbg clk run F K m =
    andThen (LogMessage dbg (clk 1) (with_current F m) (K\<lparr>LogingObject := Some L1\<rparr>) (le16 (msg_bytes K m) 19 + 21) m) (\<lambda>K2.
    andThen (get16 K2 m MSG_CODE) (\<lambda>code.
    andThen (GetProcedure dbg (with_current F m) code) (\<lambda>p.
    andThen (run_proc run p (with_current F m) K2) (\<lambda>(F, K). finish dbg (clk 2) F K))))"
    using Process_started [OF m log(1)] by blast
  let ?K = "K\<lparr>LogingObject := Some L1\<rparr>"
  have m1: "owned ?K mss xss ts m" "logger_ok ?K" using m 1(1) by simp_all
  obtain L2 where 2: "LogMessage dbg (clk 1) (with_current F m) ?K (le16 (msg_bytes K m) 19 + 21) m = Ok (?K\<lparr>LogingObject := Some L2\<rparr>)"
    "length (LogBuffer L2) = 8192"
    using LogMessage_ok [OF m1(2,1), of "le16 (msg_bytes K m) 19 + 21" dbg "clk 1" "with_current F m"] log(2)
    by (auto simp: loggable_def Let_def)
  have m2: "owned (K\<lparr>LogingObject := Some L2\<rparr>) mss xss ts m" using m by simp
  show ?thesis by (rule exI [of _ L2]) (simp add: 1(2) 2 get_msg [OF m2] p del: One_nat_def)
qed

lemma finish_ok:
  assumes ok: "kernel_ok K mss xss ts" "owned K mss xss ts m" and F: "CurrentMessage F = m" and log: "logger_ok K"
  shows "\<exists>p h L. finish dbg t F K = Ok (F\<lparr>CurrentMessage := NULL\<rparr>, K\<lparr>pool := p, memory := h, LogingObject := Some L\<rparr>) \<and>
    length (LogBuffer L) = 8192 \<and> same_classes (pool K) p \<and> relinked (insert m (set (concat xss))) (memory K) h \<and>
    kernel_ok (K\<lparr>pool := p, memory := h, LogingObject := Some L\<rparr>) mss (give_back (memory K) m xss) ts \<and>
    class_of (memory K) m < length xss"
proof -
  obtain p h where r: "API_RetBuffer dbg K m = Ok (K\<lparr>pool := p, memory := h\<rparr>)" "same_classes (pool K) p"
    "kernel_ok (K\<lparr>pool := p, memory := h\<rparr>) mss (give_back (memory K) m xss) ts"
    "relinked (insert m (set (concat xss))) (memory K) h"
    using API_RetBuffer_ok [OF ok] by blast
  have "logger_ok (K\<lparr>pool := p, memory := h\<rparr>)" using log by (simp add: logger_ok_def)
  then obtain L where L: "LogAutomateEventEnd t (F\<lparr>CurrentMessage := NULL\<rparr>) (K\<lparr>pool := p, memory := h\<rparr>) =
      Ok (K\<lparr>pool := p, memory := h, LogingObject := Some L\<rparr>)" "length (LogBuffer L) = 8192"
    using LogAutomateEventEnd_ok by fastforce
  have "class_of (memory K) m < length xss"
    using ok(2) kernel_okD(3) [OF ok(1)] by (auto simp: owned_def has_header_def pool_rep_def elim!: in_useE)
  moreover have "kernel_ok (K\<lparr>pool := p, memory := h, LogingObject := Some L\<rparr>) mss (give_back (memory K) m xss) ts"
    using r(3) kernel_ok_logger(1) [where K = "K\<lparr>pool := p, memory := h\<rparr>"] by simp
  moreover have "finish dbg t F K = Ok (F\<lparr>CurrentMessage := NULL\<rparr>, K\<lparr>pool := p, memory := h, LogingObject := Some L\<rparr>)"
    using r(1) F L(1) by (simp add: finish_def ClearMessage_def)
  ultimately show ?thesis using r(2,4) L(2) by blast
qed

text \<open>
  What the kernel needs of the handlers of an automate, and what every automate then has: a
  handler that returns leaves the message it was called for to its caller, sends or frees
  every message it builds, and keeps the kernel in order; so processing a message gives its
  buffer back to the pool and none is lost or freed twice.
\<close>

locale automate =
  fixes run :: "'p \<Rightarrow> 'p FiniteStateMachine \<Rightarrow> 'g kernel \<Rightarrow> ('p FiniteStateMachine \<times> 'g kernel) res"
  assumes handler_ok: "kernel_ok K mss xss ts \<Longrightarrow> owned K mss xss ts m \<Longrightarrow> CurrentMessage F = m \<Longrightarrow>
      NewMessage F = NULL \<Longrightarrow> logger_ok K \<Longrightarrow> run q F K = Ok (F', K') \<Longrightarrow>
      \<exists>mss' xss' ts'. kernel_ok K' mss' xss' ts' \<and> owned K' mss' xss' ts' m \<and> CurrentMessage F' = m \<and>
        NewMessage F' = NULL \<and> logger_ok K' \<and> length mss' = length mss \<and>
        holdings mss' xss' ts' = holdings mss xss ts"
begin

lemma run_proc_ok:
  assumes "kernel_ok K mss xss ts" "owned K mss xss ts m" "CurrentMessage F = m" "NewMessage F = NULL"
    and "logger_ok K" "run_proc run p F K = Ok (F', K')"
  shows "\<exists>mss' xss' ts'. kernel_ok K' mss' xss' ts' \<and> owned K' mss' xss' ts' m \<and> CurrentMessage F' = m \<and>
    NewMessage F' = NULL \<and> logger_ok K' \<and> length mss' = length mss \<and> holdings mss' xss' ts' = holdings mss xss ts"
proof (cases p)
  case (Some q)
  then show ?thesis
    using assms handler_ok [OF assms(1-5)] by (cases q) (auto simp: run_proc_def)
qed (use assms in \<open>simp add: run_proc_def\<close>)

lemma Process_ok:
  assumes ok: "kernel_ok K mss xss ts" and m: "owned K mss xss ts m" and F: "NewMessage F = NULL"
    and log: "logger_ok K" and run: "Process dbg clk run F K m = Ok (F', K')"
  shows "\<exists>mss' xss' ts'. kernel_ok K' mss' xss' ts' \<and> CurrentMessage F' = NULL \<and> NewMessage F' = NULL \<and>
    logger_ok K' \<and> length mss' = length mss \<and> holdings mss' xss' ts' = add_mset m (holdings mss xss ts)"
proof -
  let ?F = "with_current F m"
  obtain L1 where L1: "length (LogBuffer L1) = 8192" "Process dbg clk run F K m =
    andThen (LogMessage dbg (clk 1) ?F (K\<lparr>LogingObject := Some L1\<rparr>) (le16 (msg_bytes K m) 19 + 21) m) (\<lambda>K2.
    andThen (get16 K2 m MSG_CODE) (\<lambda>code.
    andThen (GetProcedure dbg ?F code) (\<lambda>p.
    andThen (run_proc run p ?F K2) (\<lambda>(F, K). finish dbg (clk 2) F K))))"
    using Process_started [OF m log] by blast
  obtain K2 p F3 K3 where 1:
    "LogMessage dbg (clk 1) ?F (K\<lparr>LogingObject := Some L1\<rparr>) (le16 (msg_bytes K m) 19 + 21) m = Ok K2"
    "run_proc run p ?F K2 = Ok (F3, K3)" "finish dbg (clk 2) F3 K3 = Ok (F', K')"
    using run unfolding L1(2) by auto
  have "logger_ok (K\<lparr>LogingObject := Some L1\<rparr>)" using L1(1) by simp
  then obtain L2 where 2: "K2 = K\<lparr>LogingObject := Some L2\<rparr>" "length (LogBuffer L2) = 8192"
    using LogMessage_inv [OF _ 1(1)] by auto
  have K2: "kernel_ok K2 mss xss ts" "owned K2 mss xss ts m" "logger_ok K2" using ok m 2 by simp_all
  have c: "CurrentMessage ?F = m" "NewMessage ?F = NULL" using F by (simp_all add: with_current_def)
  obtain mss' xss' ts' where 4: "kernel_ok K3 mss' xss' ts'" "owned K3 mss' xss' ts' m" "CurrentMessage F3 = m"
    "NewMessage F3 = NULL" "logger_ok K3" "length mss' = length mss" "holdings mss' xss' ts' = holdings mss xss ts"
    using run_proc_ok [OF K2(1,2) c K2(3) 1(2)] by blast
  obtain p5 h5 L where 5: "F' = F3\<lparr>CurrentMessage := NULL\<rparr>" "K' = K3\<lparr>pool := p5, memory := h5, LogingObject := Some L\<rparr>"
    "kernel_ok K' mss' (give_back (memory K3) m xss') ts'" "length (LogBuffer L) = 8192" "class_of (memory K3) m < length xss'"
    using finish_ok [OF 4(1-3,5), of dbg "clk 2"] 1(3) by auto
  have "holdings mss' (give_back (memory K3) m xss') ts' = add_mset m (holdings mss xss ts)"
    using holdings_give_back [OF 5(5)] 4(7) by simp
  moreover have "logger_ok K'" using 5(2,4) by (simp add: logger_ok_def)
  ultimately show ?thesis using 5(1,3) 4(4,6) by auto
qed

end

section \<open>Properties\<close>

text \<open>An object and a kernel for the witnesses.\<close>

definition ex_raw :: "nat FiniteStateMachine" where
  "ex_raw = \<lparr>CurrentMessage = 7, NewMessage = 7,
     StandardMsgCoding = \<lparr>coding = pc16, MI_Current = 7, MI_New = 7, CurrentOffset = 7\<rparr>,
     mbxId = 0, automateId = 0, Resolution = Timer1ms, LogFlag = 0, Next = 7, ReturnMemory = False,
     TimerStore = [], NumOfStates = 0, NumOfTimers = 0, MaxNumOfProcPerState = 0, States = [],
     ConnectionId = 0, GroupId = 0, CallId = 0, LeftMbx = 0, LeftAutomate = 0, LeftGroup = 0,
     LeftObjectId = 0, RightMbx = 0, RightAutomate = 0, RightGroup = 0, RightObjectId = 0, State = 9\<rparr>"

definition ex_logger :: LogInterface where
  "ex_logger = LogInterface_new (replicate 8192 0)"

definition ex_kernel :: "unit kernel" where
  "ex_kernel = \<lparr>memory = ex_timer_heap, pool = ex_mail_pool, office = ex_office 0 0 0 0, timers = ex_timer,
     attached = True, LogingObject = Some ex_logger, SysLogFlag = 0xffff, CallCounter = 0, app = ()\<rparr>"

lemma FiniteStateMachine_new_ok:
  assumes "numOfStates \<noteq> 0" "maxProc \<noteq> 0"
  shows "\<exists>F0 s. FiniteStateMachine_new raw fm K a m nt numOfStates maxProc True =
      Ok (F0, K\<lparr>attached := False, LogingObject := None\<rparr>) \<and> SState_new maxProc = Ok s \<and>
    State F0 = 0 \<and>
    States F0 = replicate (unat numOfStates) s \<and> MaxNumOfProcPerState F0 = maxProc \<and> automateId F0 = a \<and> mbxId F0 = m \<and>
    CurrentMessage F0 = NULL \<and> NewMessage F0 = NULL \<and> NumOfStates F0 = numOfStates"
  using assms
  by (simp add: FiniteStateMachine_new_def LogAutomateNew_new_def KernelAPI_new_def SState_new_def
      SetInitialState_def SetState_def MessageHandler_new_def Let_def)

definition ex_bindings :: "nat binding list" where
  "ex_bindings = [(0, 1, Proc 10), (0, 2, Proc 20), (1, 1, Proc 30)]"

text \<open>C26: dispatch. An automate that is constructed and then binds its events, no event twice in
  a state and no more of them than the constructor was told, looks every event up in exactly
  that table: in a state with bindings it selects the handler bound to the event, and
  \<^verbatim>\<open>DoNothing\<close> for an event that is not bound there.\<close>

theorem dispatch_follows_bindings:
  assumes "numOfStates \<noteq> 0" "maxProc \<noteq> 0" "unat numOfStates \<le> 256"
    and "\<forall>b \<in> set bs. unat (fst b) < unat numOfStates"
    and "\<forall>st. distinct (map fst (bindings_of st bs)) \<and> length (bindings_of st bs) \<le> unat maxProc"
  shows "\<exists>F0 K0 F. FiniteStateMachine_new raw fm K a m nt numOfStates maxProc True = Ok (F0, K0) \<and>
    init_events F0 bs = Ok F \<and> State F = 0 \<and>
    (\<forall>st e. unat st < unat numOfStates \<and> bindings_of st bs \<noteq> [] \<longrightarrow>
      GetProcedure dbg (SetState F st) e =
        Ok (Some (case map_of (bindings_of st bs) e of Some p \<Rightarrow> p | None \<Rightarrow> DoNothing)))"
proof -
  obtain F0 s where 0: "FiniteStateMachine_new raw fm K a m nt numOfStates maxProc True =
      Ok (F0, K\<lparr>attached := False, LogingObject := None\<rparr>)" "SState_new maxProc = Ok s" "State F0 = 0"
    "States F0 = replicate (unat numOfStates) s" "MaxNumOfProcPerState F0 = maxProc"
    using FiniteStateMachine_new_ok [OF assms(1,2)] by blast
  have "0 < unat maxProc" using assms(2) by (simp add: unat_gt_0)
  then have b0: "bound_events F0 (\<lambda>st. bindings_of st [])"
    using bound_events_new [of F0 "unat numOfStates" s] assms(3) 0 by simp
  have "fits_table F0 ([] @ bs)" using assms(4,5) 0(4,5) by (simp add: fits_table_def)
  then obtain S where S: "init_events F0 bs = Ok (F0\<lparr>States := S\<rparr>)" "length S = unat numOfStates"
    "bound_events (F0\<lparr>States := S\<rparr>) (\<lambda>st. bindings_of st ([] @ bs))"
    using init_events_ok [OF b0] 0(4) by auto
  have "GetProcedure dbg (SetState (F0\<lparr>States := S\<rparr>) st) e =
      Ok (Some (case map_of (bindings_of st bs) e of Some p \<Rightarrow> p | None \<Rightarrow> DoNothing))"
    if "unat st < unat numOfStates" "bindings_of st bs \<noteq> []" for st e
    using GetProcedure_ok [of "SetState (F0\<lparr>States := S\<rparr>) st" "\<lambda>st. bindings_of st bs"] S(2,3) that
    by (simp add: SetState_def bound_events_def)
  then show ?thesis using 0(1,3) S(1) by auto
qed

theorem dispatch_follows_bindings_witness:
  "\<exists>F0 K0 F. FiniteStateMachine_new ex_raw pc16 ex_kernel 0 0 1 2 3 True = Ok (F0, K0) \<and>
    init_events F0 ex_bindings = Ok F \<and> State F = 0 \<and>
    (\<forall>st e. unat st < unat (2 :: uint16) \<and> bindings_of st ex_bindings \<noteq> [] \<longrightarrow>
      GetProcedure True (SetState F st) e =
        Ok (Some (case map_of (bindings_of st ex_bindings) e of
          Some p \<Rightarrow> p | None \<Rightarrow> DoNothing)))"
  by (rule dispatch_follows_bindings) (simp_all add: ex_bindings_def)

text \<open>Two checks come too late. Binding one event more than a state has room for writes the
  new branch behind the array before \<^verbatim>\<open>InitEventProc\<close> compares the count with the maximum;
  \<^verbatim>\<open>InitTimerBlock\<close> lets the number of timers itself pass as a timer's number and writes
  behind the timer store.\<close>

theorem tables_overrun_before_check:
  assumes "bound_events F T" "unat st < length (States F)" "e \<notin> set (map fst (T st))"
    and "length (T st) = unat (MaxNumOfProcPerState F)" "length (TimerStore F) = unat (NumOfTimers F)"
  shows "InitEventProc F st e p = Fault MemFault \<and> InitTimerBlock F (NumOfTimers F) c s = Fault MemFault"
proof -
  let ?s = "States F ! unat st"
  let ?s1 = "if StateValid ?s then ?s else ?s\<lparr>StateValid := True, UnexpectedEventProcPtr := Some DoNothing\<rparr>"
  note s = bound_events_state [OF assms(1,2)]
  have n: "unat (NumOfBranches ?s) = length (T st)" using s(1) by (simp add: table_def)
  have s1: "PBranch ?s1 = PBranch ?s" "NumOfBranches ?s1 = NumOfBranches ?s" by auto
  have "map_of (T st) e = None" using assms(3) by (simp add: map_of_eq_None_iff)
  then have "find_branch (PBranch ?s1) e [0 ..< unat (NumOfBranches ?s1)] = Ok None"
    using find_branch_ok [OF s(1), of 0 e] n unfolding s1 by simp
  then have "InitEventProc F st e p = Fault MemFault"
    using assms(2,4) s(2) n s1 unfolding InitEventProc_def Let_def by (simp add: wr_def)
  then show ?thesis using assms(5) by (simp add: InitTimerBlock_def)
qed

theorem tables_overrun_before_check_witness:
  "InitEventProc (ex_raw\<lparr>States := [\<lparr>StateValid = False, NumOfBranches = 0, UnexpectedEventProcPtr = None, PBranch = []\<rparr>]\<rparr>)
     0 1 (Proc 2) = Fault MemFault \<and>
   InitTimerBlock (ex_raw\<lparr>States := [\<lparr>StateValid = False, NumOfBranches = 0, UnexpectedEventProcPtr = None, PBranch = []\<rparr>]\<rparr>)
     (NumOfTimers (ex_raw\<lparr>States := [\<lparr>StateValid = False, NumOfBranches = 0, UnexpectedEventProcPtr = None, PBranch = []\<rparr>]\<rparr>))
     1 2 = Fault MemFault"
  by (rule tables_overrun_before_check [where T = "\<lambda>_. []"])
    (simp_all add: bound_events_def table_def ex_raw_def Let_def)


text \<open>The call ids that \<open>n\<close> calls of \<^verbatim>\<open>SetCallId\<close> in a row give.\<close>

fun draw_ids :: "nat \<Rightarrow> 'p FiniteStateMachine \<Rightarrow> 'g kernel \<Rightarrow> uint32 list" where
  "draw_ids 0 F K = []"
| "draw_ids (Suc n) F K = (let (F, K) = SetCallId F K in CallId F # draw_ids n F K)"

lemma call_counter_step:
  assumes "unat (c :: uint32) < 0x0fffffff"
  shows "unat ((c + 1) mod 0x0fffffff) = (unat c + 1) mod 0x0fffffff"
  using assms by (simp add: unat_mod unat_word_ariths)

lemma draw_ids_eq:
  assumes "unat (CallCounter K) < 0x0fffffff"
  shows "draw_ids n F K = map (\<lambda>i. of_nat ((unat (CallCounter K) + i) mod 0x0fffffff)) [0 ..< n]"
  using assms
proof (induction n arbitrary: F K)
  case (Suc n)
  let ?K = "K\<lparr>CallCounter := (CallCounter K + 1) mod 0x0fffffff\<rparr>"
  have c: "unat (CallCounter ?K) = (unat (CallCounter K) + 1) mod 0x0fffffff"
    using call_counter_step [OF Suc.prems] by simp
  then have "unat (CallCounter ?K) < 0x0fffffff" by simp
  from Suc.IH [OF this] Suc.prems show ?case
    unfolding c by (simp add: SetCallId_def map_upt_Suc mod_simps del: upt_Suc)
qed simp

text \<open>Call ids. Starting from a counter below \<open>0x0fffffff\<close>, as it is after every call, the
  \<open>n\<close> ids drawn in a row are the counter and its successors modulo \<open>0x0fffffff\<close>, and no two of
  them are equal as long as there are not more than \<open>0x0fffffff\<close> of them.\<close>

theorem call_ids_fresh:
  assumes "unat (CallCounter K) < 0x0fffffff"
  shows "draw_ids n F K = map (\<lambda>i. of_nat ((unat (CallCounter K) + i) mod 0x0fffffff)) [0 ..< n] \<and>
    (n \<le> 0x0fffffff \<longrightarrow> distinct (draw_ids n F K))"
proof -
  let ?c = "unat (CallCounter K)" and ?M = "0x0fffffff :: nat"
  have "i = j" if ij: "i < n" "j < n" "n \<le> ?M" "(of_nat ((?c + i) mod ?M) :: uint32) = of_nat ((?c + j) mod ?M)" for i j
  proof -
    have "(?c + i) mod ?M < 2 ^ 32" "(?c + j) mod ?M < 2 ^ 32"
      using mod_less_divisor [of ?M "?c + i"] mod_less_divisor [of ?M "?c + j"] by simp_all
    then have "(?c + i) mod ?M = (?c + j) mod ?M" using ij(4) by (metis unat32)
    moreover have "(?c + k) mod ?M = (if ?c + k < ?M then ?c + k else ?c + k - ?M)" if "k < ?M" for k
      using assms that by (simp add: mod_if)
    ultimately show "i = j" using assms ij by (auto split: if_splits)
  qed
  then show ?thesis
    unfolding draw_ids_eq [OF assms] by (auto simp: distinct_map inj_on_def)
qed

theorem call_ids_fresh_witness:
  "draw_ids 2 ex_raw (ex_kernel\<lparr>CallCounter := 0x0ffffffe\<rparr>) =
     map (\<lambda>i. of_nat ((unat (CallCounter (ex_kernel\<lparr>CallCounter := 0x0ffffffe\<rparr>)) + i) mod 0x0fffffff)) [0 ..< 2] \<and>
   distinct (draw_ids 2 ex_raw (ex_kernel\<lparr>CallCounter := 0x0ffffffe\<rparr>))"
proof -
  have "unat (CallCounter (ex_kernel\<lparr>CallCounter := 0x0ffffffe\<rparr>)) < 0x0fffffff" "(2 :: nat) \<le> 0x0fffffff" by simp_all
  then show ?thesis using call_ids_fresh [of "ex_kernel\<lparr>CallCounter := 0x0ffffffe\<rparr>" 2 ex_raw] by blast
qed

text \<open>The record of an event. With a logger attached and the event's bit set in both masks,
  the start of an event writes one record: the code, the length of the whole record, then as
  code, length and value the time, the computer, the automate, the object, the state the
  event finds and the id of the call.\<close>

theorem event_start_record:
  assumes "LogingObject K = Some L" "length (LogBuffer L) = 8192" "logs F K BIT_EVENT_START"
  shows "\<exists>L'. LogAutomateEventStart t F K = Ok (K\<lparr>LogingObject := Some L'\<rparr>) \<and>
    log_rep L' (log_code_value LOG_EVENT_START)
      (log_head t (ComputerId L) (automateId F) (ConnectionId F) @
       tlv LOG_PARAM_STATE [State F] @ tlv LOG_PARAM_CALL_ID (bytes32 (CallId F)))"
proof -
  obtain L1 where 1: "PrepareNewRecord t L LOG_EVENT_START (automateId F) (ConnectionId F) = Ok L1"
    "log_rep L1 (log_code_value LOG_EVENT_START) (log_head t (ComputerId L) (automateId F) (ConnectionId F))"
    using PrepareNewRecord_ok [OF assms(2)] by blast
  obtain L2 where 2: "andThen (LogAddParamByte L1 LOG_PARAM_STATE (State F)) (\<lambda>L. LogAddParamDWord L LOG_PARAM_CALL_ID (CallId F)) = Ok L2"
    "log_rep L2 (log_code_value LOG_EVENT_START)
      (log_head t (ComputerId L) (automateId F) (ConnectionId F) @
       tlv LOG_PARAM_STATE [State F] @ tlv LOG_PARAM_CALL_ID (bytes32 (CallId F)))"
    using log_state_ok [OF 1(2), of "State F" "CallId F"] by auto
  show ?thesis
    using assms(1,3) 1(1) 2 by (intro exI [of _ L2]) (simp add: LogAutomateEventStart_def log_record_def LogWrite_def del: andThen_eq_Ok)
qed

theorem event_start_record_witness:
  "\<exists>L'. LogAutomateEventStart 5 (ex_raw\<lparr>LogFlag := 0xffff\<rparr>) ex_kernel = Ok (ex_kernel\<lparr>LogingObject := Some L'\<rparr>) \<and>
    log_rep L' (log_code_value LOG_EVENT_START)
      (log_head 5 (ComputerId ex_logger) (automateId (ex_raw\<lparr>LogFlag := 0xffff\<rparr>)) (ConnectionId (ex_raw\<lparr>LogFlag := 0xffff\<rparr>)) @
       tlv LOG_PARAM_STATE [State (ex_raw\<lparr>LogFlag := 0xffff\<rparr>)] @ tlv LOG_PARAM_CALL_ID (bytes32 (CallId (ex_raw\<lparr>LogFlag := 0xffff\<rparr>))))"
  by (rule event_start_record)
    (simp_all add: ex_kernel_def ex_logger_def LogInterface_new_def logs_def log_bits)

text \<open>\<^verbatim>\<open>Reset\<close> of an automate none of whose timers has been initialised, as the
  constructor leaves them. The debug build aborts on the first timer; the release build goes
  back to the initial state and does nothing else.\<close>

theorem reset_uninitialised_timers:
  assumes "FiniteStateMachine_new raw fm K a m nt numOfStates maxProc mem = Ok (F, K1)"
  shows "Reset True t (SetState F s) K2 = Fault AssertFailed \<and>
    Reset False t (SetState F s) K2 = Ok (SetInitialState F, K2)"
proof -
  have F: "NumOfTimers F \<noteq> 0" "TimerStore F = replicate (unat (NumOfTimers F)) TimerBlock_new" "State F = 0"
    using assms by (auto simp: FiniteStateMachine_new_def Let_def LogAutomateNew_new_def throwIf_def SetInitialState_def
        SetState_def split: if_splits)
  then have n: "0 < unat (NumOfTimers F)" by (simp add: unat_gt_0)
  have bound: "unat (NumOfTimers F) < 2 ^ LENGTH(16)" by (rule unsigned_less)
  have dbg: "IsTimerRunning True (SetInitialState (SetState F s)) K2 0 = Fault AssertFailed"
    using F n by (simp add: IsTimerRunning_def timer_block_def SetInitialState_def SetState_def TimerBlock_new_def assertC_def)
  obtain js where "timer_ids (SetState F s) = 0 # js"
    using n by (auto simp: timer_ids_def SetInitialState_def SetState_def upt_conv_Cons)
  then have "Reset True t (SetState F s) K2 = Fault AssertFailed" using dbg by (simp add: Reset_def)
  moreover have "stop_all False t (map of_nat js) (SetInitialState F) K2 = Ok (SetInitialState F, K2)"
    if "\<forall>i \<in> set js. i < unat (NumOfTimers F)" for js
    using that
  proof (induction js)
    case (Cons i js)
    then have "unat (of_nat i :: uint16) = i" using bound by (intro unat16) simp
    then have "IsTimerRunning False (SetInitialState F) K2 (of_nat i) = Ok False"
      using Cons.prems F by (simp add: IsTimerRunning_def timer_block_def SetInitialState_def SetState_def TimerBlock_new_def)
    then show ?case using Cons by simp
  qed simp
  then have "Reset False t (SetState F s) K2 = Ok (SetInitialState F, K2)"
    by (simp add: Reset_def timer_ids_def SetInitialState_def SetState_def)
  ultimately show ?thesis by blast
qed

theorem reset_uninitialised_timers_witness:
  "\<exists>F :: nat FiniteStateMachine. Reset True 0 (SetState F 3) ex_kernel = Fault AssertFailed \<and>
    Reset False 0 (SetState F 3) ex_kernel = Ok (SetInitialState F, ex_kernel)"
proof -
  obtain F K1 where "FiniteStateMachine_new ex_raw pc16 ex_kernel 0 0 1 2 3 True = Ok (F, K1)"
    using FiniteStateMachine_new_ok [of 2 3 ex_raw pc16 ex_kernel 0 0 1] by fastforce
  from reset_uninitialised_timers [OF this] show ?thesis by blast
qed

text \<open>A message of 256 bytes, that is with 235 bytes of parameters, cannot be logged: its
  length is cut to the byte 0, and the debug build aborts in the middle of processing it.\<close>

theorem log_256_bytes_aborts:
  assumes "LogingObject K = Some L" "length (LogBuffer L) = 8192" "logs F K BIT_LOG_MESSAGE"
    and "get_bytes (memory K) m = Ok bs"
  shows "LogMessage True t F K (235 + of_nat MSG_HEADER_LENGTH) m = Fault AssertFailed"
proof -
  obtain L1 where 1: "PrepareNewRecord t L LOG_EVENT_MESSAGE (automateId F) (ConnectionId F) = Ok L1"
    using PrepareNewRecord_ok [OF assms(2)] by blast
  show ?thesis
    using assms 1 by (simp add: LogMessage_def log_bytes_def log_record_def LogAddParam_def MSG_HEADER_LENGTH_def assertC_def)
qed

theorem log_256_bytes_aborts_witness:
  "LogMessage True 0 (ex_raw\<lparr>LogFlag := 0xffff\<rparr>) (ex_kernel\<lparr>memory := [1 \<mapsto> \<lparr>BUFF_CODE = 0, BUFF_PREV = 0, BUFF_NEXT = 0, bytes = replicate 256 0\<rparr>]\<rparr>)
     (235 + of_nat MSG_HEADER_LENGTH) 1 = Fault AssertFailed"
  by (rule log_256_bytes_aborts [where L = ex_logger and bs = "replicate 256 0"])
    (simp_all add: ex_kernel_def ex_logger_def LogInterface_new_def logs_def log_bits get_bytes_def)

end
