(* ===== verification/Fsm_System.thy ===== *)
theory Fsm_System
  imports Fsm
begin

text \<open>
  \<^verbatim>\<open>Kernel/fsmSystem.cpp\<close>: class \<^verbatim>\<open>FSMList\<close>, the list of idle automates of one type, and class
  \<^verbatim>\<open>FSMSystem\<close>, which owns the tables of automates and takes message after message from the
  post office to the automate it is addressed to. The automates lie in a heap of their own
  (\<open>objects\<close>), as \<^verbatim>\<open>FSMList\<close> links them by their field \<^verbatim>\<open>Next\<close>.
\<close>

section \<open>The objects\<close>

type_synonym 'p objs = "addr \<Rightarrow> 'p FiniteStateMachine option"

definition obj_at :: "'p objs \<Rightarrow> addr \<Rightarrow> 'p FiniteStateMachine res" where
  "obj_at objs a = (if a = NULL then Fault MemFault
     else case objs a of None \<Rightarrow> Fault MemFault | Some F \<Rightarrow> Ok F)"

record FSMList =
  L_Head :: addr
  L_Tail :: addr
  FreeFSMCount :: uint32

text \<open>\<^verbatim>\<open>Automates[t]\<close>: null, an array of pointers to automates, or an array already deleted.\<close>

datatype automate_array = NullArr | Freed | Arr "addr list"

definition MAX_NUM_OF_AUTOMATES_TYPES :: nat where "MAX_NUM_OF_AUTOMATES_TYPES = 40"

record FSMSystem =
  Automates :: "automate_array list"
  NumberOfMbx :: uint8
  NumberOfAutomates :: uint8
  NumberOfObjects :: "uint32 list"
  FreeKernelMemory :: bool
  SystemWorking :: bool
  serverId :: uint8
  UseFreeAutomateList :: "bool list"
  FreeAutomates :: "FSMList list"

record ('p, 'g) system =
  objects :: "'p objs"
  sys :: FSMSystem
  ker :: "'g kernel"

section \<open>Class FSMList\<close>

definition FSMList_new :: FSMList where
  "FSMList_new = \<lparr>L_Head = NULL, L_Tail = NULL, FreeFSMCount = 0\<rparr>"

definition FL_GetFromHead :: "FSMList \<Rightarrow> 'p objs \<Rightarrow> (addr \<times> FSMList \<times> 'p objs) res" where
  "FL_GetFromHead L objs =
     (if L_Head L = NULL then Ok (NULL, L, objs)
      else let info = L_Head L in
        andThen (obj_at objs info) (\<lambda>F.
        let hd = Next F; objs = objs(info \<mapsto> F\<lparr>Next := NULL\<rparr>) in
        Ok (info, L\<lparr>L_Head := hd, L_Tail := (if hd = NULL then NULL else L_Tail L)\<rparr>, objs)))"

definition FL_PutOnTail :: "FSMList \<Rightarrow> 'p objs \<Rightarrow> addr \<Rightarrow> (FSMList \<times> 'p objs) res" where
  "FL_PutOnTail L objs info =
     andThen (obj_at objs info) (\<lambda>F.
     let objs = objs(info \<mapsto> F\<lparr>Next := NULL\<rparr>) in
     if L_Tail L = NULL then Ok (L\<lparr>L_Head := info, L_Tail := info\<rparr>, objs)
     else andThen (obj_at objs (L_Tail L)) (\<lambda>T.
          Ok (L\<lparr>L_Tail := info\<rparr>, objs(L_Tail L \<mapsto> T\<lparr>Next := info\<rparr>))))"

definition FL_Add :: "FSMList \<Rightarrow> 'p objs \<Rightarrow> addr \<Rightarrow> (FSMList \<times> 'p objs) res" where
  "FL_Add L objs info =
     andThen (throwIf (info = NULL) 0x21010503) (\<lambda>_.
     andThen (FL_PutOnTail L objs info) (\<lambda>(L, objs).
     Ok (L\<lparr>FreeFSMCount := FreeFSMCount L + 1\<rparr>, objs)))"

definition FL_Get :: "FSMList \<Rightarrow> 'p objs \<Rightarrow> (addr \<times> FSMList \<times> 'p objs) res" where
  "FL_Get L objs =
     andThen (FL_GetFromHead L objs) (\<lambda>(info, L, objs).
     andThen (throwIf (info = NULL \<or> FreeFSMCount L = 0) 0x21030504) (\<lambda>_.
     Ok (info, L\<lparr>FreeFSMCount := FreeFSMCount L - 1\<rparr>, objs)))"

definition Available :: "FSMList \<Rightarrow> uint32" where
  "Available L = FreeFSMCount L"

definition FL_IsEmpty :: "FSMList \<Rightarrow> bool" where
  "FL_IsEmpty L = (FreeFSMCount L = 0)"

section \<open>Class FSMSystem\<close>

text \<open>The constructor, on an object whose fields hold \<open>raw\<close>; it never sets \<^verbatim>\<open>serverId\<close>.\<close>

definition FSMSystem_new :: "FSMSystem \<Rightarrow> uint8 \<Rightarrow> uint8 \<Rightarrow> FSMSystem res" where
  "FSMSystem_new raw numOfAutomates numberOfMbx =
     (let n = unat numOfAutomates in
      andThen (throwIf (numOfAutomates = 0) 0x01010200) (\<lambda>_.
      andThen (throwIf (MAX_NUM_OF_AUTOMATES_TYPES < n) 0x01010200) (\<lambda>_.
      andThen (throwIf (numberOfMbx = 0) 0x01010200) (\<lambda>_.
      Ok (raw\<lparr>NumberOfAutomates := numOfAutomates, NumberOfMbx := numberOfMbx,
        Automates := replicate n NullArr @ drop n (Automates raw),
        NumberOfObjects := replicate n 0 @ drop n (NumberOfObjects raw),
        UseFreeAutomateList := replicate n False @ drop n (UseFreeAutomateList raw),
        FreeKernelMemory := False, SystemWorking := False\<rparr>)))))"

text \<open>
  \<^verbatim>\<open>InitKernel\<close>: \<open>base\<close>, \<open>bytes\<close> and \<open>dummy\<close> are the memory the constructors get, \<open>created\<close> and
  \<open>started\<close> tell which semaphores and whether the timer could be created. The static
  pointers of \<^verbatim>\<open>FSMSystem\<close> to the kernel are set when \<^verbatim>\<open>FreeKernelMemory\<close> is.
\<close>

definition InitKernel :: "bool \<Rightarrow> (nat \<Rightarrow> addr) \<Rightarrow> (addr \<Rightarrow> uint8) \<Rightarrow> (nat \<Rightarrow> bool) \<Rightarrow> addr \<Rightarrow> bool
    \<Rightarrow> ('p, 'g) system \<Rightarrow> uint8 \<Rightarrow> uint32 list option \<Rightarrow> uint32 list option \<Rightarrow> uint8 \<Rightarrow> TimerResolutionEnum
    \<Rightarrow> ('p, 'g) system res" where
  "InitKernel dbg base bs created dummy started Y buffClassNo buffersCount buffersLength numOfMbxs timerRes =
     (let K = ker Y in
      andThen (TBuffers_new dbg base bs buffClassNo buffersCount buffersLength (memory K)) (\<lambda>(p, _, _, h).
      andThen (TPostOffice_new created (NumberOfMbx (sys Y) + numOfMbxs) True) (\<lambda>po.
      andThen (CTimer_new dummy True True started timerRes h) (\<lambda>(T, h).
      andThen (SetKernelObjects True (K\<lparr>memory := h, pool := p, office := po, timers := T\<rparr>)) (\<lambda>K.
      Ok (Y\<lparr>ker := K, sys := (sys Y)\<lparr>FreeKernelMemory := True\<rparr>\<rparr>))))))"

text \<open>\<^verbatim>\<open>FiniteStateMachine::FreeFSM\<close> calls this with its object and its automate type.\<close>

definition FreeFSM :: "('p, 'g) system \<Rightarrow> addr \<Rightarrow> uint8 \<Rightarrow> ('p, 'g) system res" where
  "FreeFSM Y obj automateType =
     (let S = sys Y; t = unat automateType in
      andThen (rd (UseFreeAutomateList S) t) (\<lambda>use.
      if use
      then andThen (rd (FreeAutomates S) t) (\<lambda>L.
           andThen (FL_Add L (objects Y) obj) (\<lambda>(L, objs).
           Ok (Y\<lparr>objects := objs, sys := S\<lparr>FreeAutomates := (FreeAutomates S)[t := L]\<rparr>\<rparr>)))
      else Ok Y))"

definition FiniteStateMachine_FreeFSM :: "('p, 'g) system \<Rightarrow> addr \<Rightarrow> ('p, 'g) system res" where
  "FiniteStateMachine_FreeFSM Y obj = andThen (obj_at (objects Y) obj) (\<lambda>F. FreeFSM Y obj (automateId F))"

text \<open>The virtual functions of the automates: \<^verbatim>\<open>Initialize\<close> and \<^verbatim>\<open>NoFreeInstances\<close>.\<close>

type_synonym ('p, 'g) meth = "'p FiniteStateMachine \<Rightarrow> 'g kernel \<Rightarrow> ('p FiniteStateMachine \<times> 'g kernel) res"

definition array_at :: "FSMSystem \<Rightarrow> uint8 \<Rightarrow> addr list res" where
  "array_at S automateType = andThen (rd (Automates S) (unat automateType)) (\<lambda>p. case p of
     Arr objs \<Rightarrow> Ok objs | _ \<Rightarrow> Fault MemFault)"

definition set_array :: "FSMSystem \<Rightarrow> uint8 \<Rightarrow> automate_array \<Rightarrow> FSMSystem" where
  "set_array S automateType p = S\<lparr>Automates := (Automates S)[unat automateType := p]\<rparr>"

text \<open>The object gets its number and the group, is initialised, and joins the list of free ones.\<close>

definition admit :: "('p, 'g) meth \<Rightarrow> ('p, 'g) system \<Rightarrow> addr \<Rightarrow> uint8 \<Rightarrow> uint32 \<Rightarrow> ('p, 'g) system res" where
  "admit init Y obj automateType i =
     andThen (obj_at (objects Y) obj) (\<lambda>F.
     andThen (init (SetGroup (SetObjectId F i) (serverId (sys Y))) (ker Y)) (\<lambda>(F, K).
     FreeFSM (Y\<lparr>objects := (objects Y)(obj \<mapsto> F), ker := K\<rparr>) obj automateType))"

fun first_null :: "addr list \<Rightarrow> nat list \<Rightarrow> nat option res" where
  "first_null objs [] = Ok None"
| "first_null objs (i # is) =
     andThen (rd objs i) (\<lambda>a. if a = NULL then Ok (Some i) else first_null objs is)"

definition Add :: "bool \<Rightarrow> ('p, 'g) meth \<Rightarrow> ('p, 'g) system \<Rightarrow> addr \<Rightarrow> uint8 \<Rightarrow> ('p, 'g) system res" where
  "Add dbg init Y obj automateType =
     (let S = sys Y; t = unat automateType in
      andThen (assertC dbg (\<not> NumberOfAutomates S \<le> automateType)) (\<lambda>_.
      andThen (rd (Automates S) t) (\<lambda>p.
      andThen (assertC dbg (p \<noteq> NullArr)) (\<lambda>_.
      andThen (rd (NumberOfObjects S) t) (\<lambda>n.
      andThen (assertC dbg (n \<noteq> 0)) (\<lambda>_.
      andThen (if n = 0 then Ok [] else array_at S automateType) (\<lambda>arr.
      andThen (first_null arr [0 ..< unat n]) (\<lambda>slot. case slot of
        None \<Rightarrow> Fault (Thrown 0x01010200)
      | Some i \<Rightarrow> admit init (Y\<lparr>sys := set_array S automateType (Arr (arr[i := obj]))\<rparr>) obj automateType (of_nat i)))))))))"

definition Add_type :: "bool \<Rightarrow> ('p, 'g) meth \<Rightarrow> ('p, 'g) system \<Rightarrow> addr \<Rightarrow> uint8 \<Rightarrow> uint32 \<Rightarrow> bool \<Rightarrow> ('p, 'g) system res" where
  "Add_type dbg init Y obj automateType numOfObjects useFreeList =
     (let S = sys Y; t = unat automateType in
      andThen (assertC dbg (numOfObjects \<noteq> 0)) (\<lambda>_.
      andThen (assertC dbg (\<not> NumberOfAutomates S \<le> automateType)) (\<lambda>_.
      andThen (rd (Automates S) t) (\<lambda>p.
      andThen (assertC dbg (p = NullArr)) (\<lambda>_.
      andThen (rd (NumberOfObjects S) t) (\<lambda>n.
      andThen (assertC dbg (n = 0)) (\<lambda>_.
      andThen (wr (replicate (unat numOfObjects) NULL) 0 obj) (\<lambda>arr.
      andThen (wr (UseFreeAutomateList S) t useFreeList) (\<lambda>use.
      admit init (Y\<lparr>sys := (set_array S automateType (Arr arr))\<lparr>
          NumberOfObjects := (NumberOfObjects S)[t := numOfObjects], UseFreeAutomateList := use\<rparr>\<rparr>)
        obj automateType 0)))))))))"

text \<open>\<^verbatim>\<open>Remove\<close> deletes the array of a type and leaves the pointer to it as it is.\<close>

definition Remove :: "bool \<Rightarrow> ('p, 'g) system \<Rightarrow> uint8 \<Rightarrow> ('p, 'g) system res" where
  "Remove dbg Y automateType =
     (let S = sys Y; t = unat automateType in
      andThen (assertC dbg (automateType \<le> NumberOfAutomates S)) (\<lambda>_.
      andThen (rd (Automates S) t) (\<lambda>p.
      if p = NullArr then Ok Y
      else andThen (rd (NumberOfObjects S) t) (\<lambda>n.
           andThen (assertC dbg (n \<noteq> 0)) (\<lambda>_.
           andThen (array_at S automateType) (\<lambda>arr.
           andThen (if length arr < unat n then Fault MemFault else Ok ()) (\<lambda>_.
           Ok (Y\<lparr>sys := (set_array S automateType Freed)\<lparr>NumberOfObjects := (NumberOfObjects S)[t := 0]\<rparr>\<rparr>)))))))) "

definition Remove_object :: "bool \<Rightarrow> ('p, 'g) system \<Rightarrow> uint8 \<Rightarrow> uint32 \<Rightarrow> (addr \<times> ('p, 'g) system) res" where
  "Remove_object dbg Y automateType obj =
     (let S = sys Y in
      andThen (assertC dbg (NumberOfAutomates S \<le> automateType)) (\<lambda>_.
      andThen (rd (Automates S) (unat automateType)) (\<lambda>p.
      andThen (assertC dbg (p \<noteq> NullArr)) (\<lambda>_.
      andThen (rd (NumberOfObjects S) (unat automateType)) (\<lambda>n.
      andThen (assertC dbg (n \<noteq> 0)) (\<lambda>_.
      andThen (array_at S automateType) (\<lambda>arr.
      andThen (rd arr (unat obj)) (\<lambda>tmp.
      Ok (tmp, Y\<lparr>sys := set_array S automateType (Arr (arr[unat obj := NULL]))\<rparr>)))))))))"

text \<open>
  The body of the loop of \<^verbatim>\<open>Start\<close>: \<^verbatim>\<open>None\<close> means that it waits for a message for ever, as far
  as this thread alone is concerned.
\<close>

definition DiscardMsg :: "bool \<Rightarrow> ('p, 'g) system \<Rightarrow> addr \<Rightarrow> ('p, 'g) system res" where
  "DiscardMsg dbg Y msg =
     (let K = ker Y in
      andThen (RetBuffer dbg (pool K) (memory K) msg) (\<lambda>(p, h). Ok (Y\<lparr>ker := K\<lparr>pool := p, memory := h\<rparr>\<rparr>)))"

definition GetMsgSync :: "bool \<Rightarrow> win32 \<Rightarrow> ('p, 'g) system \<Rightarrow> (addr \<times> ('p, 'g) system) res" where
  "GetMsgSync dbg w Y =
     (let K = ker Y in
      andThen (if FreeKernelMemory (sys Y) then Ok () else Fault MemFault) (\<lambda>_.
      andThen (GetSync dbg w (office K) (pool K) (memory K)) (\<lambda>(msg, _, po, p, h).
      Ok (msg, Y\<lparr>ker := K\<lparr>office := po, pool := p, memory := h\<rparr>\<rparr>))))"

definition call :: "('p, 'g) meth \<Rightarrow> ('p, 'g) system \<Rightarrow> addr \<Rightarrow> ('p, 'g) system res" where
  "call f Y obj =
     andThen (obj_at (objects Y) obj) (\<lambda>F.
     andThen (f F (ker Y)) (\<lambda>(F, K). Ok (Y\<lparr>objects := (objects Y)(obj \<mapsto> F), ker := K\<rparr>)))"

definition dispatch :: "bool \<Rightarrow> (nat \<Rightarrow> uint32) \<Rightarrow> ('p \<Rightarrow> ('p, 'g) meth) \<Rightarrow> ('p, 'g) meth
    \<Rightarrow> ('p, 'g) system \<Rightarrow> addr \<Rightarrow> ('p, 'g) system res" where
  "dispatch dbg clk run noFree Y msg =
     (let S = sys Y; h = memory (ker Y) in
      andThen (read8 h msg (off MSG_TO_AUTOMATE)) (\<lambda>automateType.
      andThen (if NumberOfAutomates S < automateType then Ok True
        else andThen (rd (NumberOfObjects S) (unat automateType)) (\<lambda>n. Ok (n = 0))) (\<lambda>unknown.
      if unknown then DiscardMsg dbg Y msg
      else andThen (read32 h msg (off MSG_OBJECT_ID_TO)) (\<lambda>objNum.
        if objNum = 0xffffffff
        then andThen (rd (FreeAutomates S) (unat automateType)) (\<lambda>L.
             andThen (FL_Get L (objects Y)) (\<lambda>(obj, L, objs).
             let Y = Y\<lparr>objects := objs, sys := S\<lparr>FreeAutomates := (FreeAutomates S)[unat automateType := L]\<rparr>\<rparr> in
             if obj \<noteq> NULL then call (\<lambda>F K. Process dbg clk run F K msg) Y obj
             else andThen (array_at S automateType) (\<lambda>arr. andThen (rd arr 0) (\<lambda>a.
                  call (\<lambda>F K. NoFreeObjectProcedure dbg clk noFree F K msg) Y a))))
        else andThen (rd (NumberOfObjects S) (unat automateType)) (\<lambda>n.
          if n < objNum then DiscardMsg dbg Y msg
          else andThen (array_at S automateType) (\<lambda>arr. andThen (rd arr (unat objNum)) (\<lambda>a.
               call (\<lambda>F K. Process dbg clk run F K msg) Y a)))))))"

definition Start_step :: "bool \<Rightarrow> win32 \<Rightarrow> (nat \<Rightarrow> uint32) \<Rightarrow> ('p \<Rightarrow> ('p, 'g) meth) \<Rightarrow> ('p, 'g) meth
    \<Rightarrow> ('p, 'g) system \<Rightarrow> ('p, 'g) system res" where
  "Start_step dbg w clk run noFree Y =
     andThen (GetMsgSync dbg w Y) (\<lambda>(msg, Y).
     if msg = NULL then Ok Y else dispatch dbg clk run noFree Y msg)"

text \<open>The loops: \<open>k\<close> counts the messages, \<open>clk k\<close> tells the time while the \<open>k\<close>-th is processed.\<close>

fun Start_for :: "bool \<Rightarrow> win32 \<Rightarrow> (nat \<Rightarrow> nat \<Rightarrow> uint32) \<Rightarrow> ('p \<Rightarrow> ('p, 'g) meth) \<Rightarrow> ('p, 'g) meth
    \<Rightarrow> nat \<Rightarrow> nat \<Rightarrow> ('p, 'g) system \<Rightarrow> ('p, 'g) system res" where
  "Start_for dbg w clk run noFree 0 k Y = Ok Y"
| "Start_for dbg w clk run noFree (Suc n) k Y =
     andThen (Start_step dbg w (clk k) run noFree Y) (\<lambda>Y. Start_for dbg w clk run noFree n (Suc k) Y)"

partial_function (option) Start_while :: "bool \<Rightarrow> win32 \<Rightarrow> (nat \<Rightarrow> nat \<Rightarrow> uint32) \<Rightarrow> ('p \<Rightarrow> ('p, 'g) meth) \<Rightarrow> ('p, 'g) meth
    \<Rightarrow> nat \<Rightarrow> ('p, 'g) system \<Rightarrow> (fault + ('p, 'g) system) option" where
  [code]: "Start_while dbg w clk run noFree k Y =
     (if \<not> SystemWorking (sys Y) then Ok Y
      else andThen (Start_for dbg w clk run noFree (unat (NumberOfMbx (sys Y))) k Y) (\<lambda>Y'.
           Start_while dbg w clk run noFree (k + unat (NumberOfMbx (sys Y))) Y'))"

definition Start :: "bool \<Rightarrow> win32 \<Rightarrow> (nat \<Rightarrow> nat \<Rightarrow> uint32) \<Rightarrow> ('p \<Rightarrow> ('p, 'g) meth) \<Rightarrow> ('p, 'g) meth
    \<Rightarrow> ('p, 'g) system \<Rightarrow> ('p, 'g) system res" where
  "Start dbg w clk run noFree Y =
     Start_while dbg w clk run noFree 0 (Y\<lparr>sys := (sys Y)\<lparr>SystemWorking := True\<rparr>\<rparr>)"

definition StopSystem :: "('p, 'g) system \<Rightarrow> ('p, 'g) system" where
  "StopSystem Y = Y\<lparr>sys := (sys Y)\<lparr>SystemWorking := False\<rparr>\<rparr>"

text \<open>The destructor; \<open>memSize\<close> as for \<^const>\<open>TBuffers_delete\<close>.\<close>

fun remove_types :: "bool \<Rightarrow> uint8 list \<Rightarrow> ('p, 'g) system \<Rightarrow> ('p, 'g) system res" where
  "remove_types dbg [] Y = Ok Y"
| "remove_types dbg (t # ts) Y = andThen (Remove dbg Y t) (\<lambda>Y. remove_types dbg ts Y)"

definition FSMSystem_delete :: "bool \<Rightarrow> (addr \<Rightarrow> nat) \<Rightarrow> ('p, 'g) system \<Rightarrow> ('p, 'g) system res" where
  "FSMSystem_delete dbg memSize Y =
     andThen (remove_types dbg (map of_nat [0 ..< unat (NumberOfAutomates (sys Y))]) Y) (\<lambda>Y.
     if FreeKernelMemory (sys Y)
     then let K = ker Y in
          andThen (Timer_Purge dbg (timers K) (pool K) (memory K)) (\<lambda>(T, p, h).
          andThen (PO_Purge dbg (office K) p h) (\<lambda>(po, p, h).
          andThen (TBuffers_delete dbg memSize p h) (\<lambda>h.
          Ok (Y\<lparr>ker := K\<lparr>timers := T, office := po, pool := p, memory := h\<rparr>\<rparr>))))
     else Ok Y)"


section \<open>The list of idle automates is a queue\<close>

text \<open>
  \<open>links objs\<close>: the links of the automates, as a heap of blocks, so that what was proved of
  the kernel's queues applies. Addresses have 32 bits, so the count cannot wrap.
\<close>

definition links_of :: "'p objs \<Rightarrow> heap" where
  "links_of objs a = map_option (\<lambda>F. \<lparr>BUFF_CODE = 0, BUFF_PREV = NULL, BUFF_NEXT = Next F, bytes = []\<rparr>) (objs a)"

definition obj_alloc :: "'p objs \<Rightarrow> addr \<Rightarrow> bool" where
  "obj_alloc objs a \<longleftrightarrow> a \<noteq> NULL \<and> a < 2 ^ 32 \<and> objs a \<noteq> None"

definition fl_rep :: "FSMList \<Rightarrow> 'p objs \<Rightarrow> addr list \<Rightarrow> bool" where
  "fl_rep L objs xs \<longleftrightarrow> queue_rep (links_of objs) (L_Head L) (L_Tail L) xs \<and>
     FreeFSMCount L = of_nat (length xs) \<and> (\<forall>a \<in> set xs. a < 2 ^ 32)"

text \<open>\<open>renexted S objs objs'\<close>: at most the fields \<^verbatim>\<open>Next\<close> of the automates of \<open>S\<close> differ.\<close>

definition renexted :: "addr set \<Rightarrow> 'p objs \<Rightarrow> 'p objs \<Rightarrow> bool" where
  "renexted S objs objs' \<longleftrightarrow> (\<forall>a. map_option (Next_update (\<lambda>_. NULL)) (objs' a) = map_option (Next_update (\<lambda>_. NULL)) (objs a) \<and>
     (a \<notin> S \<longrightarrow> objs' a = objs a))"

lemma renexted_trans:
  "renexted S o1 o2 \<Longrightarrow> renexted T o2 o3 \<Longrightarrow> S \<subseteq> U \<Longrightarrow> T \<subseteq> U \<Longrightarrow> renexted U o1 o3"
  unfolding renexted_def by (metis subsetD)

lemma renexted_upd: "objs a = Some F \<Longrightarrow> a \<in> S \<Longrightarrow> renexted S objs (objs(a \<mapsto> F\<lparr>Next := v\<rparr>))"
  by (auto simp: renexted_def)

lemma renexted_alloc: "renexted S objs objs' \<Longrightarrow> obj_alloc objs' a = obj_alloc objs a"
  unfolding renexted_def obj_alloc_def by (metis option.map_disc_iff)

lemma renexted_field:
  assumes "renexted S objs objs'" "objs' a = Some F'"
  shows "\<exists>F. objs a = Some F \<and> F' = F\<lparr>Next := Next F'\<rparr>"
proof -
  obtain F where F: "objs a = Some F" "F'\<lparr>Next := NULL\<rparr> = F\<lparr>Next := NULL\<rparr>"
    using assms unfolding renexted_def by (metis (no_types, lifting) map_option_eq_Some)
  have "F' = (F'\<lparr>Next := NULL\<rparr>)\<lparr>Next := Next F'\<rparr>" by simp
  also have "\<dots> = F\<lparr>Next := Next F'\<rparr>" unfolding F(2) by simp
  finally show ?thesis using F(1) by blast
qed

lemma links_upd [simp]:
  "links_of (objs(a \<mapsto> F\<lparr>Next := v\<rparr>)) =
     (links_of objs)(a \<mapsto> \<lparr>BUFF_CODE = 0, BUFF_PREV = NULL, BUFF_NEXT = v, bytes = []\<rparr>)"
  by (auto simp: links_of_def)

lemma obj_at_ok [simp]: "a \<noteq> NULL \<Longrightarrow> objs a = Some F \<Longrightarrow> obj_at objs a = Ok F"
  by (simp add: obj_at_def)

lemma obj_at_eq_Ok: "obj_at objs a = Ok F \<longleftrightarrow> a \<noteq> NULL \<and> objs a = Some F"
  by (auto simp: obj_at_def split: option.splits)

lemma fl_rep_short:
  assumes "fl_rep L objs xs"
  shows "length xs < 2 ^ 32"
proof -
  have d: "distinct xs" "set xs \<subseteq> {1 ..< 2 ^ 32}"
    using assms queue_rep_distinct queue_rep_mem [of "links_of objs" "L_Head L" "L_Tail L" xs]
    by (auto simp: fl_rep_def Suc_le_eq)
  have "card (set xs) \<le> card {1 ..< (2 :: nat) ^ 32}" by (rule card_mono [OF _ d(2)]) simp
  then show ?thesis using distinct_card [OF d(1)] by simp
qed

lemma FL_Get_rep:
  assumes rep: "fl_rep L objs (x # xs)"
  shows "\<exists>L' objs'. FL_Get L objs = Ok (x, L', objs') \<and> fl_rep L' objs' xs \<and> renexted (insert x (set xs)) objs objs'"
proof -
  have q: "queue_rep (links_of objs) (L_Head L) (L_Tail L) (x # xs)" using rep by (simp add: fl_rep_def)
  then obtain F where F: "x \<noteq> NULL" "objs x = Some F"
    using queue_rep_mem [OF q, of x] by (auto simp: links_of_def)
  let ?b = "\<lparr>BUFF_CODE = 0, BUFF_PREV = NULL, BUFF_NEXT = Next F, bytes = []\<rparr>"
  have b: "links_of objs x = Some ?b" using F(2) by (simp add: links_of_def)
  note t = queue_rep_take [OF q b]
  let ?L = "L\<lparr>L_Head := Next F, L_Tail := (if Next F = NULL then NULL else L_Tail L), FreeFSMCount := FreeFSMCount L - 1\<rparr>"
  let ?objs = "objs(x \<mapsto> F\<lparr>Next := NULL\<rparr>)"
  have len: "unat (of_nat (Suc (length xs)) :: uint32) = Suc (length xs)"
    using fl_rep_short [OF rep] by (intro unat32) simp
  then have n: "FreeFSMCount L \<noteq> 0" using rep unfolding fl_rep_def by (metis length_Cons unat_0 nat.distinct(1))
  have "FL_Get L objs = Ok (x, ?L, ?objs)"
    using t F n by (simp add: FL_Get_def FL_GetFromHead_def)
  moreover have "x \<notin> set xs" using queue_rep_distinct [OF q] by simp
  then have "queue_rep (links_of ?objs) (Next F) (if Next F = NULL then NULL else L_Tail L) xs"
    using t by (subst queue_rep_local [of xs _ "links_of objs"]) auto
  then have "fl_rep ?L ?objs xs" using rep by (simp add: fl_rep_def)
  ultimately show ?thesis using renexted_upd [of objs, OF F(2), of "insert x (set xs)" NULL] by blast
qed

lemma FL_Add_rep:
  assumes rep: "fl_rep L objs xs" and a: "obj_alloc objs a" "a \<notin> set xs"
  shows "\<exists>L' objs'. FL_Add L objs a = Ok (L', objs') \<and> fl_rep L' objs' (xs @ [a]) \<and> renexted (insert a (set xs)) objs objs'"
proof -
  have q: "queue_rep (links_of objs) (L_Head L) (L_Tail L) xs" using rep by (simp add: fl_rep_def)
  obtain F where F: "a \<noteq> NULL" "a < 2 ^ 32" "objs a = Some F" using a by (auto simp: obj_alloc_def)
  let ?objs = "objs(a \<mapsto> F\<lparr>Next := NULL\<rparr>)"
  let ?b = "\<lparr>BUFF_CODE = 0, BUFF_PREV = NULL, BUFF_NEXT = NULL, bytes = []\<rparr>"
  have b: "links_of ?objs a = Some ?b" by (simp add: links_of_def)
  have r1: "renexted (insert a (set xs)) objs ?objs" by (rule renexted_upd [of objs, OF F(3)]) simp
  show ?thesis
  proof (cases "L_Tail L = NULL")
    case True
    then have "xs = []" using q queue_rep_tail by blast
    then have "fl_rep (L\<lparr>L_Head := a, L_Tail := a, FreeFSMCount := FreeFSMCount L + 1\<rparr>) ?objs (xs @ [a])"
      using rep F queue_rep_put_empty [of "links_of ?objs" a, OF b] by (simp add: fl_rep_def)
    then show ?thesis using True F r1 by (simp add: FL_Add_def FL_PutOnTail_def)
  next
    case False
    then obtain T where T: "L_Tail L \<in> set xs" "objs (L_Tail L) = Some T"
      using q queue_rep_mem queue_rep_tail_mem by (fastforce simp: links_of_def)
    then have na: "L_Tail L \<noteq> a" using a(2) by blast
    let ?objs2 = "?objs(L_Tail L \<mapsto> T\<lparr>Next := a\<rparr>)"
    have q1: "queue_rep (links_of ?objs) (L_Head L) (L_Tail L) xs"
      using q a(2) by (subst queue_rep_local [of xs _ "links_of objs"]) auto
    have l: "links_of ?objs (L_Tail L) = Some \<lparr>BUFF_CODE = 0, BUFF_PREV = NULL, BUFF_NEXT = Next T, bytes = []\<rparr>"
      using T na by (simp add: links_of_def)
    have "queue_rep (links_of ?objs2) (L_Head L) a (xs @ [a])"
      unfolding links_upd [of ?objs "L_Tail L" a T] by (rule queue_rep_put_tail [OF q1 False l a(2) F(1) b]) simp_all
    then have "fl_rep (L\<lparr>L_Tail := a, FreeFSMCount := FreeFSMCount L + 1\<rparr>) ?objs2 (xs @ [a])"
      using rep F by (auto simp: fl_rep_def)
    moreover have "renexted (insert a (set xs)) ?objs ?objs2" by (rule renexted_upd [of ?objs]) (use T na in auto)
    then have "renexted (insert a (set xs)) objs ?objs2" by (rule renexted_trans [OF r1]) auto
    ultimately show ?thesis using False F T na by (simp add: FL_Add_def FL_PutOnTail_def)
  qed
qed

interpretation idle: fifo obj_alloc renexted "\<lambda>h. h" FL_Add FL_Get fl_rep
proof (unfold_locales, goal_cases)
  case 1 then show ?case by (simp add: renexted_def)
next
  case 2 then show ?case by (rule renexted_trans)
next
  case 3 then show ?case by (rule renexted_alloc)
next
  case 4 then show ?case by (simp add: renexted_def)
next
  case 5 then show ?case by (rule FL_Add_rep)
next
  case 6 then show ?case by (rule FL_Get_rep)
next
  case (7 L objs xs objs')
  then have "queue_rep (links_of objs') p q xs = queue_rep (links_of objs) p q xs" for p q
    by (intro queue_rep_local) (simp add: links_of_def)
  then show ?case using 7(1) by (simp add: fl_rep_def)
next
  case 8 then show ?case by (simp add: fl_rep_def queue_rep_def)
qed

section \<open>Taking a message\<close>

lemma holdings_freed:
  "\<forall>a \<in> set as. class_of h a < length xss \<Longrightarrow>
   holdings mss (fold (give_back h) as xss) ts = mset as + holdings mss xss ts"
proof (induction as arbitrary: xss)
  case (Cons a as)
  then show ?case using holdings_give_back [of h a xss mss ts] by simp
qed simp

lemma holdings_rest:
  "i < length mss \<Longrightarrow> holdings (mss[i := ys]) xss ts + mset (mss ! i) = mset ys + holdings mss xss ts"
  using mset_concat_update [of i mss ys] by (simp add: holdings_def ac_simps)

lemma take_message:
  assumes ok: "kernel_ok K mss xss ts" and i: "i < length mss"
    and rep: "office_rep po' p' h' (rest_of (memory K) mss i) (freed_by (memory K) mss i xss)"
    and rl: "relinked (set (mss ! i) \<union> set (concat xss)) (memory K) h'" and cls: "same_classes (pool K) p'"
    and a: "a = head_or_null (dropWhile (discarded (memory K)) (mss ! i))"
  shows "kernel_ok (K\<lparr>office := po', pool := p', memory := h'\<rparr>)
      (rest_of (memory K) mss i) (freed_by (memory K) mss i xss) ts"
    "if a = NULL then holdings (rest_of (memory K) mss i) (freed_by (memory K) mss i xss) ts = holdings mss xss ts
     else owned (K\<lparr>office := po', pool := p', memory := h'\<rparr>) (rest_of (memory K) mss i) (freed_by (memory K) mss i xss) ts a \<and>
       add_mset a (holdings (rest_of (memory K) mss i) (freed_by (memory K) mss i xss) ts) = holdings mss xss ts"
proof -
  let ?K = "K\<lparr>office := po', pool := p', memory := h'\<rparr>" and ?h = "memory K"
  let ?D = "takeWhile (discarded ?h) (mss ! i)" and ?R = "dropWhile (discarded ?h) (mss ! i)"
  let ?mss = "rest_of ?h mss i" and ?xss = "freed_by ?h mss i xss"
  note off = kernel_okD(2) [OF ok]
  obtain m where inv: "mail_inv m (pool K) ?h (mss ! i) xss" using office_rep_mbx [OF off i] by metis
  have split: "mss ! i = ?D @ ?R" by simp
  have hdr: "has_header (pool K) ?h x" if "x \<in> set (mss ! i)" for x using inv that by (simp add: mail_inv_def)
  have dist: "distinct (mss ! i)" using inv mbx.rep_distinct by (auto simp: mail_inv_def)
  have cl: "class_of ?h x < length xss" if "x \<in> set (mss ! i)" for x
    using hdr [OF that] kernel_okD(3) [OF ok] by (auto simp: has_header_def pool_rep_def elim!: in_useE)
  have D: "\<forall>x \<in> set ?D. class_of ?h x < length xss" using cl set_takeWhileD by metis
  have freed: "set (concat ?xss) = set ?D \<union> set (concat xss)" unfolding freed_by_def by (rule set_fold_give_back [OF D])
  have sub: "set (tl ?R) \<subseteq> set (mss ! i)" using split by (metis list.set_sel(2) subsetI set_dropWhileD tl_Nil)
  have mem: "set (?mss ! j) \<subseteq> set (mss ! j)" if "j < length mss" for j
    using sub that i by (cases "j = i") (auto simp: rest_of_def)
  have apart': "apart ?mss ?xss x" if "apart mss xss x" for x
    using that mem i unfolding apart_def freed by (auto dest: set_takeWhileD)
  show "kernel_ok ?K ?mss ?xss ts"
  proof (rule kernel_ok_change [OF ok])
    fix x assume x: "x \<in> set (Timer_Head (timers K) # ts)"
    have ap: "apart mss xss x" by (rule kernel_ok_apart [OF ok x])
    then have "x \<notin> set (mss ! i) \<union> set (concat xss)" using i by (auto simp: apart_def)
    then show "memory ?K x = memory K x \<and> apart ?mss ?xss x" using relinked_out [OF rl] apart' [OF ap] by simp
  qed (use kernel_okD [OF ok] rep cls in auto)
  have count: "holdings ?mss ?xss ts + mset (mss ! i) = mset (tl ?R) + mset ?D + holdings mss xss ts"
    using holdings_rest [OF i, of "tl ?R" ?xss ts] holdings_freed [OF D, of mss ts]
    by (simp add: rest_of_def freed_by_def)
  show "if a = NULL then holdings ?mss ?xss ts = holdings mss xss ts
     else owned ?K ?mss ?xss ts a \<and> add_mset a (holdings ?mss ?xss ts) = holdings mss xss ts"
  proof (cases ?R)
    case Nil
    then have "mset (mss ! i) = mset ?D" by (metis append_Nil2 split)
    then have "a = NULL" "holdings ?mss ?xss ts = holdings mss xss ts" using count a Nil by simp_all
    then show ?thesis by simp
  next
    case (Cons b R)
    then have b: "a = b" "b \<in> set (mss ! i)" using a by (simp_all add: set_dropWhileD [of b "discarded ?h"])
    have "mset (mss ! i) = mset ?D + mset (b # R)" unfolding Cons [symmetric] mset_append [symmetric] by simp
    then have "add_mset a (holdings ?mss ?xss ts) = holdings mss xss ts" using count Cons b(1) by simp
    moreover have "a \<noteq> NULL" using hdr [OF b(2)] b(1) by (simp add: has_header_def in_use_def)
    moreover have "owned ?K ?mss ?xss ts a"
      unfolding owned_def
    proof (intro conjI)
      show "has_header (pool ?K) (memory ?K) a"
        using hdr [OF b(2)] b(1) has_header_relinked [OF rl cls] by simp
      have d: "b \<notin> set R" "b \<notin> set ?D" using dist Cons by (metis split distinct_append distinct.simps(2), metis split disjoint_insert(1) distinct_append list.simps(15))
      have "b \<notin> set (?mss ! j)" if j: "j < length mss" for j
      proof (cases "j = i")
        case True then show ?thesis using d(1) Cons i by (simp add: rest_of_def)
      next
        case False then show ?thesis using mem [OF j] office_rep_disjoint [OF off i j] b(2) by auto
      qed
      moreover have "b \<notin> set (concat ?xss)"
        unfolding freed using d(2) office_rep_free [OF off i] b(2) by blast
      ultimately show "apart ?mss ?xss a" using b(1) by (simp add: apart_def)
      show "a \<notin> set (Timer_Head (timers ?K) # ts)"
        using kernel_ok_apart [OF ok, of a] b i by (auto simp: apart_def)
    qed
    ultimately show ?thesis by simp
  qed
qed

lemma GetMsgSync_ok:
  assumes w: "win32_documented w" and ok: "kernel_ok (ker Y) mss xss ts" and n: "length mss \<le> 64"
    and run: "GetMsgSync dbg w Y = Ok (a, Y')"
  shows "\<exists>mss' xss'. kernel_ok (ker Y') mss' xss' ts \<and> length mss' = length mss \<and> objects Y' = objects Y \<and>
    sys Y' = sys Y \<and> LogingObject (ker Y') = LogingObject (ker Y) \<and> app (ker Y') = app (ker Y) \<and>
    (if a = NULL then holdings mss' xss' ts = holdings mss xss ts
     else owned (ker Y') mss' xss' ts a \<and> add_mset a (holdings mss' xss' ts) = holdings mss xss ts)"
proof -
  obtain mb po p h where g: "GetSync dbg w (office (ker Y)) (pool (ker Y)) (memory (ker Y)) = Ok (a, mb, po, p, h)"
    "Y' = Y\<lparr>ker := (ker Y)\<lparr>office := po, pool := p, memory := h\<rparr>\<rparr>"
    using run by (auto simp: GetMsgSync_def Let_def split: if_splits)
  obtain i where i: "i < length mss" "a = head_or_null (dropWhile (discarded (memory (ker Y))) (mss ! i))"
    "office_rep po p h (rest_of (memory (ker Y)) mss i) (freed_by (memory (ker Y)) mss i xss)"
    "relinked (set (mss ! i) \<union> set (concat xss)) (memory (ker Y)) h" "same_classes (pool (ker Y)) p"
    using GetSync_inv [OF w kernel_okD(2) [OF ok] n g(1)] by blast
  show ?thesis
    using take_message [OF ok i(1) i(3,4,5,2)] g(2)
    by (intro exI [of _ "rest_of (memory (ker Y)) mss i"] exI [of _ "freed_by (memory (ker Y)) mss i xss"]) simp
qed

section \<open>Starting the kernel\<close>

text \<open>
  \<open>kernel_memory\<close>: what the constructors of the kernel get. The memory of each class of
  buffers is large enough and apart from the others, and the block of the timers' dummy
  message is none of the buffers.
\<close>

definition kernel_memory :: "(nat \<Rightarrow> addr) \<Rightarrow> addr \<Rightarrow> heap \<Rightarrow> uint8 \<Rightarrow> uint32 list \<Rightarrow> uint32 list \<Rightarrow> bool" where
  "kernel_memory base dummy h num counts lens \<longleftrightarrow> 0 < unat num \<and> unat num \<le> MAX_BUFF_CLASS_NO \<and>
     length lens = unat num \<and> length counts = unat num \<and> dummy \<noteq> NULL \<and>
     (\<exists>b. h dummy = Some b \<and> TIMER_COUNT + 4 \<le> length (bytes b)) \<and>
     (\<forall>lens' counts'. arrays_sorted lens counts lens' counts' \<longrightarrow>
        classes_apart base counts' lens' {..< unat num} \<and>
        (\<forall>i < unat num. class_fits base counts' lens' i \<and> dummy \<notin> set (class_addrs base counts' lens' i)))"

lemma InitKernel_ok:
  assumes mem: "kernel_memory base dummy (memory (ker Y)) num counts lens"
    and n: "NumberOfMbx (sys Y) + extra = n" "n \<noteq> 0" "\<forall>i < unat n. created i"
  shows "\<exists>K lens' counts'. InitKernel dbg base raw created dummy True Y num (Some counts) (Some lens) extra res =
      Ok (Y\<lparr>ker := K, sys := (sys Y)\<lparr>FreeKernelMemory := True\<rparr>\<rparr>) \<and> arrays_sorted lens counts lens' counts' \<and>
    kernel_ok K (replicate (unat n) []) (map (class_addrs base counts' lens') [0 ..< unat num]) [] \<and>
    BuffersLength (pool K) = lens' @ replicate (MAX_BUFF_CLASS_NO - unat num) 0 \<and>
    semHandle (office K) = replicate (unat n) 0 \<and> LogingObject K = LogingObject (ker Y) \<and> app K = app (ker Y)"
proof -
  note mem = mem [unfolded kernel_memory_def]
  have num: "0 < unat num" "unat num \<le> MAX_BUFF_CLASS_NO" "length lens = unat num" "length counts = unat num"
    and fit: "arrays_sorted lens counts lens' counts' \<Longrightarrow>
      (\<forall>i < unat num. class_fits base counts' lens' i) \<and> classes_apart base counts' lens' {..< unat num}" for lens' counts'
    using mem by simp_all
  obtain p lens' counts' h1 where 1: "TBuffers_new dbg base raw num (Some counts) (Some lens) (memory (ker Y)) = Ok (p, counts', lens', h1)"
    "arrays_sorted lens counts lens' counts'" "pool_rep p h1 (map (class_addrs base counts' lens') [0 ..< unat num])"
    "BuffersLength p = lens' @ replicate (MAX_BUFF_CLASS_NO - unat num) 0"
    "\<forall>a. (\<forall>i < unat num. a \<notin> set (class_addrs base counts' lens' i)) \<longrightarrow> h1 a = memory (ker Y) a"
    using TBuffers_new_ok [OF num fit] by blast
  let ?xss = "map (class_addrs base counts' lens') [0 ..< unat num]" and ?mss = "replicate (unat n) [] :: addr list list"
  obtain po where 2: "TPostOffice_new created n True = Ok po" "office_rep po p h1 ?mss ?xss" "semHandle po = replicate (unat n) 0"
    using TPostOffice_new_ok [OF n(2,3) 1(3)] by blast
  have d: "\<forall>i < unat num. dummy \<notin> set (class_addrs base counts' lens' i)" using mem 1(2) by blast
  then obtain b where b: "h1 dummy = Some b" "TIMER_COUNT + 4 \<le> length (bytes b)" "dummy \<noteq> NULL"
    using mem 1(5) by metis
  let ?T = "\<lparr>TimerResolution = res, CsTimer = 0, Timer_Head = dummy\<rparr>"
  obtain b' where 3: "CTimer_new dummy True True True res h1 = Ok (?T, h1(dummy \<mapsto> b'))" "timer_rep ?T (h1(dummy \<mapsto> b')) []"
    using CTimer_new_ok [of h1 dummy b] b by blast
  have ap: "apart ?mss ?xss dummy" using d by (auto simp: apart_def set_concat)
  then have "office_rep po p (h1(dummy \<mapsto> b')) ?mss ?xss"
    by (intro office_rep_local [OF 2(2)]) auto
  then have "kernel_ok ((ker Y)\<lparr>memory := h1(dummy \<mapsto> b'), pool := p, office := po, timers := ?T, attached := True\<rparr>) ?mss ?xss []"
    using 3(2) ap by (simp add: kernel_ok_def timers_ok_def)
  then show ?thesis
    using 1(1,2,4) 2(1,3) 3(1) n(1)
    by (intro exI [of _ "(ker Y)\<lparr>memory := h1(dummy \<mapsto> b'), pool := p, office := po, timers := ?T, attached := True\<rparr>"]
        exI [of _ lens'] exI [of _ counts']) (simp add: InitKernel_def SetKernelObjects_def Let_def)
qed

section \<open>No message is lost or freed twice\<close>

text \<open>
  \<open>system_ok\<close>: the kernel is in order, it has a logger, no more mailboxes than can be waited
  for, and no automate is in the middle of building a message.
\<close>

definition system_ok :: "('p, 'g) system \<Rightarrow> addr list list \<Rightarrow> addr list list \<Rightarrow> addr list \<Rightarrow> bool" where
  "system_ok Y mss xss ts \<longleftrightarrow> kernel_ok (ker Y) mss xss ts \<and> logger_ok (ker Y) \<and> length mss \<le> 64 \<and>
     (\<forall>a F. objects Y a = Some F \<longrightarrow> NewMessage F = NULL)"

lemma DiscardMsg_ok:
  assumes ok: "kernel_ok (ker Y) mss xss ts" and a: "owned (ker Y) mss xss ts a"
  shows "\<exists>xss' p h. DiscardMsg dbg Y a = Ok (Y\<lparr>ker := (ker Y)\<lparr>pool := p, memory := h\<rparr>\<rparr>) \<and>
    kernel_ok ((ker Y)\<lparr>pool := p, memory := h\<rparr>) mss xss' ts \<and> holdings mss xss' ts = add_mset a (holdings mss xss ts)"
proof -
  obtain p h where r: "API_RetBuffer dbg (ker Y) a = Ok ((ker Y)\<lparr>pool := p, memory := h\<rparr>)"
    "kernel_ok ((ker Y)\<lparr>pool := p, memory := h\<rparr>) mss (give_back (memory (ker Y)) a xss) ts"
    using API_RetBuffer_ok [OF ok a, of dbg] by blast
  then obtain p' h' where "RetBuffer dbg (pool (ker Y)) (memory (ker Y)) a = Ok (p', h')"
    "(ker Y)\<lparr>pool := p', memory := h'\<rparr> = (ker Y)\<lparr>pool := p, memory := h\<rparr>"
    using kernel_okD(4) [OF ok] by (auto simp: API_RetBuffer_def)
  then have "DiscardMsg dbg Y a = Ok (Y\<lparr>ker := (ker Y)\<lparr>pool := p, memory := h\<rparr>\<rparr>)"
    by (simp add: DiscardMsg_def Let_def)
  moreover have "class_of (memory (ker Y)) a < length xss"
    using a kernel_okD(3) [OF ok] by (auto simp: owned_def has_header_def pool_rep_def elim!: in_useE)
  ultimately show ?thesis using r(2) holdings_give_back by blast
qed

lemma FL_Get_inv:
  assumes "FL_Get L objs = Ok (a, L', objs')"
  shows "a \<noteq> NULL \<and> (\<exists>F. objs a = Some F \<and> objs' = objs(a \<mapsto> F\<lparr>Next := NULL\<rparr>))"
  using assms by (auto simp: FL_Get_def FL_GetFromHead_def throwIf_def obj_at_eq_Ok Let_def split: if_splits)

lemma FL_Get_not_null [simp]: "FL_Get L objs \<noteq> Ok (NULL, L', objs')"
  using FL_Get_inv by blast

context automate
begin

lemma call_Process_ok:
  assumes ok: "kernel_ok (ker Y) mss xss ts" "owned (ker Y) mss xss ts m" "logger_ok (ker Y)" "length mss \<le> 64"
    and idle: "\<forall>a F. objects Y a = Some F \<longrightarrow> NewMessage F = NULL"
    and run: "call (\<lambda>F K. Process dbg clk run F K m) Y a = Ok Y'"
  shows "\<exists>mss' xss' ts'. system_ok Y' mss' xss' ts' \<and> length mss' = length mss \<and>
    holdings mss' xss' ts' = add_mset m (holdings mss xss ts)"
proof -
  obtain F F' K' where F: "objects Y a = Some F" "Process dbg clk run F (ker Y) m = Ok (F', K')"
    "Y' = Y\<lparr>objects := (objects Y)(a \<mapsto> F'), ker := K'\<rparr>"
    using run by (auto simp: call_def obj_at_eq_Ok)
  have "NewMessage F = NULL" using idle F(1) by blast
  then obtain mss' xss' ts' where "kernel_ok K' mss' xss' ts'" "NewMessage F' = NULL" "logger_ok K'"
    "length mss' = length mss" "holdings mss' xss' ts' = add_mset m (holdings mss xss ts)"
    using Process_ok [OF ok(1,2) _ ok(3) F(2)] by blast
  then show ?thesis
    using F(3) idle ok(4) by (intro exI [of _ mss'] exI [of _ xss'] exI [of _ ts']) (auto simp: system_ok_def)
qed

lemma dispatch_ok:
  assumes ok: "kernel_ok (ker Y) mss xss ts" "owned (ker Y) mss xss ts m" "logger_ok (ker Y)" "length mss \<le> 64"
    and idle: "\<forall>a F. objects Y a = Some F \<longrightarrow> NewMessage F = NULL"
    and run: "dispatch dbg clk run noFree Y m = Ok Y'"
  shows "\<exists>mss' xss' ts'. system_ok Y' mss' xss' ts' \<and> length mss' = length mss \<and>
    holdings mss' xss' ts' = add_mset m (holdings mss xss ts)"
proof -
  have disc: ?thesis if d: "DiscardMsg dbg Y m = Ok Y'"
  proof -
    obtain xss' p h where "Y' = Y\<lparr>ker := (ker Y)\<lparr>pool := p, memory := h\<rparr>\<rparr>"
      "kernel_ok ((ker Y)\<lparr>pool := p, memory := h\<rparr>) mss xss' ts" "holdings mss xss' ts = add_mset m (holdings mss xss ts)"
      using DiscardMsg_ok [OF ok(1,2), of dbg] d by auto
    then show ?thesis using ok(3,4) idle
      by (intro exI [of _ mss] exI [of _ xss'] exI [of _ ts]) (auto simp: system_ok_def logger_ok_def)
  qed
  have proc: ?thesis if "call (\<lambda>F K. Process dbg clk run F K m) Y2 a = Ok Y'" "ker Y2 = ker Y"
    "\<forall>a F. objects Y2 a = Some F \<longrightarrow> NewMessage F = NULL" for Y2 a
    using call_Process_ok [of Y2 mss xss ts m dbg clk a Y'] that ok by simp
  have free: ?thesis if g: "FL_Get L (objects Y) = Ok (obj, L', objs)"
    "call (\<lambda>F K. Process dbg clk run F K m) (Y\<lparr>objects := objs, sys := S\<rparr>) obj = Ok Y'" for L obj L' objs S
  proof (rule proc [OF g(2)])
    show "\<forall>a F. objects (Y\<lparr>objects := objs, sys := S\<rparr>) a = Some F \<longrightarrow> NewMessage F = NULL"
      using FL_Get_inv [OF g(1)] idle by (auto split: if_splits)
  qed simp
  show ?thesis
    using run disc proc free
    unfolding dispatch_def Let_def
    by (auto simp: idle split: if_splits)
qed

lemma Start_step_ok:
  assumes w: "win32_documented w" and ok: "system_ok Y mss xss ts"
    and run: "Start_step dbg w clk run noFree Y = Ok Y'"
  shows "\<exists>mss' xss' ts'. system_ok Y' mss' xss' ts' \<and> length mss' = length mss \<and>
    holdings mss' xss' ts' = holdings mss xss ts"
proof -
  obtain a Y1 where g: "GetMsgSync dbg w Y = Ok (a, Y1)"
    "(if a = NULL then Ok Y1 else dispatch dbg clk run noFree Y1 a) = Ok Y'"
    using run unfolding Start_step_def by fastforce
  have k: "kernel_ok (ker Y) mss xss ts" "length mss \<le> 64" using ok by (simp_all add: system_ok_def)
  obtain mss1 xss1 where 1: "kernel_ok (ker Y1) mss1 xss1 ts" "length mss1 = length mss" "objects Y1 = objects Y"
    "LogingObject (ker Y1) = LogingObject (ker Y)"
    "if a = NULL then holdings mss1 xss1 ts = holdings mss xss ts
     else owned (ker Y1) mss1 xss1 ts a \<and> add_mset a (holdings mss1 xss1 ts) = holdings mss xss ts"
    using GetMsgSync_ok [OF w k g(1)] by blast
  have Y1: "logger_ok (ker Y1)" "length mss1 \<le> 64" "\<forall>a F. objects Y1 a = Some F \<longrightarrow> NewMessage F = NULL"
    using ok 1(2,3,4) by (auto simp: system_ok_def logger_ok_def)
  show ?thesis
  proof (cases "a = NULL")
    case True
    then show ?thesis
      using g(2) 1 Y1 by (intro exI [of _ mss1] exI [of _ xss1] exI [of _ ts]) (simp add: system_ok_def)
  next
    case False
    then have "owned (ker Y1) mss1 xss1 ts a" "add_mset a (holdings mss1 xss1 ts) = holdings mss xss ts"
      "dispatch dbg clk run noFree Y1 a = Ok Y'" using 1(5) g(2) by simp_all
    then show ?thesis using dispatch_ok [OF 1(1) _ Y1] 1(2) by metis
  qed
qed

lemma Start_for_ok:
  assumes "win32_documented w" "system_ok Y mss xss ts" "Start_for dbg w clk run noFree n k Y = Ok Y'"
  shows "\<exists>mss' xss' ts'. system_ok Y' mss' xss' ts' \<and> length mss' = length mss \<and>
    holdings mss' xss' ts' = holdings mss xss ts"
  using assms(2,3)
proof (induction n arbitrary: Y mss xss ts k)
  case (Suc n)
  then obtain Y1 where 1: "Start_step dbg w (clk k) run noFree Y = Ok Y1"
    "Start_for dbg w clk run noFree n (Suc k) Y1 = Ok Y'" by auto
  obtain mss1 xss1 ts1 where 2: "system_ok Y1 mss1 xss1 ts1" "length mss1 = length mss"
    "holdings mss1 xss1 ts1 = holdings mss xss ts"
    using Start_step_ok [OF assms(1) Suc.prems(1) 1(1)] by blast
  then show ?case using Suc.IH [OF 2(1) 1(2)] by auto
qed auto

end

section \<open>Properties of the system\<close>

text \<open>A system with one automate of type 0 and one message for it, for the witnesses.\<close>

definition ex_heap_msg :: heap where
  "ex_heap_msg = [7 \<mapsto> \<lparr>BUFF_CODE = 0, BUFF_PREV = NULL, BUFF_NEXT = NULL, bytes = replicate 40 0\<rparr>]"

definition ex_sys :: "automate_array \<Rightarrow> uint32 \<Rightarrow> FSMSystem" where
  "ex_sys p n = \<lparr>Automates = [p] @ replicate 39 NullArr, NumberOfMbx = 1, NumberOfAutomates = 1,
     NumberOfObjects = [n] @ replicate 39 0, FreeKernelMemory = True, SystemWorking = True, serverId = 0,
     UseFreeAutomateList = [True] @ replicate 39 False, FreeAutomates = replicate 40 FSMList_new\<rparr>"

definition ex_system :: "automate_array \<Rightarrow> uint32 \<Rightarrow> (nat, unit) system" where
  "ex_system p n = \<lparr>objects = [5 \<mapsto> ex_raw], sys = ex_sys p n, ker = ex_kernel\<lparr>memory := ex_heap_msg\<rparr>\<rparr>"

definition ex_message_to :: "uint8 list \<Rightarrow> (nat, unit) system" where
  "ex_message_to number = (ex_system (Arr [5]) 1)\<lparr>ker := ex_kernel\<lparr>memory := [7 \<mapsto>
     \<lparr>BUFF_CODE = 0, BUFF_PREV = NULL, BUFF_NEXT = NULL, bytes = replicate 10 0 @ number @ replicate 26 0\<rparr>]\<rparr>\<rparr>"

lemmas ex_system_defs = ex_system_def ex_sys_def ex_heap_msg_def MAX_NUM_OF_AUTOMATES_TYPES_def

text \<open>C27: dispatch by header. With \<open>n\<close> objects of its automate type, a message is discarded when the
  type is greater than the number of automates, when
  \<open>n\<close> is 0, or when its object number is greater than \<open>n\<close>. When the number is below \<open>n\<close>, that object
  processes it. The number \<open>n\<close> itself, the first one beyond the objects, is let through by the
  guard and read behind the array of objects. A message for no particular object is processed by the
  one that has been idle longest, which leaves the list of idle objects; with none idle, \<^verbatim>\<open>FSMList::Get\<close>
  throws. No other object and no table changes.\<close>

theorem dispatch_by_header:
  assumes "read8 (memory (ker Y)) m (off MSG_TO_AUTOMATE) = Ok t"
    and "read32 (memory (ker Y)) m (off MSG_OBJECT_ID_TO) = Ok i"
    and "length (NumberOfObjects (sys Y)) = 40" "length (Automates (sys Y)) = 40"
    and "length (FreeAutomates (sys Y)) = 40" "unat t < 40"
  shows "(NumberOfAutomates (sys Y) < t \<or> NumberOfObjects (sys Y) ! unat t = 0 \<longrightarrow>
      dispatch dbg clk run noFree Y m = DiscardMsg dbg Y m) \<and>
    (i \<noteq> 0xffffffff \<and> NumberOfObjects (sys Y) ! unat t < i \<longrightarrow>
      dispatch dbg clk run noFree Y m = DiscardMsg dbg Y m) \<and>
    (\<forall>arr F. t \<le> NumberOfAutomates (sys Y) \<and> i < NumberOfObjects (sys Y) ! unat t \<and> Automates (sys Y) ! unat t = Arr arr \<and>
      length arr = unat (NumberOfObjects (sys Y) ! unat t) \<and> arr ! unat i \<noteq> NULL \<and> objects Y (arr ! unat i) = Some F \<longrightarrow>
      dispatch dbg clk run noFree Y m = andThen (Process dbg clk run F (ker Y) m) (\<lambda>(F', K').
        Ok (Y\<lparr>objects := (objects Y)(arr ! unat i \<mapsto> F'), ker := K'\<rparr>))) \<and>
    (\<forall>x xs. t \<le> NumberOfAutomates (sys Y) \<and> NumberOfObjects (sys Y) ! unat t \<noteq> 0 \<and> i = 0xffffffff \<and>
      fl_rep (FreeAutomates (sys Y) ! unat t) (objects Y) (x # xs) \<longrightarrow>
      (\<exists>L' objs' F. fl_rep L' objs' xs \<and> renexted (insert x (set xs)) (objects Y) objs' \<and> objs' x = Some F \<and>
        dispatch dbg clk run noFree Y m = andThen (Process dbg clk run F (ker Y) m) (\<lambda>(F', K').
          Ok (Y\<lparr>sys := (sys Y)\<lparr>FreeAutomates := (FreeAutomates (sys Y))[unat t := L']\<rparr>,
            objects := objs'(x \<mapsto> F'), ker := K'\<rparr>)))) \<and>
    (\<forall>arr. t \<le> NumberOfAutomates (sys Y) \<and> i = NumberOfObjects (sys Y) ! unat t \<and> i \<noteq> 0 \<and> i \<noteq> 0xffffffff \<and>
      Automates (sys Y) ! unat t = Arr arr \<and> length arr = unat i \<longrightarrow>
      dispatch dbg clk run noFree Y m = Fault MemFault) \<and>
    (t \<le> NumberOfAutomates (sys Y) \<and> NumberOfObjects (sys Y) ! unat t \<noteq> 0 \<and> i = 0xffffffff \<and>
      fl_rep (FreeAutomates (sys Y) ! unat t) (objects Y) [] \<longrightarrow>
      dispatch dbg clk run noFree Y m = Fault (Thrown 0x21030504))"
proof (intro conjI allI impI)
  show "dispatch dbg clk run noFree Y m = DiscardMsg dbg Y m"
    if "NumberOfAutomates (sys Y) < t \<or> NumberOfObjects (sys Y) ! unat t = 0"
    using that assms by (auto simp: dispatch_def Let_def)
  show "dispatch dbg clk run noFree Y m = DiscardMsg dbg Y m"
    if "i \<noteq> 0xffffffff \<and> NumberOfObjects (sys Y) ! unat t < i"
    using that assms by (auto simp: dispatch_def Let_def)
next
  fix arr F
  assume a: "t \<le> NumberOfAutomates (sys Y) \<and> i < NumberOfObjects (sys Y) ! unat t \<and> Automates (sys Y) ! unat t = Arr arr \<and>
      length arr = unat (NumberOfObjects (sys Y) ! unat t) \<and> arr ! unat i \<noteq> NULL \<and> objects Y (arr ! unat i) = Some F"
  have "unat (NumberOfObjects (sys Y) ! unat t) < 2 ^ LENGTH(32)" by (rule unsigned_less)
  then have "i \<noteq> 0xffffffff" "unat i < length arr" "NumberOfObjects (sys Y) ! unat t \<noteq> 0"
    using a by (auto simp: word_less_nat_alt)
  then show "dispatch dbg clk run noFree Y m = andThen (Process dbg clk run F (ker Y) m) (\<lambda>(F', K').
        Ok (Y\<lparr>objects := (objects Y)(arr ! unat i \<mapsto> F'), ker := K'\<rparr>))"
    using a assms by (auto simp: dispatch_def Let_def array_at_def call_def)
next
  fix x xs
  assume a: "t \<le> NumberOfAutomates (sys Y) \<and> NumberOfObjects (sys Y) ! unat t \<noteq> 0 \<and> i = 0xffffffff \<and>
      fl_rep (FreeAutomates (sys Y) ! unat t) (objects Y) (x # xs)"
  then obtain L' objs' where 1: "FL_Get (FreeAutomates (sys Y) ! unat t) (objects Y) = Ok (x, L', objs')"
    "fl_rep L' objs' xs" "renexted (insert x (set xs)) (objects Y) objs'"
    using idle.take_Cons by blast
  then obtain F where F: "x \<noteq> NULL" "objs' x = Some F" using FL_Get_inv by fastforce
  have "dispatch dbg clk run noFree Y m = andThen (Process dbg clk run F (ker Y) m) (\<lambda>(F', K').
          Ok (Y\<lparr>sys := (sys Y)\<lparr>FreeAutomates := (FreeAutomates (sys Y))[unat t := L']\<rparr>,
            objects := objs'(x \<mapsto> F'), ker := K'\<rparr>))"
    using a assms 1(1) F by (auto simp: dispatch_def Let_def call_def)
  then show "\<exists>L' objs' F. fl_rep L' objs' xs \<and> renexted (insert x (set xs)) (objects Y) objs' \<and> objs' x = Some F \<and>
        dispatch dbg clk run noFree Y m = andThen (Process dbg clk run F (ker Y) m) (\<lambda>(F', K').
          Ok (Y\<lparr>sys := (sys Y)\<lparr>FreeAutomates := (FreeAutomates (sys Y))[unat t := L']\<rparr>,
            objects := objs'(x \<mapsto> F'), ker := K'\<rparr>))"
    using 1(2,3) F(2) by blast
next
  fix arr
  assume "t \<le> NumberOfAutomates (sys Y) \<and> i = NumberOfObjects (sys Y) ! unat t \<and> i \<noteq> 0 \<and> i \<noteq> 0xffffffff \<and>
      Automates (sys Y) ! unat t = Arr arr \<and> length arr = unat i"
  then show "dispatch dbg clk run noFree Y m = Fault MemFault"
    using assms by (auto simp: dispatch_def Let_def array_at_def)
next
  assume a: "t \<le> NumberOfAutomates (sys Y) \<and> NumberOfObjects (sys Y) ! unat t \<noteq> 0 \<and> i = 0xffffffff \<and>
      fl_rep (FreeAutomates (sys Y) ! unat t) (objects Y) []"
  then have "FL_Get (FreeAutomates (sys Y) ! unat t) (objects Y) = Fault (Thrown 0x21030504)"
    by (simp add: fl_rep_def FL_Get_def FL_GetFromHead_def)
  then show "dispatch dbg clk run noFree Y m = Fault (Thrown 0x21030504)"
    using a assms by (auto simp: dispatch_def Let_def)
qed

theorem dispatch_by_header_witness:
  "\<forall>clk run noFree. dispatch True clk run noFree (ex_system (Arr [5]) 1) 7 =
     andThen (Process True clk run ex_raw (ker (ex_system (Arr [5]) 1)) 7) (\<lambda>(F', K').
       Ok ((ex_system (Arr [5]) 1)\<lparr>objects := (objects (ex_system (Arr [5]) 1))(5 \<mapsto> F'), ker := K'\<rparr>))"
proof -
  let ?Y = "ex_system (Arr [5]) 1"
  have "read8 (memory (ker ?Y)) 7 (off MSG_TO_AUTOMATE) = Ok 0" "read32 (memory (ker ?Y)) 7 (off MSG_OBJECT_ID_TO) = Ok 0"
    by (simp_all add: ex_system_defs read8_def read32_def get_bytes_def le32_def)
  from dispatch_by_header [OF this, where dbg = True] show ?thesis
    by (simp add: ex_system_defs)
qed

text \<open>The guards of dispatch are one too wide, and its answer to a lack of idle objects cannot
  run. A message for the object number that is just one too large reads behind the array of
  objects; a message for any idle object, when there is none, ends in the exception of
  \<^verbatim>\<open>FSMList::Get\<close>, so that \<^verbatim>\<open>NoFreeObjectProcedure\<close> is never called.\<close>

theorem dispatch_guards_too_wide:
  assumes "read8 (memory (ker Y)) m (off MSG_TO_AUTOMATE) = Ok t"
    and "t \<le> NumberOfAutomates (sys Y)" "unat t < length (NumberOfObjects (sys Y))"
    and "NumberOfObjects (sys Y) ! unat t = n" "n \<noteq> 0" "n \<noteq> 0xffffffff"
    and "array_at (sys Y) t = Ok arr" "length arr = unat n"
    and "unat t < length (FreeAutomates (sys Y))" "fl_rep (FreeAutomates (sys Y) ! unat t) (objects Y) []"
  shows "(read32 (memory (ker Y)) m (off MSG_OBJECT_ID_TO) = Ok n \<longrightarrow>
      dispatch dbg clk run noFree Y m = Fault MemFault) \<and>
    (read32 (memory (ker Y)) m (off MSG_OBJECT_ID_TO) = Ok 0xffffffff \<longrightarrow>
      dispatch dbg clk run noFree Y m = Fault (Thrown 0x21030504))"
proof -
  have "FL_Get (FreeAutomates (sys Y) ! unat t) (objects Y) = Fault (Thrown 0x21030504)"
    using assms(10) by (simp add: fl_rep_def FL_Get_def FL_GetFromHead_def)
  then show ?thesis using assms by (auto simp: dispatch_def Let_def)
qed

theorem dispatch_guards_too_wide_witness:
  "\<forall>clk run noFree. dispatch True clk run noFree (ex_message_to [1, 0, 0, 0]) 7 = Fault MemFault \<and>
    dispatch True clk run noFree (ex_message_to [255, 255, 255, 255]) 7 = Fault (Thrown 0x21030504)"
proof -
  have r: "read32 (memory (ker (ex_message_to [1, 0, 0, 0]))) 7 (off MSG_OBJECT_ID_TO) = Ok 1"
    "read32 (memory (ker (ex_message_to [255, 255, 255, 255]))) 7 (off MSG_OBJECT_ID_TO) = Ok 0xffffffff"
    by (simp_all add: ex_message_to_def ex_system_defs read32_def get_bytes_def le32_def nth_append)
  have t: "read8 (memory (ker (ex_message_to bs))) 7 (off MSG_TO_AUTOMATE) = Ok 0" for bs
    by (simp add: ex_message_to_def ex_system_defs read8_def get_bytes_def nth_append)
  have f: "fl_rep (FreeAutomates (sys (ex_message_to bs)) ! unat (0 :: uint8)) (objects (ex_message_to bs)) []" for bs
    by (simp add: ex_message_to_def ex_system_defs fl_rep_def FSMList_new_def)
  have "(read32 (memory (ker (ex_message_to bs))) 7 (off MSG_OBJECT_ID_TO) = Ok 1 \<longrightarrow>
      dispatch True clk run noFree (ex_message_to bs) 7 = Fault MemFault) \<and>
    (read32 (memory (ker (ex_message_to bs))) 7 (off MSG_OBJECT_ID_TO) = Ok 0xffffffff \<longrightarrow>
      dispatch True clk run noFree (ex_message_to bs) 7 = Fault (Thrown 0x21030504))" for clk run noFree bs
    by (rule dispatch_guards_too_wide [OF t _ _ _ _ _ _ _ _ f, where arr = "[5]"])
      (simp_all add: ex_message_to_def ex_system_defs array_at_def)
  then show ?thesis using r by blast
qed

text \<open>Adding objects. \<^verbatim>\<open>Add\<close> puts an object in the first free place of its type's array, gives
  it that place's number, initialises it, and (for a type with a list of idle objects) puts
  it at the end of that list; once every place is taken it throws.\<close>

theorem Add_takes_first_free_place:
  assumes "automateType < NumberOfAutomates (sys Y)" "unat automateType < 40"
    and "length (Automates (sys Y)) = 40" "length (NumberOfObjects (sys Y)) = 40"
    and "length (UseFreeAutomateList (sys Y)) = 40" "length (FreeAutomates (sys Y)) = 40"
    and "Automates (sys Y) ! unat automateType = Arr arr"
    and "length arr = unat (NumberOfObjects (sys Y) ! unat automateType)" "arr \<noteq> []"
    and "objects Y a = Some F" "a \<noteq> NULL" "a < 2 ^ 32"
    and "init (F\<lparr>ConnectionId := of_nat (length (takeWhile (\<lambda>x. x \<noteq> NULL) arr)), GroupId := serverId (sys Y)\<rparr>) (ker Y) = Ok (F', K')"
    and "UseFreeAutomateList (sys Y) ! unat automateType"
    and "fl_rep (FreeAutomates (sys Y) ! unat automateType) (objects Y) xs" "a \<notin> set xs"
  shows "(NULL \<notin> set arr \<longrightarrow> Add dbg init Y a automateType = Fault (Thrown 0x01010200)) \<and>
    (NULL \<in> set arr \<longrightarrow> (\<exists>L' objs'. fl_rep L' objs' (xs @ [a]) \<and>
       renexted (insert a (set xs)) ((objects Y)(a \<mapsto> F')) objs' \<and>
       Add dbg init Y a automateType = Ok (Y\<lparr>objects := objs', ker := K', sys := (sys Y)\<lparr>
         Automates := (Automates (sys Y))[unat automateType := Arr (arr[length (takeWhile (\<lambda>x. x \<noteq> NULL) arr) := a])],
         FreeAutomates := (FreeAutomates (sys Y))[unat automateType := L']\<rparr>\<rparr>)))"
proof -
  let ?t = "unat automateType" and ?k = "length (takeWhile (\<lambda>x. x \<noteq> NULL) arr)"
  have search: "first_null arr [k ..< length arr] =
      Ok (if NULL \<in> set (drop k arr) then Some (k + length (takeWhile (\<lambda>x. x \<noteq> NULL) (drop k arr))) else None)" for k
  proof (induction "length arr - k" arbitrary: k)
    case (Suc n)
    then have k: "k < length arr" by simp
    then have "drop k arr = arr ! k # drop (Suc k) arr" "[k ..< length arr] = k # [Suc k ..< length arr]"
      by (simp_all add: Cons_nth_drop_Suc upt_conv_Cons)
    then show ?case using Suc(1) [of "Suc k"] Suc(2) k by auto
  qed simp
  have n: "NumberOfObjects (sys Y) ! ?t \<noteq> 0" using assms(8,9) by auto
  have arr: "array_at (sys Y) automateType = Ok arr" using assms by (simp add: array_at_def)
  have f: "first_null arr [0 ..< unat (NumberOfObjects (sys Y) ! ?t)] = Ok (if NULL \<in> set arr then Some ?k else None)"
    using search [of 0] assms(8) by simp
  have nt: "\<not> NumberOfAutomates (sys Y) \<le> automateType" using assms(1) by simp
  have Add: "Add dbg init Y a automateType = (if NULL \<in> set arr
      then admit init (Y\<lparr>sys := set_array (sys Y) automateType (Arr (arr[?k := a]))\<rparr>) a automateType (of_nat ?k)
      else Fault (Thrown 0x01010200))"
    using assms(2-4,7) n arr f nt by (simp add: Add_def Let_def)
  show ?thesis
  proof (cases "NULL \<in> set arr")
    case True
    let ?objs = "(objects Y)(a \<mapsto> F')"
    have "fl_rep (FreeAutomates (sys Y) ! ?t) ?objs xs"
      by (rule idle.rep_local [OF assms(15)]) (use assms(16) in auto)
    moreover have "obj_alloc ?objs a" using assms(11,12) by (simp add: obj_alloc_def)
    ultimately obtain L' objs' where 1: "FL_Add (FreeAutomates (sys Y) ! ?t) ?objs a = Ok (L', objs')"
      "fl_rep L' objs' (xs @ [a])" "renexted (insert a (set xs)) ?objs objs'"
      using idle.put_ok [OF _ _ assms(16)] by blast
    have "admit init (Y\<lparr>sys := set_array (sys Y) automateType (Arr (arr[?k := a]))\<rparr>) a automateType (of_nat ?k) =
        Ok (Y\<lparr>objects := objs', ker := K', sys := (sys Y)\<lparr>
         Automates := (Automates (sys Y))[?t := Arr (arr[?k := a])],
         FreeAutomates := (FreeAutomates (sys Y))[?t := L']\<rparr>\<rparr>)"
      using assms(2,5,6,10,11,13,14) 1(1)
      by (simp add: admit_def set_array_def FreeFSM_def SetObjectId_def SetGroup_def Let_def)
    then show ?thesis using 1(2,3) Add True by auto
  qed (use Add in simp)
qed

theorem Add_takes_first_free_place_witness:
  "\<exists>L' objs'. fl_rep L' objs' [5] \<and>
     Add True (\<lambda>F K. Ok (F, K)) (ex_system (Arr [9, NULL]) 2) 5 0 = Ok ((ex_system (Arr [9, NULL]) 2)\<lparr>objects := objs',
       ker := ker (ex_system (Arr [9, NULL]) 2), sys := (sys (ex_system (Arr [9, NULL]) 2))\<lparr>
         Automates := (Automates (sys (ex_system (Arr [9, NULL]) 2)))[0 := Arr [9, 5]],
         FreeAutomates := (FreeAutomates (sys (ex_system (Arr [9, NULL]) 2)))[0 := L']\<rparr>\<rparr>)"
  using Add_takes_first_free_place [of 0 "ex_system (Arr [9, NULL]) 2" "[9, NULL]" 5 ex_raw "\<lambda>F K. Ok (F, K)"
      "ex_raw\<lparr>ConnectionId := 1, GroupId := 0\<rparr>" "ker (ex_system (Arr [9, NULL]) 2)" "[]" True]
  by (auto simp: ex_system_defs fl_rep_def FSMList_new_def)

text \<open>Removing. After all objects of a type were removed, its pointer is not null: the type
  cannot be added again (the debug build aborts) and removing it again frees its array a
  second time in the release build. Removing one object aborts the debug build for every
  type the system has, because the check is the wrong way round.\<close>

theorem removed_type_is_dangling:
  assumes "Remove dbg1 Y t = Ok Y1" "array_at (sys Y) t = Ok arr" "numOfObjects \<noteq> 0" "t < NumberOfAutomates (sys Y)"
  shows "Add_type True init Y1 a t numOfObjects useFreeList = Fault AssertFailed \<and>
    Remove False Y1 t = Fault MemFault \<and> Remove True Y1 t = Fault AssertFailed \<and>
    Remove_object True Y t i = Fault AssertFailed"
proof -
  have p: "unat t < length (Automates (sys Y))" "Automates (sys Y) ! unat t = Arr arr"
    using assms(2) by (auto simp: array_at_def rd_eq_Ok split: automate_array.splits)
  have nt: "\<not> NumberOfAutomates (sys Y) \<le> t" "t \<le> NumberOfAutomates (sys Y)" using assms(4) by simp_all
  have Y1: "Y1 = Y\<lparr>sys := (set_array (sys Y) t Freed)\<lparr>NumberOfObjects := (NumberOfObjects (sys Y))[unat t := 0]\<rparr>\<rparr>"
    "unat t < length (NumberOfObjects (sys Y))"
    using assms(1) p by (auto simp: Remove_def Let_def rd_eq_Ok split: if_splits)
  have "Add_type True init Y1 a t numOfObjects useFreeList = Fault AssertFailed"
    using assms(3) p nt Y1(2) by (simp add: Add_type_def Y1(1) set_array_def assertC_def)
  moreover have "Remove False Y1 t = Fault MemFault" "Remove True Y1 t = Fault AssertFailed"
    using p nt Y1(2) by (simp_all add: Remove_def Y1(1) set_array_def assertC_def array_at_def)
  moreover have "Remove_object True Y t i = Fault AssertFailed" using nt by (simp add: Remove_object_def assertC_def)
  ultimately show ?thesis by blast
qed

theorem removed_type_is_dangling_witness:
  "\<exists>Y1. Remove True (ex_system (Arr [5]) 1) 0 = Ok Y1 \<and>
    (\<forall>init. Add_type True init Y1 5 0 1 False = Fault AssertFailed) \<and> Remove False Y1 0 = Fault MemFault \<and>
    Remove True Y1 0 = Fault AssertFailed \<and> Remove_object True (ex_system (Arr [5]) 1) 0 0 = Fault AssertFailed"
proof -
  obtain Y1 where Y1: "Remove True (ex_system (Arr [5]) 1) 0 = Ok Y1"
    by (simp add: Remove_def ex_system_defs array_at_def set_array_def)
  from removed_type_is_dangling [OF Y1, of "[5]" 1] show ?thesis
    using Y1 by (intro exI [of _ Y1]) (simp add: ex_system_defs array_at_def)
qed

end
