(* ===== verification/Net_Platform.thy ===== *)
theory Net_Platform
  imports Prelude
begin

text \<open>
  What the distribution of the kernel takes from its platform: stream sockets, whose
  implementation is not in the repository and is a parameter (\<open>tcp\<close>), with what the code
  relies on as named hypotheses; and \<^verbatim>\<open>atol\<close> and \<^verbatim>\<open>strchr\<close> of the C library on the texts of
  a configuration file. A text is the list of its characters before the closing zero.
\<close>

section \<open>Stream sockets\<close>

text \<open>
  \<open>'s\<close> is the state of the network. \<open>recv\<close> gives \<^const>\<open>None\<close> where the call returns a negative
  number and the bytes received otherwise, none of them when the peer has closed.
\<close>

record 's tcp =
  socket :: "'s \<Rightarrow> int \<times> 's"
  connect :: "int \<Rightarrow> uint8 list \<Rightarrow> int \<Rightarrow> 's \<Rightarrow> bool \<times> 's"
  bind :: "int \<Rightarrow> int \<Rightarrow> 's \<Rightarrow> bool \<times> 's"
  setsockopt :: "int \<Rightarrow> 's \<Rightarrow> bool \<times> 's"
  listen :: "int \<Rightarrow> 's \<Rightarrow> bool \<times> 's"
  accept :: "int \<Rightarrow> 's \<Rightarrow> int \<times> 's"
  recv :: "int \<Rightarrow> nat \<Rightarrow> 's \<Rightarrow> uint8 list option \<times> 's"
  send :: "int \<Rightarrow> uint8 list \<Rightarrow> 's \<Rightarrow> int \<times> 's"
  closesocket :: "int \<Rightarrow> 's \<Rightarrow> 's"

text \<open>
  Documented behaviour: \<^verbatim>\<open>recv\<close> returns no more bytes than asked for, and while bytes are
  pending it returns a first part of them of at least one byte, of a size it chooses.
\<close>

definition delivers :: "'s tcp \<Rightarrow> int \<Rightarrow> ('s \<Rightarrow> uint8 list) \<Rightarrow> bool" where
  "delivers T sock pending \<longleftrightarrow> (\<forall>n s. 0 < n \<longrightarrow> pending s \<noteq> [] \<longrightarrow>
     (\<exists>k s'. 0 < k \<and> k \<le> n \<and> k \<le> length (pending s) \<and>
        recv T sock n s = (Some (take k (pending s)), s') \<and> pending s' = drop k (pending s)))"

text \<open>The same for a network whose parts have at most \<open>limit\<close> bytes.\<close>

definition delivers_parts :: "'s tcp \<Rightarrow> int \<Rightarrow> ('s \<Rightarrow> uint8 list) \<Rightarrow> nat \<Rightarrow> bool" where
  "delivers_parts T sock pending limit \<longleftrightarrow> (\<forall>n s. 0 < n \<longrightarrow> pending s \<noteq> [] \<longrightarrow>
     (\<exists>k s'. 0 < k \<and> k \<le> n \<and> k \<le> limit \<and> k \<le> length (pending s) \<and>
        recv T sock n s = (Some (take k (pending s)), s') \<and> pending s' = drop k (pending s)))"

lemma delivers_partsE:
  assumes "delivers_parts T sock pending limit" "0 < n" "pending s \<noteq> []"
  obtains k s' where "0 < k" "k \<le> n" "k \<le> limit" "k \<le> length (pending s)"
    "recv T sock n s = (Some (take k (pending s)), s')" "pending s' = drop k (pending s)"
  using assms unfolding delivers_parts_def by blast

lemma deliversE:
  assumes "delivers T sock pending" "0 < n" "pending s \<noteq> []"
  obtains k s' where "0 < k" "k \<le> n" "k \<le> length (pending s)"
    "recv T sock n s = (Some (take k (pending s)), s')" "pending s' = drop k (pending s)"
  using assms unfolding delivers_def by blast

text \<open>A network for examples: one stream of bytes, given out in parts of at most \<open>m\<close> bytes.\<close>

definition parts_net :: "nat \<Rightarrow> uint8 list tcp" where
  "parts_net m = \<lparr>socket = \<lambda>s. (1, s), connect = \<lambda>_ _ _ s. (True, s),
     bind = \<lambda>_ _ s. (True, s),
     setsockopt = \<lambda>_ s. (True, s), listen = \<lambda>_ s. (True, s), accept = \<lambda>_ s. (2, s),
     recv = \<lambda>_ n s. (Some (take (min n m) s), drop (min n m) s),
     send = \<lambda>_ bs s. (int (length bs), s @ bs), closesocket = \<lambda>_ s. s\<rparr>"

lemma parts_net_delivers_parts: "0 < m \<Longrightarrow> delivers_parts (parts_net m) sock (\<lambda>s. s) m"
  unfolding delivers_parts_def parts_net_def
  by (intro allI impI, rule_tac x = "min (min n m) (length s)" in exI) (auto simp: min_def)

lemma parts_net_delivers: "0 < m \<Longrightarrow> delivers (parts_net m) sock (\<lambda>s. s)"
  using parts_net_delivers_parts [of m sock] unfolding delivers_def delivers_parts_def by blast

text \<open>A stream that hands over as much as is asked for and there.\<close>

definition hands_over :: "'s tcp \<Rightarrow> int \<Rightarrow> ('s \<Rightarrow> uint8 list) \<Rightarrow> bool" where
  "hands_over T sock pending \<longleftrightarrow> (\<forall>n s. n \<le> length (pending s) \<longrightarrow>
     (\<exists>s'. recv T sock n s = (Some (take n (pending s)), s') \<and> pending s' = drop n (pending s)))"

definition greedy_net :: "uint8 list tcp" where
  "greedy_net = (parts_net 1)\<lparr>recv := \<lambda>_ n s. (Some (take n s), drop n s)\<rparr>"

lemma greedy_net_delivers: "delivers greedy_net sock (\<lambda>s. s)"
  unfolding delivers_def greedy_net_def
  by (intro allI impI, rule_tac x = "min n (length s)" in exI) (auto simp: min_def)

lemma greedy_net_hands_over: "hands_over greedy_net sock (\<lambda>s. s)"
  by (simp add: hands_over_def greedy_net_def)

section \<open>Texts\<close>

text \<open>The bytes of a string literal, without the closing zero.\<close>

definition str :: "string \<Rightarrow> uint8 list" where "str s = map of_char s"

definition COMMA :: uint8 where "COMMA = 0x2c"

text \<open>
  \<^verbatim>\<open>offset = strchr(start, ','); *offset = 0; offset++;\<close>: the field at \<^verbatim>\<open>start\<close> and the text
  after its comma. Without a comma the store goes through a null pointer.
\<close>

definition next_field :: "uint8 list \<Rightarrow> (uint8 list \<times> uint8 list) res" where
  "next_field t = (if COMMA \<in> set t
     then Ok (takeWhile (\<lambda>c. c \<noteq> COMMA) t, tl (dropWhile (\<lambda>c. c \<noteq> COMMA) t))
     else Fault MemFault)"

lemma next_field_ok [simp]: "COMMA \<notin> set f \<Longrightarrow> next_field (f @ COMMA # t) = Ok (f, t)"
proof -
  assume f: "COMMA \<notin> set f"
  then have "\<forall>c \<in> set f. c \<noteq> COMMA" by blast
  then show ?thesis by (simp add: next_field_def takeWhile_append dropWhile_append3)
qed

lemma next_field_shorter: "next_field t = Ok (f, r) \<Longrightarrow> length r < length t"
proof -
  assume a: "next_field t = Ok (f, r)"
  then have "dropWhile (\<lambda>c. c \<noteq> COMMA) t \<noteq> []" "r = tl (dropWhile (\<lambda>c. c \<noteq> COMMA) t)"
    by (auto simp: next_field_def split: if_splits)
  then have "length r < length (dropWhile (\<lambda>c. c \<noteq> COMMA) t)" by (cases "dropWhile (\<lambda>c. c \<noteq> COMMA) t") auto
  then show ?thesis using length_dropWhile_le [of "\<lambda>c. c \<noteq> COMMA" t] by linarith
qed

text \<open>
  \<^verbatim>\<open>atol\<close> and \<^verbatim>\<open>atoi\<close>: blanks, a sign, digits. The result has 32 bits and a sign; a number beyond
  them gives the nearest one, as Microsoft's library documents (the C standard leaves it open).
\<close>

definition long_of :: "int \<Rightarrow> int" where
  "long_of v = max (- (2 ^ 31)) (min (2 ^ 31 - 1) v)"

lemma long_of [simp]: "- (2 ^ 31) \<le> v \<Longrightarrow> v < 2 ^ 31 \<Longrightarrow> long_of v = v"
  by (simp add: long_of_def)

definition digit :: "uint8 \<Rightarrow> bool" where
  "digit c \<longleftrightarrow> 0x30 \<le> c \<and> c \<le> 0x39"

definition digits_value :: "uint8 list \<Rightarrow> nat" where
  "digits_value ds = foldl (\<lambda>v c. 10 * v + (unat c - 0x30)) 0 ds"

definition blank :: "uint8 \<Rightarrow> bool" where
  "blank c \<longleftrightarrow> c = 0x20 \<or> 0x09 \<le> c \<and> c \<le> 0x0d"

definition atol :: "uint8 list \<Rightarrow> int" where
  "atol t = long_of (case dropWhile blank t of
     [] \<Rightarrow> 0
   | c # r \<Rightarrow> if c = 0x2d then - int (digits_value (takeWhile digit r))
       else if c = 0x2b then int (digits_value (takeWhile digit r))
       else int (digits_value (takeWhile digit (c # r))))"

text \<open>How a number is written.\<close>

fun decimal :: "nat \<Rightarrow> uint8 list" where
  "decimal n = (if n < 10 then [of_nat (0x30 + n)] else decimal (n div 10) @ [of_nat (0x30 + n mod 10)])"

declare decimal.simps [simp del]

lemma digit_of_nat: "n < 10 \<Longrightarrow> digit (of_nat (0x30 + n)) \<and> unat (of_nat (0x30 + n) :: uint8) = 0x30 + n"
  using unat8 [of "0x30 + n"] by (auto simp: digit_def word_le_nat_alt)

lemma decimal_digits: "c \<in> set (decimal n) \<Longrightarrow> digit c"
proof (induction n rule: decimal.induct)
  case (1 n)
  then show ?case
    using digit_of_nat [of n] digit_of_nat [of "n mod 10"] by (subst (asm) decimal.simps) (auto split: if_splits)
qed

lemma digits_value_decimal [simp]: "digits_value (decimal n) = n"
proof (induction n rule: decimal.induct)
  case (1 n)
  have "digits_value (xs @ [x]) = 10 * digits_value xs + (unat x - 0x30)" for xs x
    by (simp add: digits_value_def)
  then show ?case
    using 1 digit_of_nat [of n] digit_of_nat [of "n mod 10"]
    by (subst decimal.simps) (auto simp: digits_value_def simp del: of_nat_add)
qed

lemma decimal_not_Nil [simp]: "decimal n \<noteq> []"
  by (subst decimal.simps) simp

lemma digit_not: "digit c \<Longrightarrow> \<not> blank c \<and> c \<noteq> 0x2d \<and> c \<noteq> 0x2b \<and> c \<noteq> COMMA \<and> c \<noteq> 0x23 \<and> c \<noteq> 0x55"
  by (auto simp: digit_def blank_def COMMA_def word_le_nat_alt)

lemma atol_range: "- (2 ^ 31) \<le> atol t" "atol t < 2 ^ 31"
  by (simp_all add: atol_def long_of_def)

lemma atol_decimal [simp]: "n < 2 ^ 31 \<Longrightarrow> atol (decimal n) = int n"
proof -
  assume n: "n < 2 ^ 31"
  obtain c r where d: "decimal n = c # r" by (cases "decimal n") auto
  then have "digit c" using decimal_digits [of c n] by simp
  then have c: "\<not> blank c" "c \<noteq> 0x2d" "c \<noteq> 0x2b" using digit_not by blast+
  have "takeWhile digit (c # r) = c # r"
    using decimal_digits [of _ n] d by (auto simp: takeWhile_eq_all_conv)
  then show ?thesis using c d n digits_value_decimal [of n] by (simp add: atol_def)
qed

lemma decimal_no_comma: "COMMA \<notin> set (decimal n)"
  using decimal_digits digit_not by blast

end
