(* ===== verification/C_Strings.thy ===== *)
theory C_Strings
  imports Net_Platform Msg_Interface
begin

text \<open>
  Strings of the C library in arrays of characters: \<^verbatim>\<open>strlen\<close>, \<^verbatim>\<open>strcpy\<close> and \<^verbatim>\<open>strcmp\<close>, and the text
  an array holds.
\<close>

section \<open>The functions\<close>

text \<open>The string an array holds is what lies before its first zero; without one, reading it is a fault.\<close>

definition cstr :: "uint8 list \<Rightarrow> uint8 list" where
  "cstr bs = takeWhile (\<lambda>b. b \<noteq> 0) bs"

fun c_strlen :: "uint8 list \<Rightarrow> nat res" where
  "c_strlen [] = Fault MemFault"
| "c_strlen (b # bs) = (if b = 0 then Ok 0 else andThen (c_strlen bs) (\<lambda>n. Ok (Suc n)))"

definition c_strcpy :: "uint8 list \<Rightarrow> uint8 list \<Rightarrow> uint8 list res" where
  "c_strcpy dst src = andThen (c_strlen src) (\<lambda>n. memcpy dst 0 src (Suc n))"

fun c_streq :: "uint8 list \<Rightarrow> uint8 list \<Rightarrow> bool res" where
  "c_streq (a # as) (b # bs) = (if a \<noteq> b then Ok False else if a = 0 then Ok True else c_streq as bs)"
| "c_streq _ _ = Fault MemFault"

section \<open>The text in an array\<close>

text \<open>\<open>bs\<close> starts with the string \<open>s\<close> and its terminating zero.\<close>

definition string_in :: "uint8 list \<Rightarrow> uint8 list \<Rightarrow> bool" where
  "string_in bs s \<longleftrightarrow> 0 \<notin> set s \<and> (\<exists>rest. bs = s @ 0 # rest)"

lemma string_in_append [simp]: "0 \<notin> set s \<Longrightarrow> string_in (s @ 0 # rest) s"
  by (simp add: string_in_def)

lemma string_inE:
  assumes "string_in bs s"
  obtains rest where "bs = s @ 0 # rest" "0 \<notin> set s"
  using assms by (auto simp: string_in_def)

lemma cstr_append: "0 \<notin> set s \<Longrightarrow> cstr (s @ 0 # rest) = s"
  unfolding cstr_def by (subst takeWhile_append2) auto

lemma cstr_string_in: "string_in bs s \<Longrightarrow> cstr bs = s"
  by (auto simp: string_in_def cstr_append)

lemma string_in_cstr: "0 \<in> set bs \<Longrightarrow> string_in bs (cstr bs)"
proof (induction bs)
  case (Cons b bs)
  then show ?case by (cases "b = 0") (auto simp: string_in_def cstr_def dest: set_takeWhileD)
qed simp

lemma c_strlen_ok: "string_in bs s \<Longrightarrow> c_strlen bs = Ok (length s)"
proof -
  have "0 \<notin> set s \<Longrightarrow> c_strlen (s @ 0 # rest) = Ok (length s)" for rest by (induction s) auto
  then show "string_in bs s \<Longrightarrow> c_strlen bs = Ok (length s)" by (auto simp: string_in_def)
qed

lemma c_streq_ok:
  assumes "string_in as s" "string_in bs t"
  shows "c_streq as bs = Ok (s = t)"
proof -
  have "0 \<notin> set s \<Longrightarrow> 0 \<notin> set t \<Longrightarrow> c_streq (s @ 0 # xs) (t @ 0 # ys) = Ok (s = t)" for xs ys
  proof (induction s arbitrary: t)
    case Nil
    then show ?case by (cases t) auto
  next
    case (Cons c s)
    then show ?case by (cases t) auto
  qed
  then show ?thesis using assms by (auto simp: string_in_def)
qed

lemma c_strlen_less: "c_strlen bs = Ok n \<Longrightarrow> n < length bs"
  by (induction bs arbitrary: n) (auto split: if_splits)

lemma c_strlen_zero: "j < length tmp \<Longrightarrow> tmp ! j = 0 \<Longrightarrow> \<exists>n. c_strlen tmp = Ok n \<and> n \<le> j"
proof (induction tmp arbitrary: j)
  case (Cons b tmp)
  then show ?case by (cases j) fastforce+
qed simp

lemma c_strlen_zeros: "0 < n \<Longrightarrow> c_strlen (replicate n 0) = Ok 0"
  by (cases n) simp_all

lemma c_strlen_in: "c_strlen tmp = Ok n \<Longrightarrow> 0 \<in> set tmp"
  by (induction tmp arbitrary: n) (auto split: if_splits)

end
