(* ===== verification/Ch_Auto.thy ===== *)
theory Ch_Auto
  imports Fsm_System C_Strings
begin

text \<open>
  \<^verbatim>\<open>POP3ClientCppUnit/ChAuto.cpp\<close>: the automate that is the publish/subscribe server. Its
  globals are the record \<open>Ch\<close>; the winsock calls are the argument \<open>ws\<close>, which acts on the
  state \<open>net\<close> of the network; the contents of uninitialised local arrays are the argument
  \<open>J\<close>, so that nothing is assumed about them. They may differ from call to call of a handler: \<open>J\<close>
  depends on the state of the network, which has any type and may count the calls. An access outside an
  array is a fault, and so is the printing of an array in which no zero is found.
\<close>

section \<open>Constants and globals\<close>

definition CH_AUTOMATE_TYPE_ID :: uint8 where "CH_AUTOMATE_TYPE_ID = 0x00"
definition CH_AUTOMATE_MBX_ID :: uint8 where "CH_AUTOMATE_MBX_ID = 0x00"

definition MSG_Channel_Wait_Cl_Message :: uint16 where "MSG_Channel_Wait_Cl_Message = 0x0001"
definition MSG_Channel_Connection_Failed :: uint16 where "MSG_Channel_Connection_Failed = 0x0002"
definition MSG_ACK_Notification :: uint16 where "MSG_ACK_Notification = 0x0016"
definition MSG_Stay_Connected :: uint16 where "MSG_Stay_Connected = 0x0017"
definition MSG_Share_Data_on_Topic :: uint16 where "MSG_Share_Data_on_Topic = 0x0018"
definition MSG_Store_Data_on_Topic :: uint16 where "MSG_Store_Data_on_Topic = 0x0019"
definition MSG_Share_All_Topics :: uint16 where "MSG_Share_All_Topics = 0x0020"

definition FSM_Ch_Idle :: uint8 where "FSM_Ch_Idle = 0"
definition FSM_Ch_Connected :: uint8 where "FSM_Ch_Connected = 1"
definition FSM_Ch_Share_Data_on_Topic :: uint8 where "FSM_Ch_Share_Data_on_Topic = 2"
definition FSM_Ch_Store_Data :: uint8 where "FSM_Ch_Store_Data = 3"
definition FSM_Ch_Share_All_Topics_State :: uint8 where "FSM_Ch_Share_All_Topics_State = 4"
definition FSM_Ch_Publish_ACK_State :: uint8 where "FSM_Ch_Publish_ACK_State = 5"

lemmas ch_codes = MSG_Channel_Wait_Cl_Message_def MSG_Channel_Connection_Failed_def MSG_ACK_Notification_def
  MSG_Stay_Connected_def MSG_Share_Data_on_Topic_def MSG_Store_Data_on_Topic_def MSG_Share_All_Topics_def

lemmas ch_states = FSM_Ch_Idle_def FSM_Ch_Connected_def FSM_Ch_Share_Data_on_Topic_def FSM_Ch_Store_Data_def
  FSM_Ch_Share_All_Topics_State_def FSM_Ch_Publish_ACK_State_def

definition BUFFER_SIZE :: nat where "BUFFER_SIZE = 1024"
definition TOPIC_BUFFER_SIZE :: nat where "TOPIC_BUFFER_SIZE = 50"
definition FIRST_LETTER_OF_TOPIC :: nat where "FIRST_LETTER_OF_TOPIC = 4"
definition PUBLISHED_DATA :: nat where "PUBLISHED_DATA = 150"
definition NUMBER_OF_TOPICS :: nat where "NUMBER_OF_TOPICS = 20"
definition MAX_PUBLISHERS :: nat where "MAX_PUBLISHERS = 10"

lemmas ch_sizes = BUFFER_SIZE_def TOPIC_BUFFER_SIZE_def FIRST_LETTER_OF_TOPIC_def PUBLISHED_DATA_def
  NUMBER_OF_TOPICS_def MAX_PUBLISHERS_def

definition SPACE :: uint8 where "SPACE = 0x20"
definition COLON :: uint8 where "COLON = 0x3a"
definition BACKQUOTE :: uint8 where "BACKQUOTE = 0x60"
definition NEWLINE :: uint8 where "NEWLINE = 0x0a"

lemmas ch_chars = SPACE_def COLON_def BACKQUOTE_def NEWLINE_def

text \<open>A static character array with a string in it.\<close>

definition char_array :: "nat \<Rightarrow> string \<Rightarrow> uint8 list" where
  "char_array n s = str s @ replicate (n - length s) 0"

definition ackMessage :: "uint8 list" where
  "ackMessage = char_array PUBLISHED_DATA ''Topic added successfully!`''"

definition topic1 :: "uint8 list" where
  "topic1 = char_array PUBLISHED_DATA ''WEATHER: Belgrace 8C  New York 3C  London 9C  Tokyo 5C  Moscow -9C`''"

definition topic2 :: "uint8 list" where
  "topic2 = char_array PUBLISHED_DATA ''FOOTBALL: France 4:2 Croatia  Belgium 2:0 England  Germany 2:1 Sweden  Japan 2:2 Senegal`''"

definition topic3 :: "uint8 list" where
  "topic3 = char_array PUBLISHED_DATA ''INTEL_CPU: i3=180$  i5=290$  i7=430$  i9=1480$`''"

definition topic4 :: "uint8 list" where
  "topic4 = char_array PUBLISHED_DATA ''COLLEGES_IN_AMERICA: Stanford  Harvard  Princeton  Yale  Duke`''"

text \<open>\<^verbatim>\<open>allServerData\<close> points to the four topic arrays and to rows of \<^verbatim>\<open>tmpOnCurrentTopicData\<close>.\<close>

datatype topic_ptr = Topic nat | Tmp nat

record 'n Ch =
  dataBuffer :: "uint8 list"
  clientAddress :: "uint8 list"
  publisherCounter :: nat
  alreadyexists :: bool
  index :: nat
  topicArrays :: "uint8 list list"
  allServerData :: "topic_ptr option list"
  tmpOnCurrentTopicData :: "uint8 list list"
  currentTopic :: "uint8 list"
  net :: 'n

definition Ch_globals :: "'n \<Rightarrow> 'n Ch" where
  "Ch_globals n = \<lparr>dataBuffer = replicate BUFFER_SIZE 0, clientAddress = replicate 28 0, publisherCounter = 4,
     alreadyexists = False, index = 0, topicArrays = [topic1, topic2, topic3, topic4],
     allServerData = replicate NUMBER_OF_TOPICS None,
     tmpOnCurrentTopicData = replicate MAX_PUBLISHERS (replicate PUBLISHED_DATA 0),
     currentTopic = replicate TOPIC_BUFFER_SIZE 0, net = n\<rparr>"

text \<open>
  The winsock calls. \<open>recvfrom\<close> gets the size of the buffer and answers whether it succeeded,
  the bytes it stored and the address of the sender, or never (\<^term>\<open>None\<close>); the others
  answer whether they succeeded.
\<close>

record 'n winsock =
  WSAStartup :: "'n \<Rightarrow> bool \<times> 'n"
  WSACleanup :: "'n \<Rightarrow> 'n"
  socket :: "'n \<Rightarrow> bool \<times> 'n"
  setsockopt :: "'n \<Rightarrow> bool \<times> 'n"
  bind_socket :: "'n \<Rightarrow> bool \<times> 'n"
  closesocket :: "'n \<Rightarrow> 'n"
  recvfrom :: "'n \<Rightarrow> nat \<Rightarrow> (bool \<times> uint8 list \<times> uint8 list \<times> 'n) option"
  sendto :: "'n \<Rightarrow> uint8 list \<Rightarrow> uint8 list \<Rightarrow> bool \<times> 'n"

text \<open>The documented behaviour relied on: no more bytes are stored than the buffer holds.\<close>

definition winsock_documented :: "'n winsock \<Rightarrow> bool" where
  "winsock_documented ws \<longleftrightarrow> (\<forall>n size ok bs a n'. recvfrom ws n size = Some (ok, bs, a, n') \<longrightarrow> length bs \<le> size)"

section \<open>Copying loops\<close>

text \<open>\<^verbatim>\<open>while(src[i] != c) dst[j++] = src[i++];\<close>\<close>

function copy_until :: "uint8 \<Rightarrow> uint8 list \<Rightarrow> nat \<Rightarrow> uint8 list \<Rightarrow> nat \<Rightarrow> (nat \<times> uint8 list \<times> nat) res" where
  "copy_until c src i dst j =
     (if i < length src
      then if src ! i = c then Ok (i, dst, j)
           else andThen (wr dst j (src ! i)) (\<lambda>dst. copy_until c src (Suc i) dst (Suc j))
      else Fault MemFault)"
  by pat_completeness auto
termination by (relation "measure (\<lambda>(c, src, i, dst, j). length src - i)") auto

declare copy_until.simps [simp del]

text \<open>\<^verbatim>\<open>for(k = 0; k < n; k++) dst[k] = src[i++];\<close> from index \<open>k\<close> on, with \<open>n\<close> rounds left.\<close>

fun copy_n :: "nat \<Rightarrow> uint8 list \<Rightarrow> nat \<Rightarrow> uint8 list \<Rightarrow> nat \<Rightarrow> uint8 list res" where
  "copy_n 0 src i dst k = Ok dst"
| "copy_n (Suc n) src i dst k =
     andThen (rd src i) (\<lambda>c. andThen (wr dst k c) (\<lambda>dst. copy_n n src (Suc i) dst (Suc k)))"

section \<open>Storing what a client sent\<close>

datatype local_array = DataFromClient | PublishMessageTmp | TopicTmp | OnTopicData | AllTopicBuffer | AckMessageTmp

type_synonym junk = "local_array \<Rightarrow> uint8 list"

type_synonym 'n stack = "'n \<Rightarrow> junk"

definition junk_ok :: "junk \<Rightarrow> bool" where
  "junk_ok J \<longleftrightarrow> (\<forall>v. length (J v) = (if v = TopicTmp then TOPIC_BUFFER_SIZE else BUFFER_SIZE))"

definition getTopic :: "uint8 list \<Rightarrow> uint8 list \<Rightarrow> uint8 list res" where
  "getTopic serverData currentTopicTmp =
     andThen (copy_until COLON serverData 0 currentTopicTmp 0) (\<lambda>(_, tmp, j). wr tmp j 0)"

definition row_at :: "'n Ch \<Rightarrow> topic_ptr \<Rightarrow> uint8 list res" where
  "row_at G p = (case p of Topic i \<Rightarrow> rd (topicArrays G) i | Tmp i \<Rightarrow> rd (tmpOnCurrentTopicData G) i)"

definition set_row :: "'n Ch \<Rightarrow> topic_ptr \<Rightarrow> uint8 list \<Rightarrow> 'n Ch" where
  "set_row G p row = (case p of
     Topic i \<Rightarrow> G\<lparr>topicArrays := (topicArrays G)[i := row]\<rparr>
   | Tmp i \<Rightarrow> G\<lparr>tmpOnCurrentTopicData := (tmpOnCurrentTopicData G)[i := row]\<rparr>)"

definition server_row :: "'n Ch \<Rightarrow> nat \<Rightarrow> uint8 list res" where
  "server_row G j = andThen (rd (allServerData G) j) (\<lambda>p. case p of None \<Rightarrow> Fault MemFault | Some p \<Rightarrow> row_at G p)"

fun find_topic :: "junk \<Rightarrow> 'n Ch \<Rightarrow> nat list \<Rightarrow> nat option res" where
  "find_topic J G [] = Ok None"
| "find_topic J G (j # js) =
     andThen (server_row G j) (\<lambda>row.
     andThen (getTopic row (J TopicTmp)) (\<lambda>topicTmp.
     andThen (c_streq (currentTopic G) topicTmp) (\<lambda>same.
     if same then Ok (Some j) else find_topic J G js)))"

fun copy_upper :: "uint8 list \<Rightarrow> uint8 list \<Rightarrow> nat \<Rightarrow> (uint8 list \<times> nat) res" where
  "copy_upper [] row t = Ok (row, t)"
| "copy_upper (c # cs) row t =
     (if c < 0x41 \<or> 0x5a < c then Ok (row, t)
      else andThen (wr row t c) (\<lambda>row. copy_upper cs row (Suc t)))"

text \<open>The row for the topic: its capital letters, a colon and a space, the message.\<close>

definition new_row :: "uint8 list \<Rightarrow> uint8 list \<Rightarrow> uint8 list \<Rightarrow> uint8 list res" where
  "new_row topic message row =
     andThen (c_strlen topic) (\<lambda>_.
     andThen (copy_upper (cstr topic) row 0) (\<lambda>(row, t).
     andThen (wr row t COLON) (\<lambda>row.
     andThen (wr row (Suc t) SPACE) (\<lambda>row.
     andThen (copy_until 0 message 0 row (Suc (Suc t))) (\<lambda>(_, row, t).
     wr row t 0)))))"

definition append_row :: "uint8 list \<Rightarrow> uint8 list \<Rightarrow> uint8 list res" where
  "append_row message row =
     andThen (c_strlen message) (\<lambda>dataSize.
     andThen (c_strlen row) (\<lambda>existingSize.
     andThen (if existingSize = 0 then Fault MemFault else wr row (existingSize - 1) SPACE) (\<lambda>row.
     andThen (copy_n dataSize message 0 row existingSize) (\<lambda>row.
     wr row (existingSize + dataSize) BACKQUOTE))))"

text \<open>A known topic is remembered in two globals; the row that was built becomes a topic, or its
  message goes to the end of the row of the known one.\<close>

definition note_topic :: "nat option \<Rightarrow> 'n Ch \<Rightarrow> 'n Ch" where
  "note_topic known G = (case known of None \<Rightarrow> G | Some j \<Rightarrow> G\<lparr>alreadyexists := True, index := j\<rparr>)"

definition enter_topic :: "uint8 list \<Rightarrow> 'n Ch \<Rightarrow> 'n Ch res" where
  "enter_topic message G =
     (if \<not> alreadyexists G
      then andThen (wr (allServerData G) (publisherCounter G) (Some (Tmp (publisherCounter G)))) (\<lambda>as.
           Ok (G\<lparr>allServerData := as, publisherCounter := publisherCounter G + 1\<rparr>))
      else andThen (rd (allServerData G) (index G)) (\<lambda>p. case p of None \<Rightarrow> Fault MemFault | Some p \<Rightarrow>
           andThen (row_at G p) (\<lambda>row.
           andThen (append_row message row) (\<lambda>row.
           Ok ((set_row G p row)\<lparr>alreadyexists := False\<rparr>)))))"

definition publish :: "junk \<Rightarrow> uint8 list \<Rightarrow> 'n Ch \<Rightarrow> 'n Ch res" where
  "publish J d G =
     andThen (copy_until SPACE d FIRST_LETTER_OF_TOPIC (currentTopic G) 0) (\<lambda>(i, ct, j).
     andThen (wr ct j 0) (\<lambda>ct.
     let G = G\<lparr>currentTopic := ct\<rparr> in
     andThen (find_topic J G [0 ..< publisherCounter G]) (\<lambda>known.
     let G = note_topic known G in
     andThen (c_strlen d) (\<lambda>n.
     andThen (copy_n n d (Suc i) (J PublishMessageTmp) 0) (\<lambda>message.
     andThen (rd (tmpOnCurrentTopicData G) (publisherCounter G)) (\<lambda>row.
     andThen (new_row ct message row) (\<lambda>row.
     enter_topic message (set_row G (Tmp (publisherCounter G)) row))))))))"

definition subscribe :: "uint8 list \<Rightarrow> 'n Ch \<Rightarrow> 'n Ch res" where
  "subscribe d G =
     andThen (copy_until 0 d FIRST_LETTER_OF_TOPIC (currentTopic G) 0) (\<lambda>(i, ct, j).
     andThen (wr ct j 0) (\<lambda>ct. Ok (G\<lparr>currentTopic := ct\<rparr>)))"

text \<open>The work of \<^verbatim>\<open>FSM_Ch_Store_Data_SubPub\<close>, and the code of the message it then sends, if any.\<close>

definition store_data :: "junk \<Rightarrow> 'n Ch \<Rightarrow> (uint16 option \<times> 'n Ch) res" where
  "store_data J G =
     andThen (c_strcpy (J DataFromClient) (dataBuffer G)) (\<lambda>d.
     if take 3 d = str ''PUB'' then andThen (publish J d G) (\<lambda>G. Ok (Some MSG_ACK_Notification, G))
     else if take 3 d = str ''SUB'' then andThen (subscribe d G) (\<lambda>G. Ok (Some MSG_Share_Data_on_Topic, G))
     else if take 4 d = str ''LIST'' then Ok (Some MSG_Share_All_Topics, G)
     else Ok (None, G))"

section \<open>Answering\<close>

text \<open>The loop over the characters of one row, and the one over the rows; \<open>n\<close> counts what was copied.\<close>

record scan =
  onTopicData :: "uint8 list"
  scan_n :: nat
  scan_k :: nat
  eq :: bool
  finished :: bool
  found :: bool

definition scan_copy :: "scan \<Rightarrow> uint8 \<Rightarrow> scan res" where
  "scan_copy s c =
     (if eq s
      then andThen (wr (onTopicData s) (scan_n s) c) (\<lambda>buf.
           if c = BACKQUOTE then Ok (s\<lparr>onTopicData := buf, found := True\<rparr>)
           else Ok (s\<lparr>onTopicData := buf, scan_n := Suc (scan_n s)\<rparr>))
      else Ok s)"

fun scan_row :: "uint8 list \<Rightarrow> uint8 list \<Rightarrow> scan \<Rightarrow> scan res" where
  "scan_row topic [] s = Ok s"
| "scan_row topic (c # cs) s =
     (if c \<noteq> COLON \<and> \<not> finished s
      then andThen (rd topic (scan_k s)) (\<lambda>t.
           if c \<noteq> t then Ok (s\<lparr>eq := False, scan_k := 0\<rparr>)
           else andThen (scan_copy (s\<lparr>scan_k := Suc (scan_k s), eq := True\<rparr>) c) (\<lambda>s.
                if found s then Ok s else scan_row topic cs s))
      else andThen (scan_copy (if c = COLON then s\<lparr>eq := True, finished := True\<rparr> else s) c) (\<lambda>s.
           if found s then Ok s else scan_row topic cs s))"

fun scan_rows :: "'n Ch \<Rightarrow> nat list \<Rightarrow> scan \<Rightarrow> scan res" where
  "scan_rows G [] s = Ok s"
| "scan_rows G (i # is) s =
     (if found s then Ok s
      else andThen (server_row G i) (\<lambda>row.
           andThen (c_strlen row) (\<lambda>_.
           andThen (scan_row (currentTopic G) (cstr row) s) (\<lambda>s. scan_rows G is s))))"

definition topic_data :: "junk \<Rightarrow> 'n Ch \<Rightarrow> uint8 list res" where
  "topic_data J G =
     andThen (scan_rows G [0 ..< publisherCounter G] \<lparr>onTopicData = J OnTopicData, scan_n = 0, scan_k = 0,
        eq = True, finished = False, found = False\<rparr>) (\<lambda>s.
     andThen (wr (onTopicData s) (scan_n s) BACKQUOTE) (\<lambda>buf.
     wr buf (Suc (scan_n s)) 0))"

fun copy_name :: "uint8 list \<Rightarrow> uint8 list \<Rightarrow> nat \<Rightarrow> (uint8 list \<times> nat) res" where
  "copy_name [] buf k = Ok (buf, k)"
| "copy_name (c # cs) buf k =
     (if c = COLON then andThen (wr buf k NEWLINE) (\<lambda>buf. Ok (buf, Suc k))
      else andThen (wr buf k c) (\<lambda>buf. copy_name cs buf (Suc k)))"

fun copy_names :: "'n Ch \<Rightarrow> nat list \<Rightarrow> uint8 list \<Rightarrow> nat \<Rightarrow> (uint8 list \<times> nat) res" where
  "copy_names G [] buf k = Ok (buf, k)"
| "copy_names G (i # is) buf k =
     andThen (server_row G i) (\<lambda>row.
     andThen (c_strlen row) (\<lambda>_.
     andThen (copy_name (cstr row) buf k) (\<lambda>(buf, k). copy_names G is buf k)))"

definition all_topics :: "junk \<Rightarrow> 'n Ch \<Rightarrow> uint8 list res" where
  "all_topics J G =
     andThen (copy_names G [0 ..< publisherCounter G] (J AllTopicBuffer) 0) (\<lambda>(buf, k).
     andThen (wr buf k BACKQUOTE) (\<lambda>buf.
     wr buf (Suc k) 0))"

text \<open>The copy of the acknowledgement, whose length test reads the uninitialised target.\<close>

function ack_loop :: "nat \<Rightarrow> uint8 list \<Rightarrow> (nat \<times> uint8 list) res" where
  "ack_loop i tmp =
     andThen (c_strlen tmp) (\<lambda>n.
     if i < n then andThen (rd ackMessage i) (\<lambda>c. ack_loop (Suc i) (tmp[i := c])) else Ok (i, tmp))"
  by pat_completeness auto
termination
  by (relation "measure (\<lambda>(i, tmp). length tmp - i)") (auto dest!: c_strlen_less)

declare ack_loop.simps [simp del]

definition ack_copy :: "junk \<Rightarrow> uint8 list res" where
  "ack_copy J = andThen (ack_loop 0 (J AckMessageTmp)) (\<lambda>(i, tmp). wr tmp (Suc i) 0)"

section \<open>The handlers\<close>

datatype ch_proc = Idle_Cl_Connected | Idle_Cl_Failed | Store_Data_SubPub | Share_Topic_Data | Share_All_Topics_proc | Publish_ACK

type_synonym 'n handler = "ch_proc FiniteStateMachine \<Rightarrow> 'n Ch kernel \<Rightarrow> (ch_proc FiniteStateMachine \<times> 'n Ch kernel) res"

text \<open>The four calls that post a message to this automate.\<close>

definition post_self :: "bool \<Rightarrow> win32 \<Rightarrow> uint16 \<Rightarrow> 'n handler" where
  "post_self dbg w code F K = post_new dbg w F K code CH_AUTOMATE_TYPE_ID 0 CH_AUTOMATE_MBX_ID"

definition FSM_Ch_Idle_Cl_Connected :: "bool \<Rightarrow> win32 \<Rightarrow> 'n winsock \<Rightarrow> 'n handler" where
  "FSM_Ch_Idle_Cl_Connected dbg w ws F K =
     (let F = SetState F FSM_Ch_Connected; G = app K in
      case recvfrom ws (net G) BUFFER_SIZE of
        None \<Rightarrow> None
      | Some (_, bs, a, n) \<Rightarrow>
          andThen (memcpy (replicate BUFFER_SIZE 0) 0 bs (length bs)) (\<lambda>buf.
          andThen (c_strlen buf) (\<lambda>_.
          post_self dbg w MSG_Store_Data_on_Topic F
            (K\<lparr>app := G\<lparr>dataBuffer := buf, clientAddress := a @ replicate (28 - length a) 0, net := n\<rparr>\<rparr>))))"

definition FSM_Ch_Store_Data_SubPub :: "bool \<Rightarrow> win32 \<Rightarrow> 'n stack \<Rightarrow> 'n handler" where
  "FSM_Ch_Store_Data_SubPub dbg w J F K =
     (let F = SetState F FSM_Ch_Store_Data in
      andThen (store_data (J (net (app K))) (app K)) (\<lambda>(code, G).
      case code of None \<Rightarrow> Ok (F, K\<lparr>app := G\<rparr>) | Some c \<Rightarrow> post_self dbg w c F (K\<lparr>app := G\<rparr>)))"

text \<open>The end of the three answers: send, then wait for the next client, unless sending failed.\<close>

definition answer :: "bool \<Rightarrow> win32 \<Rightarrow> 'n winsock \<Rightarrow> uint8 list \<Rightarrow> 'n handler" where
  "answer dbg w ws text F K =
     andThen (c_strlen text) (\<lambda>n.
     let G = app K; (ok, net1) = sendto ws (net G) (take n text) (clientAddress G) in
     if \<not> ok then Ok (F, K\<lparr>app := G\<lparr>net := WSACleanup ws (closesocket ws net1)\<rparr>\<rparr>)
     else post_self dbg w MSG_Stay_Connected F (K\<lparr>app := G\<lparr>net := net1\<rparr>\<rparr>))"

definition FSM_Ch_Share_Topic_Data :: "bool \<Rightarrow> win32 \<Rightarrow> 'n winsock \<Rightarrow> 'n stack \<Rightarrow> 'n handler" where
  "FSM_Ch_Share_Topic_Data dbg w ws J F K =
     (let F = SetState F FSM_Ch_Share_Data_on_Topic in
      andThen (topic_data (J (net (app K))) (app K)) (\<lambda>text. answer dbg w ws text F K))"

definition FSM_Ch_Share_All_Topics :: "bool \<Rightarrow> win32 \<Rightarrow> 'n winsock \<Rightarrow> 'n stack \<Rightarrow> 'n handler" where
  "FSM_Ch_Share_All_Topics dbg w ws J F K =
     (let F = SetState F FSM_Ch_Share_All_Topics_State in
      andThen (all_topics (J (net (app K))) (app K)) (\<lambda>text. answer dbg w ws text F K))"

definition FSM_Ch_Publish_ACK :: "bool \<Rightarrow> win32 \<Rightarrow> 'n winsock \<Rightarrow> 'n stack \<Rightarrow> 'n handler" where
  "FSM_Ch_Publish_ACK dbg w ws J F K =
     (let F = SetState F FSM_Ch_Publish_ACK_State in
      andThen (ack_copy (J (net (app K)))) (\<lambda>_. answer dbg w ws ackMessage F K))"

definition FSM_Ch_Idle_Cl_Failed :: "'n handler" where
  "FSM_Ch_Idle_Cl_Failed F K = Ok (SetState F FSM_Ch_Idle, K)"

definition ch_run :: "bool \<Rightarrow> win32 \<Rightarrow> 'n winsock \<Rightarrow> 'n stack \<Rightarrow> ch_proc \<Rightarrow> 'n handler" where
  "ch_run dbg w ws J p = (case p of
     Idle_Cl_Connected \<Rightarrow> FSM_Ch_Idle_Cl_Connected dbg w ws
   | Idle_Cl_Failed \<Rightarrow> FSM_Ch_Idle_Cl_Failed
   | Store_Data_SubPub \<Rightarrow> FSM_Ch_Store_Data_SubPub dbg w J
   | Share_Topic_Data \<Rightarrow> FSM_Ch_Share_Topic_Data dbg w ws J
   | Share_All_Topics_proc \<Rightarrow> FSM_Ch_Share_All_Topics dbg w ws J
   | Publish_ACK \<Rightarrow> FSM_Ch_Publish_ACK dbg w ws J)"

section \<open>Construction and start\<close>

definition ChAuto_new :: "ch_proc FiniteStateMachine \<Rightarrow> 'n Ch kernel \<Rightarrow> (ch_proc FiniteStateMachine \<times> 'n Ch kernel) res" where
  "ChAuto_new raw K = FiniteStateMachine_new raw pc16 K CH_AUTOMATE_TYPE_ID CH_AUTOMATE_MBX_ID 1 6 3 True"

definition ch_bindings :: "ch_proc binding list" where
  "ch_bindings =
     [(FSM_Ch_Idle, MSG_Channel_Wait_Cl_Message, Proc Idle_Cl_Connected),
      (FSM_Ch_Idle, MSG_Channel_Connection_Failed, Proc Idle_Cl_Failed),
      (FSM_Ch_Connected, MSG_Stay_Connected, Proc Idle_Cl_Connected),
      (FSM_Ch_Connected, MSG_Store_Data_on_Topic, Proc Store_Data_SubPub),
      (FSM_Ch_Store_Data, MSG_Share_Data_on_Topic, Proc Share_Topic_Data),
      (FSM_Ch_Store_Data, MSG_Share_All_Topics, Proc Share_All_Topics_proc),
      (FSM_Ch_Store_Data, MSG_ACK_Notification, Proc Publish_ACK),
      (FSM_Ch_Publish_ACK_State, MSG_Stay_Connected, Proc Idle_Cl_Connected),
      (FSM_Ch_Share_All_Topics_State, MSG_Stay_Connected, Proc Idle_Cl_Connected),
      (FSM_Ch_Share_Data_on_Topic, MSG_Stay_Connected, Proc Idle_Cl_Connected)]"

definition Initialize :: "ch_proc FiniteStateMachine \<Rightarrow> ch_proc FiniteStateMachine res" where
  "Initialize F = init_events (SetState F FSM_Ch_Idle) ch_bindings"

definition SetDefaultHeader :: "'p FiniteStateMachine \<Rightarrow> 'g kernel \<Rightarrow> uint8 \<Rightarrow> 'g kernel res" where
  "SetDefaultHeader F K infoCoding =
     andThen (set8 K (NewMessage F) MSG_INFO_CODING infoCoding) (\<lambda>K. SetMessageFromData F K)"

definition SetDefaultFSMData :: "'p FiniteStateMachine \<Rightarrow> 'g kernel \<Rightarrow> 'g kernel res" where
  "SetDefaultFSMData F K = SetDefaultHeader F K 0x00"

text \<open>\<^verbatim>\<open>Reset\<close> and \<^verbatim>\<open>NoFreeInstances\<close> only print, so the \<^verbatim>\<open>Reset\<close> of the base class is never run.\<close>

definition Ch_Reset :: "'n handler" where "Ch_Reset F K = Ok (F, K)"
definition Ch_NoFreeInstances :: "'n handler" where "Ch_NoFreeInstances F K = Ok (F, K)"

definition ChAuto_Start :: "bool \<Rightarrow> win32 \<Rightarrow> 'n winsock \<Rightarrow> 'n handler" where
  "ChAuto_Start dbg w ws F K =
     (let F = SetState F FSM_Ch_Idle; G = app K;
          G = G\<lparr>allServerData := map (Some \<circ> Topic) [0 ..< 4] @ drop 4 (allServerData G)\<rparr>;
          (ok, n) = WSAStartup ws (net G) in
      if \<not> ok then Ok (F, K\<lparr>app := G\<lparr>net := n\<rparr>\<rparr>)
      else let (ok, n) = socket ws n in
      if \<not> ok then post_self dbg w MSG_Channel_Connection_Failed F (K\<lparr>app := G\<lparr>net := WSACleanup ws n\<rparr>\<rparr>)
      else let (_, n) = setsockopt ws n; (ok, n) = bind_socket ws n in
      if \<not> ok then post_self dbg w MSG_Channel_Connection_Failed F
        (K\<lparr>app := G\<lparr>net := WSACleanup ws (closesocket ws n)\<rparr>\<rparr>)
      else post_self dbg w MSG_Channel_Wait_Cl_Message F (K\<lparr>app := G\<lparr>net := n\<rparr>\<rparr>))"

end
