(* ===== verification/Ch_Server.thy ===== *)
theory Ch_Server
  imports Ch_Auto
begin

text \<open>
  The server as a whole: \<^verbatim>\<open>main.cpp\<close> sets up a system with one object of \<^verbatim>\<open>ChAuto\<close> and runs
  the monitor loop on it. The handlers of the automate keep the contract of the kernel, so
  the loop loses no message; and the whole of kernel, dispatcher and handlers refines a
  machine whose state is the state of the automate, the code of the one message that is
  under way, and the globals of the application.
\<close>

section \<open>The handlers without the kernel\<close>

text \<open>
  A handler sets the state, works on the globals and may post a message: \<open>ch_effect\<close> tells
  the state, the code of the message and the globals, \<open>commit\<close> is what is left to the kernel.
\<close>

type_synonym 'n effect = "uint8 \<times> uint16 option \<times> 'n Ch"

definition receive :: "'n winsock \<Rightarrow> 'n Ch \<Rightarrow> (uint16 option \<times> 'n Ch) res" where
  "receive ws G = (case recvfrom ws (net G) BUFFER_SIZE of
     None \<Rightarrow> None
   | Some (_, bs, a, n) \<Rightarrow> andThen (memcpy (replicate BUFFER_SIZE 0) 0 bs (length bs)) (\<lambda>buf.
       andThen (c_strlen buf) (\<lambda>_.
       Ok (Some MSG_Store_Data_on_Topic,
         G\<lparr>dataBuffer := buf, clientAddress := a @ replicate (28 - length a) 0, net := n\<rparr>))))"

definition reply :: "'n winsock \<Rightarrow> 'n Ch \<Rightarrow> uint8 list \<Rightarrow> (uint16 option \<times> 'n Ch) res" where
  "reply ws G text = andThen (c_strlen text) (\<lambda>n.
     let (ok, net1) = sendto ws (net G) (take n text) (clientAddress G) in
     Ok (if ok then (Some MSG_Stay_Connected, G\<lparr>net := net1\<rparr>)
         else (None, G\<lparr>net := WSACleanup ws (closesocket ws net1)\<rparr>)))"

definition in_state :: "uint8 \<Rightarrow> (uint16 option \<times> 'n Ch) res \<Rightarrow> 'n effect res" where
  "in_state s r = andThen r (\<lambda>(c, G). Ok (s, c, G))"

definition ch_effect :: "'n winsock \<Rightarrow> 'n stack \<Rightarrow> ch_proc \<Rightarrow> 'n Ch \<Rightarrow> 'n effect res" where
  "ch_effect ws J p G = (case p of
     Idle_Cl_Connected \<Rightarrow> in_state FSM_Ch_Connected (receive ws G)
   | Idle_Cl_Failed \<Rightarrow> in_state FSM_Ch_Idle (Ok (None, G))
   | Store_Data_SubPub \<Rightarrow> in_state FSM_Ch_Store_Data (store_data (J (net G)) G)
   | Share_Topic_Data \<Rightarrow> in_state FSM_Ch_Share_Data_on_Topic (andThen (topic_data (J (net G)) G) (reply ws G))
   | Share_All_Topics_proc \<Rightarrow> in_state FSM_Ch_Share_All_Topics_State (andThen (all_topics (J (net G)) G) (reply ws G))
   | Publish_ACK \<Rightarrow> in_state FSM_Ch_Publish_ACK_State (andThen (ack_copy (J (net G))) (\<lambda>_. reply ws G ackMessage)))"

definition commit :: "bool \<Rightarrow> win32 \<Rightarrow> ch_proc FiniteStateMachine \<Rightarrow> 'n Ch kernel \<Rightarrow> 'n effect
    \<Rightarrow> (ch_proc FiniteStateMachine \<times> 'n Ch kernel) res" where
  "commit dbg w F K e = (case e of
     (s, None, G) \<Rightarrow> Ok (SetState F s, K\<lparr>app := G\<rparr>)
   | (s, Some c, G) \<Rightarrow> post_self dbg w c (SetState F s) (K\<lparr>app := G\<rparr>))"

lemma answer_reply:
  "answer dbg w ws text (SetState F s) K = andThen (in_state s (reply ws (app K) text)) (commit dbg w F K)"
  by (cases "c_strlen text" rule: res_cases)
    (auto simp: answer_def reply_def in_state_def commit_def Let_def split: prod.splits)

lemma ch_run_effect:
  "ch_run dbg w ws J p F K = andThen (ch_effect ws J p (app K)) (commit dbg w F K)"
proof (cases p)
  case Idle_Cl_Connected
  then show ?thesis
    by (auto simp: ch_run_def ch_effect_def FSM_Ch_Idle_Cl_Connected_def receive_def in_state_def commit_def Let_def
        memcpy_def andThen_assoc split: option.splits prod.splits)
next
  case Store_Data_SubPub
  then show ?thesis
    by (cases "store_data (J (net (app K))) (app K)" rule: res_cases)
      (auto simp: ch_run_def ch_effect_def FSM_Ch_Store_Data_SubPub_def in_state_def commit_def Let_def split: option.splits)
next
  case Idle_Cl_Failed
  then show ?thesis
    by (simp add: ch_run_def ch_effect_def FSM_Ch_Idle_Cl_Failed_def in_state_def commit_def)
next
  case Share_Topic_Data
  then show ?thesis
    by (cases "topic_data (J (net (app K))) (app K)" rule: res_cases)
      (simp_all add: ch_run_def ch_effect_def FSM_Ch_Share_Topic_Data_def answer_reply in_state_def Let_def)
next
  case Share_All_Topics_proc
  then show ?thesis
    by (cases "all_topics (J (net (app K))) (app K)" rule: res_cases)
      (simp_all add: ch_run_def ch_effect_def FSM_Ch_Share_All_Topics_def answer_reply in_state_def Let_def)
next
  case Publish_ACK
  then show ?thesis
    by (cases "ack_copy (J (net (app K)))" rule: res_cases)
      (simp_all add: ch_run_def ch_effect_def FSM_Ch_Publish_ACK_def answer_reply in_state_def Let_def)
qed

section \<open>The handlers keep the contract of the kernel\<close>

lemma owned_same:
  assumes "owned K mss xss ts m" "same_content (memory K m) (memory K' m)" "same_classes (pool K) (pool K')"
    and "apart mss' xss' m" "timers K' = timers K"
  shows "owned K' mss' xss' ts m"
proof -
  have "has_header (pool K') (memory K') m = has_header (pool K) (memory K) m"
    using assms(2,3)
    by (cases "memory K m"; cases "memory K' m") (auto simp: has_header_def in_use_def same_content_def same_classes_def)
  then show ?thesis using assms(1,4,5) by (simp add: owned_def)
qed

lemma post_new_keeps:
  assumes ok: "kernel_ok K mss xss ts" "owned K mss xss ts m" and F: "NewMessage F = NULL" and log: "logger_ok K"
    and run: "post_new dbg w F K code atm obj mbx = Ok (F', K')"
  shows "\<exists>mss' xss' ts'. kernel_ok K' mss' xss' ts' \<and> owned K' mss' xss' ts' m \<and> CurrentMessage F' = CurrentMessage F \<and>
    NewMessage F' = NULL \<and> logger_ok K' \<and> length mss' = length mss \<and> holdings mss' xss' ts' = holdings mss xss ts"
proof -
  obtain k x xs p' po' h' where k: "k < length xss" "xss ! k = x # xs" and i: "unat mbx < length mss"
    and F': "F' = F\<lparr>NewMessage := NULL, StandardMsgCoding := MI_SetNewMessage (StandardMsgCoding F) x\<rparr>"
    and K': "K' = K\<lparr>pool := p', office := po', memory := h'\<rparr>"
    and ok': "kernel_ok K' (posted mss (unat mbx) x) (xss[k := xs]) ts" and cl: "same_classes (pool K) p'"
    and same: "\<forall>y. y \<noteq> x \<longrightarrow> same_content (memory K y) (h' y)"
    using post_new_inv [OF ok(1) F run] by blast
  note take = take_from_class [OF k kernel_okD(3) [OF ok(1)]]
  have m: "apart mss xss m" using ok(2) by (simp add: owned_def)
  then have "m \<noteq> x" using take(2) by (auto simp: apart_def)
  moreover have "apart mss (xss[k := xs]) m" using m take(1) by (auto simp: apart_def)
  ultimately have "owned K' (posted mss (unat mbx) x) (xss[k := xs]) ts m"
    using cl same unfolding K' by (intro owned_same [OF ok(2)]) (simp_all add: apart_posted [OF i])
  moreover have "holdings (posted mss (unat mbx) x) (xss[k := xs]) ts = holdings mss xss ts"
    using holdings_post [OF i] holdings_take [OF k] by simp
  ultimately show ?thesis using ok' F' K' log
    by (intro exI [of _ "posted mss (unat mbx) x"] exI [of _ "xss[k := xs]"] exI [of _ ts]) (simp add: logger_ok_def)
qed

interpretation ch: automate "ch_run dbg w ws J" for dbg w ws J
proof
  fix K K' and mss xss ts m F F' q
  assume ok: "kernel_ok K mss xss ts" "owned K mss xss ts m" and F: "CurrentMessage F = m" "NewMessage F = NULL"
    and log: "logger_ok K" and run: "ch_run dbg w ws J q F K = Ok (F', K')"
  obtain s c G where c: "commit dbg w F K (s, c, G) = Ok (F', K')"
    using run unfolding ch_run_effect by auto
  show "\<exists>mss' xss' ts'. kernel_ok K' mss' xss' ts' \<and> owned K' mss' xss' ts' m \<and> CurrentMessage F' = m \<and>
      NewMessage F' = NULL \<and> logger_ok K' \<and> length mss' = length mss \<and> holdings mss' xss' ts' = holdings mss xss ts"
  proof (cases c)
    case None
    then show ?thesis using c ok F log
      by (intro exI [of _ mss] exI [of _ xss] exI [of _ ts]) (auto simp: commit_def SetState_def)
  next
    case (Some code)
    have "NewMessage (SetState F s) = NULL" using F by (simp add: SetState_def)
    then show ?thesis
      using post_new_keeps [of "K\<lparr>app := G\<rparr>" mss xss ts m "SetState F s" dbg w code] c Some ok F log
      by (simp add: commit_def post_self_def SetState_def)
  qed
qed

section \<open>The machine the server implements\<close>

text \<open>
  Its state is the state of the automate, the code of the message that is under way (at most
  one ever is) and the globals. Without a message it waits for ever.
\<close>

definition handler_of :: "uint8 \<Rightarrow> uint16 \<Rightarrow> ch_proc option" where
  "handler_of s c = (case map_of (bindings_of s ch_bindings) c of Some (Proc p) \<Rightarrow> Some p | _ \<Rightarrow> None)"

fun ch_step :: "'n winsock \<Rightarrow> 'n stack \<Rightarrow> 'n effect \<Rightarrow> 'n effect res" where
  "ch_step ws J (s, None, G) = None"
| "ch_step ws J (s, Some c, G) = (case handler_of s c of None \<Rightarrow> Ok (s, None, G) | Some p \<Rightarrow> ch_effect ws J p G)"

text \<open>
  \<open>server_rep Y N e\<close>: the system \<open>Y\<close> has one automate, in the state of \<open>e\<close>; its mailbox holds
  the message of \<open>e\<close> and its semaphore counts it; the other mailboxes are empty; and of the
  \<open>N\<close> buffers of the pool those that are not in the mailbox are free.
\<close>

definition addressed :: "'g kernel \<Rightarrow> addr \<Rightarrow> uint16 \<Rightarrow> bool" where
  "addressed K m c \<longleftrightarrow> c \<noteq> DISCARDED \<and> le16 (msg_bytes K m) 4 = c \<and> msg_bytes K m ! 2 = CH_AUTOMATE_TYPE_ID \<and>
     le32 (msg_bytes K m) 10 = 0 \<and> le16 (msg_bytes K m) 19 = 0"

definition pending :: "'g kernel \<Rightarrow> addr list list \<Rightarrow> uint16 option \<Rightarrow> bool" where
  "pending K mss c \<longleftrightarrow> 0 < length mss \<and> length mss \<le> 64 \<and>
     mss = mss ! 0 # replicate (length mss - 1) [] \<and>
     semHandle (office K) = length (mss ! 0) # replicate (length mss - 1) 0 \<and>
     (case c of None \<Rightarrow> mss ! 0 = [] | Some c \<Rightarrow> \<exists>m. mss ! 0 = [m] \<and> addressed K m c)"

definition is_server :: "ch_proc FiniteStateMachine \<Rightarrow> uint8 \<Rightarrow> bool" where
  "is_server F s \<longleftrightarrow> State F = s \<and> unat s < 6 \<and> length (States F) = 6 \<and> NewMessage F = NULL \<and>
     bound_events F (\<lambda>st. bindings_of st ch_bindings)"

definition only_server :: "FSMSystem \<Rightarrow> addr \<Rightarrow> bool" where
  "only_server S obj \<longleftrightarrow> FreeKernelMemory S \<and> obj \<noteq> NULL \<and> Automates S \<noteq> [] \<and> Automates S ! 0 = Arr [obj] \<and>
     NumberOfObjects S \<noteq> [] \<and> NumberOfObjects S ! 0 = 1"

definition server_state :: "'n Ch kernel \<Rightarrow> addr list list \<Rightarrow> addr list \<Rightarrow> nat \<Rightarrow> uint16 option \<Rightarrow> bool" where
  "server_state K mss free N c \<longleftrightarrow> kernel_ok K mss [free] [] \<and> logger_ok K \<and> 21 \<le> BuffersLength (pool K) ! 0 \<and>
     pending K mss c \<and> length free + length (mss ! 0) = N"

definition server_rep :: "(ch_proc, 'n Ch) system \<Rightarrow> nat \<Rightarrow> 'n effect \<Rightarrow> bool" where
  "server_rep Y N e \<longleftrightarrow> (case e of (s, c, G) \<Rightarrow> app (ker Y) = G \<and>
     (\<exists>obj F. only_server (sys Y) obj \<and> objects Y = [obj \<mapsto> F] \<and> is_server F s) \<and>
     (\<exists>mss free. server_state (ker Y) mss free N c))"

lemma GetProcedure_server:
  assumes "is_server F s"
  shows "GetProcedure dbg F c = Ok (Some (case handler_of s c of None \<Rightarrow> DoNothing | Some p \<Rightarrow> Proc p))"
proof -
  have s: "unat s = 0 \<or> unat s = 1 \<or> unat s = 2 \<or> unat s = 3 \<or> unat s = 4 \<or> unat s = 5"
    using assms by (auto simp: is_server_def)
  have "s = of_nat (unat s)" by simp
  then have ne: "bindings_of s ch_bindings \<noteq> []"
    using s by (elim disjE) (simp_all add: ch_bindings_def bindings_of_def ch_states)
  have "GetProcedure dbg F c = Ok (Some (case map_of (bindings_of (State F) ch_bindings) c of Some p \<Rightarrow> p | None \<Rightarrow> DoNothing))"
    using assms ne by (intro GetProcedure_ok [where T = "\<lambda>st. bindings_of st ch_bindings"]) (auto simp: is_server_def)
  then show ?thesis using assms by (auto simp: is_server_def handler_of_def split: option.splits proc.splits)
qed

section \<open>One step\<close>

lemma server_waits:
  assumes w: "win32_documented w" and rep: "server_rep Y N (s, None, G)"
  shows "Start_step dbg w clk run noFree Y = None"
proof -
  obtain mss free obj where st: "server_state (ker Y) mss free N None" and S: "only_server (sys Y) obj"
    using rep by (auto simp: server_rep_def)
  have "length mss \<le> 64" "\<forall>c \<in> set (semHandle (office (ker Y))). c = 0"
    using st by (auto simp: server_state_def pending_def)
  moreover have "office_rep (office (ker Y)) (pool (ker Y)) (memory (ker Y)) mss [free]"
    using st kernel_okD(2) by (auto simp: server_state_def)
  ultimately have "GetSync dbg w (office (ker Y)) (pool (ker Y)) (memory (ker Y)) = None"
    by (intro GetSync_blocks [OF w])
  then show ?thesis using S by (simp add: Start_step_def GetMsgSync_def only_server_def)
qed

text \<open>The kernel with no message under way, and the same with one in the hands of the automate.\<close>

definition quiet :: "'n Ch kernel \<Rightarrow> nat \<Rightarrow> addr list \<Rightarrow> bool" where
  "quiet K n free \<longleftrightarrow> kernel_ok K (replicate n []) [free] [] \<and> logger_ok K \<and> semHandle (office K) = replicate n 0 \<and>
     0 < n \<and> n \<le> 64 \<and> 21 \<le> BuffersLength (pool K) ! 0"

definition taken :: "'n Ch kernel \<Rightarrow> 'n Ch kernel \<Rightarrow> nat \<Rightarrow> addr list \<Rightarrow> addr \<Rightarrow> bool" where
  "taken K K1 n free m \<longleftrightarrow> quiet K1 n free \<and> owned K1 (replicate n []) [free] [] m \<and> app K1 = app K"

lemma server_takes:
  assumes w: "win32_documented w" and st: "server_state (ker Y) mss free N (Some c)" and S: "only_server (sys Y) obj"
  shows "\<exists>m K1. GetMsgSync dbg w Y = Ok (m, Y\<lparr>ker := K1\<rparr>) \<and> taken (ker Y) K1 (length mss) free m \<and> addressed K1 m c \<and>
    N = Suc (length free)"
proof -
  let ?K = "ker Y"
  have ok: "kernel_ok ?K mss [free] []" and pend: "pending ?K mss (Some c)" using st by (simp_all add: server_state_def)
  obtain m where m: "mss ! 0 = [m]" "addressed ?K m c" using pend by (auto simp: pending_def)
  have n: "0 < length mss" "length mss \<le> 64" "semHandle (office ?K) = 1 # replicate (length mss - 1) 0"
    "mss = [m] # replicate (length mss - 1) []"
    using pend m(1) by (auto simp: pending_def)
  note rep = kernel_okD(2) [OF ok]
  have "\<exists>c \<in> set (semHandle (office ?K)). 0 < c" using n(3) by simp
  then obtain i po p h where i: "i < length mss" "0 < semHandle (office ?K) ! i"
    "GetSync dbg w (office ?K) (pool ?K) (memory ?K) = Ok (head_or_null (dropWhile (discarded (memory ?K)) (mss ! i)), of_nat i, po, p, h)"
    "office_rep po p h (rest_of (memory ?K) mss i) (freed_by (memory ?K) mss i [free])"
    "semHandle po = (semHandle (office ?K))[i := semHandle (office ?K) ! i - 1]"
    "relinked (set (mss ! i) \<union> set (concat [free])) (memory ?K) h" "same_classes (pool ?K) p"
    using GetSync_serves [OF w rep n(2)] by blast
  have i0: "i = 0" using i(1,2) n(3) by (cases i) (auto simp: nth_Cons')
  have nd: "\<not> discarded (memory ?K) m" using m(2) by (simp add: addressed_def discarded_def msg_bytes_def)
  have hd: "head_or_null (dropWhile (discarded (memory ?K)) (mss ! 0)) = m" using m(1) nd by simp
  have mn: "m \<noteq> NULL"
  proof -
    obtain mb where "mail_inv mb (pool ?K) (memory ?K) (mss ! 0) [free]" by (rule office_rep_mbx [OF rep n(1)])
    then show ?thesis using m(1) by (simp add: mail_inv_def has_header_def in_use_def)
  qed
  have ln: "Suc (length mss - 1) = length mss" using n(1) by simp
  have "rest_of (memory ?K) mss 0 = ([m] # replicate (length mss - 1) [])[0 := []]"
    using m(1) nd n(4) by (simp add: rest_of_def)
  also have "\<dots> = replicate (Suc (length mss - 1)) []" by simp
  also note ln
  finally have r: "rest_of (memory ?K) mss 0 = replicate (length mss) []" "freed_by (memory ?K) mss 0 [free] = [free]"
    using m(1) nd by (simp_all add: freed_by_def)
  let ?K1 = "?K\<lparr>office := po, pool := p, memory := h\<rparr>"
  have t: "kernel_ok ?K1 (replicate (length mss) []) [free] []" "owned ?K1 (replicate (length mss) []) [free] [] m"
    using take_message [OF ok n(1) i(4,6,7) [unfolded i0] hd [symmetric]] mn unfolding r by simp_all
  have "same_content (memory ?K m) (h m)" using i(6) by (simp add: relinked_def)
  then have "msg_bytes ?K1 m = msg_bytes ?K m"
    by (cases "memory ?K m"; cases "h m") (simp_all add: same_content_def msg_bytes_def)
  then have "addressed ?K1 m c" using m(2) by (simp add: addressed_def)
  moreover have "semHandle po = replicate (Suc (length mss - 1)) 0" using i(5) n(3) i0 by simp
  then have "semHandle po = replicate (length mss) 0" unfolding ln .
  ultimately show ?thesis
    using t i(3,7) i0 hd n(1,2) S st m(1)
    by (intro exI [of _ m] exI [of _ ?K1])
      (simp add: GetMsgSync_def only_server_def taken_def quiet_def server_state_def logger_ok_def same_classes_def)
qed

lemma addressed_same:
  "addressed K m c \<Longrightarrow> same_content (memory K m) (memory K' m) \<Longrightarrow> addressed K' m c"
  by (cases "memory K m"; cases "memory K' m") (simp_all add: addressed_def msg_bytes_def same_content_def)

lemma is_server_same:
  assumes "is_server F s" "States F' = States F" "MaxNumOfProcPerState F' = MaxNumOfProcPerState F" "NewMessage F' = NULL"
    and "State F' = s'" "unat s' < 6"
  shows "is_server F' s'"
  using assms by (simp add: is_server_def bound_events_def)

lemma server_finishes:
  assumes ok: "kernel_ok K mss [free] []" "owned K mss [free] [] m" "CurrentMessage F = m" "logger_ok K"
    and len: "21 \<le> BuffersLength (pool K) ! 0" and pend: "pending K mss c" and N: "N = Suc (length free) + length (mss ! 0)"
  shows "\<exists>K'. finish dbg t F K = Ok (F\<lparr>CurrentMessage := NULL\<rparr>, K') \<and> server_state K' mss (free @ [m]) N c \<and> app K' = app K"
proof -
  obtain p h L where r: "finish dbg t F K = Ok (F\<lparr>CurrentMessage := NULL\<rparr>, K\<lparr>pool := p, memory := h, LogingObject := Some L\<rparr>)"
    "length (LogBuffer L) = 8192" "same_classes (pool K) p" "relinked (insert m (set (concat [free]))) (memory K) h"
    "kernel_ok (K\<lparr>pool := p, memory := h, LogingObject := Some L\<rparr>) mss (give_back (memory K) m [free]) []"
    "class_of (memory K) m < length [free]"
    using finish_ok [OF ok] by blast
  let ?K = "K\<lparr>pool := p, memory := h, LogingObject := Some L\<rparr>"
  have "give_back (memory K) m [free] = [free @ [m]]" using r(6) by (simp add: give_back_def)
  moreover have "pending ?K mss c"
  proof (cases c)
    case (Some code)
    then obtain x where "mss ! 0 = [x]" "addressed K x code" using pend by (auto simp: pending_def)
    moreover have "same_content (memory K x) (memory ?K x)" using r(4) by (simp add: relinked_def)
    ultimately show ?thesis using pend Some addressed_same [of K x code ?K] by (simp add: pending_def)
  next
    case None
    then have "pending ?K mss c = pending K mss c" by (simp add: pending_def)
    then show ?thesis using pend by simp
  qed
  ultimately have "server_state ?K mss (free @ [m]) N c"
    using r(2,3,5) len N by (simp add: server_state_def logger_ok_def same_classes_def)
  then show ?thesis using r(1) by (intro exI [of _ ?K]) simp
qed

lemma reply_code: "reply ws G text = Ok (c, G') \<Longrightarrow> c = None \<or> c = Some MSG_Stay_Connected"
  by (auto simp: reply_def case_prod_beta Let_def split: if_splits)

lemma ch_effect_code:
  assumes "ch_effect ws J p G = Ok (s, c, G')"
  shows "unat s < 6 \<and> c \<noteq> Some DISCARDED"
proof -
  have "c \<in> {None, Some MSG_Store_Data_on_Topic, Some MSG_ACK_Notification, Some MSG_Share_Data_on_Topic,
      Some MSG_Share_All_Topics, Some MSG_Stay_Connected}"
    using assms
    by (auto simp: ch_effect_def in_state_def receive_def store_data_def split: ch_proc.splits option.splits prod.splits if_splits
        dest!: reply_code)
  moreover have "unat s < 6"
    using assms by (auto simp: ch_effect_def in_state_def ch_states split: ch_proc.splits)
  ultimately show ?thesis by (auto simp: ch_codes DISCARDED_def)
qed

text \<open>One outcome simulates another when it fails, hangs or returns as the other does.\<close>

abbreviation simulated :: "('a \<Rightarrow> 'b \<Rightarrow> bool) \<Rightarrow> 'a res \<Rightarrow> 'b res \<Rightarrow> bool" where
  "simulated R \<equiv> rel_option (rel_sum (=) R)"

definition handled :: "nat \<Rightarrow> 'n effect \<Rightarrow> ch_proc FiniteStateMachine \<times> 'n Ch kernel \<Rightarrow> bool" where
  "handled N e FK \<longleftrightarrow> (case (e, FK) of ((s, c, G), (F, K)) \<Rightarrow>
     is_server F s \<and> app K = G \<and> (\<exists>mss free. server_state K mss free N c))"

lemma best_class_0: "kernel_ok K mss [free] ts \<Longrightarrow> 21 \<le> BuffersLength (pool K) ! 0 \<Longrightarrow> best_class (pool K) 21 0"
  using kernel_okD(3) [of K mss "[free]" ts] by (auto simp: best_class_def pool_rep_def)

lemma pending_nothing: "0 < n \<Longrightarrow> n \<le> 64 \<Longrightarrow> semHandle (office K) = replicate n 0 \<Longrightarrow> pending K (replicate n []) None"
  by (cases n) (simp_all add: pending_def)

lemma handled_finish:
  assumes "kernel_ok K mss [free] []" "owned K mss [free] [] m" "CurrentMessage F = m" "logger_ok K"
    and "21 \<le> BuffersLength (pool K) ! 0" "pending K mss c" "N = Suc (length free) + length (mss ! 0)" "is_server F s" "app K = G"
  shows "\<exists>FK. finish dbg t F K = Ok FK \<and> handled N (s, c, G) FK"
proof -
  obtain K' where "finish dbg t F K = Ok (F\<lparr>CurrentMessage := NULL\<rparr>, K')" "server_state K' mss (free @ [m]) N c" "app K' = app K"
    using server_finishes [OF assms(1-7)] by blast
  moreover have "is_server (F\<lparr>CurrentMessage := NULL\<rparr>) s"
    by (rule is_server_same [OF assms(8)]) (use assms(8) in \<open>simp_all add: is_server_def\<close>)
  ultimately show ?thesis using assms(9) by (auto simp: handled_def)
qed

lemma commit_ok:
  assumes w: "win32_documented w" and q: "quiet K n free" and F: "is_server F s"
    and free: "free \<noteq> []" and e: "unat s' < 6" "c \<noteq> Some DISCARDED"
  shows "\<exists>F' K' mss' free'. commit dbg w F K (s', c, G) = Ok (F', K') \<and> kernel_ok K' mss' [free'] [] \<and>
    CurrentMessage F' = CurrentMessage F \<and> logger_ok K' \<and> 21 \<le> BuffersLength (pool K') ! 0 \<and>
    pending K' mss' c \<and> length free = length free' + length (mss' ! 0) \<and> is_server F' s' \<and> app K' = G \<and>
    (\<forall>m. owned K (replicate n []) [free] [] m \<longrightarrow> owned K' mss' [free'] [] m)"
proof -
  note t = q [unfolded quiet_def]
  have F': "NewMessage F = NULL" "State (SetState F s') = s'" using F by (simp_all add: is_server_def SetState_def)
  show ?thesis
  proof (cases c)
    case None
    have "is_server (SetState F s') s'"
      by (rule is_server_same [OF F]) (use F' e in \<open>simp_all add: SetState_def\<close>)
    then show ?thesis
      using t F None pending_nothing [of n "K\<lparr>app := G\<rparr>"]
      by (intro exI [of _ "SetState F s'"] exI [of _ "K\<lparr>app := G\<rparr>"] exI [of _ "replicate n []"] exI [of _ free])
        (simp add: commit_def SetState_def)
  next
    case (Some code)
    obtain x xs where x: "free = x # xs" using free by (cases free) auto
    let ?K = "K\<lparr>app := G\<rparr>" and ?F = "SetState F s'" and ?mss = "replicate n [] :: addr list list"
    have ok: "kernel_ok ?K ?mss [free] []" and k: "best_class (pool ?K) 21 0" "[free] ! 0 = x # xs"
      and i: "0 < length ?mss" and N: "NewMessage ?F = NULL"
      using t x best_class_0 F'(1) by (auto simp: SetState_def)
    obtain p' po' h' where r: "post_new dbg w ?F ?K code CH_AUTOMATE_TYPE_ID 0 (of_nat 0) =
        Ok (?F\<lparr>NewMessage := NULL, StandardMsgCoding := MI_SetNewMessage (StandardMsgCoding ?F) x\<rparr>,
          ?K\<lparr>pool := p', office := po', memory := h'\<rparr>)"
      "kernel_ok (?K\<lparr>pool := p', office := po', memory := h'\<rparr>) (posted ?mss 0 x) ([free][0 := xs]) []"
      "same_classes (pool ?K) p'" "bytes (the (h' x)) = header_of ?F code CH_AUTOMATE_TYPE_ID 0 (msg_bytes ?K x)"
      "\<forall>y. y \<noteq> x \<longrightarrow> same_content (memory ?K y) (h' y)"
      "semHandle po' = (semHandle (office ?K))[0 := ReleaseSemaphore w (semHandle (office ?K) ! 0)]"
      using post_new_ok [OF ok N k i] by blast
    let ?F2 = "?F\<lparr>NewMessage := NULL, StandardMsgCoding := MI_SetNewMessage (StandardMsgCoding ?F) x\<rparr>"
    let ?K2 = "?K\<lparr>pool := p', office := po', memory := h'\<rparr>"
    have own: "owned ?K2 (posted ?mss 0 x) [xs] [] m" if "owned K ?mss [free] [] m" for m
    proof -
      have m: "owned ?K ?mss [free] [] m" using that by simp
      then have "m \<noteq> x" "apart (posted ?mss 0 x) [xs] m" using x unfolding apart_posted [OF i] by (auto simp: owned_def apart_def)
      then show ?thesis using r(3,5) by (intro owned_same [OF m]) simp_all
    qed
    have "21 \<le> length (msg_bytes ?K x)"
    proof -
      have b: "buffer_ok (memory ?K) (of_nat 0) (unat (BuffersLength (pool ?K) ! 0)) x"
        using pool_rep_buffer [OF kernel_okD(3) [OF ok], of 0 x] x by simp
      have "21 \<le> unat (BuffersLength (pool ?K) ! 0)" using t by (simp add: word_le_nat_alt)
      then show ?thesis using b by (auto simp: buffer_ok_def msg_bytes_def)
    qed
    then have adr: "addressed ?K2 x code"
      using r(4) e(2) Some by (simp add: addressed_def msg_bytes_def header_of_fields)
    have sem: "semHandle po' = 1 # replicate (n - 1) 0"
      using r(6) t w by (cases n) (auto simp: win32_documented_def MAX_COUNT_def)
    have mss: "posted ?mss 0 x = [x] # replicate (n - 1) []" using t by (cases n) (auto simp: posted_def)
    then have "pending ?K2 (posted ?mss 0 x) c" using adr sem t Some by (auto simp: pending_def)
    moreover have "is_server ?F2 s'"
      by (rule is_server_same [OF F]) (use e in \<open>simp_all add: SetState_def\<close>)
    moreover have "logger_ok ?K2" using t by (simp add: logger_ok_def)
    moreover have "commit dbg w F K (s', c, G) = Ok (?F2, ?K2)"
      using r(1) Some by (simp add: commit_def post_self_def CH_AUTOMATE_MBX_ID_def)
    ultimately show ?thesis
      using r(2,3) own t x mss
      by (intro exI [of _ ?F2] exI [of _ ?K2] exI [of _ "posted ?mss 0 x"] exI [of _ xs]) (simp add: SetState_def same_classes_def)
  qed
qed

lemma server_handles:
  assumes w: "win32_documented w" and t: "taken K0 K n free m" and a: "addressed K m c" and F: "is_server F s"
    and free: "free \<noteq> []"
  shows "simulated (handled (Suc (length free))) (ch_step ws J (s, Some c, app K0)) (Process dbg clk (ch_run dbg w ws J) F K m)"
proof -
  let ?F = "with_current F m" and ?N = "Suc (length free)" and ?run = "ch_run dbg w ws J"
  have own: "owned K (replicate n []) [free] [] m" and log: "logger_ok K" and G: "app K = app K0" using t by (simp_all add: taken_def quiet_def)
  have F': "is_server ?F s" "CurrentMessage ?F = m"
    by (rule is_server_same [OF F]) (use F in \<open>simp_all add: with_current_def is_server_def\<close>)
  have "loggable K m" using owned_length [OF own] a by (simp add: loggable_def addressed_def)
  moreover have "GetProcedure dbg ?F (le16 (msg_bytes K m) 4) =
      Ok (Some (case handler_of s c of None \<Rightarrow> DoNothing | Some p \<Rightarrow> Proc p))"
    using GetProcedure_server [OF F'(1)] a by (simp add: addressed_def)
  ultimately obtain L where L: "length (LogBuffer L) = 8192" "Process dbg clk ?run F K m =
      andThen (run_proc ?run (Some (case handler_of s c of None \<Rightarrow> DoNothing | Some p \<Rightarrow> Proc p)) ?F (K\<lparr>LogingObject := Some L\<rparr>))
        (\<lambda>(F, K). finish dbg (clk 2) F K)"
    using Process_reaches_handler [OF own log] by blast
  let ?K = "K\<lparr>LogingObject := Some L\<rparr>"
  have q: "quiet ?K n free" "owned ?K (replicate n []) [free] [] m" using t L(1) by (simp_all add: taken_def quiet_def)
  have fin: "simulated (handled ?N) (Ok e) (andThen (commit dbg w ?F ?K e) (\<lambda>(F, K). finish dbg (clk 2) F K))"
    if "unat (fst e) < 6" "fst (snd e) \<noteq> Some DISCARDED" for e
  proof -
    obtain s' c' G' where e: "e = (s', c', G')" by (cases e)
    have e6: "unat s' < 6" "c' \<noteq> Some DISCARDED" using that e by simp_all
    obtain F1 K1 mss1 free1 where 1: "commit dbg w ?F ?K e = Ok (F1, K1)" "kernel_ok K1 mss1 [free1] []"
      "owned K1 mss1 [free1] [] m" "CurrentMessage F1 = m" "logger_ok K1" "21 \<le> BuffersLength (pool K1) ! 0"
      "pending K1 mss1 c'" "length free = length free1 + length (mss1 ! 0)" "is_server F1 s'" "app K1 = G'"
      using commit_ok [OF w q(1) F'(1) free e6, where dbg = dbg and G = G'] q(2) unfolding e F'(2) by blast
    have "?N = Suc (length free1) + length (mss1 ! 0)" using 1(8) by simp
    then obtain FK where "finish dbg (clk 2) F1 K1 = Ok FK" "handled ?N (s', c', G') FK"
      using handled_finish [OF 1(2-7) _ 1(9,10)] by blast
    then show ?thesis using 1(1) e by simp
  qed
  show ?thesis
  proof (cases "handler_of s c")
    case None
    have "SetState ?F s = ?F" using F by (simp add: SetState_def with_current_def is_server_def)
    then have "commit dbg w ?F ?K (s, None, app K0) = Ok (?F, ?K)" using G by (simp add: commit_def)
    moreover have "unat s < 6" using F by (simp add: is_server_def)
    ultimately show ?thesis using fin [of "(s, None, app K0)"] None L(2) by (simp add: run_proc_def)
  next
    case (Some p)
    then have P: "Process dbg clk ?run F K m =
        andThen (andThen (ch_effect ws J p (app K0)) (commit dbg w ?F ?K)) (\<lambda>(F, K). finish dbg (clk 2) F K)"
      using L(2) G by (simp add: run_proc_def ch_run_effect)
    show ?thesis
    proof (cases "ch_effect ws J p (app K0)" rule: res_cases)
      case (3 e)
      have "unat (fst e) < 6 \<and> fst (snd e) \<noteq> Some DISCARDED"
        using ch_effect_code [of ws J p "app K0"] 3 by (cases e) auto
      then show ?thesis using fin [of e] Some 3 P by simp
    qed (use Some P in simp_all)
  qed
qed

lemma simulated_andThen:
  assumes "simulated R a b" "\<And>x y. R x y \<Longrightarrow> \<exists>z. f y = Ok z \<and> S x z"
  shows "simulated S a (andThen b f)"
proof (cases a rule: res_cases)
  case (3 x)
  then obtain y where "b = Ok y" "R x y" using assms(1) by (cases b rule: res_cases) auto
  then show ?thesis using assms(2) [of x y] 3 by auto
qed (use assms(1) in \<open>cases b rule: res_cases; simp\<close>)+

lemma dispatch_server:
  assumes S: "only_server (sys Y) obj" "objects Y obj = Some F" and m: "owned (ker Y) mss xss ts m" "addressed (ker Y) m c"
  shows "dispatch dbg clk run noFree Y m = andThen (Process dbg clk run F (ker Y) m) (\<lambda>(F, K).
    Ok (Y\<lparr>objects := (objects Y)(obj \<mapsto> F), ker := K\<rparr>))"
proof -
  have "read8 (memory (ker Y)) m (off MSG_TO_AUTOMATE) = Ok 0" "read32 (memory (ker Y)) m (off MSG_OBJECT_ID_TO) = Ok 0"
    using get_msg(1) [OF m(1), of MSG_TO_AUTOMATE] get_msg(3) [OF m(1), of MSG_OBJECT_ID_TO] m(2)
    by (simp_all add: get8_def get32_def addressed_def CH_AUTOMATE_TYPE_ID_def)
  then show ?thesis
    using S by (simp add: dispatch_def Let_def only_server_def call_def obj_at_def array_at_def rd_def)
qed

lemma Start_step_server:
  assumes w: "win32_documented w" and rep: "server_rep Y N e" and N: "2 \<le> N"
  shows "simulated (\<lambda>e Y. server_rep Y N e) (ch_step ws J e) (Start_step dbg w clk (ch_run dbg w ws J) noFree Y)"
proof -
  obtain s c G where e: "e = (s, c, G)" by (cases e)
  show ?thesis
  proof (cases c)
    case None
    then show ?thesis using server_waits [OF w] rep e by simp
  next
    case (Some code)
    obtain obj F mss free where G: "app (ker Y) = G" and S: "only_server (sys Y) obj" "objects Y = [obj \<mapsto> F]" "is_server F s"
      and st: "server_state (ker Y) mss free N (Some code)"
      using rep e Some by (auto simp: server_rep_def)
    obtain m K1 where 1: "GetMsgSync dbg w Y = Ok (m, Y\<lparr>ker := K1\<rparr>)" "taken (ker Y) K1 (length mss) free m"
      "addressed K1 m code" "N = Suc (length free)"
      using server_takes [OF w st S(1)] by blast
    have own: "owned K1 (replicate (length mss) []) [free] [] m" using 1(2) by (simp add: taken_def)
    then have mn: "m \<noteq> NULL" using owned_msg by blast
    have "free \<noteq> []" using 1(4) N by auto
    then have p: "simulated (handled N) (ch_step ws J (s, Some code, G)) (Process dbg clk (ch_run dbg w ws J) F K1 m)"
      using server_handles [OF w 1(2,3) S(3)] 1(4) G by blast
    have "dispatch dbg clk (ch_run dbg w ws J) noFree (Y\<lparr>ker := K1\<rparr>) m =
      andThen (Process dbg clk (ch_run dbg w ws J) F K1 m) (\<lambda>(F, K). Ok (Y\<lparr>objects := [obj \<mapsto> F], ker := K\<rparr>))"
      using dispatch_server [of "Y\<lparr>ker := K1\<rparr>" obj F] S own 1(3) by simp
    then have "Start_step dbg w clk (ch_run dbg w ws J) noFree Y =
      andThen (Process dbg clk (ch_run dbg w ws J) F K1 m) (\<lambda>(F, K). Ok (Y\<lparr>objects := [obj \<mapsto> F], ker := K\<rparr>))"
      using 1(1) mn by (simp add: Start_step_def)
    moreover have "server_rep (Y\<lparr>objects := [obj \<mapsto> F'], ker := K'\<rparr>) N e'" if "handled N e' (F', K')" for e' F' K'
      using that S(1) by (cases e') (auto simp: handled_def server_rep_def intro!: exI [of _ obj])
    ultimately show ?thesis
      unfolding e Some by (auto intro!: simulated_andThen [OF p [unfolded ch_step.simps]])
  qed
qed

end
