(* ===== verification/Ch_Main.thy ===== *)
theory Ch_Main
  imports Ch_Server
begin

text \<open>
  \<^verbatim>\<open>POP3ClientCppUnit/main.cpp\<close>: the thread that builds the system and runs it. The memory
  the constructors get, and what the operating system answers, are arguments.
\<close>

section \<open>The thread of the server\<close>

text \<open>The static object before its constructor runs: zeroed memory with empty lists of idle automates.\<close>

definition static_sys :: FSMSystem where
  "static_sys = \<lparr>Automates = replicate MAX_NUM_OF_AUTOMATES_TYPES NullArr, NumberOfMbx = 0, NumberOfAutomates = 0,
     NumberOfObjects = replicate MAX_NUM_OF_AUTOMATES_TYPES 0, FreeKernelMemory = False, SystemWorking = False, serverId = 0,
     UseFreeAutomateList = replicate MAX_NUM_OF_AUTOMATES_TYPES False,
     FreeAutomates = replicate MAX_NUM_OF_AUTOMATES_TYPES FSMList_new\<rparr>"

text \<open>\<open>lg\<close> is the logger, \<open>raw\<close> the memory of the automate, at the address \<open>obj\<close>.\<close>

definition SystemThread_init :: "bool \<Rightarrow> (nat \<Rightarrow> addr) \<Rightarrow> (addr \<Rightarrow> uint8) \<Rightarrow> (nat \<Rightarrow> bool) \<Rightarrow> addr \<Rightarrow> bool \<Rightarrow> LogInterface
    \<Rightarrow> ch_proc FiniteStateMachine \<Rightarrow> addr \<Rightarrow> 'n Ch kernel \<Rightarrow> (ch_proc, 'n Ch) system res" where
  "SystemThread_init dbg base bs created dummy started lg raw obj K =
     andThen (FSMSystem_new static_sys 3 3) (\<lambda>S.
     andThen (ChAuto_new raw K) (\<lambda>(F, K).
     andThen (InitKernel dbg base bs created dummy started
       \<lparr>objects = [obj \<mapsto> F], sys = S, ker = SetLogInterface (Some lg) K\<rparr> 1 (Some [50]) (Some [256]) 1 Timer1s) (\<lambda>Y.
     Add_type dbg (\<lambda>F K. andThen (Initialize F) (\<lambda>F. Ok (F, K))) Y obj CH_AUTOMATE_TYPE_ID 1 True)))"

definition SystemThread :: "bool \<Rightarrow> win32 \<Rightarrow> 'n winsock \<Rightarrow> 'n stack \<Rightarrow> (nat \<Rightarrow> nat \<Rightarrow> uint32) \<Rightarrow> (nat \<Rightarrow> addr) \<Rightarrow> (addr \<Rightarrow> uint8)
    \<Rightarrow> (nat \<Rightarrow> bool) \<Rightarrow> addr \<Rightarrow> bool \<Rightarrow> LogInterface \<Rightarrow> ch_proc FiniteStateMachine \<Rightarrow> addr \<Rightarrow> 'n Ch kernel
    \<Rightarrow> (ch_proc, 'n Ch) system res" where
  "SystemThread dbg w ws J clk base bs created dummy started lg raw obj K =
     andThen (SystemThread_init dbg base bs created dummy started lg raw obj K) (\<lambda>Y.
     andThen (call (ChAuto_Start dbg w ws) Y obj) (\<lambda>Y.
     Start dbg w clk (ch_run dbg w ws J) Ch_NoFreeInstances Y))"

section \<open>The server comes up\<close>

text \<open>What \<^verbatim>\<open>ChAuto::Start\<close> does apart from the message.\<close>

definition start_effect :: "'n winsock \<Rightarrow> 'n Ch \<Rightarrow> 'n effect" where
  "start_effect ws G = (FSM_Ch_Idle,
     let G = G\<lparr>allServerData := map (Some \<circ> Topic) [0 ..< 4] @ drop 4 (allServerData G)\<rparr>;
         (ok, n) = WSAStartup ws (net G) in
     if \<not> ok then (None, G\<lparr>net := n\<rparr>)
     else let (ok, n) = socket ws n in
     if \<not> ok then (Some MSG_Channel_Connection_Failed, G\<lparr>net := WSACleanup ws n\<rparr>)
     else let (_, n) = setsockopt ws n; (ok, n) = bind_socket ws n in
     if \<not> ok then (Some MSG_Channel_Connection_Failed, G\<lparr>net := WSACleanup ws (closesocket ws n)\<rparr>)
     else (Some MSG_Channel_Wait_Cl_Message, G\<lparr>net := n\<rparr>))"

lemma ChAuto_Start_effect: "ChAuto_Start dbg w ws F K = commit dbg w F K (start_effect ws (app K))"
  by (simp add: ChAuto_Start_def start_effect_def commit_def Let_def case_prod_beta)

lemma start_effect_code: "start_effect ws G = (s, c, G') \<Longrightarrow> unat s < 6 \<and> c \<noteq> Some DISCARDED"
  by (auto simp: start_effect_def Let_def case_prod_beta ch_states ch_codes DISCARDED_def split: if_splits)

lemma new_server:
  "\<exists>F0 F. ChAuto_new raw K = Ok (F0, K\<lparr>attached := False, LogingObject := None\<rparr>) \<and>
     Initialize (SetGroup (SetObjectId F0 i) g) = Ok F \<and> is_server (F\<lparr>Next := NULL\<rparr>) FSM_Ch_Idle"
proof -
  obtain F0 s where 1: "ChAuto_new raw K = Ok (F0, K\<lparr>attached := False, LogingObject := None\<rparr>)" "SState_new 3 = Ok s"
    "States F0 = replicate 6 s" "MaxNumOfProcPerState F0 = 3" "NewMessage F0 = NULL"
    using FiniteStateMachine_new_ok [of 6 3 raw pc16 K CH_AUTOMATE_TYPE_ID CH_AUTOMATE_MBX_ID 1] by (auto simp: ChAuto_new_def)
  let ?F = "SetState (SetGroup (SetObjectId F0 i) g) FSM_Ch_Idle"
  have F: "States ?F = replicate 6 s" "MaxNumOfProcPerState ?F = 3" "NewMessage ?F = NULL" "State ?F = FSM_Ch_Idle"
    using 1 by (simp_all add: SetState_def SetGroup_def SetObjectId_def)
  have "bound_events ?F (\<lambda>_. [])"
    by (rule bound_events_new [of _ 6 s]) (use 1(2) F in simp_all)
  then have "bound_events ?F (\<lambda>st. bindings_of st [])" by (simp add: bindings_of_def)
  moreover have "fits_table ?F ([] @ ch_bindings)"
    using F(1,2) by (simp add: fits_table_def ch_bindings_def bindings_of_def ch_states ch_codes)
  ultimately obtain S where "init_events ?F ch_bindings = Ok (?F\<lparr>States := S\<rparr>)" "length S = 6"
    "bound_events (?F\<lparr>States := S\<rparr>) (\<lambda>st. bindings_of st ch_bindings)"
    using init_events_ok [of ?F "[]" ch_bindings] F(1) by auto
  then show ?thesis
    using 1(1) F by (intro exI [of _ F0] exI [of _ "?F\<lparr>States := S\<rparr>"])
      (simp add: Initialize_def is_server_def bound_events_def ch_states)
qed

lemma replicate_40: "replicate 40 x = x # replicate 39 x"
  by (simp add: numeral_eq_Suc)

lemma one_class: "arrays_sorted [l] [c] lens' counts' \<Longrightarrow> lens' = [l] \<and> counts' = [c]"
  by (cases lens'; cases counts') (auto simp: arrays_sorted_def)

text \<open>\<open>up\<close>: the system is built; the automate waits in its idle state, with nothing under way.\<close>

lemma SystemThread_init_ok:
  assumes mem: "kernel_memory base dummy (memory K) 1 [50] [256]" and created: "\<forall>i < 4. created i"
    and lg: "length (LogBuffer lg) = 8192" and obj: "obj \<noteq> NULL" "obj < 2 ^ 32"
  shows "\<exists>Y F free. SystemThread_init dbg base bs created dummy True lg raw obj K = Ok Y \<and>
    only_server (sys Y) obj \<and> objects Y = [obj \<mapsto> F] \<and> is_server F FSM_Ch_Idle \<and> quiet (ker Y) 4 free \<and>
    length free = 50 \<and> app (ker Y) = app K"
proof -
  obtain F0 F where F: "ChAuto_new raw K = Ok (F0, K\<lparr>attached := False, LogingObject := None\<rparr>)"
    "Initialize (SetGroup (SetObjectId F0 0) 0) = Ok F" "is_server (F\<lparr>Next := NULL\<rparr>) FSM_Ch_Idle"
    using new_server [of raw K 0 0] by blast
  let ?S = "static_sys\<lparr>NumberOfAutomates := 3, NumberOfMbx := 3\<rparr>"
  have S: "FSMSystem_new static_sys 3 3 = Ok ?S"
    by (simp add: FSMSystem_new_def static_sys_def Let_def MAX_NUM_OF_AUTOMATES_TYPES_def replicate_add [symmetric])
  let ?Y = "\<lparr>objects = [obj \<mapsto> F0], sys = ?S, ker = SetLogInterface (Some lg) (K\<lparr>attached := False, LogingObject := None\<rparr>)\<rparr>"
  have m: "kernel_memory base dummy (memory (ker ?Y)) 1 [50] [256]" using mem by (simp add: SetLogInterface_def)
  obtain K1 lens' counts' where 1: "InitKernel dbg base bs created dummy True ?Y 1 (Some [50]) (Some [256]) 1 Timer1s =
      Ok (?Y\<lparr>ker := K1, sys := (sys ?Y)\<lparr>FreeKernelMemory := True\<rparr>\<rparr>)" "arrays_sorted [256] [50] lens' counts'"
    "kernel_ok K1 (replicate (unat (4 :: uint8)) []) (map (class_addrs base counts' lens') [0 ..< unat (1 :: uint8)]) []"
    "BuffersLength (pool K1) = lens' @ replicate (MAX_BUFF_CLASS_NO - unat (1 :: uint8)) 0"
    "semHandle (office K1) = replicate (unat (4 :: uint8)) 0" "LogingObject K1 = LogingObject (ker ?Y)" "app K1 = app (ker ?Y)"
    using InitKernel_ok [OF m, of 1 4 created dbg bs Timer1s] created by auto
  let ?free = "class_addrs base [50] [256] 0"
  have q: "quiet K1 4 ?free" using 1(3-6) one_class [OF 1(2)] lg by (simp add: quiet_def logger_ok_def SetLogInterface_def)
  let ?Y1 = "?Y\<lparr>ker := K1, sys := (sys ?Y)\<lparr>FreeKernelMemory := True\<rparr>\<rparr>"
  let ?Y2 = "?Y1\<lparr>objects := [obj \<mapsto> F\<lparr>Next := NULL\<rparr>], sys := (sys ?Y1)\<lparr>
    Automates := Arr [obj] # replicate 39 NullArr, NumberOfObjects := 1 # replicate 39 0,
    UseFreeAutomateList := True # replicate 39 False,
    FreeAutomates := \<lparr>L_Head = obj, L_Tail = obj, FreeFSMCount = 1\<rparr> # replicate 39 FSMList_new\<rparr>\<rparr>"
  have "Add_type dbg (\<lambda>F K. andThen (Initialize F) (\<lambda>F. Ok (F, K))) ?Y1 obj CH_AUTOMATE_TYPE_ID 1 True = Ok ?Y2"
    using F(2) obj
    by (simp add: Add_type_def Let_def static_sys_def MAX_NUM_OF_AUTOMATES_TYPES_def CH_AUTOMATE_TYPE_ID_def replicate_40 set_array_def
      admit_def FreeFSM_def FL_Add_def FL_PutOnTail_def FSMList_new_def obj_at_def)
  then obtain Y2 where 2: "Add_type dbg (\<lambda>F K. andThen (Initialize F) (\<lambda>F. Ok (F, K))) ?Y1 obj CH_AUTOMATE_TYPE_ID 1 True = Ok Y2"
    "only_server (sys Y2) obj" "objects Y2 = [obj \<mapsto> F\<lparr>Next := NULL\<rparr>]" "ker Y2 = K1"
    using obj by (simp add: only_server_def)
  have "length ?free = 50" by (simp add: class_addrs_def buf_addrs_def)
  then show ?thesis using F(3) q 1(1,7) 2 S F(1)
    by (intro exI [of _ Y2] exI [of _ "F\<lparr>Next := NULL\<rparr>"] exI [of _ ?free])
      (simp add: SystemThread_init_def SetLogInterface_def)
qed

lemma call_ChAuto_Start:
  assumes w: "win32_documented w" and S: "only_server (sys Y) obj" "objects Y = [obj \<mapsto> F]" "is_server F s"
    and q: "quiet (ker Y) n free" "free \<noteq> []"
  shows "\<exists>Y'. call (ChAuto_Start dbg w ws) Y obj = Ok Y' \<and> server_rep Y' (length free) (start_effect ws (app (ker Y)))"
proof -
  obtain s' c G where e: "start_effect ws (app (ker Y)) = (s', c, G)" by (cases "start_effect ws (app (ker Y))")
  have e6: "unat s' < 6" "c \<noteq> Some DISCARDED" using start_effect_code [OF e] by simp_all
  obtain F' K' mss' free' where 1: "commit dbg w F (ker Y) (s', c, G) = Ok (F', K')" "kernel_ok K' mss' [free'] []"
    "logger_ok K'" "21 \<le> BuffersLength (pool K') ! 0" "pending K' mss' c" "length free = length free' + length (mss' ! 0)"
    "is_server F' s'" "app K' = G"
    using commit_ok [OF w q(1) S(3) q(2) e6, where dbg = dbg and G = G] by blast
  have "server_state K' mss' free' (length free) c" using 1 by (simp add: server_state_def)
  moreover have "obj \<noteq> NULL" using S(1) by (simp add: only_server_def)
  ultimately show ?thesis
    using 1(1,7,8) S(1,2) e by (auto simp: call_def obj_at_def ChAuto_Start_effect server_rep_def intro!: exI [of _ obj])
qed

text \<open>The machine makes \<open>n\<close> steps, and the monitor loop takes as many messages.\<close>

fun ch_steps :: "'n winsock \<Rightarrow> 'n stack \<Rightarrow> nat \<Rightarrow> 'n effect \<Rightarrow> 'n effect res" where
  "ch_steps ws J 0 e = Ok e"
| "ch_steps ws J (Suc n) e = andThen (ch_step ws J e) (ch_steps ws J n)"

lemma simulated_bind:
  assumes "simulated R a b" "\<And>x y. R x y \<Longrightarrow> simulated S (f x) (g y)"
  shows "simulated S (andThen a f) (andThen b g)"
  using assms(1) by (cases a rule: res_cases; cases b rule: res_cases) (auto intro: assms(2))

lemma Start_for_server:
  assumes w: "win32_documented w" and N: "2 \<le> N"
  shows "server_rep Y N e \<Longrightarrow>
    simulated (\<lambda>e Y. server_rep Y N e) (ch_steps ws J n e) (Start_for dbg w clk (ch_run dbg w ws J) noFree n k Y)"
proof (induction n arbitrary: e Y k)
  case (Suc n)
  show ?case
    using simulated_bind [OF Start_step_server [OF w Suc.prems N] Suc.IH] by simp
qed simp

text \<open>
  An operating system for the witnesses: it delivers the datagrams of a list and records what
  is sent. Nothing fails; a call of \<^verbatim>\<open>recvfrom\<close> without a datagram does not return.
\<close>

type_synonym ex_net = "(uint8 list \<times> uint8 list) list \<times> (uint8 list \<times> uint8 list) list"

definition ex_ws :: "ex_net winsock" where
  "ex_ws = \<lparr>WSAStartup = Pair True, WSACleanup = id, socket = Pair True, setsockopt = Pair True, bind_socket = Pair True,
     closesocket = id,
     recvfrom = (\<lambda>(ins, outs) size. case ins of [] \<Rightarrow> None | (bs, a) # ins \<Rightarrow> Some (True, take size bs, a, (ins, outs))),
     sendto = (\<lambda>(ins, outs) text a. (True, (ins, outs @ [(text, a)])))\<rparr>"

lemma ex_ws_documented: "winsock_documented ex_ws"
  by (auto simp: winsock_documented_def ex_ws_def split: list.splits)

definition ex_ch_kernel :: "ex_net \<Rightarrow> ex_net Ch kernel" where
  "ex_ch_kernel n = \<lparr>memory = [8 \<mapsto> \<lparr>BUFF_CODE = 0, BUFF_PREV = NULL, BUFF_NEXT = NULL, bytes = replicate 40 0\<rparr>],
     pool = \<lparr>Buffers = [], BuffersLength = [], ClassBufferNum = 0\<rparr>, office = \<lparr>MailBoxes = [], MailBoxesNum = 0, semHandle = []\<rparr>,
     timers = \<lparr>TimerResolution = Timer1s, CsTimer = 0, Timer_Head = NULL\<rparr>, attached = False, LogingObject = None,
     SysLogFlag = 0xffff, CallCounter = 0, app = Ch_globals n\<rparr>"

lemma ex_memory: "kernel_memory (\<lambda>_. 4096) 8 (memory (ex_ch_kernel n)) 1 [50] [256]"
proof -
  have "(8 :: nat) \<notin> set (class_addrs (\<lambda>_. 4096) [50] [256] 0)"
    by (auto simp: class_addrs_def buf_addrs_def buf_addr_def)
  then show ?thesis
    by (auto simp: kernel_memory_def ex_ch_kernel_def TIMER_COUNT_def classes_apart_def class_fits_def BUFF_HEADER_LENGTH_def
        MAX_BUFF_CLASS_NO_def dest!: one_class)
qed

lemma comes_up:
  assumes "win32_documented w" "kernel_memory base dummy (memory K) 1 [50] [256]" "\<forall>i < 4. created i"
    and "length (LogBuffer lg) = 8192" "obj \<noteq> NULL" "obj < 2 ^ 32"
  shows "\<exists>Y Y'. SystemThread_init dbg base bs created dummy True lg raw obj K = Ok Y \<and>
    call (ChAuto_Start dbg w ws) Y obj = Ok Y' \<and> server_rep Y' 50 (start_effect ws (app K))"
proof -
  obtain Y F free where 1: "SystemThread_init dbg base bs created dummy True lg raw obj K = Ok Y" "only_server (sys Y) obj"
    "objects Y = [obj \<mapsto> F]" "is_server F FSM_Ch_Idle" "quiet (ker Y) 4 free" "length free = 50" "app (ker Y) = app K"
    using SystemThread_init_ok [OF assms(2-6)] by blast
  have "free \<noteq> []" using 1(6) by auto
  then show ?thesis using call_ChAuto_Start [OF assms(1) 1(2-5), of dbg ws] 1(1,6,7) by auto
qed

text \<open>A server that has come up, with a client that asks for the list of topics.\<close>

lemma ex_server: "\<exists>Y. server_rep Y 50 (start_effect ex_ws (Ch_globals n))"
proof -
  have "\<exists>(Y :: (ch_proc, ex_net Ch) system) Y'. SystemThread_init True (\<lambda>_. 4096) (\<lambda>_. 0) (\<lambda>_. True) 8 True ex_logger undefined 9 (ex_ch_kernel n) = Ok Y \<and>
    call (ChAuto_Start True ex_win ex_ws) Y 9 = Ok Y' \<and> server_rep Y' 50 (start_effect ex_ws (app (ex_ch_kernel n)))"
    by (rule comes_up [OF ex_win_documented ex_memory]) (simp_all add: ex_logger_def LogInterface_new_def)
  then show ?thesis by (auto simp: ex_ch_kernel_def)
qed

lemma server_rep_system_ok:
  "server_rep Y N (s, c, G) \<Longrightarrow> \<exists>mss free. system_ok Y mss [free] []"
  by (fastforce simp: server_rep_def server_state_def pending_def system_ok_def is_server_def)

text \<open>The transitions, by state and message.\<close>

lemma handler_table:
  "handler_of FSM_Ch_Idle MSG_Channel_Wait_Cl_Message = Some Idle_Cl_Connected"
  "handler_of FSM_Ch_Idle MSG_Channel_Connection_Failed = Some Idle_Cl_Failed"
  "handler_of FSM_Ch_Connected MSG_Stay_Connected = Some Idle_Cl_Connected"
  "handler_of FSM_Ch_Connected MSG_Store_Data_on_Topic = Some Store_Data_SubPub"
  "handler_of FSM_Ch_Store_Data MSG_Share_Data_on_Topic = Some Share_Topic_Data"
  "handler_of FSM_Ch_Store_Data MSG_Share_All_Topics = Some Share_All_Topics_proc"
  "handler_of FSM_Ch_Store_Data MSG_ACK_Notification = Some Publish_ACK"
  "handler_of FSM_Ch_Publish_ACK_State MSG_Stay_Connected = Some Idle_Cl_Connected"
  "handler_of FSM_Ch_Share_All_Topics_State MSG_Stay_Connected = Some Idle_Cl_Connected"
  "handler_of FSM_Ch_Share_Data_on_Topic MSG_Stay_Connected = Some Idle_Cl_Connected"
  by (simp_all add: handler_of_def ch_bindings_def bindings_of_def ch_states ch_codes)

section \<open>Properties of the running server\<close>

text \<open>C3: the server comes up. When the memory the kernel gets does not overlap, the semaphores
  can be created and the thread of the timers can be started, \<^verbatim>\<open>SystemThread\<close> builds a system with one automate, 50 buffers and empty
  mailboxes, and \<^verbatim>\<open>ChAuto::Start\<close> leaves at most one message under way: to wait for clients, or
  that the connection failed; none if winsock could not be started.\<close>

theorem server_comes_up:
  assumes "win32_documented w" "kernel_memory base dummy (memory K) 1 [50] [256]" "\<forall>i < 4. created i"
    and "length (LogBuffer lg) = 8192" "obj \<noteq> NULL" "obj < 2 ^ 32"
  shows "\<exists>Y Y'. SystemThread_init dbg base bs created dummy True lg raw obj K = Ok Y \<and>
    call (ChAuto_Start dbg w ws) Y obj = Ok Y' \<and> server_rep Y' 50 (start_effect ws (app K))"
  by (rule comes_up [OF assms])

theorem server_comes_up_witness:
  "\<exists>(Y :: (ch_proc, ex_net Ch) system) Y'.
    SystemThread_init True (\<lambda>_. 4096) (\<lambda>_. 0) (\<lambda>_. True) 8 True ex_logger undefined 9 (ex_ch_kernel ([], [])) = Ok Y \<and>
    call (ChAuto_Start True ex_win ex_ws) Y 9 = Ok Y' \<and> server_rep Y' 50 (start_effect ex_ws (app (ex_ch_kernel ([], []))))"
  by (rule server_comes_up [OF ex_win_documented ex_memory]) (simp_all add: ex_logger_def LogInterface_new_def)

text \<open>C1: the server refines its machine. From any state in which at most one message is under
  way, the monitor loop with kernel, logging, dispatch and handlers behaves as the machine of
  ten transitions does: it fails, or waits for ever, exactly when the machine does, and else
  ends in the machine's state, message and globals, with all buffers accounted for. In
  particular no step fails for lack of buffers or finds its mailbox in a wrong state.\<close>

theorem server_refines_machine:
  assumes "win32_documented w" "server_rep Y N e" "2 \<le> N"
  shows "simulated (\<lambda>e Y. server_rep Y N e) (ch_steps ws J n e) (Start_for dbg w clk (ch_run dbg w ws J) noFree n k Y)"
  using assms by (intro Start_for_server)

theorem server_refines_machine_witness:
  "\<exists>Y. \<forall>J n clk noFree k. simulated (\<lambda>e Y. server_rep Y 50 e) (ch_steps ex_ws J n (start_effect ex_ws (Ch_globals ([], []))))
    (Start_for True ex_win clk (ch_run True ex_win ex_ws J) noFree n k Y)"
proof -
  obtain Y where Y: "server_rep Y 50 (start_effect ex_ws (Ch_globals ([], [])))" using ex_server by blast
  show ?thesis by (intro exI [of _ Y] allI server_refines_machine [OF ex_win_documented Y]) simp
qed

text \<open>C4: no buffer is lost. However many messages the server processes, whatever clients send and
  even if sending fails, every buffer is afterwards in exactly one mailbox, free list or timer
  list, as before.\<close>

theorem server_loses_no_buffer:
  assumes "win32_documented w" "system_ok Y mss xss ts"
    and "Start_for dbg w clk (ch_run dbg w ws J) noFree n k Y = Ok Y'"
  shows "\<exists>mss' xss' ts'. system_ok Y' mss' xss' ts' \<and> length mss' = length mss \<and>
    holdings mss' xss' ts' = holdings mss xss ts"
  by (rule ch.Start_for_ok [OF assms])

theorem server_loses_no_buffer_witness:
  "\<forall>J clk noFree. \<exists>(Y :: (ch_proc, ex_net Ch) system) Y' mss free mss' xss' ts'. system_ok Y mss [free] [] \<and>
    Start_for True ex_win clk (ch_run True ex_win ex_ws J) noFree 1 0 Y = Ok Y' \<and>
    system_ok Y' mss' xss' ts' \<and> length mss' = length mss \<and> holdings mss' xss' ts' = holdings mss [free] []"
proof (intro allI)
  fix J clk and noFree :: "(ch_proc, ex_net Ch) meth"
  let ?n = "([(str ''LIST'', [])], []) :: ex_net" and ?run = "ch_run True ex_win ex_ws J"
  obtain Y where Y: "server_rep Y 50 (start_effect ex_ws (Ch_globals ?n))" using ex_server by blast
  have "simulated (\<lambda>e Y. server_rep Y 50 e) (ch_steps ex_ws J 1 (start_effect ex_ws (Ch_globals ?n)))
      (Start_for True ex_win clk ?run noFree 1 0 Y)"
    by (rule Start_for_server [OF ex_win_documented _ Y]) simp
  moreover obtain e where "ch_steps ex_ws J 1 (start_effect ex_ws (Ch_globals ?n)) = Ok e"
    by (simp add: start_effect_def ex_ws_def handler_table ch_effect_def in_state_def receive_def Ch_globals_def str_def
        memcpy_def BUFFER_SIZE_def c_strlen_zeros)
  ultimately obtain Y' where Y': "Start_for True ex_win clk ?run noFree 1 0 Y = Ok Y'"
    by (cases "Start_for True ex_win clk ?run noFree 1 0 Y" rule: res_cases) auto
  obtain mss free where "system_ok Y mss [free] []"
    using server_rep_system_ok Y by (metis prod_cases3)
  then show "\<exists>(Y :: (ch_proc, ex_net Ch) system) Y' mss free mss' xss' ts'. system_ok Y mss [free] [] \<and>
      Start_for True ex_win clk ?run noFree 1 0 Y = Ok Y' \<and>
      system_ok Y' mss' xss' ts' \<and> length mss' = length mss \<and> holdings mss' xss' ts' = holdings mss [free] []"
    using server_loses_no_buffer [OF ex_win_documented _ Y'] Y' by metis
qed

text \<open>The states the machine can come to; what uninitialised arrays hold may differ in every step.\<close>

inductive reached :: "'n winsock \<Rightarrow> 'n Ch \<Rightarrow> 'n effect \<Rightarrow> bool" for ws G0 where
  start: "reached ws G0 (start_effect ws G0)"
| step: "reached ws G0 e \<Longrightarrow> ch_step ws J e = Ok e' \<Longrightarrow> reached ws G0 e'"

definition expected :: "'n effect \<Rightarrow> bool" where
  "expected e \<longleftrightarrow> (case e of (s, None, G) \<Rightarrow> True | (s, Some c, G) \<Rightarrow> handler_of s c \<noteq> None)"

lemma ch_effect_expected:
  assumes "ch_effect ws J p G = Ok e"
  shows "expected e"
  using assms
  by (cases p) (auto simp: ch_effect_def in_state_def receive_def store_data_def expected_def handler_table
      split: option.splits prod.splits if_splits dest!: reply_code)

text \<open>C5: no unexpected event. In every state the server comes to, its state has a transition for
  the message under way, so the table lookup never falls back to the procedure for
  unexpected events.\<close>

theorem every_message_is_expected:
  assumes "reached ws G0 e"
  shows "expected e"
  using assms
proof induction
  case start
  then show ?case by (auto simp: start_effect_def expected_def handler_table Let_def case_prod_beta split: if_splits)
next
  case (step e J e')
  then show ?case
    by (cases e; cases "fst (snd e)") (auto simp: expected_def dest: ch_effect_expected split: option.splits)
qed

theorem every_message_is_expected_witness:
  "\<exists>e. reached ex_ws (Ch_globals ([(str ''LIST'', [])], [])) e \<and> fst e = FSM_Ch_Connected \<and> expected e"
proof -
  let ?G = "Ch_globals ([(str ''LIST'', [])], [])"
  obtain e where e: "ch_step ex_ws J (start_effect ex_ws ?G) = Ok e" "fst e = FSM_Ch_Connected" for J
    by (simp add: start_effect_def ex_ws_def handler_table ch_effect_def in_state_def receive_def Ch_globals_def str_def
        memcpy_def BUFFER_SIZE_def c_strlen_zeros)
  have "reached ex_ws ?G e" by (rule reached.step [OF reached.start e(1)])
  then show ?thesis using every_message_is_expected e(2) by blast
qed

end
