(* ===== verification/Ch_Topics.thy ===== *)
theory Ch_Topics
  imports Ch_Main "HOL-Library.Sublist"
begin

text \<open>
  The data of the server: what its loops over C strings compute, on the texts of the topics.
  A text is a name, a colon and the data; the server keeps it as a C string in an array.
\<close>

section \<open>Arrays written from an index on\<close>

text \<open>\<open>written dst j xs\<close>: the array after \<open>xs\<close> was stored from index \<open>j\<close> on.\<close>

definition written :: "uint8 list \<Rightarrow> nat \<Rightarrow> uint8 list \<Rightarrow> uint8 list" where
  "written dst j xs = take j dst @ xs @ drop (j + length xs) dst"

lemma length_written [simp]: "j + length xs \<le> length dst \<Longrightarrow> length (written dst j xs) = length dst"
  by (simp add: written_def)

lemma written_Nil [simp]: "written dst j [] = dst"
  by (simp add: written_def)

lemma written_Cons: "j < length dst \<Longrightarrow> written (dst[j := x]) (Suc j) xs = written dst j (x # xs)"
  by (simp add: written_def upd_conv_take_nth_drop take_Suc_conv_app_nth ac_simps)

lemma written_append: "j + length xs + length ys \<le> length dst \<Longrightarrow>
  written (written dst j xs) (j + length xs) ys = written dst j (xs @ ys)"
  by (simp add: written_def ac_simps)

lemma written_upd: "j + length xs < length dst \<Longrightarrow> (written dst j xs)[j + length xs := x] = written dst j (xs @ [x])"
  using written_append [of j xs "[x]" dst] by (simp add: written_def list_update_append upd_conv_take_nth_drop)

lemma written_string: "0 \<notin> set xs \<Longrightarrow> length xs < length dst \<Longrightarrow> string_in (written dst 0 (xs @ [0])) xs"
  by (simp add: written_def)

lemma copy_until_ok:
  assumes "c \<notin> set xs" "j + length xs \<le> length dst"
  shows "copy_until c (pre @ xs @ c # post) (length pre) dst j = Ok (length pre + length xs, written dst j xs, j + length xs)"
  using assms
proof (induction xs arbitrary: pre dst j)
  case Nil
  then show ?case by (subst copy_until.simps) simp
next
  case (Cons x xs)
  have "copy_until c ((pre @ [x]) @ xs @ c # post) (length (pre @ [x])) (dst[j := x]) (Suc j) =
      Ok (length (pre @ [x]) + length xs, written (dst[j := x]) (Suc j) xs, Suc j + length xs)"
    by (rule Cons.IH) (use Cons.prems in auto)
  then show ?case using Cons.prems by (subst copy_until.simps) (auto simp: written_Cons nth_append)
qed

lemma copy_until_at:
  assumes "drop i src = xs @ c # post" "c \<notin> set xs" "j + length xs \<le> length dst"
  shows "copy_until c src i dst j = Ok (i + length xs, written dst j xs, j + length xs)"
proof -
  have "drop i src \<noteq> []" unfolding assms(1) by simp
  then have i: "length (take i src) = i" by simp
  have "take i src @ xs @ c # post = src" unfolding assms(1) [symmetric] by simp
  then show ?thesis using copy_until_ok [OF assms(2,3), of "take i src" post] unfolding i by simp
qed

lemma copy_n_ok:
  assumes "i + n \<le> length src" "k + n \<le> length dst"
  shows "copy_n n src i dst k = Ok (written dst k (take n (drop i src)))"
  using assms
proof (induction n arbitrary: i dst k)
  case (Suc n)
  then have "take (Suc n) (drop i src) = src ! i # take n (drop (Suc i) src)"
    by (simp add: Cons_nth_drop_Suc [symmetric])
  then show ?case using Suc by (simp add: written_Cons)
qed simp

section \<open>The topics\<close>

definition name :: "uint8 list \<Rightarrow> uint8 list" where
  "name r = takeWhile (\<lambda>c. c \<noteq> COLON) r"

text \<open>A text the loops can work with: it has a name, which fits its array and does not end a message.\<close>

definition topic_text :: "uint8 list \<Rightarrow> bool" where
  "topic_text r \<longleftrightarrow> COLON \<in> set r \<and> length (name r) < TOPIC_BUFFER_SIZE \<and> BACKQUOTE \<notin> set (name r)"

text \<open>\<open>serves G rs\<close>: the server has data on the topics with the texts \<open>rs\<close>.\<close>

definition serves :: "'n Ch \<Rightarrow> uint8 list list \<Rightarrow> bool" where
  "serves G rs \<longleftrightarrow> publisherCounter G = length rs \<and> (\<forall>r \<in> set rs. topic_text r) \<and>
     (\<forall>j < length rs. \<exists>row. server_row G j = Ok row \<and> string_in row (rs ! j))"

lemma servesE:
  assumes "serves G rs" "j < length rs"
  obtains row where "server_row G j = Ok row" "string_in row (rs ! j)" "topic_text (rs ! j)" "0 \<notin> set (rs ! j)"
  using assms by (force simp: serves_def string_in_def)

lemma name_append: "COLON \<notin> set n \<Longrightarrow> name (n @ COLON # d) = n"
  unfolding name_def by (subst takeWhile_append2) auto

lemma name_split: "COLON \<in> set r \<Longrightarrow> \<exists>d. r = name r @ COLON # d"
  by (metis split_list_first name_append)

lemma name_no_colon [simp]: "COLON \<notin> set (name r)"
  by (auto simp: name_def dest: set_takeWhileD)

lemma name_subset: "set (name r) \<subseteq> set r"
  by (auto simp: name_def dest: set_takeWhileD)

text \<open>The globals once \<^verbatim>\<open>ChAuto::Start\<close> has run: four topics.\<close>

definition started :: "'n Ch \<Rightarrow> 'n Ch" where
  "started G = G\<lparr>allServerData := map (Some \<circ> Topic) [0 ..< 4] @ drop 4 (allServerData G)\<rparr>"

subsection \<open>Looking a topic up\<close>

lemma getTopic_ok:
  assumes r: "string_in row r" "topic_text r" and tmp: "length tmp = TOPIC_BUFFER_SIZE"
  shows "\<exists>tmp'. getTopic row tmp = Ok tmp' \<and> string_in tmp' (name r)"
proof -
  obtain rest where row: "row = r @ 0 # rest" "0 \<notin> set r" using r(1) by (rule string_inE)
  obtain d where d: "r = name r @ COLON # d" using name_split r(2) by (auto simp: topic_text_def)
  have len: "length (name r) < length tmp" using r(2) tmp by (simp add: topic_text_def)
  have "drop 0 row = name r @ COLON # d @ 0 # rest" using row(1) d by (metis append_Cons append_assoc drop_0)
  then have "copy_until COLON row 0 tmp 0 = Ok (0 + length (name r), written tmp 0 (name r), 0 + length (name r))"
    by (rule copy_until_at) (use len in simp_all)
  then have "getTopic row tmp = Ok (written tmp 0 (name r @ [0]))"
    using len written_upd [of 0 "name r" tmp 0] by (simp add: getTopic_def)
  moreover have "0 \<notin> set (name r)" using name_subset row(2) by blast
  ultimately show ?thesis using written_string [of "name r" tmp] len by blast
qed

lemma find_topic_ok:
  assumes G: "serves G rs" and t: "string_in (currentTopic G) t" and J: "junk_ok J" and js: "\<forall>j \<in> set js. j < length rs"
  shows "find_topic J G js = Ok (find (\<lambda>j. name (rs ! j) = t) js)"
  using js
proof (induction js)
  case (Cons j js)
  obtain row where row: "server_row G j = Ok row" "string_in row (rs ! j)" "topic_text (rs ! j)"
    by (rule servesE [OF G, of j]) (use Cons.prems in auto)
  obtain tmp where "getTopic row (J TopicTmp) = Ok tmp" "string_in tmp (name (rs ! j))"
    using getTopic_ok [OF row(2,3), of "J TopicTmp"] J by (auto simp: junk_ok_def)
  then show ?case using row(1) Cons c_streq_ok [OF t] by auto
qed simp

subsection \<open>The list of topics\<close>

definition listing :: "uint8 list list \<Rightarrow> uint8 list" where
  "listing rs = concat (map (\<lambda>r. name r @ [NEWLINE]) rs) @ [BACKQUOTE]"

lemma copy_name_ok:
  assumes "COLON \<notin> set n" "k + length n < length buf"
  shows "copy_name (n @ COLON # d) buf k = Ok (written buf k (n @ [NEWLINE]), k + length n + 1)"
  using assms
proof (induction n arbitrary: buf k)
  case Nil
  then show ?case using written_upd [of k "[]" buf] by simp
next
  case (Cons c n)
  then show ?case by (auto simp: written_Cons)
qed

lemma copy_names_ok:
  assumes G: "serves G rs" and js: "\<forall>j \<in> set js. j < length rs"
    and len: "k + length (concat (map (\<lambda>j. name (rs ! j) @ [NEWLINE]) js)) \<le> length buf"
  shows "copy_names G js buf k = Ok (written buf k (concat (map (\<lambda>j. name (rs ! j) @ [NEWLINE]) js)),
    k + length (concat (map (\<lambda>j. name (rs ! j) @ [NEWLINE]) js)))"
  using js len
proof (induction js arbitrary: buf k)
  case (Cons j js)
  let ?n = "name (rs ! j)"
  obtain row where row: "server_row G j = Ok row" "string_in row (rs ! j)" "topic_text (rs ! j)"
    by (rule servesE [OF G, of j]) (use Cons.prems in auto)
  obtain d where d: "rs ! j = ?n @ COLON # d" using name_split row(3) by (auto simp: topic_text_def)
  have c: "cstr row = ?n @ COLON # d" using cstr_string_in [OF row(2)] d by simp
  have "copy_name (?n @ COLON # d) buf k = Ok (written buf k (?n @ [NEWLINE]), k + length ?n + 1)"
    by (rule copy_name_ok) (use Cons.prems(2) in simp_all)
  then show ?case
    using Cons.IH [of "k + length ?n + 1" "written buf k (?n @ [NEWLINE])"] Cons.prems row(1) c_strlen_ok [OF row(2)] c
      written_append [of k "?n @ [NEWLINE]" _ buf] by simp
qed simp

lemma all_topics_ok:
  assumes G: "serves G rs" and J: "junk_ok J" and len: "length (listing rs) < BUFFER_SIZE"
  shows "\<exists>buf. all_topics J G = Ok buf \<and> string_in buf (listing rs)"
proof -
  let ?L = "concat (map (\<lambda>r. name r @ [NEWLINE]) rs)" and ?J = "J AllTopicBuffer"
  have eq: "concat (map (\<lambda>j. name (rs ! j) @ [NEWLINE]) [0 ..< length rs]) = ?L"
    by (metis (no_types, lifting) map_nth map_map comp_apply map_eq_conv)
  have l: "length ?J = BUFFER_SIZE" "length ?L + 1 < BUFFER_SIZE" using J len by (simp_all add: junk_ok_def listing_def)
  have "copy_names G [0 ..< length rs] ?J 0 = Ok (written ?J 0 ?L, 0 + length ?L)"
    using copy_names_ok [OF G, of "[0 ..< length rs]" 0 ?J] l unfolding eq by simp
  moreover have "wr (written ?J 0 ?L) (length ?L) BACKQUOTE = Ok (written ?J 0 (listing rs))"
    using l written_upd [of 0 ?L ?J BACKQUOTE] by (simp add: listing_def)
  moreover have "wr (written ?J 0 (listing rs)) (Suc (length ?L)) 0 = Ok (written ?J 0 (listing rs @ [0]))"
    using l written_upd [of 0 "listing rs" ?J 0] by (simp add: listing_def)
  ultimately have "all_topics J G = Ok (written ?J 0 (listing rs @ [0]))"
    using G by (simp add: all_topics_def serves_def)
  moreover have "0 \<notin> set (listing rs)"
  proof -
    have "0 \<notin> set (name r)" if "r \<in> set rs" for r
      using that servesE [OF G] name_subset by (metis in_set_conv_nth subsetD)
    then show ?thesis by (auto simp: listing_def ch_chars set_concat)
  qed
  ultimately show ?thesis using written_string [of "listing rs" ?J] len l(1) by auto
qed

subsection \<open>The data on a topic\<close>

text \<open>
  What the answer to \<open>SUB t\<close> says. The rows are searched in order. A row whose name is a prefix
  of \<open>t\<close> (not only one that equals it) is answered, up to the first backquote, which may come
  rows later; of every row before it, the letters its name shares with \<open>t\<close> stay in the answer.
\<close>

fun agree :: "uint8 list \<Rightarrow> uint8 list \<Rightarrow> uint8 list" where
  "agree (a # as) (b # bs) = (if a = b then a # agree as bs else [])"
| "agree _ _ = []"

fun found_text :: "uint8 list \<Rightarrow> uint8 list list \<Rightarrow> uint8 list" where
  "found_text t [] = []"
| "found_text t (r # rs) =
     (if prefix (name r) t then takeWhile (\<lambda>c. c \<noteq> BACKQUOTE) (concat (r # rs)) else agree (name r) t @ found_text t rs)"

definition emitted :: "scan \<Rightarrow> uint8 list \<Rightarrow> scan \<Rightarrow> bool" where
  "emitted s xs s' \<longleftrightarrow> length (onTopicData s') = length (onTopicData s) \<and> scan_n s' = scan_n s + length xs \<and>
     take (scan_n s') (onTopicData s') = take (scan_n s) (onTopicData s) @ xs"

lemma emitted_trans: "emitted s xs s' \<Longrightarrow> emitted s' ys s'' \<Longrightarrow> emitted s (xs @ ys) s''"
  unfolding emitted_def by (metis append_assoc add.assoc length_append)

lemma emitted_Nil [simp]: "emitted s [] s"
  by (simp add: emitted_def)

lemma emitted_flags [simp]:
  "emitted (s\<lparr>eq := e\<rparr>) xs s' = emitted s xs s'" "emitted (s\<lparr>finished := f\<rparr>) xs s' = emitted s xs s'"
  "emitted (s\<lparr>scan_k := k\<rparr>) xs s' = emitted s xs s'"
  "emitted s xs (s'\<lparr>eq := e\<rparr>) = emitted s xs s'" "emitted s xs (s'\<lparr>scan_k := k\<rparr>) = emitted s xs s'"
  by (simp_all add: emitted_def)

lemma scan_copy_ok:
  assumes "eq s" "scan_n s < length (onTopicData s)"
  shows "\<exists>s'. scan_copy s c = Ok s' \<and> emitted s (if c = BACKQUOTE then [] else [c]) s' \<and> eq s' \<and>
    (found s' \<longleftrightarrow> found s \<or> c = BACKQUOTE) \<and> finished s' = finished s \<and> scan_k s' = scan_k s"
  using assms by (simp add: scan_copy_def emitted_def take_Suc_conv_app_nth)

lemma scan_row_copies:
  assumes "eq s" "finished s" "\<not> found s"
    and "scan_n s + length (takeWhile (\<lambda>c. c \<noteq> BACKQUOTE) cs) < length (onTopicData s)"
  shows "\<exists>s'. scan_row topic cs s = Ok s' \<and> emitted s (takeWhile (\<lambda>c. c \<noteq> BACKQUOTE) cs) s' \<and> eq s' \<and> finished s' \<and>
    (found s' \<longleftrightarrow> BACKQUOTE \<in> set cs)"
  using assms
proof (induction cs arbitrary: s)
  case (Cons c cs)
  have s: "(if c = COLON then s\<lparr>eq := True, finished := True\<rparr> else s) = s" using Cons.prems(1,2) by (cases s) auto
  obtain s1 where 1: "scan_copy s c = Ok s1" "emitted s (if c = BACKQUOTE then [] else [c]) s1" "eq s1"
    "found s1 \<longleftrightarrow> found s \<or> c = BACKQUOTE" "finished s1 = finished s"
    using scan_copy_ok [OF Cons.prems(1)] Cons.prems(4) by force
  show ?case
  proof (cases "c = BACKQUOTE")
    case True
    then show ?thesis using 1 s Cons.prems(2) by simp
  next
    case False
    have "scan_n s1 + length (takeWhile (\<lambda>c. c \<noteq> BACKQUOTE) cs) < length (onTopicData s1)"
      using 1(2) Cons.prems(4) False by (simp add: emitted_def)
    then obtain s2 where "scan_row topic cs s1 = Ok s2" "emitted s1 (takeWhile (\<lambda>c. c \<noteq> BACKQUOTE) cs) s2" "eq s2"
      "finished s2" "found s2 \<longleftrightarrow> BACKQUOTE \<in> set cs"
      using Cons.IH [of s1] 1 Cons.prems False by auto
    then show ?thesis using 1 s Cons.prems(2,3) False emitted_trans [of s "[c]" s1] by auto
  qed
qed simp

lemma length_takeWhile_append: "length (takeWhile P xs) \<le> length (takeWhile P (xs @ ys))"
  by (induction xs) auto

lemma takeWhile_app: "takeWhile P (xs @ ys) = takeWhile P xs @ (if \<forall>x \<in> set xs. P x then takeWhile P ys else [])"
  by (induction xs) auto

lemma scan_rows_copies:
  assumes G: "serves G rs" and js: "\<forall>j \<in> set js. j < length rs"
    and s: "eq s" "finished s"
    and len: "scan_n s + (if found s then 0 else length (takeWhile (\<lambda>c. c \<noteq> BACKQUOTE) (concat (map ((!) rs) js)))) < length (onTopicData s)"
  shows "\<exists>s'. scan_rows G js s = Ok s' \<and>
    emitted s (if found s then [] else takeWhile (\<lambda>c. c \<noteq> BACKQUOTE) (concat (map ((!) rs) js))) s'"
  using js s len
proof (induction js arbitrary: s)
  case (Cons j js)
  show ?case
  proof (cases "found s")
    case True
    then show ?thesis by (intro exI [of _ s]) simp
  next
    case False
    let ?t = "takeWhile (\<lambda>c. c \<noteq> BACKQUOTE)"
    obtain row where row: "server_row G j = Ok row" "string_in row (rs ! j)"
      by (rule servesE [OF G, of j]) (use Cons.prems in auto)
    have l: "length (?t (rs ! j)) \<le> length (?t (rs ! j @ concat (map ((!) rs) js)))"
      by (rule length_takeWhile_append)
    obtain s1 where 1: "scan_row (currentTopic G) (rs ! j) s = Ok s1" "emitted s (?t (rs ! j)) s1" "eq s1" "finished s1"
      "found s1 \<longleftrightarrow> BACKQUOTE \<in> set (rs ! j)"
      using scan_row_copies [OF Cons.prems(2,3) False, of "rs ! j" "currentTopic G"] Cons.prems(4) False l by auto
    have run: "scan_rows G (j # js) s = scan_rows G js s1"
      using False row(1) c_strlen_ok [OF row(2)] cstr_string_in [OF row(2)] 1(1) by simp
    show ?thesis
    proof (cases "BACKQUOTE \<in> set (rs ! j)")
      case True
      then have "scan_rows G js s1 = Ok s1" using 1(5) by (cases js) simp_all
      moreover have "?t (concat (map ((!) rs) (j # js))) = ?t (rs ! j)" using True by (auto simp: takeWhile_app)
      ultimately have "scan_rows G (j # js) s = Ok s1" "emitted s (?t (concat (map ((!) rs) (j # js)))) s1"
        using run 1(2) by (simp_all only:)
      then show ?thesis using False by (simp del: scan_rows.simps)
    next
      case nb: False
      then have t: "?t (rs ! j @ concat (map ((!) rs) js)) = ?t (rs ! j) @ ?t (concat (map ((!) rs) js))"
        by (auto simp: takeWhile_app)
      have "scan_n s1 + length (?t (concat (map ((!) rs) js))) < length (onTopicData s1)"
        using 1(2) Cons.prems(4) False t by (simp add: emitted_def)
      then obtain s2 where "scan_rows G js s1 = Ok s2" "emitted s1 (?t (concat (map ((!) rs) js))) s2"
        using Cons.IH [of s1] 1(3-5) nb Cons.prems(1) by auto
      then show ?thesis using run emitted_trans [OF 1(2)] t False by auto
    qed
  qed
qed simp

text \<open>While no colon was seen, the row is compared with the rest \<open>u\<close> of the topic.\<close>

lemma scan_row_matches:
  assumes u: "drop (scan_k s) topic = u @ 0 # rest" "0 \<notin> set n" "COLON \<notin> set n" "BACKQUOTE \<notin> set n"
    and s: "\<not> finished s" "\<not> found s"
    and len: "scan_n s + length (if prefix n u then takeWhile (\<lambda>c. c \<noteq> BACKQUOTE) (n @ COLON # d) else agree n u) < length (onTopicData s)"
  shows "\<exists>s'. scan_row topic (n @ COLON # d) s = Ok s' \<and>
    emitted s (if prefix n u then takeWhile (\<lambda>c. c \<noteq> BACKQUOTE) (n @ COLON # d) else agree n u) s' \<and>
    (if prefix n u then eq s' \<and> finished s' \<and> (found s' \<longleftrightarrow> BACKQUOTE \<in> set d)
     else \<not> finished s' \<and> \<not> found s' \<and> scan_k s' = 0)"
  using assms
proof (induction n arbitrary: s u)
  case Nil
  have c: "COLON \<noteq> BACKQUOTE" by (simp add: ch_chars)
  let ?s = "s\<lparr>eq := True, finished := True\<rparr>"
  obtain s1 where 1: "scan_copy ?s COLON = Ok s1" "emitted s [COLON] s1" "eq s1" "\<not> found s1" "finished s1"
    using scan_copy_ok [of ?s COLON] Nil.prems(6,7) c by auto
  have "scan_n s1 + length (takeWhile (\<lambda>c. c \<noteq> BACKQUOTE) d) < length (onTopicData s1)"
    using 1(2) Nil.prems(7) c by (simp add: emitted_def)
  then obtain s2 where "scan_row topic d s1 = Ok s2" "emitted s1 (takeWhile (\<lambda>c. c \<noteq> BACKQUOTE) d) s2" "eq s2" "finished s2"
    "found s2 \<longleftrightarrow> BACKQUOTE \<in> set d"
    using scan_row_copies [OF 1(3,5,4)] by blast
  then show ?case using 1 c emitted_trans [OF 1(2)] by auto
next
  case (Cons c n)
  have k: "scan_k s < length topic" and t: "topic ! scan_k s = hd (u @ [0])"
    using Cons.prems(1) by (cases "scan_k s < length topic", simp_all) (metis Nil_is_append_conv hd_append2 hd_drop_conv_nth list.sel(1) self_append_conv2 append_Nil neq_Nil_conv drop_eq_Nil not_le_imp_less hd_append)
  show ?case
  proof (cases "u \<noteq> [] \<and> hd u = c")
    case False
    then have "c \<noteq> topic ! scan_k s" using t Cons.prems(2) by (cases u) auto
    then show ?thesis
      using False Cons.prems k by (cases u) (auto simp: rd_def)
  next
    case True
    then obtain v where v: "u = c # v" by (cases u) auto
    let ?s = "s\<lparr>scan_k := Suc (scan_k s), eq := True\<rparr>"
    obtain s1 where 1: "scan_copy ?s c = Ok s1" "emitted s [c] s1" "\<not> found s1" "\<not> finished s1" "scan_k s1 = Suc (scan_k s)"
      using scan_copy_ok [of ?s c] Cons.prems v by auto
    have "drop (scan_k s1) topic = v @ 0 # rest"
      using Cons.prems(1) v 1(5) by (metis append_Cons drop_Suc list.sel(3) tl_drop)
    moreover have "scan_n s1 + length (if prefix n v then takeWhile (\<lambda>c. c \<noteq> BACKQUOTE) (n @ COLON # d) else agree n v) < length (onTopicData s1)"
      using 1(2) Cons.prems(4,7) v by (auto simp: emitted_def)
    ultimately obtain s2 where "scan_row topic (n @ COLON # d) s1 = Ok s2"
      "emitted s1 (if prefix n v then takeWhile (\<lambda>c. c \<noteq> BACKQUOTE) (n @ COLON # d) else agree n v) s2"
      "if prefix n v then eq s2 \<and> finished s2 \<and> (found s2 \<longleftrightarrow> BACKQUOTE \<in> set d)
       else \<not> finished s2 \<and> \<not> found s2 \<and> scan_k s2 = 0"
      using Cons.IH [of s1 v] Cons.prems 1 by auto
    then show ?thesis
      using 1 k t v Cons.prems emitted_trans [OF 1(2)] by (auto simp: rd_def split: if_splits)
  qed
qed

lemma scan_rows_finds:
  assumes G: "serves G rs" and t: "string_in (currentTopic G) t" and js: "\<forall>j \<in> set js. j < length rs"
    and s: "\<not> finished s" "\<not> found s" "scan_k s = 0"
    and len: "scan_n s + length (found_text t (map ((!) rs) js)) < length (onTopicData s)"
  shows "\<exists>s'. scan_rows G js s = Ok s' \<and> emitted s (found_text t (map ((!) rs) js)) s'"
  using js s len
proof (induction js arbitrary: s)
  case (Cons j js)
  let ?n = "name (rs ! j)" and ?u = "\<lambda>c. c \<noteq> BACKQUOTE"
  obtain row where row: "server_row G j = Ok row" "string_in row (rs ! j)" "topic_text (rs ! j)" "0 \<notin> set (rs ! j)"
    by (rule servesE [OF G, of j]) (use Cons.prems in auto)
  obtain d where d: "rs ! j = ?n @ COLON # d" using name_split row(3) by (auto simp: topic_text_def)
  obtain rest where rest: "currentTopic G = t @ 0 # rest" using t by (rule string_inE)
  have run: "scan_rows G (j # js) s = andThen (scan_row (currentTopic G) (?n @ COLON # d) s) (scan_rows G js)"
    using Cons.prems(3) row(1) c_strlen_ok [OF row(2)] cstr_string_in [OF row(2)] d by simp
  have n: "0 \<notin> set ?n" "BACKQUOTE \<notin> set ?n" using row(3,4) name_subset by (auto simp: topic_text_def)
  show ?case
  proof (cases "prefix ?n t")
    case True
    let ?b = "concat (map ((!) rs) js)"
    have found: "BACKQUOTE \<in> set (?n @ COLON # d) \<longleftrightarrow> BACKQUOTE \<in> set d" using n(2) by (simp add: ch_chars)
    have ft: "found_text t (map ((!) rs) (j # js)) =
        takeWhile ?u (?n @ COLON # d) @ (if BACKQUOTE \<in> set d then [] else takeWhile ?u ?b)"
      using True takeWhile_app [of ?u "?n @ COLON # d" ?b] found d by auto
    obtain s1 where 1: "scan_row (currentTopic G) (?n @ COLON # d) s = Ok s1" "emitted s (takeWhile ?u (?n @ COLON # d)) s1"
      "eq s1" "finished s1" "found s1 \<longleftrightarrow> BACKQUOTE \<in> set d"
      using scan_row_matches [of s "currentTopic G" t rest ?n d] True rest n Cons.prems ft by auto
    have "scan_n s1 + (if found s1 then 0 else length (takeWhile ?u ?b)) < length (onTopicData s1)"
      using 1(2,5) Cons.prems(5) ft by (auto simp: emitted_def)
    then obtain s2 where "scan_rows G js s1 = Ok s2" "emitted s1 (if found s1 then [] else takeWhile ?u ?b) s2"
      using scan_rows_copies [OF G _ 1(3,4), of js] Cons.prems(1) by auto
    then show ?thesis using emitted_trans [OF 1(2)] 1(1,5) by (auto simp only: run ft andThen_simps)
  next
    case False
    have ft: "found_text t (map ((!) rs) (j # js)) = agree ?n t @ found_text t (map ((!) rs) js)" using False by simp
    obtain s1 where 1: "scan_row (currentTopic G) (?n @ COLON # d) s = Ok s1" "emitted s (agree ?n t) s1"
      "\<not> finished s1" "\<not> found s1" "scan_k s1 = 0"
      using scan_row_matches [of s "currentTopic G" t rest ?n d] False rest n Cons.prems ft by auto
    have "scan_n s1 + length (found_text t (map ((!) rs) js)) < length (onTopicData s1)"
      using 1(2) Cons.prems(5) ft by (simp add: emitted_def)
    then obtain s2 where "scan_rows G js s1 = Ok s2" "emitted s1 (found_text t (map ((!) rs) js)) s2"
      using Cons.IH [of s1] 1(3-5) Cons.prems(1) by auto
    then show ?thesis using emitted_trans [OF 1(2)] 1(1) by (auto simp only: run ft andThen_simps)
  qed
qed simp

lemma agree_subset: "set (agree as bs) \<subseteq> set as"
  by (induction as bs rule: agree.induct) auto

lemma found_text_subset: "set (found_text t rs) \<subseteq> (\<Union>r \<in> set rs. set r)"
proof (induction rs)
  case (Cons r rs)
  have "set (agree (name r) t) \<subseteq> set r" using agree_subset name_subset by blast
  then show ?case using Cons by (auto dest: set_takeWhileD)
qed simp

lemma topic_data_ok:
  assumes G: "serves G rs" and t: "string_in (currentTopic G) t" and J: "junk_ok J"
    and len: "length (found_text t rs) + 2 \<le> BUFFER_SIZE"
  shows "\<exists>buf. topic_data J G = Ok buf \<and> string_in buf (found_text t rs @ [BACKQUOTE])"
proof -
  let ?T = "found_text t rs"
  let ?s = "\<lparr>onTopicData = J OnTopicData, scan_n = 0, scan_k = 0, eq = True, finished = False, found = False\<rparr>"
  have l: "length (J OnTopicData) = BUFFER_SIZE" using J by (simp add: junk_ok_def)
  have rs: "map ((!) rs) [0 ..< length rs] = rs" by (rule map_nth)
  obtain s where s: "scan_rows G [0 ..< length rs] ?s = Ok s" "emitted ?s ?T s"
    using scan_rows_finds [OF G t, of "[0 ..< length rs]" ?s] l len unfolding rs by auto
  have n: "scan_n s = length ?T" "length (onTopicData s) = BUFFER_SIZE" "take (length ?T) (onTopicData s) = ?T"
    using s(2) l by (auto simp: emitted_def)
  have "topic_data J G = Ok ((onTopicData s)[length ?T := BACKQUOTE, Suc (length ?T) := 0])"
    using G s(1) n(1,2) len by (simp add: topic_data_def serves_def)
  moreover have w: "onTopicData s = written (onTopicData s) 0 ?T"
    using n(3) append_take_drop_id [of "length ?T" "onTopicData s"] by (simp add: written_def)
  have "(onTopicData s)[length ?T := BACKQUOTE, Suc (length ?T) := 0] = written (onTopicData s) 0 ((?T @ [BACKQUOTE]) @ [0])"
    using written_upd [of 0 ?T "onTopicData s" BACKQUOTE] written_upd [of 0 "?T @ [BACKQUOTE]" "onTopicData s" 0] n(2) len
    unfolding w [symmetric] by simp
  moreover have "0 \<notin> set (?T @ [BACKQUOTE])"
  proof -
    have "0 \<notin> set r" if "r \<in> set rs" for r using that servesE [OF G] by (metis in_set_conv_nth)
    then show ?thesis using found_text_subset [of t rs] by (auto simp: ch_chars)
  qed
  ultimately show ?thesis using written_string [of "?T @ [BACKQUOTE]" "onTopicData s"] n(2) len by simp
qed

end
