(* ===== verification/Ch_Publish.thy ===== *)
theory Ch_Publish
  imports Ch_Topics
begin

text \<open>
  What the server does with a request: the shape of its arrays is kept by every step, a topic
  that is published is stored or appended to, and a client that asks gets the text.
\<close>

section \<open>The arrays of the server\<close>

definition row_ptr :: "nat \<Rightarrow> topic_ptr" where
  "row_ptr j = (if j < 4 then Topic j else Tmp j)"

definition shape :: "'n Ch \<Rightarrow> bool" where
  "shape G \<longleftrightarrow> length (dataBuffer G) = BUFFER_SIZE \<and> length (currentTopic G) = TOPIC_BUFFER_SIZE \<and>
     length (topicArrays G) = 4 \<and> length (tmpOnCurrentTopicData G) = MAX_PUBLISHERS \<and>
     length (allServerData G) = NUMBER_OF_TOPICS \<and>
     (\<forall>row \<in> set (topicArrays G) \<union> set (tmpOnCurrentTopicData G). length row = PUBLISHED_DATA) \<and>
     4 \<le> publisherCounter G \<and> publisherCounter G \<le> MAX_PUBLISHERS \<and>
     (\<forall>j < publisherCounter G. allServerData G ! j = Some (row_ptr j))"

lemma wr_length: "wr xs i v = Ok ys \<Longrightarrow> length ys = length xs"
  by (auto simp: wr_def split: if_splits)

lemma copy_until_length: "copy_until c src i dst j = Ok (i', dst', j') \<Longrightarrow> length dst' = length dst"
proof (induction c src i dst j rule: copy_until.induct)
  case (1 c src i dst j)
  show ?case using 1(2)
    by (subst (asm) copy_until.simps) (auto split: if_splits dest!: 1(1) dest: wr_length)
qed

lemma copy_n_length: "copy_n n src i dst k = Ok dst' \<Longrightarrow> length dst' = length dst"
  by (induction n arbitrary: i dst k) (auto dest!: wr_length)

lemma copy_upper_length: "copy_upper cs row t = Ok (row', t') \<Longrightarrow> length row' = length row"
  by (induction cs arbitrary: row t) (auto split: if_splits dest!: wr_length)

lemmas array_lengths = wr_length copy_until_length copy_n_length copy_upper_length

lemma new_row_length: "new_row topic message row = Ok row' \<Longrightarrow> length row' = length row"
  by (auto simp: new_row_def dest!: array_lengths split: prod.splits)

lemma append_row_length: "append_row message row = Ok row' \<Longrightarrow> length row' = length row"
  by (auto simp: append_row_def dest!: array_lengths split: if_splits)

lemma set_row_shape:
  assumes "shape G" "length row = PUBLISHED_DATA"
  shows "shape (set_row G p row)"
  using assms by (cases p) (auto simp: shape_def set_row_def dest!: set_update_subset_insert [THEN subsetD])

lemma row_at_length: "shape G \<Longrightarrow> row_at G p = Ok row \<Longrightarrow> length row = PUBLISHED_DATA"
  by (cases p) (auto simp: row_at_def rd_def shape_def split: if_splits)

lemma shape_more [simp]:
  "shape (G\<lparr>alreadyexists := a\<rparr>) = shape G" "shape (G\<lparr>index := i\<rparr>) = shape G"
  "shape (G\<lparr>clientAddress := c\<rparr>) = shape G" "shape (G\<lparr>net := n\<rparr>) = shape G"
  by (simp_all add: shape_def)

lemma set_row_globals [simp]:
  "publisherCounter (set_row G p row) = publisherCounter G" "allServerData (set_row G p row) = allServerData G"
  "alreadyexists (set_row G p row) = alreadyexists G" "index (set_row G p row) = index G"
  "currentTopic (set_row G p row) = currentTopic G" "net (set_row G p row) = net G"
  "clientAddress (set_row G p row) = clientAddress G"
  by (cases p; simp add: set_row_def)+

lemma note_topic_globals [simp]:
  "publisherCounter (note_topic k G) = publisherCounter G" "allServerData (note_topic k G) = allServerData G"
  "topicArrays (note_topic k G) = topicArrays G" "tmpOnCurrentTopicData (note_topic k G) = tmpOnCurrentTopicData G"
  "currentTopic (note_topic k G) = currentTopic G" "dataBuffer (note_topic k G) = dataBuffer G"
  "net (note_topic k G) = net G" "clientAddress (note_topic k G) = clientAddress G"
  by (cases k; simp add: note_topic_def)+

lemma enter_topic_shape:
  assumes "shape G" "publisherCounter G < MAX_PUBLISHERS" "enter_topic message G = Ok G'"
  shows "shape G' \<and> \<not> alreadyexists G'"
proof (cases "alreadyexists G")
  case False
  then show ?thesis
    using assms by (auto simp: enter_topic_def shape_def wr_def row_ptr_def ch_sizes nth_list_update less_Suc_eq split: if_splits)
next
  case True
  then obtain p row row' where 1: "row_at G p = Ok row" "append_row message row = Ok row'"
    "G' = (set_row G p row')\<lparr>alreadyexists := False\<rparr>"
    using assms(3) by (auto simp: enter_topic_def split: option.splits)
  have "length row' = PUBLISHED_DATA" using row_at_length [OF assms(1) 1(1)] append_row_length [OF 1(2)] by simp
  then show ?thesis using set_row_shape [OF assms(1), of row' p] 1(3) by simp
qed

lemma publish_shape:
  assumes G: "shape G" and run: "publish J d G = Ok G'"
  shows "shape G' \<and> \<not> alreadyexists G'"
proof -
  obtain i ct j ct' known message row row' where 1: "copy_until SPACE d FIRST_LETTER_OF_TOPIC (currentTopic G) 0 = Ok (i, ct, j)"
    "wr ct j 0 = Ok ct'" and row: "rd (tmpOnCurrentTopicData G) (publisherCounter G) = Ok row" "new_row ct' message row = Ok row'"
    and G': "enter_topic message (set_row (note_topic known (G\<lparr>currentTopic := ct'\<rparr>)) (Tmp (publisherCounter G)) row') = Ok G'"
    using run by (auto simp: publish_def Let_def)
  have "length ct' = length (currentTopic G)" using copy_until_length [OF 1(1)] wr_length [OF 1(2)] by simp
  then have "shape (note_topic known (G\<lparr>currentTopic := ct'\<rparr>))"
    using G by (simp add: shape_def)
  moreover have c: "publisherCounter G < MAX_PUBLISHERS" "length row = PUBLISHED_DATA"
    using row(1) G by (auto simp: rd_def shape_def split: if_splits)
  ultimately have "shape (set_row (note_topic known (G\<lparr>currentTopic := ct'\<rparr>)) (Tmp (publisherCounter G)) row')"
    using new_row_length [OF row(2)] by (intro set_row_shape) simp_all
  then show ?thesis using enter_topic_shape [OF _ _ G'] c(1) by simp
qed

lemma publish_frame: "publish J d G = Ok G' \<Longrightarrow> net G' = net G \<and> clientAddress G' = clientAddress G"
  by (auto simp: publish_def enter_topic_def Let_def split: if_splits option.splits)

lemma subscribe_shape: "shape G \<Longrightarrow> subscribe d G = Ok G' \<Longrightarrow> shape G' \<and> alreadyexists G' = alreadyexists G"
  by (auto simp: subscribe_def shape_def dest!: copy_until_length wr_length)

lemma store_data_shape:
  "shape G \<Longrightarrow> \<not> alreadyexists G \<Longrightarrow> store_data J G = Ok (c, G') \<Longrightarrow> shape G' \<and> \<not> alreadyexists G'"
  by (auto simp: store_data_def split: if_splits dest: publish_shape subscribe_shape)

lemma receive_shape: "shape G \<Longrightarrow> receive ws G = Ok (c, G') \<Longrightarrow> shape G' \<and> alreadyexists G' = alreadyexists G"
  by (auto simp: receive_def memcpy_def shape_def split: option.splits if_splits)

lemma reply_shape: "shape G \<Longrightarrow> reply ws G text = Ok (c, G') \<Longrightarrow> shape G' \<and> alreadyexists G' = alreadyexists G"
  by (auto simp: reply_def case_prod_beta Let_def split: if_splits)

lemma ch_effect_shape:
  assumes "shape G" "\<not> alreadyexists G" "ch_effect ws J p G = Ok (s, c, G')"
  shows "shape G' \<and> \<not> alreadyexists G'"
  using assms
  by (cases p) (auto simp: ch_effect_def in_state_def dest: store_data_shape receive_shape reply_shape)

section \<open>Reading a request\<close>

lemma request_ok:
  assumes q: "string_in (dataBuffer G) q" and G: "shape G" and J: "junk_ok J"
  shows "\<exists>d. c_strcpy (J DataFromClient) (dataBuffer G) = Ok d \<and> string_in d q \<and> length d = BUFFER_SIZE"
proof -
  obtain rest where rest: "dataBuffer G = q @ 0 # rest" "0 \<notin> set q" using q by (rule string_inE)
  have l: "length (J DataFromClient) = BUFFER_SIZE" "length (dataBuffer G) = BUFFER_SIZE"
    using G J by (simp_all add: junk_ok_def shape_def)
  have n: "length q < BUFFER_SIZE" using l(2) rest(1) by simp
  have "c_strcpy (J DataFromClient) (dataBuffer G) = Ok (q @ 0 # drop (Suc (length q)) (J DataFromClient))"
    using c_strlen_ok [OF q] l n rest(1) by (simp add: c_strcpy_def memcpy_def)
  then show ?thesis using rest(2) l n by simp
qed

lemma subscribe_ok:
  assumes d: "string_in d (k @ t)" "length k = FIRST_LETTER_OF_TOPIC" and G: "shape G" and t: "length t < TOPIC_BUFFER_SIZE"
  shows "\<exists>ct. subscribe d G = Ok (G\<lparr>currentTopic := ct\<rparr>) \<and> string_in ct t"
proof -
  obtain rest where rest: "d = (k @ t) @ 0 # rest" "0 \<notin> set (k @ t)" using d(1) by (rule string_inE)
  have l: "length (currentTopic G) = TOPIC_BUFFER_SIZE" using G by (simp add: shape_def)
  have "copy_until 0 d FIRST_LETTER_OF_TOPIC (currentTopic G) 0 =
      Ok (FIRST_LETTER_OF_TOPIC + length t, written (currentTopic G) 0 t, 0 + length t)"
    by (rule copy_until_at [where post = rest]) (use rest d(2) l t in auto)
  then show ?thesis using written_upd [of 0 t "currentTopic G" 0] written_string [of t "currentTopic G"] rest(2) l t
    by (intro exI [of _ "written (currentTopic G) 0 (t @ [0])"]) (simp add: subscribe_def)
qed

definition capitals :: "uint8 list \<Rightarrow> uint8 list" where
  "capitals t = takeWhile (\<lambda>c. 0x41 \<le> c \<and> c \<le> 0x5a) t"

lemma capitals_chars: "c \<in> set (capitals t) \<Longrightarrow> 0x41 \<le> c \<and> c \<le> 0x5a"
  by (auto simp: capitals_def dest: set_takeWhileD)

lemma capitals_clean [simp]: "0 \<notin> set (capitals t)" "COLON \<notin> set (capitals t)" "BACKQUOTE \<notin> set (capitals t)"
  by (auto simp: ch_chars dest: capitals_chars)

lemma capitals_length: "length (capitals t) \<le> length t"
  by (simp add: capitals_def length_takeWhile_le)

lemma copy_upper_ok:
  "k + length (capitals cs) \<le> length row \<Longrightarrow>
   copy_upper cs row k = Ok (written row k (capitals cs), k + length (capitals cs))"
proof (induction cs arbitrary: row k)
  case (Cons c cs)
  then show ?case by (auto simp: capitals_def not_less written_Cons split: if_splits)
qed (simp add: capitals_def)

lemma append_row_ok:
  assumes m: "string_in message msg" and r: "string_in row r" "r \<noteq> []" and len: "length r + length msg < length row"
  shows "append_row message row = Ok (written row (length r - 1) (SPACE # msg @ [BACKQUOTE]))"
proof -
  have l: "0 < length r" "length r - 1 < length row" using r(2) len by auto
  have m': "take (length msg) (drop 0 message) = msg" "length msg \<le> length message" using m by (auto simp: string_in_def)
  let ?w = "written row (length r - 1) [SPACE]"
  have 1: "wr row (length r - 1) SPACE = Ok ?w"
    using written_upd [of "length r - 1" "[]" row SPACE] l by simp
  have 2: "copy_n (length msg) message 0 ?w (length r) = Ok (written ?w (length r) msg)"
    using copy_n_ok [of 0 "length msg" message "length r" ?w] m' l len by simp
  have 3: "written ?w (length r) msg = written row (length r - 1) (SPACE # msg)"
    using written_append [of "length r - 1" "[SPACE]" msg row] l len by simp
  have 4: "wr (written row (length r - 1) (SPACE # msg)) (length r + length msg) BACKQUOTE =
      Ok (written row (length r - 1) (SPACE # msg @ [BACKQUOTE]))"
    using written_upd [of "length r - 1" "SPACE # msg" row BACKQUOTE] l len by simp
  show ?thesis using c_strlen_ok [OF m] c_strlen_ok [OF r(1)] r(2) 1 2 3 4 by (simp add: append_row_def)
qed

text \<open>Behind the backquote no zero is written: what the array holds there belongs to the text.\<close>

lemma appended_string:
  assumes m: "string_in message msg" and r: "string_in row r" "r \<noteq> []"
    and tail: "0 \<in> set (drop (length r + length msg + 1) row)"
  shows "append_row message row = Ok (written row (length r - 1) (SPACE # msg @ [BACKQUOTE])) \<and>
    length (written row (length r - 1) (SPACE # msg @ [BACKQUOTE])) = length row \<and>
    string_in (written row (length r - 1) (SPACE # msg @ [BACKQUOTE]))
      (butlast r @ SPACE # msg @ BACKQUOTE # cstr (drop (length r + length msg + 1) row))"
proof -
  let ?tail = "drop (length r + length msg + 1) row"
  have len: "length r + length msg + 1 < length row" using tail by (metis drop_all empty_iff empty_set not_le_imp_less)
  obtain rest where rest: "row = r @ 0 # rest" "0 \<notin> set r" using r(1) by (rule string_inE)
  obtain rest' where rest': "?tail = cstr ?tail @ 0 # rest'" "0 \<notin> set (cstr ?tail)"
    using string_in_cstr [OF tail] by (rule string_inE)
  have "take (length r - 1) row = butlast r" using rest(1) by (simp add: butlast_conv_take)
  moreover have "length r - 1 + length (SPACE # msg @ [BACKQUOTE]) = length r + length msg + 1" using r(2) by (cases r) simp_all
  ultimately have "written row (length r - 1) (SPACE # msg @ [BACKQUOTE]) = butlast r @ (SPACE # msg @ [BACKQUOTE]) @ ?tail"
    by (simp only: written_def)
  also have "\<dots> = (butlast r @ SPACE # msg @ BACKQUOTE # cstr ?tail) @ 0 # rest'"
    using rest'(1) by simp
  finally have "written row (length r - 1) (SPACE # msg @ [BACKQUOTE]) = (butlast r @ SPACE # msg @ BACKQUOTE # cstr ?tail) @ 0 # rest'" .
  moreover have "0 \<notin> set (butlast r @ SPACE # msg @ BACKQUOTE # cstr ?tail)"
    using rest(2) rest'(2) m by (auto simp: ch_chars string_in_def dest: in_set_butlastD)
  ultimately have "string_in (written row (length r - 1) (SPACE # msg @ [BACKQUOTE])) (butlast r @ SPACE # msg @ BACKQUOTE # cstr ?tail)"
    by (metis string_in_append)
  then show ?thesis using append_row_ok [OF m r] len by simp
qed

text \<open>The text of a topic that is new to the server.\<close>

definition new_text :: "uint8 list \<Rightarrow> uint8 list \<Rightarrow> uint8 list" where
  "new_text t msg = capitals t @ COLON # SPACE # msg"

lemma new_row_ok:
  assumes t: "string_in topic t" and m: "string_in message msg" and len: "length (new_text t msg) < length row"
  shows "new_row topic message row = Ok (written row 0 (new_text t msg @ [0]))"
proof -
  let ?c = "capitals t"
  obtain rest where rest: "message = msg @ 0 # rest" "0 \<notin> set msg" using m by (rule string_inE)
  have l: "length ?c + 2 + length msg < length row" using len by (simp add: new_text_def)
  have 1: "copy_upper (cstr topic) row 0 = Ok (written row 0 ?c, length ?c)"
    using copy_upper_ok [of 0 t row] cstr_string_in [OF t] l by simp
  have 2: "wr (written row 0 ?c) (length ?c) COLON = Ok (written row 0 (?c @ [COLON]))"
    "wr (written row 0 (?c @ [COLON])) (Suc (length ?c)) SPACE = Ok (written row 0 (?c @ [COLON, SPACE]))"
    using written_upd [of 0 ?c row COLON] written_upd [of 0 "?c @ [COLON]" row SPACE] l by simp_all
  have 3: "copy_until 0 message 0 (written row 0 (?c @ [COLON, SPACE])) (Suc (Suc (length ?c))) =
      Ok (0 + length msg, written (written row 0 (?c @ [COLON, SPACE])) (Suc (Suc (length ?c))) msg, Suc (Suc (length ?c)) + length msg)"
    by (rule copy_until_at [where post = rest]) (use rest l in auto)
  have 4: "written (written row 0 (?c @ [COLON, SPACE])) (Suc (Suc (length ?c))) msg = written row 0 (new_text t msg)"
    using written_append [of 0 "?c @ [COLON, SPACE]" msg row] l by (simp add: new_text_def)
  have 5: "wr (written row 0 (new_text t msg)) (Suc (Suc (length ?c)) + length msg) 0 = Ok (written row 0 (new_text t msg @ [0]))"
    using written_upd [of 0 "new_text t msg" row 0] len by (simp add: new_text_def)
  show ?thesis using c_strlen_ok [OF t] 1 2 3 4 5 by (simp add: new_row_def)
qed

section \<open>The topics after a publication\<close>

lemma row_ptr_inject [simp]: "row_ptr i = row_ptr j \<longleftrightarrow> i = j"
  by (auto simp: row_ptr_def)

lemma row_at_set_row: "row_at G p = Ok old \<Longrightarrow> row_at (set_row G p row) q = (if q = p then Ok row else row_at G q)"
  by (cases p; cases q) (auto simp: row_at_def set_row_def rd_def nth_list_update split: if_splits)

lemma row_at_more [simp]:
  "row_at (G\<lparr>alreadyexists := a\<rparr>) p = row_at G p" "row_at (G\<lparr>index := i\<rparr>) p = row_at G p"
  "row_at (G\<lparr>currentTopic := ct\<rparr>) p = row_at G p" "row_at (G\<lparr>allServerData := as\<rparr>) p = row_at G p"
  "row_at (G\<lparr>publisherCounter := n\<rparr>) p = row_at G p" "row_at (note_topic k G) p = row_at G p"
  by (cases k; cases p; simp add: row_at_def note_topic_def)+

lemma server_row_shape: "shape G \<Longrightarrow> j < publisherCounter G \<Longrightarrow> server_row G j = row_at G (row_ptr j)"
  by (simp add: server_row_def rd_def shape_def ch_sizes)

lemma serves_shape:
  "shape G \<Longrightarrow> serves G rs \<longleftrightarrow> publisherCounter G = length rs \<and> (\<forall>r \<in> set rs. topic_text r) \<and>
     (\<forall>j < length rs. \<exists>row. row_at G (row_ptr j) = Ok row \<and> string_in row (rs ! j))"
  by (auto simp: serves_def server_row_shape)

lemma serves_update:
  assumes G: "shape G" "serves G rs" and i: "row_at G (row_ptr i) = Ok old" and row: "length row = PUBLISHED_DATA"
    and r: "i < length rs \<Longrightarrow> string_in row r \<and> topic_text r"
  shows "serves (set_row G (row_ptr i) row) (rs[i := r])"
proof -
  have "shape (set_row G (row_ptr i) row)" using G(1) row by (rule set_row_shape)
  moreover have "\<forall>r' \<in> set (rs[i := r]). topic_text r'"
    using G r set_update_subset_insert [of rs i r] by (cases "i < length rs") (auto simp: serves_def not_less list_update_beyond)
  ultimately show ?thesis
    using G r by (auto simp: serves_shape row_at_set_row [OF i] nth_list_update)
qed

lemma serves_scratch:
  assumes "shape G" "serves G rs" "row_at G (row_ptr (length rs)) = Ok old" "length row = PUBLISHED_DATA"
  shows "serves (set_row G (row_ptr (length rs)) row) rs"
  using serves_update [of G rs "length rs" old row "[]"] assms by (simp add: list_update_beyond)

lemma serves_known [simp]:
  "serves (note_topic k G) rs = serves G rs" "shape (note_topic k G) = shape G"
  "serves (G\<lparr>alreadyexists := a\<rparr>) rs = serves G rs" "serves (G\<lparr>currentTopic := ct\<rparr>) rs = serves G rs"
  by (cases k; simp add: note_topic_def serves_def server_row_def row_at_def cong: topic_ptr.case_cong option.case_cong)+

lemma new_text_name [simp]: "name (new_text t msg) = capitals t"
  by (simp add: new_text_def name_append)

lemma new_text_topic: "length t < TOPIC_BUFFER_SIZE \<Longrightarrow> topic_text (new_text t msg)"
  using capitals_length [of t] by (simp add: topic_text_def) (simp add: new_text_def)

text \<open>What \<^verbatim>\<open>PUB\<close> does before it takes the row behind the last topic, and what is left to do.\<close>

lemma publish_front:
  assumes d: "string_in d (k @ t @ SPACE # msg)" "length k = FIRST_LETTER_OF_TOPIC" "length d = BUFFER_SIZE"
    and t: "SPACE \<notin> set t" "length t < TOPIC_BUFFER_SIZE" and J: "junk_ok J"
    and G: "length (currentTopic G) = TOPIC_BUFFER_SIZE" "serves G rs"
    and len: "2 * length t + length msg + 10 \<le> BUFFER_SIZE"
  shows "\<exists>ct message. string_in ct t \<and> length ct = TOPIC_BUFFER_SIZE \<and> string_in message msg \<and>
    publish J d G = andThen (rd (tmpOnCurrentTopicData G) (length rs)) (\<lambda>row. andThen (new_row ct message row) (\<lambda>row.
      enter_topic message (set_row (note_topic (find (\<lambda>j. name (rs ! j) = t) [0 ..< length rs])
        (G\<lparr>currentTopic := ct\<rparr>)) (Tmp (length rs)) row)))"
proof -
  obtain rest where rest: "d = (k @ t @ SPACE # msg) @ 0 # rest" "0 \<notin> set (k @ t @ SPACE # msg)" using d(1) by (rule string_inE)
  have l: "publisherCounter G = length rs" using G by (simp add: serves_def)
  have "copy_until SPACE d FIRST_LETTER_OF_TOPIC (currentTopic G) 0 =
      Ok (FIRST_LETTER_OF_TOPIC + length t, written (currentTopic G) 0 t, 0 + length t)"
    by (rule copy_until_at [where post = "msg @ 0 # rest"]) (use rest d(2) G t in auto)
  moreover define ct where "ct = written (currentTopic G) 0 (t @ [0])"
  then have "wr (written (currentTopic G) 0 t) (length t) 0 = Ok ct" using written_upd [of 0 t "currentTopic G" 0] G t by simp
  moreover have ct: "string_in ct t" "length ct = TOPIC_BUFFER_SIZE"
    using written_string [of t "currentTopic G"] rest(2) G t by (simp_all add: ct_def)
  moreover have "find_topic J (G\<lparr>currentTopic := ct\<rparr>) [0 ..< length rs] = Ok (find (\<lambda>j. name (rs ! j) = t) [0 ..< length rs])"
    using find_topic_ok [of "G\<lparr>currentTopic := ct\<rparr>" rs t J] G(2) ct(1) J by simp
  moreover define N where "N = length (k @ t @ SPACE # msg)"
  have n: "c_strlen d = Ok N" unfolding N_def by (rule c_strlen_ok [OF d(1)])
  define m where "m = Suc (FIRST_LETTER_OF_TOPIC + length t)"
  define message where "message = written (J PublishMessageTmp) 0 (take N (drop m d))"
  have "copy_n N d m (J PublishMessageTmp) 0 = Ok message"
    unfolding message_def by (rule copy_n_ok) (use J len d in \<open>simp_all add: N_def m_def junk_ok_def ch_sizes\<close>)
  moreover have "drop m d = msg @ 0 # rest" using rest(1) d(2) by (simp add: m_def)
  then have message: "string_in message msg"
    using rest(2) by (simp add: message_def written_def N_def)
  moreover have note_more: "publisherCounter (note_topic x H) = publisherCounter H"
    "tmpOnCurrentTopicData (note_topic x H) = tmpOnCurrentTopicData H" for x and H :: "'a Ch"
    by (cases x; simp add: note_topic_def)+
  ultimately show ?thesis using l n
    by - (rule exI [of _ ct], rule exI [of _ message], simp add: publish_def Let_def m_def)
qed

text \<open>With a row behind the last topic, this is what it does before it looks at \<open>alreadyexists\<close>.\<close>

lemma publish_reads:
  assumes d: "string_in d (k @ t @ SPACE # msg)" "length k = FIRST_LETTER_OF_TOPIC" "length d = BUFFER_SIZE"
    and t: "SPACE \<notin> set t" "length t < TOPIC_BUFFER_SIZE" and J: "junk_ok J" and G: "shape G" "serves G rs"
    and len: "2 * length t + length msg + 10 \<le> BUFFER_SIZE" "length (new_text t msg) < PUBLISHED_DATA" "length rs < MAX_PUBLISHERS"
  shows "\<exists>ct message row. string_in ct t \<and> length ct = TOPIC_BUFFER_SIZE \<and> string_in message msg \<and> string_in row (new_text t msg) \<and>
    length row = PUBLISHED_DATA \<and> (\<exists>old. row_at G (row_ptr (length rs)) = Ok old) \<and>
    publish J d G = enter_topic message (set_row (note_topic (find (\<lambda>j. name (rs ! j) = t) [0 ..< length rs])
      (G\<lparr>currentTopic := ct\<rparr>)) (row_ptr (length rs)) row)"
proof -
  obtain ct message where ct: "string_in ct t" "length ct = TOPIC_BUFFER_SIZE" and message: "string_in message msg"
    and run: "publish J d G = andThen (rd (tmpOnCurrentTopicData G) (length rs)) (\<lambda>row. andThen (new_row ct message row) (\<lambda>row.
      enter_topic message (set_row (note_topic (find (\<lambda>j. name (rs ! j) = t) [0 ..< length rs])
        (G\<lparr>currentTopic := ct\<rparr>)) (Tmp (length rs)) row)))"
    using publish_front [OF d t J _ G(2) len(1)] G(1) by (auto simp: shape_def)
  have l: "4 \<le> length rs" "length (tmpOnCurrentTopicData G) = MAX_PUBLISHERS"
    "\<And>i. i < MAX_PUBLISHERS \<Longrightarrow> length (tmpOnCurrentTopicData G ! i) = PUBLISHED_DATA"
    using G by (auto simp: shape_def serves_def)
  have row: "rd (tmpOnCurrentTopicData G) (length rs) = Ok (tmpOnCurrentTopicData G ! length rs)" using l(2) len(3) by simp
  let ?row = "written (tmpOnCurrentTopicData G ! length rs) 0 (new_text t msg @ [0])"
  have "new_row ct message (tmpOnCurrentTopicData G ! length rs) = Ok ?row"
    using new_row_ok [OF ct(1) message] l(3) len(2,3) by simp
  moreover have "string_in ?row (new_text t msg)" "length ?row = PUBLISHED_DATA"
    using written_string [of "new_text t msg" "tmpOnCurrentTopicData G ! length rs"] l(3) len(2,3) message
    by (auto simp: new_text_def ch_chars string_in_def)
  moreover have "row_ptr (length rs) = Tmp (length rs)" using l(1) by (simp add: row_ptr_def)
  ultimately show ?thesis using ct message run row
    by - (rule exI [of _ ct], rule exI [of _ message], rule exI [of _ ?row], simp add: row_at_def)
qed

lemma publish_new_ok:
  assumes d: "string_in d (k @ t @ SPACE # msg)" "length k = FIRST_LETTER_OF_TOPIC" "length d = BUFFER_SIZE"
    and t: "SPACE \<notin> set t" "length t < TOPIC_BUFFER_SIZE" and J: "junk_ok J" and G: "shape G" "serves G rs" "\<not> alreadyexists G"
    and len: "2 * length t + length msg + 10 \<le> BUFFER_SIZE" "length (new_text t msg) < PUBLISHED_DATA" "length rs < MAX_PUBLISHERS"
    and new: "\<forall>r \<in> set rs. name r \<noteq> t"
  shows "\<exists>G'. publish J d G = Ok G' \<and> serves G' (rs @ [new_text t msg]) \<and> string_in (currentTopic G') t"
proof -
  obtain ct message row old where 1: "string_in ct t" "length ct = TOPIC_BUFFER_SIZE" "string_in row (new_text t msg)"
    "length row = PUBLISHED_DATA" "row_at G (row_ptr (length rs)) = Ok old"
    "publish J d G = enter_topic message (set_row (note_topic (find (\<lambda>j. name (rs ! j) = t) [0 ..< length rs])
      (G\<lparr>currentTopic := ct\<rparr>)) (row_ptr (length rs)) row)"
    using publish_reads [OF d t J G(1,2) len] by blast
  have f: "find (\<lambda>j. name (rs ! j) = t) [0 ..< length rs] = None" using new by (auto simp: find_None_iff)
  let ?G = "set_row (G\<lparr>currentTopic := ct\<rparr>) (row_ptr (length rs)) row"
  have c: "publisherCounter G = length rs" "length (allServerData G) = NUMBER_OF_TOPICS" using G by (simp_all add: shape_def serves_def)
  have ptr: "row_ptr (length rs) = Tmp (length rs)" using G(1) c by (simp add: shape_def row_ptr_def)
  have ct: "shape (G\<lparr>currentTopic := ct\<rparr>)" using G(1) 1(2) by (simp add: shape_def)
  have G2: "shape ?G" "serves ?G rs" "\<not> alreadyexists ?G"
    using set_row_shape [OF ct 1(4)] serves_scratch [OF ct _ _ 1(4)] 1(5) G by simp_all
  let ?G' = "?G\<lparr>allServerData := (allServerData G)[length rs := Some (Tmp (length rs))], publisherCounter := length rs + 1\<rparr>"
  have run: "enter_topic message ?G = Ok ?G'"
    using G2(3) c len(3) by (simp add: enter_topic_def ch_sizes)
  have "row_at ?G' (row_ptr (length rs)) = Ok row" using row_at_set_row [of "G\<lparr>currentTopic := ct\<rparr>"] 1(5) by simp
  moreover have "shape ?G'" using enter_topic_shape [OF G2(1) _ run] c(1) len(3) by (simp del: shape_more)
  ultimately have "serves ?G' (rs @ [new_text t msg])"
    using G2(1,2) 1(3) new_text_topic [OF t(2)] by (auto simp: serves_shape nth_append less_Suc_eq)
  then show ?thesis using 1(1,6) run f by (intro exI [of _ ?G']) (simp add: note_topic_def)
qed

lemma publish_existing_ok:
  assumes d: "string_in d (k @ t @ SPACE # msg)" "length k = FIRST_LETTER_OF_TOPIC" "length d = BUFFER_SIZE"
    and t: "SPACE \<notin> set t" "length t < TOPIC_BUFFER_SIZE" and J: "junk_ok J" and G: "shape G" "serves G rs"
    and len: "2 * length t + length msg + 10 \<le> BUFFER_SIZE" "length (new_text t msg) < PUBLISHED_DATA" "length rs < MAX_PUBLISHERS"
    and old: "find (\<lambda>j. name (rs ! j) = t) [0 ..< length rs] = Some i" "rs ! i = t @ COLON # c # data"
    and row: "server_row G i = Ok row" "0 \<in> set (drop (length (rs ! i) + length msg + 1) row)"
  shows "\<exists>G'. publish J d G = Ok G' \<and> serves G' (rs[i := t @ COLON # butlast (c # data) @ SPACE # msg @ BACKQUOTE #
    cstr (drop (length (rs ! i) + length msg + 1) row)]) \<and> string_in (currentTopic G') t"
proof -
  obtain ct message row' old where 1: "string_in ct t" "length ct = TOPIC_BUFFER_SIZE" "string_in message msg"
    "string_in row' (new_text t msg)"
    "length row' = PUBLISHED_DATA" "row_at G (row_ptr (length rs)) = Ok old"
    "publish J d G = enter_topic message (set_row (note_topic (find (\<lambda>j. name (rs ! j) = t) [0 ..< length rs])
      (G\<lparr>currentTopic := ct\<rparr>)) (row_ptr (length rs)) row')"
    using publish_reads [OF d t J G(1,2) len] by blast
  let ?r = "t @ COLON # butlast (c # data) @ SPACE # msg @ BACKQUOTE # cstr (drop (length (rs ! i) + length msg + 1) row)"
  have i: "i < length rs" "name (rs ! i) = t" using old(1) by (auto simp: find_Some_iff)
  have G1: "publisherCounter G = length rs" "allServerData G ! i = Some (row_ptr i)" "i < length (allServerData G)"
    "row_at G (row_ptr i) = Ok row" "string_in row (rs ! i)" "topic_text (rs ! i)" "length row = PUBLISHED_DATA"
    using G i row(1) serves_shape [OF G(1)] server_row_shape [OF G(1), of i] row_at_length [OF G(1), of "row_ptr i" row] len(3)
    by (auto simp: shape_def serves_def ch_sizes)
  let ?G = "set_row (note_topic (Some i) (G\<lparr>currentTopic := ct\<rparr>)) (row_ptr (length rs)) row'"
  have ct: "shape (note_topic (Some i) (G\<lparr>currentTopic := ct\<rparr>))" using G(1) 1(2) by (simp add: shape_def)
  have G2: "shape ?G" "serves ?G rs" "row_at ?G (row_ptr i) = Ok row"
    using set_row_shape [OF ct 1(5)] serves_scratch [OF ct _ _ 1(5)] row_at_set_row [of "note_topic (Some i) (G\<lparr>currentTopic := ct\<rparr>)"] 1(6) G G1(4) i(1)
    by simp_all
  let ?R = "written row (length (rs ! i) - 1) (SPACE # msg @ [BACKQUOTE])"
  have R: "append_row message row = Ok ?R" "string_in ?R ?r" "length ?R = PUBLISHED_DATA"
    using appended_string [OF 1(3) G1(5) _ row(2)] G1(7) old(2) by (simp_all add: butlast_append)
  have "COLON \<notin> set t" using i(2) by auto
  then have "name ?r = t" by (rule name_append)
  then have "topic_text ?r" using i(2) G1(6) by (simp add: topic_text_def)
  then have s: "serves (set_row ?G (row_ptr i) ?R) (rs[i := ?r])"
    by (intro serves_update [OF G2(1,2,3) R(3)]) (use R(2) in simp)
  have "enter_topic message ?G = Ok ((set_row ?G (row_ptr i) ?R)\<lparr>alreadyexists := False\<rparr>)"
    using R(1) G2(3) G1(2,3) by (simp add: enter_topic_def note_topic_def rd_def)
  then show ?thesis using 1(1,7) old(1) s
    by (intro exI [of _ "(set_row ?G (row_ptr i) ?R)\<lparr>alreadyexists := False\<rparr>"]) simp
qed

text \<open>With ten topics the row is looked for behind the array.\<close>

lemma publish_behind_array:
  assumes d: "string_in d (k @ t @ SPACE # msg)" "length k = FIRST_LETTER_OF_TOPIC" "length d = BUFFER_SIZE"
    and t: "SPACE \<notin> set t" "length t < TOPIC_BUFFER_SIZE" and J: "junk_ok J" and G: "shape G" "serves G rs"
    and len: "2 * length t + length msg + 10 \<le> BUFFER_SIZE" and full: "length rs = MAX_PUBLISHERS"
  shows "publish J d G = Fault MemFault"
proof -
  have "rd (tmpOnCurrentTopicData G) (length rs) = Fault MemFault" using G(1) full by (simp add: shape_def rd_def)
  then show ?thesis using publish_front [OF d t J _ G(2) len] G(1) by (auto simp: shape_def)
qed

lemma serves_row_behind:
  assumes "serves G rs"
  shows "serves (G\<lparr>tmpOnCurrentTopicData := tmpOnCurrentTopicData G @ [row]\<rparr>) rs"
proof -
  have "row_at (G\<lparr>tmpOnCurrentTopicData := tmpOnCurrentTopicData G @ [row]\<rparr>) p = Ok r" if "row_at G p = Ok r" for p r
    using that by (cases p) (auto simp: row_at_def rd_def nth_append split: if_splits)
  then have "server_row (G\<lparr>tmpOnCurrentTopicData := tmpOnCurrentTopicData G @ [row]\<rparr>) j = Ok r" if "server_row G j = Ok r" for j r
    using that by (auto simp: server_row_def split: option.splits)
  then show ?thesis using assms by (fastforce simp: serves_def)
qed

lemma publish_row_behind:
  assumes d: "string_in d (k @ t @ SPACE # msg)" "length k = FIRST_LETTER_OF_TOPIC" "length d = BUFFER_SIZE"
    and t: "SPACE \<notin> set t" "length t < TOPIC_BUFFER_SIZE" and J: "junk_ok J" and G: "shape G" "serves G rs" "\<not> alreadyexists G"
    and len: "2 * length t + length msg + 10 \<le> BUFFER_SIZE" "length (new_text t msg) < length row"
    and full: "length rs = MAX_PUBLISHERS" and new: "\<forall>r \<in> set rs. name r \<noteq> t"
  shows "\<exists>G' row'. publish J d (G\<lparr>tmpOnCurrentTopicData := tmpOnCurrentTopicData G @ [row]\<rparr>) = Ok G' \<and>
    tmpOnCurrentTopicData G' = tmpOnCurrentTopicData G @ [row'] \<and> string_in row' (new_text t msg)"
proof -
  let ?G = "G\<lparr>tmpOnCurrentTopicData := tmpOnCurrentTopicData G @ [row]\<rparr>"
  have l: "length (tmpOnCurrentTopicData G) = length rs" "length (allServerData G) = NUMBER_OF_TOPICS" "publisherCounter G = length rs"
    using G full by (simp_all add: shape_def serves_def)
  have "length (currentTopic ?G) = TOPIC_BUFFER_SIZE" using G(1) by (simp add: shape_def)
  then obtain ct message where ct: "string_in ct t" "string_in message msg"
    and run: "publish J d ?G = andThen (rd (tmpOnCurrentTopicData ?G) (length rs)) (\<lambda>row. andThen (new_row ct message row) (\<lambda>row.
      enter_topic message (set_row (note_topic (find (\<lambda>j. name (rs ! j) = t) [0 ..< length rs])
        (?G\<lparr>currentTopic := ct\<rparr>)) (Tmp (length rs)) row)))"
    using publish_front [OF d t J _ serves_row_behind [OF G(2)] len(1)] by blast
  have f: "find (\<lambda>j. name (rs ! j) = t) [0 ..< length rs] = None" using new by (auto simp: find_None_iff)
  have row: "rd (tmpOnCurrentTopicData ?G) (length rs) = Ok row" using l(1) by (simp add: rd_def nth_append)
  let ?row = "written row 0 (new_text t msg @ [0])"
  have "string_in ?row (new_text t msg)"
    using written_string [of "new_text t msg" row] len(2) ct(2) by (auto simp: new_text_def ch_chars string_in_def)
  moreover have "enter_topic message (set_row (?G\<lparr>currentTopic := ct\<rparr>) (Tmp (length rs)) ?row) =
      Ok (G\<lparr>currentTopic := ct, tmpOnCurrentTopicData := tmpOnCurrentTopicData G @ [?row],
        allServerData := (allServerData G)[length rs := Some (Tmp (length rs))], publisherCounter := length rs + 1\<rparr>)"
    using G(3) l full by (simp add: enter_topic_def set_row_def wr_def ch_sizes list_update_append)
  ultimately show ?thesis using run f row new_row_ok [OF ct len(2)] by (simp add: note_topic_def)
qed

end
