(* ===== verification/Ch_Requests.thy ===== *)
theory Ch_Requests
  imports Ch_Publish
begin

text \<open>
  Whole requests: the datagram that comes in, the monitor loop that drives the automate
  through its handlers, and the datagram that goes out.
\<close>

section \<open>The machine on a request\<close>

text \<open>\<open>client_sends ws e q a n\<close>: the machine waits for a client, and the datagram \<open>q\<close> from \<open>a\<close> comes.\<close>

definition client_sends :: "'n winsock \<Rightarrow> 'n effect \<Rightarrow> uint8 list \<Rightarrow> uint8 list \<Rightarrow> 'n \<Rightarrow> bool" where
  "client_sends ws e q a n \<longleftrightarrow> (case e of
     (s, None, G) \<Rightarrow> False
   | (s, Some c, G) \<Rightarrow> handler_of s c = Some Idle_Cl_Connected \<and> length q < BUFFER_SIZE \<and> 0 \<notin> set q \<and>
       recvfrom ws (net G) BUFFER_SIZE = Some (True, q, a, n))"

definition sockaddr :: "uint8 list \<Rightarrow> uint8 list" where
  "sockaddr a = a @ replicate (28 - length a) 0"

lemma serves_more [simp]:
  "serves (G\<lparr>dataBuffer := b\<rparr>) rs = serves G rs" "serves (G\<lparr>clientAddress := a\<rparr>) rs = serves G rs"
  "serves (G\<lparr>net := n\<rparr>) rs = serves G rs"
  by (simp_all add: serves_def server_row_def row_at_def cong: topic_ptr.case_cong option.case_cong)

text \<open>The request lies in the buffer, followed by zeros.\<close>

lemma receives:
  assumes c: "client_sends ws (s, c, G) q a n" and G: "shape G" "serves G rs"
  shows "\<exists>G1. (\<forall>J. ch_step ws J (s, c, G) = Ok (FSM_Ch_Connected, Some MSG_Store_Data_on_Topic, G1)) \<and>
    shape G1 \<and> serves G1 rs \<and> string_in (dataBuffer G1) q \<and> net G1 = n \<and> clientAddress G1 = sockaddr a \<and>
    alreadyexists G1 = alreadyexists G \<and> server_row G1 = server_row G"
proof -
  let ?b = "q @ replicate (BUFFER_SIZE - length q) 0"
  have q: "length q < BUFFER_SIZE" "0 \<notin> set q" using c by (auto simp: client_sends_def split: option.splits)
  have "replicate (BUFFER_SIZE - length q) (0 :: uint8) = 0 # replicate (BUFFER_SIZE - length q - 1) 0"
    using q(1) by (cases "BUFFER_SIZE - length q") simp_all
  then have b: "string_in ?b q" using q(2) by simp
  have "ch_step ws J (s, c, G) = Ok (FSM_Ch_Connected, Some MSG_Store_Data_on_Topic,
      G\<lparr>dataBuffer := ?b, clientAddress := sockaddr a, net := n\<rparr>)" for J
    using c q c_strlen_ok [OF b]
    by (auto simp: client_sends_def ch_effect_def in_state_def receive_def memcpy_def sockaddr_def split: option.splits)
  moreover have "shape (G\<lparr>dataBuffer := ?b\<rparr>)" using G(1) q(1) by (simp add: shape_def)
  moreover have "server_row (G\<lparr>dataBuffer := ?b, clientAddress := sockaddr a, net := n\<rparr>) = server_row G"
    by (simp add: fun_eq_iff server_row_def row_at_def cong: topic_ptr.case_cong option.case_cong)
  ultimately show ?thesis using G(2) b
    by (intro exI [of _ "G\<lparr>dataBuffer := ?b, clientAddress := sockaddr a, net := n\<rparr>"]) simp
qed

text \<open>Which request it is.\<close>

lemma take_string:
  assumes "string_in d q" "0 \<notin> set w"
  shows "take (length w) d = w \<longleftrightarrow> prefix w q"
proof -
  obtain rest where d: "d = q @ 0 # rest" using assms(1) by (rule string_inE)
  show ?thesis
  proof (cases "length w \<le> length q")
    case True
    then show ?thesis using d by (auto simp: prefix_def) (metis append_take_drop_id)
  next
    case False
    then have "0 \<in> set (take (length w) d)" using d by (cases "length w - length q") simp_all
    then show ?thesis using False assms(2) by (auto dest: prefix_length_le)
  qed
qed

lemma which_request:
  assumes "string_in d q"
  shows "take 3 d = str ''PUB'' \<longleftrightarrow> prefix (str ''PUB'') q" "take 3 d = str ''SUB'' \<longleftrightarrow> prefix (str ''SUB'') q"
    "take 4 d = str ''LIST'' \<longleftrightarrow> prefix (str ''LIST'') q"
proof -
  have "length (str ''PUB'') = 3" "length (str ''SUB'') = 3" "length (str ''LIST'') = 4"
    "0 \<notin> set (str ''PUB'')" "0 \<notin> set (str ''SUB'')" "0 \<notin> set (str ''LIST'')"
    by (simp_all add: str_def)
  then show "take 3 d = str ''PUB'' \<longleftrightarrow> prefix (str ''PUB'') q" "take 3 d = str ''SUB'' \<longleftrightarrow> prefix (str ''SUB'') q"
    "take 4 d = str ''LIST'' \<longleftrightarrow> prefix (str ''LIST'') q"
    using take_string [OF assms] by metis+
qed

lemma store_data_cases:
  assumes q: "string_in (dataBuffer G) q" and G: "shape G" and J: "junk_ok J"
  shows "\<exists>d. string_in d q \<and> length d = BUFFER_SIZE \<and> store_data J G =
    (if prefix (str ''PUB'') q then andThen (publish J d G) (\<lambda>G. Ok (Some MSG_ACK_Notification, G))
     else if prefix (str ''SUB'') q then andThen (subscribe d G) (\<lambda>G. Ok (Some MSG_Share_Data_on_Topic, G))
     else if prefix (str ''LIST'') q then Ok (Some MSG_Share_All_Topics, G)
     else Ok (None, G))"
proof -
  obtain d where d: "c_strcpy (J DataFromClient) (dataBuffer G) = Ok d" "string_in d q" "length d = BUFFER_SIZE"
    using request_ok [OF q G J] by blast
  then show ?thesis by (intro exI [of _ d]) (simp add: store_data_def which_request [OF d(2)])
qed

lemma one_keyword:
  "prefix (str ''SUB'') q \<Longrightarrow> \<not> prefix (str ''PUB'') q"
  "prefix (str ''LIST'') q \<Longrightarrow> \<not> prefix (str ''PUB'') q \<and> \<not> prefix (str ''SUB'') q"
  by (auto simp: str_def prefix_def)

lemma store_data_kinds:
  assumes "string_in (dataBuffer G) q" "shape G" "junk_ok J"
  shows "prefix (str ''PUB'') q \<Longrightarrow> \<exists>d. string_in d q \<and> length d = BUFFER_SIZE \<and>
      store_data J G = andThen (publish J d G) (\<lambda>G. Ok (Some MSG_ACK_Notification, G))"
    and "prefix (str ''SUB'') q \<Longrightarrow> \<exists>d. string_in d q \<and>
      store_data J G = andThen (subscribe d G) (\<lambda>G. Ok (Some MSG_Share_Data_on_Topic, G))"
    and "prefix (str ''LIST'') q \<Longrightarrow> store_data J G = Ok (Some MSG_Share_All_Topics, G)"
  using store_data_cases [OF assms] one_keyword [of q] by auto

section \<open>Answering\<close>

lemma reply_ok:
  assumes "string_in text t" "sendto ws (net G) t (clientAddress G) = (True, n)"
  shows "reply ws G text = Ok (Some MSG_Stay_Connected, G\<lparr>net := n\<rparr>)"
proof -
  have "take (length t) text = t" using assms(1) by (auto simp: string_in_def)
  then show ?thesis using c_strlen_ok [OF assms(1)] assms(2) by (simp add: reply_def)
qed

lemma list_machine:
  assumes c: "client_sends ws (s, c, G) q a n" "prefix (str ''LIST'') q" and G: "shape G" "serves G rs" and J: "junk_ok (J n)"
    and len: "length (listing rs) < BUFFER_SIZE" and out: "sendto ws n (listing rs) (sockaddr a) = (True, n')"
  shows "\<exists>G'. ch_steps ws J 3 (s, c, G) = Ok (FSM_Ch_Share_All_Topics_State, Some MSG_Stay_Connected, G') \<and> net G' = n' \<and>
    serves G' rs \<and> shape G' \<and> alreadyexists G' = alreadyexists G"
proof -
  obtain G1 where 1: "\<forall>J. ch_step ws J (s, c, G) = Ok (FSM_Ch_Connected, Some MSG_Store_Data_on_Topic, G1)"
    "shape G1" "serves G1 rs" "string_in (dataBuffer G1) q" "net G1 = n" "clientAddress G1 = sockaddr a"
    "alreadyexists G1 = alreadyexists G"
    using receives [OF c(1) G] by blast
  have 2: "store_data (J n) G1 = Ok (Some MSG_Share_All_Topics, G1)" using store_data_kinds(3) [OF 1(4,2) J c(2)] .
  obtain buf where "all_topics (J n) G1 = Ok buf" "string_in buf (listing rs)"
    using all_topics_ok [OF 1(3) J len] by blast
  then have 3: "andThen (all_topics (J n) G1) (reply ws G1) = Ok (Some MSG_Stay_Connected, G1\<lparr>net := n'\<rparr>)"
    using reply_ok [of buf "listing rs" ws G1 n'] out 1(5,6) by simp
  have "ch_steps ws J 3 (s, c, G) = Ok (FSM_Ch_Share_All_Topics_State, Some MSG_Stay_Connected, G1\<lparr>net := n'\<rparr>)"
    using 1(1,5) 2 3 by (simp add: numeral_3_eq_3 ch_effect_def in_state_def handler_table del: andThen_eq_Ok)
  then show ?thesis using 1 by auto
qed

lemma subscribe_machine:
  assumes c: "client_sends ws (s, c, G) (str ''SUB'' @ b # t) a n" and G: "shape G" "serves G rs" and J: "junk_ok (J n)"
    and t: "length t < TOPIC_BUFFER_SIZE" and len: "length (found_text t rs) + 2 \<le> BUFFER_SIZE"
    and out: "sendto ws n (found_text t rs @ [BACKQUOTE]) (sockaddr a) = (True, n')"
  shows "\<exists>G'. ch_steps ws J 3 (s, c, G) = Ok (FSM_Ch_Share_Data_on_Topic, Some MSG_Stay_Connected, G') \<and> net G' = n' \<and>
    serves G' rs \<and> shape G' \<and> alreadyexists G' = alreadyexists G"
proof -
  let ?q = "str ''SUB'' @ b # t"
  obtain G1 where 1: "\<forall>J. ch_step ws J (s, c, G) = Ok (FSM_Ch_Connected, Some MSG_Store_Data_on_Topic, G1)"
    "shape G1" "serves G1 rs" "string_in (dataBuffer G1) ?q" "net G1 = n" "clientAddress G1 = sockaddr a"
    "alreadyexists G1 = alreadyexists G"
    using receives [OF c(1) G] by blast
  obtain d where d: "string_in d ?q" "store_data (J n) G1 = andThen (subscribe d G1) (\<lambda>G. Ok (Some MSG_Share_Data_on_Topic, G))"
    using store_data_kinds(2) [OF 1(4,2) J] by auto
  have k: "string_in d ((str ''SUB'' @ [b]) @ t)" "length (str ''SUB'' @ [b]) = FIRST_LETTER_OF_TOPIC"
    using d(1) by (simp_all add: str_def ch_sizes)
  obtain ct where ct: "subscribe d G1 = Ok (G1\<lparr>currentTopic := ct\<rparr>)" "string_in ct t"
    using subscribe_ok [OF k 1(2) t] by blast
  let ?G = "G1\<lparr>currentTopic := ct\<rparr>"
  have 2: "store_data (J n) G1 = Ok (Some MSG_Share_Data_on_Topic, ?G)" using d(2) ct(1) by simp
  obtain buf where "topic_data (J n) ?G = Ok buf" "string_in buf (found_text t rs @ [BACKQUOTE])"
    using topic_data_ok [of ?G rs t "J n"] 1(3) J ct(2) len by auto
  then have 3: "andThen (topic_data (J n) ?G) (reply ws ?G) = Ok (Some MSG_Stay_Connected, ?G\<lparr>net := n'\<rparr>)"
    using reply_ok [of buf "found_text t rs @ [BACKQUOTE]" ws ?G n'] out 1(5,6) by simp
  have "ch_steps ws J 3 (s, c, G) = Ok (FSM_Ch_Share_Data_on_Topic, Some MSG_Stay_Connected, ?G\<lparr>net := n'\<rparr>)"
    using 1(1,5) 2 3 by (simp add: numeral_3_eq_3 ch_effect_def in_state_def handler_table del: andThen_eq_Ok)
  then show ?thesis using 1 subscribe_shape [OF 1(2) ct(1)] by auto
qed

subsection \<open>The acknowledgement\<close>

definition ack_text :: "uint8 list" where
  "ack_text = str ''Topic added successfully!`''"

lemma replicate_124: "replicate 124 x = x # replicate 123 x"
  by (simp add: numeral_eq_Suc)

lemma ackMessage_string: "string_in ackMessage ack_text" "length ackMessage = 150" "length ack_text = 26"
  by (simp_all add: ackMessage_def ack_text_def char_array_def str_def string_in_def PUBLISHED_DATA_def replicate_124)

lemma ack_loop_ok:
  assumes "j < length tmp" "tmp ! j = 0" "i \<le> 27" "i = 27 \<Longrightarrow> j \<le> 26"
  shows "\<exists>i' tmp'. ack_loop i tmp = Ok (i', tmp') \<and> i' \<le> 27 \<and> length tmp' = length tmp"
  using assms
proof (induction i tmp arbitrary: j rule: ack_loop.induct)
  case (1 i tmp)
  obtain n where n: "c_strlen tmp = Ok n" "n \<le> j" using c_strlen_zero [OF 1(2,3)] by blast
  show ?case
  proof (cases "i < n")
    case False
    then show ?thesis using n(1) 1(4) by (subst ack_loop.simps) simp
  next
    case True
    let ?c = "ackMessage ! i"
    have i: "i < j" "i \<le> 26" using True n(2) 1(4,5) by (cases "i = 27"; simp)+
    have c: "rd ackMessage i = Ok ?c" using i(2) ackMessage_string(2) by simp
    have z: "ackMessage ! 26 = 0"
    proof -
      obtain rest where "ackMessage = ack_text @ 0 # rest" using ackMessage_string(1) by (rule string_inE)
      then show ?thesis using nth_append_length [of ack_text 0 rest] by (simp add: ackMessage_string(3))
    qed
    obtain j' where j': "j' < length (tmp[i := ?c])" "tmp[i := ?c] ! j' = 0" "Suc i = 27 \<Longrightarrow> j' \<le> 26"
    proof (cases "i = 26")
      case True
      then show thesis using i z 1(2) that [of 26] by simp
    next
      case False
      then show thesis using i 1(2,3) that [of j] by simp
    qed
    then obtain i' tmp' where "ack_loop (Suc i) (tmp[i := ?c]) = Ok (i', tmp')" "i' \<le> 27" "length tmp' = length tmp"
      using 1(1) [OF n(1) True c j'(1,2)] j'(3) i(2) by fastforce
    then show ?thesis using n(1) True c by (subst ack_loop.simps) simp
  qed
qed

text \<open>The copy ends well exactly if the uninitialised array happens to hold a zero.\<close>

lemma ack_copy_iff:
  assumes "junk_ok J"
  shows "(\<exists>tmp. ack_copy J = Ok tmp) \<longleftrightarrow> 0 \<in> set (J AckMessageTmp)"
proof
  assume "\<exists>tmp. ack_copy J = Ok tmp"
  then obtain n where "c_strlen (J AckMessageTmp) = Ok n" by (auto simp: ack_copy_def ack_loop.simps [of 0])
  then show "0 \<in> set (J AckMessageTmp)" by (metis c_strlen_in)
next
  assume "0 \<in> set (J AckMessageTmp)"
  then obtain j where j: "j < length (J AckMessageTmp)" "J AckMessageTmp ! j = 0" by (auto simp: in_set_conv_nth)
  obtain i tmp where "ack_loop 0 (J AckMessageTmp) = Ok (i, tmp)" "i \<le> 27" "length tmp = BUFFER_SIZE"
    using ack_loop_ok [OF j, of 0] assms by (auto simp: junk_ok_def)
  then show "\<exists>tmp. ack_copy J = Ok tmp" by (simp add: ack_copy_def BUFFER_SIZE_def)
qed

text \<open>A publication is acknowledged, whatever \<open>P\<close> it makes true of the topics.\<close>

lemma publish_acknowledged:
  fixes G :: "'n Ch"
  assumes c: "client_sends ws (s, c, G) q a n" "prefix (str ''PUB'') q" and G: "shape G" "serves G rs"
    and J: "junk_ok (J n)" "0 \<in> set (J n AckMessageTmp)" and out: "sendto ws n ack_text (sockaddr a) = (True, n')"
    and pub: "\<And>d (G1 :: 'n Ch). shape G1 \<Longrightarrow> serves G1 rs \<Longrightarrow> alreadyexists G1 = alreadyexists G \<Longrightarrow> server_row G1 = server_row G \<Longrightarrow>
      string_in d q \<Longrightarrow> length d = BUFFER_SIZE \<Longrightarrow> \<exists>G2. publish (J n) d G1 = Ok G2 \<and> serves G2 rs'"
  shows "\<exists>G'. ch_steps ws J 3 (s, c, G) = Ok (FSM_Ch_Publish_ACK_State, Some MSG_Stay_Connected, G') \<and> net G' = n' \<and>
    serves G' rs' \<and> shape G' \<and> \<not> alreadyexists G'"
proof -
  obtain G1 where 1: "\<forall>J. ch_step ws J (s, c, G) = Ok (FSM_Ch_Connected, Some MSG_Store_Data_on_Topic, G1)"
    "shape G1" "serves G1 rs" "string_in (dataBuffer G1) q" "net G1 = n" "clientAddress G1 = sockaddr a"
    "alreadyexists (G1 :: 'n Ch) = alreadyexists G" "server_row G1 = server_row G"
    using receives [OF c(1) G] by blast
  obtain d where d: "string_in d q" "length d = BUFFER_SIZE"
    "store_data (J n) G1 = andThen (publish (J n) d G1) (\<lambda>G. Ok (Some MSG_ACK_Notification, G))"
    using store_data_kinds(1) [OF 1(4,2) J(1) c(2)] by blast
  obtain G2 where G2: "publish (J n) d G1 = Ok G2" "serves G2 rs'" using pub [OF 1(2,3,7,8) d(1,2)] by blast
  obtain tmp where "ack_copy (J n) = Ok tmp" using ack_copy_iff [OF J(1)] J(2) by blast
  then have 3: "andThen (ack_copy (J n)) (\<lambda>_. reply ws G2 ackMessage) = Ok (Some MSG_Stay_Connected, G2\<lparr>net := n'\<rparr>)"
    using reply_ok [OF ackMessage_string(1), of ws G2 n'] out 1(5,6) publish_frame [OF G2(1)] by simp
  have "ch_steps ws J 3 (s, c, G) = Ok (FSM_Ch_Publish_ACK_State, Some MSG_Stay_Connected, G2\<lparr>net := n'\<rparr>)"
    using 1(1,5) d(3) G2(1) publish_frame [OF G2(1)] 3 by (simp add: numeral_3_eq_3 ch_effect_def in_state_def handler_table del: andThen_eq_Ok)
  then show ?thesis using publish_shape [OF 1(2) G2(1)] G2(2) by auto
qed

text \<open>What a publication must look like, so that every copy of it fits its array.\<close>

definition publication :: "uint8 list \<Rightarrow> uint8 list \<Rightarrow> uint8 list list \<Rightarrow> bool" where
  "publication t msg rs \<longleftrightarrow> SPACE \<notin> set t \<and> length t < TOPIC_BUFFER_SIZE \<and> 2 * length t + length msg + 10 \<le> BUFFER_SIZE \<and>
     length (new_text t msg) < PUBLISHED_DATA \<and> length rs < MAX_PUBLISHERS"

lemma PUB_parts:
  assumes "string_in d (str ''PUB'' @ b # t @ SPACE # msg)"
  shows "string_in d ((str ''PUB'' @ [b]) @ t @ SPACE # msg)" "length (str ''PUB'' @ [b]) = FIRST_LETTER_OF_TOPIC"
  using assms by (simp_all add: str_def ch_sizes)

lemma publish_new_machine:
  fixes G :: "'n Ch"
  assumes c: "client_sends ws (s, c, G) (str ''PUB'' @ b # t @ SPACE # msg) a n"
    and G: "shape G" "serves G rs" "\<not> alreadyexists G" and J: "junk_ok (J n)" "0 \<in> set (J n AckMessageTmp)"
    and p: "publication t msg rs" "\<forall>r \<in> set rs. name r \<noteq> t" and out: "sendto ws n ack_text (sockaddr a) = (True, n')"
  shows "\<exists>G'. ch_steps ws J 3 (s, c, G) = Ok (FSM_Ch_Publish_ACK_State, Some MSG_Stay_Connected, G') \<and> net G' = n' \<and>
    serves G' (rs @ [new_text t msg]) \<and> shape G' \<and> \<not> alreadyexists G'"
proof (rule publish_acknowledged [where J = J, OF c _ G(1,2) J out])
  fix d and G1 :: "'n Ch"
  assume 1: "shape G1" "serves G1 rs" "alreadyexists G1 = alreadyexists G" "string_in d (str ''PUB'' @ b # t @ SPACE # msg)"
    "length d = BUFFER_SIZE"
  then show "\<exists>G2. publish (J n) d G1 = Ok G2 \<and> serves G2 (rs @ [new_text t msg])"
    using publish_new_ok [OF PUB_parts [OF 1(4)] 1(5) _ _ J(1) 1(1,2)] G(3) p unfolding publication_def by blast
qed simp

lemma publish_old_machine:
  fixes G :: "'n Ch"
  assumes c: "client_sends ws (s, c, G) (str ''PUB'' @ b # t @ SPACE # msg) a n"
    and G: "shape G" "serves G rs" and J: "junk_ok (J n)" "0 \<in> set (J n AckMessageTmp)"
    and p: "publication t msg rs" and out: "sendto ws n ack_text (sockaddr a) = (True, n')"
    and old: "find (\<lambda>j. name (rs ! j) = t) [0 ..< length rs] = Some i" "rs ! i = t @ COLON # d # ds"
    and row: "server_row G i = Ok row" "0 \<in> set (drop (length (rs ! i) + length msg + 1) row)"
  shows "\<exists>G'. ch_steps ws J 3 (s, c, G) = Ok (FSM_Ch_Publish_ACK_State, Some MSG_Stay_Connected, G') \<and> net G' = n' \<and>
    serves G' (rs[i := t @ COLON # butlast (d # ds) @ SPACE # msg @ BACKQUOTE # cstr (drop (length (rs ! i) + length msg + 1) row)]) \<and>
    shape G' \<and> \<not> alreadyexists G'"
proof (rule publish_acknowledged [where J = J, OF c _ G J out])
  fix e and G1 :: "'n Ch"
  assume 1: "shape G1" "serves G1 rs" "server_row G1 = server_row G" "string_in e (str ''PUB'' @ b # t @ SPACE # msg)"
    "length e = BUFFER_SIZE"
  have r: "server_row G1 i = Ok row" using 1(3) row(1) by simp
  show "\<exists>G2. publish (J n) e G1 = Ok G2 \<and>
      serves G2 (rs[i := t @ COLON # butlast (d # ds) @ SPACE # msg @ BACKQUOTE # cstr (drop (length (rs ! i) + length msg + 1) row)])"
    using publish_existing_ok [OF PUB_parts [OF 1(4)] 1(5) _ _ J(1) 1(1,2) _ _ _ old r row(2)] p unfolding publication_def by blast
qed simp

section \<open>The whole server on a request\<close>

lemma ch_steps_add: "ch_steps ws J (m + n) e = andThen (ch_steps ws J m e) (ch_steps ws J n)"
proof (induction m arbitrary: e)
  case (Suc m)
  then have "ch_steps ws J (m + n) = (\<lambda>e. andThen (ch_steps ws J m e) (ch_steps ws J n))" by (rule ext)
  then show ?case by (simp add: andThen_assoc)
qed simp

text \<open>No topic interferes with \<open>t\<close> if their names start with other letters.\<close>

definition stands_out :: "uint8 list \<Rightarrow> uint8 list list \<Rightarrow> bool" where
  "stands_out t rs \<longleftrightarrow> t \<noteq> [] \<and> (\<forall>r \<in> set rs. name r \<noteq> [] \<and> hd (name r) \<noteq> hd t)"

lemma found_text_skips: "stands_out t rs \<Longrightarrow> found_text t (rs @ rs') = found_text t rs'"
proof (induction rs)
  case (Cons r rs)
  then obtain c n d t' where "name r = c # n" "t = d # t'" "c \<noteq> d"
    by (cases "name r"; cases t) (auto simp: stands_out_def)
  then show ?case using Cons by (simp add: stands_out_def)
qed simp

text \<open>The answer to a client that asks for the new topic: up to the end mark, if it has one.\<close>

lemma found_text_new:
  assumes "stands_out t rs" "capitals t = t"
  shows "found_text t (rs @ [new_text t msg]) = t @ COLON # SPACE # takeWhile (\<lambda>c. c \<noteq> BACKQUOTE) msg"
proof -
  have "BACKQUOTE \<notin> set t" using capitals_clean(3) [of t] assms(2) by simp
  then have "\<forall>c \<in> set t. c \<noteq> BACKQUOTE" by blast
  then have "found_text t [new_text t msg] = t @ COLON # SPACE # takeWhile (\<lambda>c. c \<noteq> BACKQUOTE) msg"
    by (simp add: assms(2)) (simp add: new_text_def assms(2) takeWhile_app ch_chars)
  then show ?thesis using found_text_skips [OF assms(1)] by simp
qed

lemma publish_subscribe_machine:
  assumes G: "shape G" "serves G rs" "\<not> alreadyexists G" and J: "junk_ok (J n1)" "0 \<in> set (J n1 AckMessageTmp)" "junk_ok (J n3)"
    and t: "publication t msg rs" "stands_out t rs" "capitals t = t"
    and pub: "client_sends ws (s, c, G) (str ''PUB'' @ b # t @ SPACE # msg) a n1" "sendto ws n1 ack_text (sockaddr a) = (True, n2)"
    and sub: "recvfrom ws n2 BUFFER_SIZE = Some (True, str ''SUB'' @ b' # t, a', n3)" "b' \<noteq> 0"
      "sendto ws n3 (t @ COLON # SPACE # takeWhile (\<lambda>c. c \<noteq> BACKQUOTE) msg @ [BACKQUOTE]) (sockaddr a') = (True, n4)"
  shows "\<exists>G'. ch_steps ws J 6 (s, c, G) = Ok (FSM_Ch_Share_Data_on_Topic, Some MSG_Stay_Connected, G') \<and> net G' = n4 \<and>
    serves G' (rs @ [new_text t msg])"
proof -
  have "\<forall>r \<in> set rs. name r \<noteq> t" using t(2) by (auto simp: stands_out_def)
  then obtain G1 where 1: "ch_steps ws J 3 (s, c, G) = Ok (FSM_Ch_Publish_ACK_State, Some MSG_Stay_Connected, G1)" "net G1 = n2"
    "serves G1 (rs @ [new_text t msg])" "shape G1"
    using publish_new_machine [where J = J, OF pub(1) G J(1,2) t(1) _ pub(2)] by blast
  let ?q = "str ''SUB'' @ b' # t"
  have t0: "0 \<notin> set t" using capitals_clean(1) [of t] t(3) by simp
  have "length t < TOPIC_BUFFER_SIZE" using t(1) by (simp add: publication_def)
  moreover have "client_sends ws (FSM_Ch_Publish_ACK_State, Some MSG_Stay_Connected, G1) ?q a' n3"
    using sub(1,2) 1(2) t0 calculation by (simp add: client_sends_def handler_table str_def ch_sizes)
  moreover have "length (found_text t (rs @ [new_text t msg])) + 2 \<le> BUFFER_SIZE"
    using t(1) length_takeWhile_le [of "\<lambda>c. c \<noteq> BACKQUOTE" msg] unfolding found_text_new [OF t(2,3)]
    by (simp add: publication_def ch_sizes)
  moreover have "sendto ws n3 (found_text t (rs @ [new_text t msg]) @ [BACKQUOTE]) (sockaddr a') = (True, n4)"
    using sub(3) t(2,3) by (simp add: found_text_new)
  ultimately obtain G' where "ch_steps ws J 3 (FSM_Ch_Publish_ACK_State, Some MSG_Stay_Connected, G1) =
      Ok (FSM_Ch_Share_Data_on_Topic, Some MSG_Stay_Connected, G')" "net G' = n4" "serves G' (rs @ [new_text t msg])"
    using subscribe_machine [where J = J, OF _ 1(4,3) J(3)] by blast
  then show ?thesis using ch_steps_add [of ws J 3 3 "(s, c, G)"] 1(1) by simp
qed

lemma server_runs:
  assumes w: "win32_documented w" and N: "2 \<le> N" and rep: "server_rep Y N e" and run: "ch_steps ws J n e = Ok e'"
  shows "\<exists>Y'. Start_for dbg w clk (ch_run dbg w ws J) noFree n k Y = Ok Y' \<and> server_rep Y' N e'"
  using Start_for_server [OF w N rep, of ws J n dbg clk noFree k] run
  by (cases "Start_for dbg w clk (ch_run dbg w ws J) noFree n k Y" rule: res_cases) auto

lemma server_state_app [simp]: "server_state (K\<lparr>app := a\<rparr>) mss free N c = server_state K mss free N c"
proof -
  have "addressed (K\<lparr>app := a\<rparr>) m d = addressed K m d" for m d by (simp add: addressed_def msg_bytes_def)
  then show ?thesis by (cases c) (simp_all add: server_state_def kernel_ok_def pending_def logger_ok_def)
qed

text \<open>A machine that fails makes the monitor loop fail in the same way, however long it was to run.\<close>

lemma server_fails:
  assumes w: "win32_documented w" and N: "2 \<le> N" and rep: "server_rep Y N e" and run: "ch_steps ws J m e = Fault x"
    and n: "m \<le> n"
  shows "Start_for dbg w clk (ch_run dbg w ws J) noFree n k Y = Fault x"
proof -
  obtain l where l: "n = m + l" using n by (metis le_Suc_ex)
  have "ch_steps ws J n e = Fault x" unfolding l ch_steps_add run by simp
  then show ?thesis using Start_for_server [OF w N rep, of ws J n dbg clk noFree k]
    by (cases "Start_for dbg w clk (ch_run dbg w ws J) noFree n k Y" rule: res_cases) auto
qed

text \<open>The topics of a server that has just started.\<close>

definition initial_texts :: "uint8 list list" where
  "initial_texts = [str ''WEATHER: Belgrace 8C  New York 3C  London 9C  Tokyo 5C  Moscow -9C`'',
     str ''FOOTBALL: France 4:2 Croatia  Belgium 2:0 England  Germany 2:1 Sweden  Japan 2:2 Senegal`'',
     str ''INTEL_CPU: i3=180$  i5=290$  i7=430$  i9=1480$`'',
     str ''COLLEGES_IN_AMERICA: Stanford  Harvard  Princeton  Yale  Duke`'']"

lemma string_in_array:
  assumes "length s < n" "0 \<notin> set (str s)"
  shows "string_in (char_array n s) (str s)"
proof -
  have "replicate (n - length s) (0 :: uint8) = 0 # replicate (n - length s - 1) 0"
    using assms(1) by (cases "n - length s") simp_all
  then show ?thesis using assms(2) by (simp add: char_array_def)
qed

lemma initial_rows:
  "string_in topic1 (initial_texts ! 0)" "string_in topic2 (initial_texts ! 1)"
  "string_in topic3 (initial_texts ! 2)" "string_in topic4 (initial_texts ! 3)"
  unfolding initial_texts_def topic1_def topic2_def topic3_def topic4_def
  by (simp, rule string_in_array; simp add: PUBLISHED_DATA_def str_def)+

lemma initial_names:
  "map name initial_texts = [str ''WEATHER'', str ''FOOTBALL'', str ''INTEL_CPU'', str ''COLLEGES_IN_AMERICA'']"
  by (simp add: initial_texts_def str_def name_def COLON_def)

lemma initial_topics: "\<forall>r \<in> set initial_texts. topic_text r"
  by (simp add: initial_texts_def str_def name_def topic_text_def ch_chars TOPIC_BUFFER_SIZE_def)

lemma started_shape: "shape (started (Ch_globals n))" "\<not> alreadyexists (started (Ch_globals n))"
  by (auto simp: shape_def started_def Ch_globals_def ch_sizes topic1_def topic2_def topic3_def topic4_def char_array_def str_def
      row_ptr_def nth_append less_Suc_eq)

lemma started_serves: "serves (started (Ch_globals n)) initial_texts"
proof -
  have "\<exists>row. row_at (started (Ch_globals n)) (row_ptr j) = Ok row \<and> string_in row (initial_texts ! j)" if "j < 4" for j
    using that initial_rows by (auto simp: started_def Ch_globals_def row_at_def row_ptr_def less_Suc_eq numeral_eq_Suc)
  moreover have "publisherCounter (started (Ch_globals n)) = 4" "length initial_texts = 4"
    by (simp_all add: started_def Ch_globals_def initial_texts_def)
  ultimately show ?thesis using initial_topics unfolding serves_shape [OF started_shape(1)] by simp
qed

definition ex_junk :: junk where
  "ex_junk v = replicate (if v = TopicTmp then TOPIC_BUFFER_SIZE else BUFFER_SIZE) 0"

lemma ex_junk_ok: "junk_ok ex_junk" "0 \<in> set (ex_junk AckMessageTmp)"
  by (simp_all add: junk_ok_def ex_junk_def BUFFER_SIZE_def)

lemma ex_start: "start_effect ex_ws (Ch_globals n) = (FSM_Ch_Idle, Some MSG_Channel_Wait_Cl_Message, started (Ch_globals n))"
  by (simp add: start_effect_def ex_ws_def started_def Ch_globals_def)

lemma ex_client:
  assumes "length q < BUFFER_SIZE" "0 \<notin> set q"
  shows "client_sends ex_ws (FSM_Ch_Idle, Some MSG_Channel_Wait_Cl_Message, started (Ch_globals ((q, a) # ins, outs))) q a (ins, outs)"
  using assms by (simp add: client_sends_def handler_table ex_ws_def started_def Ch_globals_def)

text \<open>C8: a client that asks for the topics gets them. The server waits for a client; the datagram
  \<^verbatim>\<open>LIST\<close> comes in. After three rounds of the monitor loop the names of all topics, each on a
  line, and the end mark have gone to the client that asked, and the server waits again with the
  same topics.\<close>

theorem list_request_answered:
  assumes "win32_documented w" "2 \<le> N" "server_rep Y N (s, c, G)" "junk_ok (J n)" "shape G" "serves G rs"
    and "client_sends ws (s, c, G) q a n" "prefix (str ''LIST'') q"
    and "length (listing rs) < BUFFER_SIZE" "sendto ws n (listing rs) (sockaddr a) = (True, n')"
  shows "\<exists>Y' G'. Start_for dbg w clk (ch_run dbg w ws J) noFree 3 k Y = Ok Y' \<and> net G' = n' \<and> serves G' rs \<and>
    server_rep Y' N (FSM_Ch_Share_All_Topics_State, Some MSG_Stay_Connected, G')"
  using list_machine [where J = J, OF assms(7,8,5,6,4,9,10)] server_runs [OF assms(1-3)] by blast

theorem list_request_answered_witness:
  "\<exists>(Y :: (ch_proc, ex_net Ch) system) Y' G'. server_rep Y 50 (start_effect ex_ws (Ch_globals ([(str ''LIST'', [7])], []))) \<and>
    Start_for True ex_win (\<lambda>_ _. 0) (ch_run True ex_win ex_ws (\<lambda>_. ex_junk)) Ch_NoFreeInstances 3 0 Y = Ok Y' \<and>
    net G' = ([], [(str ''WEATHER'' @ [NEWLINE] @ str ''FOOTBALL'' @ [NEWLINE] @ str ''INTEL_CPU'' @ [NEWLINE] @
      str ''COLLEGES_IN_AMERICA'' @ [NEWLINE, BACKQUOTE], sockaddr [7])]) \<and>
    server_rep Y' 50 (FSM_Ch_Share_All_Topics_State, Some MSG_Stay_Connected, G')"
proof -
  let ?q = "str ''LIST''" and ?n = "([], []) :: ex_net"
  have q: "length ?q < BUFFER_SIZE" "0 \<notin> set ?q" "prefix ?q ?q" by (simp_all add: str_def BUFFER_SIZE_def)
  have l: "listing initial_texts = str ''WEATHER'' @ [NEWLINE] @ str ''FOOTBALL'' @ [NEWLINE] @ str ''INTEL_CPU'' @ [NEWLINE] @
      str ''COLLEGES_IN_AMERICA'' @ [NEWLINE, BACKQUOTE]"
    using initial_names by (simp add: listing_def initial_texts_def)
  have len: "length (listing initial_texts) < BUFFER_SIZE" unfolding l by (simp add: str_def BUFFER_SIZE_def)
  obtain Y :: "(ch_proc, ex_net Ch) system" where Y: "server_rep Y 50 (start_effect ex_ws (Ch_globals ([(?q, [7])], [])))"
    using ex_server by blast
  have out: "sendto ex_ws ?n (listing initial_texts) (sockaddr [7]) = (True, ([], [(listing initial_texts, sockaddr [7])]))"
    by (simp add: ex_ws_def)
  show ?thesis
    using list_request_answered [where J = "\<lambda>_. ex_junk", OF ex_win_documented _ Y [unfolded ex_start] ex_junk_ok(1) started_shape(1) started_serves
      ex_client [OF q(1,2)] q(3) len out, of True "\<lambda>_ _. 0" Ch_NoFreeInstances 0] Y unfolding l by auto
qed

text \<open>Without a message under way the machine makes no step, so the monitor loop hangs.\<close>

lemma server_hangs:
  assumes w: "win32_documented w" and N: "2 \<le> N" and rep: "server_rep Y N e" and run: "ch_steps ws J m e = Ok (s, None, G)"
    and n: "m < n"
  shows "Start_for dbg w clk (ch_run dbg w ws J) noFree n k Y = None"
proof -
  obtain l where l: "n = m + Suc l" using n by (metis add_Suc_right less_imp_Suc_add)
  have "ch_steps ws J n e = None" unfolding l ch_steps_add run by simp
  then show ?thesis
    using Start_for_server [OF w N rep, of ws J n dbg clk noFree k] by simp
qed

lemma unknown_machine:
  assumes c: "client_sends ws (s, c, G) q a n" and G: "shape G" "serves G rs" and J: "junk_ok (J n)"
    and q: "\<not> prefix (str ''PUB'') q" "\<not> prefix (str ''SUB'') q" "\<not> prefix (str ''LIST'') q"
  shows "\<exists>G'. ch_steps ws J 2 (s, c, G) = Ok (FSM_Ch_Store_Data, None, G') \<and> net G' = n \<and> serves G' rs"
proof -
  obtain G1 where 1: "\<forall>J. ch_step ws J (s, c, G) = Ok (FSM_Ch_Connected, Some MSG_Store_Data_on_Topic, G1)"
    "shape G1" "serves G1 rs" "string_in (dataBuffer G1) q" "net G1 = n"
    using receives [OF c G] by blast
  have "store_data (J n) G1 = Ok (None, G1)" using store_data_cases [OF 1(4,2) J] q by auto
  then have "ch_steps ws J 2 (s, c, G) = Ok (FSM_Ch_Store_Data, None, G1)"
    using 1(1,5) by (simp add: numeral_2_eq_2 ch_effect_def in_state_def handler_table del: andThen_eq_Ok)
  then show ?thesis using 1 by blast
qed

text \<open>C6: publishing a topic and subscribing to it is a round trip. A publisher sends
  \<^verbatim>\<open>PUB <topic> <message>\<close> with a topic in capitals that starts with another letter than every
  topic the server has; the next client, perhaps another one, sends
  \<^verbatim>\<open>SUB <topic>\<close>. It holds if the server has fewer than ten topics, if the topic and the message
  fit the arrays and together the row of 150 bytes (\<open>publication\<close>), if the uninitialised array of the handler that
  acknowledges happens to hold a zero, and if the network takes what is sent. Then the publisher gets the
  acknowledgement, and after six rounds of the monitor loop the subscriber has been sent the topic, a colon, a
  space and the message up to its end mark, and the topic is stored behind the others.\<close>

theorem publish_then_subscribe:
  assumes "win32_documented w" "2 \<le> N" "server_rep Y N (s, c, G)" "shape G" "serves G rs" "\<not> alreadyexists G"
    and "junk_ok (J n1)" "0 \<in> set (J n1 AckMessageTmp)" "junk_ok (J n3)" "publication t msg rs" "stands_out t rs" "capitals t = t"
    and "client_sends ws (s, c, G) (str ''PUB'' @ b # t @ SPACE # msg) a n1" "sendto ws n1 ack_text (sockaddr a) = (True, n2)"
    and "recvfrom ws n2 BUFFER_SIZE = Some (True, str ''SUB'' @ b' # t, a', n3)" "b' \<noteq> 0"
    and "sendto ws n3 (t @ COLON # SPACE # takeWhile (\<lambda>c. c \<noteq> BACKQUOTE) msg @ [BACKQUOTE]) (sockaddr a') = (True, n4)"
  shows "\<exists>Y' G'. Start_for dbg w clk (ch_run dbg w ws J) noFree 6 k Y = Ok Y' \<and> net G' = n4 \<and>
    serves G' (rs @ [t @ COLON # SPACE # msg]) \<and>
    server_rep Y' N (FSM_Ch_Share_Data_on_Topic, Some MSG_Stay_Connected, G')"
proof -
  have "new_text t msg = t @ COLON # SPACE # msg" using assms(12) by (simp add: new_text_def)
  then show ?thesis
    using publish_subscribe_machine [where J = J, OF assms(4-17)] server_runs [OF assms(1-3)] by metis
qed

lemma news_publication:
  "publication (str ''NEWS'') (str ''hello`'') initial_texts" "stands_out (str ''NEWS'') initial_texts"
  "capitals (str ''NEWS'') = str ''NEWS''"
proof -
  let ?t = "str ''NEWS''"
  show "publication ?t (str ''hello`'') initial_texts" "capitals ?t = ?t"
    by (simp_all add: publication_def new_text_def capitals_def str_def ch_chars ch_sizes initial_texts_def)
  have names: "set (map name initial_texts) = {str ''WEATHER'', str ''FOOTBALL'', str ''INTEL_CPU'', str ''COLLEGES_IN_AMERICA''}"
    unfolding initial_names by simp
  have "name r \<noteq> [] \<and> hd (name r) \<noteq> hd ?t" if "r \<in> set initial_texts" for r
  proof -
    have "name r \<in> set (map name initial_texts)" using that by simp
    then show ?thesis unfolding names by (auto simp: str_def)
  qed
  then show "stands_out ?t initial_texts" by (simp add: stands_out_def) (simp add: str_def)
qed

theorem publish_then_subscribe_witness:
  "\<exists>(Y :: (ch_proc, ex_net Ch) system) Y' G'.
    server_rep Y 50 (start_effect ex_ws (Ch_globals ([(str ''PUB NEWS hello`'', [7]), (str ''SUB NEWS'', [9])], []))) \<and>
    Start_for True ex_win (\<lambda>_ _. 0) (ch_run True ex_win ex_ws (\<lambda>_. ex_junk)) Ch_NoFreeInstances 6 0 Y = Ok Y' \<and>
    net G' = ([], [(ack_text, sockaddr [7]), (str ''NEWS: hello`'', sockaddr [9])]) \<and>
    server_rep Y' 50 (FSM_Ch_Share_Data_on_Topic, Some MSG_Stay_Connected, G')"
proof -
  let ?q = "str ''PUB NEWS hello`''" and ?s = "str ''SUB NEWS''" and ?t = "str ''NEWS''" and ?m = "str ''hello`''"
  let ?n = "([(?q, [7]), (?s, [9])], []) :: ex_net" and ?o = "[(ack_text, sockaddr [7])]"
  have q: "?q = str ''PUB'' @ SPACE # ?t @ SPACE # ?m" "?s = str ''SUB'' @ SPACE # ?t" "length ?q < BUFFER_SIZE" "0 \<notin> set ?q"
    by (simp_all add: str_def SPACE_def BUFFER_SIZE_def)
  have m: "?t @ COLON # SPACE # takeWhile (\<lambda>c. c \<noteq> BACKQUOTE) ?m @ [BACKQUOTE] = str ''NEWS: hello`''"
    by (simp add: str_def ch_chars)
  note t = news_publication
  have z: "SPACE \<noteq> 0" by (simp add: ch_chars)
  obtain Y :: "(ch_proc, ex_net Ch) system" where Y: "server_rep Y 50 (start_effect ex_ws (Ch_globals ?n))"
    using ex_server by blast
  have io: "sendto ex_ws ([(?s, [9])], []) ack_text (sockaddr [7]) = (True, ([(?s, [9])], ?o))"
    "recvfrom ex_ws ([(?s, [9])], ?o) BUFFER_SIZE = Some (True, str ''SUB'' @ SPACE # ?t, [9], ([], ?o))"
    "sendto ex_ws ([], ?o) (str ''NEWS: hello`'') (sockaddr [9]) = (True, ([], ?o @ [(str ''NEWS: hello`'', sockaddr [9])]))"
    by (simp_all add: ex_ws_def str_def ch_chars BUFFER_SIZE_def)
  have c: "client_sends ex_ws (FSM_Ch_Idle, Some MSG_Channel_Wait_Cl_Message, started (Ch_globals ?n))
      (str ''PUB'' @ SPACE # ?t @ SPACE # ?m) [7] ([(?s, [9])], [])"
    unfolding q(1) [symmetric] by (rule ex_client [OF q(3,4)])
  show ?thesis
    using publish_then_subscribe [where J = "\<lambda>_. ex_junk", OF ex_win_documented _ Y [unfolded ex_start] started_shape(1) started_serves started_shape(2)
      ex_junk_ok ex_junk_ok(1) t c io(1,2) z io(3) [folded m], of True "\<lambda>_ _. 0" Ch_NoFreeInstances 0] Y
    unfolding m by auto
qed

text \<open>C9: publishing on a known topic appends. The publisher sends \<^verbatim>\<open>PUB <topic> <message>\<close> with the
  name of a topic the server has. It holds if the server has fewer than ten topics, if the topic and the
  message fit the arrays and a row of 150 bytes (\<open>publication\<close>), if the array of the known topic holds a zero
  somewhere behind the end mark that is written, if the uninitialised array of the handler that acknowledges
  happens to hold a zero, and if the network takes the acknowledgement. Then the publisher gets it, and in the text of the first topic of that
  name the last character (the end mark) gives way to a space, the message and a new end mark; what
  the array held behind that belongs to the text from now on, for no zero is written. The other
  topics are as before.\<close>

theorem publish_appends_to_topic:
  assumes "win32_documented w" "2 \<le> N" "server_rep Y N (s, c, G)" "shape G" "serves G rs"
    and "junk_ok (J n)" "0 \<in> set (J n AckMessageTmp)" "publication t msg rs"
    and "client_sends ws (s, c, G) (str ''PUB'' @ b # t @ SPACE # msg) a n" "sendto ws n ack_text (sockaddr a) = (True, n')"
    and "find (\<lambda>j. name (rs ! j) = t) [0 ..< length rs] = Some i" "rs ! i = t @ COLON # d # ds"
    and "server_row G i = Ok row" "0 \<in> set (drop (length (rs ! i) + length msg + 1) row)"
  shows "\<exists>Y' G'. Start_for dbg w clk (ch_run dbg w ws J) noFree 3 k Y = Ok Y' \<and> net G' = n' \<and>
    serves G' (rs[i := t @ COLON # butlast (d # ds) @ SPACE # msg @ BACKQUOTE # cstr (drop (length (rs ! i) + length msg + 1) row)]) \<and>
    server_rep Y' N (FSM_Ch_Publish_ACK_State, Some MSG_Stay_Connected, G')"
  using publish_old_machine [where J = J, OF assms(9,4-8,10-14)] server_runs [OF assms(1-3)] by blast

lemma find_names: "find (\<lambda>j. name (rs ! j) = t) [0 ..< length rs] = find (\<lambda>j. map name rs ! j = t) [0 ..< length rs]"
  by (rule find_cong) auto

theorem publish_appends_to_topic_witness:
  "\<exists>(Y :: (ch_proc, ex_net Ch) system) Y' G'.
    server_rep Y 50 (start_effect ex_ws (Ch_globals ([(str ''PUB INTEL_CPU i11'', [7])], []))) \<and>
    Start_for True ex_win (\<lambda>_ _. 0) (ch_run True ex_win ex_ws (\<lambda>_. ex_junk)) Ch_NoFreeInstances 3 0 Y = Ok Y' \<and>
    net G' = ([], [(ack_text, sockaddr [7])]) \<and>
    serves G' (initial_texts[2 := str ''INTEL_CPU: i3=180$  i5=290$  i7=430$  i9=1480$ i11`'']) \<and>
    server_rep Y' 50 (FSM_Ch_Publish_ACK_State, Some MSG_Stay_Connected, G')"
proof -
  let ?q = "str ''PUB INTEL_CPU i11''" and ?t = "str ''INTEL_CPU''" and ?m = "str ''i11''"
  let ?n = "([(?q, [7])], []) :: ex_net" and ?ds = "str ''i3=180$  i5=290$  i7=430$  i9=1480$`''"
  let ?row = "topic3"
  have q: "?q = str ''PUB'' @ SPACE # ?t @ SPACE # ?m" "length ?q < BUFFER_SIZE" "0 \<notin> set ?q"
    by (simp_all add: str_def SPACE_def BUFFER_SIZE_def)
  have t: "publication ?t ?m initial_texts"
    by (simp add: publication_def new_text_def capitals_def str_def ch_chars ch_sizes initial_texts_def)
  have r: "initial_texts ! 2 = ?t @ COLON # SPACE # ?ds" by (simp add: initial_texts_def str_def ch_chars)
  have tail: "drop (length (initial_texts ! 2) + length ?m + 1) ?row = replicate 99 0"
    by (simp add: initial_texts_def topic3_def char_array_def str_def PUBLISHED_DATA_def)
  have f: "find (\<lambda>j. name (initial_texts ! j) = ?t) [0 ..< length initial_texts] = Some 2"
    unfolding find_names initial_names by (simp add: initial_texts_def) (simp add: str_def upt_rec)
  have row: "server_row (started (Ch_globals ?n)) 2 = Ok ?row"
    by (simp add: server_row_def row_at_def started_def Ch_globals_def NUMBER_OF_TOPICS_def rd_def nth_append)
  obtain Y :: "(ch_proc, ex_net Ch) system" where Y: "server_rep Y 50 (start_effect ex_ws (Ch_globals ?n))"
    using ex_server by blast
  have out: "sendto ex_ws ([], []) ack_text (sockaddr [7]) = (True, ([], [(ack_text, sockaddr [7])]))" by (simp add: ex_ws_def)
  have c: "client_sends ex_ws (FSM_Ch_Idle, Some MSG_Channel_Wait_Cl_Message, started (Ch_globals ?n))
      (str ''PUB'' @ SPACE # ?t @ SPACE # ?m) [7] ([], [])"
    unfolding q(1) [symmetric] by (rule ex_client [OF q(2,3)])
  have z: "0 \<in> set (drop (length (initial_texts ! 2) + length ?m + 1) ?row)" unfolding tail by simp
  have n: "?t @ COLON # butlast (SPACE # ?ds) @ SPACE # ?m @ BACKQUOTE # cstr (drop (length (initial_texts ! 2) + length ?m + 1) ?row) =
      str ''INTEL_CPU: i3=180$  i5=290$  i7=430$  i9=1480$ i11`''"
    unfolding tail by (simp add: str_def ch_chars cstr_def)
  show ?thesis
    using publish_appends_to_topic [where J = "\<lambda>_. ex_junk", OF ex_win_documented _ Y [unfolded ex_start] started_shape(1) started_serves ex_junk_ok t c out
      f r row z, of True "\<lambda>_ _. 0" Ch_NoFreeInstances 0] Y unfolding n by auto
qed

text \<open>C11: one unknown request stops the server. If a datagram starts with none of the three
  keywords, two rounds of the monitor loop handle it; nothing is sent, and no message is under way
  any more, so the third round never ends and no later request is received.\<close>

theorem unknown_request_stops_server:
  assumes "win32_documented w" "2 \<le> N" "server_rep Y N (s, c, G)" "junk_ok (J n)" "shape G" "serves G rs"
    and "client_sends ws (s, c, G) q a n"
    and "\<not> prefix (str ''PUB'') q" "\<not> prefix (str ''SUB'') q" "\<not> prefix (str ''LIST'') q"
  shows "(\<exists>Y' G'. Start_for dbg w clk (ch_run dbg w ws J) noFree 2 k Y = Ok Y' \<and> net G' = n \<and>
      server_rep Y' N (FSM_Ch_Store_Data, None, G')) \<and>
    (\<forall>m. 2 < m \<longrightarrow> Start_for dbg w clk (ch_run dbg w ws J) noFree m k Y = None)"
proof -
  obtain G' where G': "ch_steps ws J 2 (s, c, G) = Ok (FSM_Ch_Store_Data, None, G')" "net G' = n"
    using unknown_machine [where J = J, OF assms(7,5,6,4,8-10)] by blast
  then show ?thesis using server_runs [OF assms(1-3) G'(1)] server_hangs [OF assms(1-3) G'(1)] by blast
qed

theorem unknown_request_stops_server_witness:
  "\<exists>(Y :: (ch_proc, ex_net Ch) system). server_rep Y 50 (start_effect ex_ws (Ch_globals ([(str ''HELP'', [7]), (str ''LIST'', [9])], []))) \<and>
    Start_for True ex_win (\<lambda>_ _. 0) (ch_run True ex_win ex_ws (\<lambda>_. ex_junk)) Ch_NoFreeInstances 3 0 Y = None"
proof -
  let ?q = "str ''HELP''"
  have q: "length ?q < BUFFER_SIZE" "0 \<notin> set ?q" "\<not> prefix (str ''PUB'') ?q" "\<not> prefix (str ''SUB'') ?q" "\<not> prefix (str ''LIST'') ?q"
    by (simp_all add: str_def BUFFER_SIZE_def)
  obtain Y :: "(ch_proc, ex_net Ch) system" where Y: "server_rep Y 50 (start_effect ex_ws (Ch_globals ([(?q, [7]), (str ''LIST'', [9])], [])))"
    using ex_server by blast
  show ?thesis
    using unknown_request_stops_server [where J = "\<lambda>_. ex_junk", OF ex_win_documented _ Y [unfolded ex_start] ex_junk_ok(1) started_shape(1) started_serves
      ex_client [OF q(1,2)] q(3-5), of True "\<lambda>_ _. 0" Ch_NoFreeInstances 0] Y by auto
qed

lemma start_effect_globals: "\<exists>m. snd (snd (start_effect ws G)) = started G\<lparr>net := m\<rparr>"
proof -
  have as: "net (G\<lparr>allServerData := x\<rparr>) = net G" for x by simp
  have up: "\<exists>m. H\<lparr>net := n\<rparr> = H\<lparr>net := m\<rparr>" for H :: "'a Ch" and n by blast
  obtain ok1 n1 where 1: "WSAStartup ws (net G) = (ok1, n1)" by fastforce
  obtain ok2 n2 where 2: "socket ws n1 = (ok2, n2)" by fastforce
  obtain ok3 n3 where 3: "setsockopt ws n2 = (ok3, n3)" by fastforce
  obtain ok4 n4 where 4: "bind_socket ws n3 = (ok4, n4)" by fastforce
  show ?thesis
    by (cases ok1; cases ok2; cases ok4; simp only: start_effect_def started_def Let_def as 1 2 3 4 prod.case snd_conv if_True if_False simp_thms up)
qed

text \<open>C12: the arrays keep their shape. In every state the server comes to, the buffers and rows have
  their sizes, the number of topics is between four and ten, the first four entries of
  \<^verbatim>\<open>allServerData\<close> point to the built-in texts and the others to a row of their own, and the
  flag \<^verbatim>\<open>alreadyexists\<close> is down between two messages.\<close>

theorem arrays_keep_shape:
  assumes "reached ws (Ch_globals n) e"
  shows "shape (snd (snd e)) \<and> \<not> alreadyexists (snd (snd e))"
  using assms
proof induction
  case start
  obtain m where "snd (snd (start_effect ws (Ch_globals n))) = started (Ch_globals n)\<lparr>net := m\<rparr>"
    using start_effect_globals [of ws "Ch_globals n"] by (rule exE)
  then show ?case using started_shape [of n] by simp
next
  case (step e J e')
  obtain s c G s' c' G' where e: "e = (s, c, G)" "e' = (s', c', G')" by (metis prod_cases3)
  have G: "shape G" "\<not> alreadyexists G" using step.IH e(1) by simp_all
  have run: "ch_step ws J (s, c, G) = Ok (s', c', G')" using step.hyps(2) e by simp
  then obtain code where code: "c = Some code" by (cases c) simp_all
  show ?case
  proof (cases "handler_of s code")
    case None
    then show ?thesis using run G e(2) code by simp
  next
    case (Some p)
    then show ?thesis using run ch_effect_shape [OF G, of ws J p s' c' G'] e(2) code by simp
  qed
qed

theorem arrays_keep_shape_witness:
  "\<exists>e. reached ex_ws (Ch_globals ([(str ''LIST'', [])], [])) e \<and> fst e = FSM_Ch_Connected \<and> shape (snd (snd e))"
proof -
  let ?G = "Ch_globals ([(str ''LIST'', [])], [])"
  obtain e where e: "ch_step ex_ws J (start_effect ex_ws ?G) = Ok e" "fst e = FSM_Ch_Connected" for J
    by (simp add: start_effect_def ex_ws_def handler_table ch_effect_def in_state_def receive_def Ch_globals_def str_def
        memcpy_def BUFFER_SIZE_def c_strlen_zeros)
  have r: "reached ex_ws ?G e" by (rule reached.step [OF reached.start e(1)])
  show ?thesis using arrays_keep_shape [OF r] r e(2) by blast
qed

text \<open>The acknowledgement depends on luck. \<^verbatim>\<open>FSM_Ch_Publish_ACK\<close> copies as long as the
  string in the uninitialised target is longer than what was copied: the copy ends well exactly if
  the array happens to hold a zero somewhere; otherwise memory behind it is read.\<close>

theorem acknowledgement_needs_a_zero:
  "junk_ok J \<Longrightarrow> (\<exists>tmp. ack_copy J = Ok tmp) \<longleftrightarrow> 0 \<in> set (J AckMessageTmp)"
  by (rule ack_copy_iff)

theorem acknowledgement_needs_a_zero_witness:
  "(\<exists>tmp. ack_copy ex_junk = Ok tmp) \<and> \<not> (\<exists>tmp. ack_copy (\<lambda>v. replicate (if v = TopicTmp then TOPIC_BUFFER_SIZE else BUFFER_SIZE) 1) = Ok tmp)"
  using acknowledgement_needs_a_zero [OF ex_junk_ok(1)] ex_junk_ok(2)
    acknowledgement_needs_a_zero [of "\<lambda>v. replicate (if v = TopicTmp then TOPIC_BUFFER_SIZE else BUFFER_SIZE) 1"]
  by (simp add: junk_ok_def BUFFER_SIZE_def)

text \<open>A publication when there are ten topics: the row behind the last one is looked for and is not there.\<close>

lemma full_machine:
  assumes c: "client_sends ws (s, c, G) (str ''PUB'' @ b # t @ SPACE # msg) a n" and G: "shape G" "serves G rs"
    and J: "junk_ok (J n)" and full: "length rs = MAX_PUBLISHERS" and t: "SPACE \<notin> set t" "length t < TOPIC_BUFFER_SIZE"
    and len: "2 * length t + length msg + 10 \<le> BUFFER_SIZE"
  shows "ch_steps ws J 2 (s, c, G) = Fault MemFault"
proof -
  obtain G1 where 1: "\<forall>J. ch_step ws J (s, c, G) = Ok (FSM_Ch_Connected, Some MSG_Store_Data_on_Topic, G1)"
    "shape G1" "serves G1 rs" "string_in (dataBuffer G1) (str ''PUB'' @ b # t @ SPACE # msg)" "net G1 = n"
    using receives [OF c G] by blast
  have "prefix (str ''PUB'') (str ''PUB'' @ b # t @ SPACE # msg)" by simp
  then obtain d where d: "string_in d (str ''PUB'' @ b # t @ SPACE # msg)" "length d = BUFFER_SIZE"
    "store_data (J n) G1 = andThen (publish (J n) d G1) (\<lambda>G. Ok (Some MSG_ACK_Notification, G))"
    using store_data_kinds(1) [OF 1(4,2) J] by blast
  have "publish (J n) d G1 = Fault MemFault"
    by (rule publish_behind_array [OF PUB_parts [OF d(1)] d(2) t J 1(2,3) len full])
  then show ?thesis using 1(1,5) d(3) by (simp add: numeral_2_eq_2 ch_effect_def in_state_def handler_table)
qed

text \<open>C28: with ten topics every publication ends in an access outside an array. The server has ten topics
  and waits for a client; a datagram \<^verbatim>\<open>PUB <topic> <message>\<close> comes in, of a size for which every other
  copy fits, on a topic the server has or on a new one. The second round of the monitor loop ends with a memory
  fault, so the server does not survive it. What is accessed is the row with the index ten of
  \<^verbatim>\<open>tmpOnCurrentTopicData\<close>, which has ten rows: if an eleventh one stood behind them, the same call
  for a new topic would succeed, the ten rows would be as before, and that eleventh row would hold the topic and
  the message.\<close>

theorem publish_beyond_ten_topics:
  assumes "win32_documented w" "2 \<le> N" "server_rep Y N (s, c, G)" "shape G" "serves G rs" "\<not> alreadyexists G"
    and "length rs = MAX_PUBLISHERS" "junk_ok (J n)" "client_sends ws (s, c, G) (str ''PUB'' @ b # t @ SPACE # msg) a n"
    and "SPACE \<notin> set t" "length t < TOPIC_BUFFER_SIZE" "2 * length t + length msg + 10 \<le> BUFFER_SIZE"
    and "length (new_text t msg) < PUBLISHED_DATA"
  shows "(\<forall>m. 2 \<le> m \<longrightarrow> Start_for dbg w clk (ch_run dbg w ws J) noFree m k Y = Fault MemFault) \<and>
    (\<forall>d. string_in d (str ''PUB'' @ b # t @ SPACE # msg) \<and> length d = BUFFER_SIZE \<longrightarrow>
      publish (J n) d G = Fault MemFault \<and>
      (\<forall>row. length row = PUBLISHED_DATA \<and> (\<forall>r \<in> set rs. name r \<noteq> t) \<longrightarrow>
        (\<exists>G' row'. publish (J n) d (G\<lparr>tmpOnCurrentTopicData := tmpOnCurrentTopicData G @ [row]\<rparr>) = Ok G' \<and>
          tmpOnCurrentTopicData G' = tmpOnCurrentTopicData G @ [row'] \<and> string_in row' (new_text t msg))))"
proof (intro conjI allI impI)
  fix m :: nat assume "2 \<le> m"
  then show "Start_for dbg w clk (ch_run dbg w ws J) noFree m k Y = Fault MemFault"
    using server_fails [OF assms(1-3) full_machine [where J = J, OF assms(9,4,5,8,7,10-12)]] by blast
next
  fix d assume d: "string_in d (str ''PUB'' @ b # t @ SPACE # msg) \<and> length d = BUFFER_SIZE"
  note p = PUB_parts [OF conjunct1 [OF d]] conjunct2 [OF d]
  show "publish (J n) d G = Fault MemFault" by (rule publish_behind_array [OF p assms(10,11,8,4,5,12,7)])
  fix row :: "uint8 list" assume "length row = PUBLISHED_DATA \<and> (\<forall>r \<in> set rs. name r \<noteq> t)"
  then show "\<exists>G' row'. publish (J n) d (G\<lparr>tmpOnCurrentTopicData := tmpOnCurrentTopicData G @ [row]\<rparr>) = Ok G' \<and>
      tmpOnCurrentTopicData G' = tmpOnCurrentTopicData G @ [row'] \<and> string_in row' (new_text t msg)"
    using publish_row_behind [OF p assms(10,11,8,4-6,12) _ assms(7)] assms(13) by simp
qed

lemma server_rep_app: "server_rep Y N (s, c, G) \<Longrightarrow> server_rep (Y\<lparr>ker := (ker Y)\<lparr>app := H\<rparr>\<rparr>) N (s, c, H)"
  by (simp add: server_rep_def)

text \<open>A server with ten topics.\<close>

definition ex_full :: "ex_net \<Rightarrow> ex_net Ch" where
  "ex_full n = (Ch_globals n)\<lparr>allServerData := map (Some \<circ> row_ptr) [0 ..< NUMBER_OF_TOPICS], publisherCounter := 10,
     tmpOnCurrentTopicData := replicate MAX_PUBLISHERS (char_array PUBLISHED_DATA ''X: x`'')\<rparr>"

lemma ex_full_ok:
  "shape (ex_full n)" "serves (ex_full n) (initial_texts @ replicate 6 (str ''X: x`''))" "\<not> alreadyexists (ex_full n)"
proof -
  have len: "length (initial_texts @ replicate 6 (str ''X: x`'')) = 10" by (simp add: initial_texts_def)
  have row: "string_in (char_array PUBLISHED_DATA ''X: x`'') (str ''X: x`'')"
    by (rule string_in_array) (simp_all add: PUBLISHED_DATA_def str_def)
  have x: "topic_text (str ''X: x`'')" by (simp add: topic_text_def str_def name_def ch_chars TOPIC_BUFFER_SIZE_def)
  show shape: "shape (ex_full n)"
    by (auto simp: shape_def ex_full_def Ch_globals_def ch_sizes topic1_def topic2_def topic3_def topic4_def char_array_def str_def)
  have "\<exists>r. row_at (ex_full n) (row_ptr j) = Ok r \<and> string_in r ((initial_texts @ replicate 6 (str ''X: x`'')) ! j)" if "j < 10" for j
  proof (cases "j < 4")
    case True
    then have "j < length initial_texts" by (simp add: initial_texts_def)
    then show ?thesis using True initial_rows
      by (auto simp: ex_full_def Ch_globals_def row_at_def row_ptr_def less_Suc_eq numeral_eq_Suc nth_append)
  next
    case False
    have "length initial_texts = 4" by (simp add: initial_texts_def)
    then have "(initial_texts @ replicate 6 (str ''X: x`'')) ! j = str ''X: x`''" using False that by (simp add: nth_append)
    then show ?thesis using False that row by (simp add: ex_full_def row_at_def row_ptr_def rd_def MAX_PUBLISHERS_def)
  qed
  then show "serves (ex_full n) (initial_texts @ replicate 6 (str ''X: x`''))"
    using initial_topics x len unfolding serves_shape [OF shape] by (auto simp: ex_full_def)
  show "\<not> alreadyexists (ex_full n)" by (simp add: ex_full_def Ch_globals_def)
qed

theorem publish_beyond_ten_topics_witness:
  "\<exists>(Y :: (ch_proc, ex_net Ch) system) G. server_rep Y 50 (FSM_Ch_Idle, Some MSG_Channel_Wait_Cl_Message, G) \<and>
    publisherCounter G = 10 \<and>
    Start_for True ex_win (\<lambda>_ _. 0) (ch_run True ex_win ex_ws (\<lambda>_. ex_junk)) Ch_NoFreeInstances 2 0 Y = Fault MemFault"
proof -
  let ?t = "str ''NEWS''" and ?m = "str ''hello`''"
  let ?q = "str ''PUB'' @ SPACE # ?t @ SPACE # ?m"
  let ?n = "([(?q, [7])], []) :: ex_net" and ?rs = "initial_texts @ replicate 6 (str ''X: x`'')"
  obtain Y0 :: "(ch_proc, ex_net Ch) system" where Y0: "server_rep Y0 50 (start_effect ex_ws (Ch_globals ?n))"
    using ex_server by blast
  define Y where "Y = Y0\<lparr>ker := (ker Y0)\<lparr>app := ex_full ?n\<rparr>\<rparr>"
  have Y: "server_rep Y 50 (FSM_Ch_Idle, Some MSG_Channel_Wait_Cl_Message, ex_full ?n)"
    unfolding Y_def by (rule server_rep_app [OF Y0 [unfolded ex_start]])
  have c: "client_sends ex_ws (FSM_Ch_Idle, Some MSG_Channel_Wait_Cl_Message, ex_full ?n) ?q [7] ([], [])"
    by (simp add: client_sends_def handler_table ex_ws_def ex_full_def Ch_globals_def str_def ch_chars BUFFER_SIZE_def)
  have l: "length ?rs = MAX_PUBLISHERS" by (simp add: initial_texts_def MAX_PUBLISHERS_def)
  have t: "SPACE \<notin> set ?t" "length ?t < TOPIC_BUFFER_SIZE" "2 * length ?t + length ?m + 10 \<le> BUFFER_SIZE"
    "length (new_text ?t ?m) < PUBLISHED_DATA"
    by (simp_all add: new_text_def capitals_def str_def ch_chars ch_sizes)
  have two: "2 \<le> (50 :: nat)" by simp
  have "Start_for True ex_win (\<lambda>_ _. 0) (ch_run True ex_win ex_ws (\<lambda>_. ex_junk)) Ch_NoFreeInstances 2 0 Y = Fault MemFault"
    using publish_beyond_ten_topics [where J = "\<lambda>_. ex_junk", OF ex_win_documented two Y ex_full_ok l ex_junk_ok(1) c t,
      of True "\<lambda>_ _. 0" Ch_NoFreeInstances 0] by simp
  moreover have "publisherCounter (ex_full ?n) = 10" by (simp add: ex_full_def)
  ultimately show ?thesis using Y by blast
qed

text \<open>C10: the answer to a subscription. The two nested loops of \<^verbatim>\<open>FSM_Ch_Share_Topic_Data\<close> with
  their three flags compute \<open>found_text\<close>, followed by the end mark, whatever the buffer held:
  the first topic whose name is a prefix of the requested one is sent up to the first
  backquote, and of every topic before it the letters its name shares with the requested one.\<close>

theorem topic_data_equals_found_text:
  assumes "serves G rs" "string_in (currentTopic G) t" "junk_ok J" "length (found_text t rs) + 2 \<le> BUFFER_SIZE"
  shows "\<exists>buf. topic_data J G = Ok buf \<and> cstr buf = found_text t rs @ [BACKQUOTE]"
  using topic_data_ok [OF assms] cstr_string_in by blast

theorem topic_data_equals_found_text_witness:
  "\<exists>buf. topic_data ex_junk (started (Ch_globals ([], [])) \<lparr>currentTopic := char_array 50 ''FOOTBALL''\<rparr> :: ex_net Ch) = Ok buf \<and>
     cstr buf = str ''FOOTBALL: France 4:2 Croatia  Belgium 2:0 England  Germany 2:1 Sweden  Japan 2:2 Senegal`''"
proof -
  let ?G = "started (Ch_globals ([], [])) \<lparr>currentTopic := char_array 50 ''FOOTBALL''\<rparr> :: ex_net Ch"
  have t: "string_in (currentTopic ?G) (str ''FOOTBALL'')"
    using string_in_array [of "''FOOTBALL''" 50] by (simp add: str_def)
  have f: "found_text (str ''FOOTBALL'') initial_texts @ [BACKQUOTE] =
      str ''FOOTBALL: France 4:2 Croatia  Belgium 2:0 England  Germany 2:1 Sweden  Japan 2:2 Senegal`''"
    by (simp add: initial_texts_def str_def name_def ch_chars)
  have "length (found_text (str ''FOOTBALL'') initial_texts @ [BACKQUOTE]) < 1000" unfolding f by (simp add: str_def)
  then have len: "length (found_text (str ''FOOTBALL'') initial_texts) + 2 \<le> BUFFER_SIZE" by (simp add: BUFFER_SIZE_def)
  have G: "serves ?G initial_texts" using started_serves by simp
  show ?thesis using topic_data_equals_found_text [OF G t ex_junk_ok(1) len] unfolding f .
qed

end
