(* ===== verification/Client_Main.thy ===== *)
theory Client_Main
  imports Ch_Requests
begin

text \<open>
  \<^verbatim>\<open>Client_IPv6/Client_IPv6.cpp\<close>: the client program. It reads a line, sends it to the server,
  waits for a datagram and prints it up to the end mark. The winsock calls are an argument, as for
  the server, and so is the console.
\<close>

section \<open>The program\<close>

text \<open>The console: \<open>read_line\<close> answers the line typed, \<^term>\<open>None\<close> at the end of the input, or never.\<close>

record 'c console =
  read_line :: "'c \<Rightarrow> (uint8 list option \<times> 'c) option"
  print :: "'c \<Rightarrow> uint8 list \<Rightarrow> 'c"

text \<open>The locals of \<^verbatim>\<open>main\<close>; \<open>code\<close> is the exit code once the program has ended.\<close>

record ('n, 'c) Client =
  cl_buffer :: "uint8 list"
  serverAddress :: "uint8 list"
  cl_net :: 'n
  cl_con :: 'c
  exit_code :: "int option"

text \<open>
  \<^verbatim>\<open>sockaddr_in6\<close>: the family 23 (little endian), the port 27015 (big endian), the flow info,
  the address \<^verbatim>\<open>0:0:0:0:0:0:0:1\<close> and the scope.
\<close>

definition SERVER_ADDRESS :: "uint8 list" where
  "SERVER_ADDRESS = [23, 0, 0x69, 0x87, 0, 0, 0, 0] @ replicate 15 0 @ [1] @ replicate 4 0"

definition say :: "'c console \<Rightarrow> uint8 list \<Rightarrow> ('n, 'c) Client \<Rightarrow> ('n, 'c) Client" where
  "say io text C = C\<lparr>cl_con := print io (cl_con C) text\<rparr>"

text \<open>What the program prints; the number of the error behind a failure message is left out.\<close>

definition TAB :: uint8 where "TAB = 0x09"

definition menu :: "uint8 list" where
  "menu = str ''Type in message following  one of the possible patterns (without [ ]):'' @
     [NEWLINE] @ str ''1. PUB [TOPIC] [NewData]'' @ [TAB] @ str ''--> Publish data on topic!'' @
     [NEWLINE] @ str ''2. SUB [TOPIC]'' @ [TAB, TAB, TAB] @ str ''--> Subscribe on specified topic!'' @
     [NEWLINE] @ str ''3. LIST'' @ [TAB, TAB, TAB, TAB] @ str ''--> Show all existing topics!''"

definition prompt :: "uint8 list" where
  "prompt = [NEWLINE] @ str ''-----> Enter message to send: ''"

definition heading :: "uint8 list" where
  "heading = [NEWLINE] @ str ''***** Received from server *****'' @ [NEWLINE]"

text \<open>\<open>junk\<close> is what the uninitialised buffer holds.\<close>

definition Client_start :: "'n winsock \<Rightarrow> 'c console \<Rightarrow> uint8 list \<Rightarrow> 'n \<Rightarrow> 'c \<Rightarrow> ('n, 'c) Client" where
  "Client_start ws io junk n con =
     (let C = \<lparr>cl_buffer = junk, serverAddress = SERVER_ADDRESS, cl_net = n, cl_con = con, exit_code = None\<rparr>;
          (ok, n) = WSAStartup ws n in
      if \<not> ok then say io (str ''WSAStartup failed with error: '') (C\<lparr>cl_net := n, exit_code := Some 1\<rparr>)
      else let (ok, n) = socket ws n in
      if \<not> ok then say io (str ''Creating socket failed with error: '') (C\<lparr>cl_net := WSACleanup ws n, exit_code := Some 1\<rparr>)
      else say io menu (C\<lparr>cl_net := n\<rparr>))"

text \<open>
  \<^verbatim>\<open>gets_s\<close> stores the line and a zero; a line that does not fit ends the program, and at the end
  of the input the string is made empty.
\<close>

definition gets_s :: "uint8 list \<Rightarrow> nat \<Rightarrow> uint8 list option \<Rightarrow> uint8 list res" where
  "gets_s buf n line = (case line of
     None \<Rightarrow> wr buf 0 0
   | Some l \<Rightarrow> if length l < n then memcpy buf 0 (l @ [0]) (length l + 1) else Fault AssertFailed)"

definition Client_fail :: "'n winsock \<Rightarrow> 'c console \<Rightarrow> uint8 list \<Rightarrow> ('n, 'c) Client \<Rightarrow> ('n, 'c) Client" where
  "Client_fail ws io text C =
     say io text (C\<lparr>cl_net := WSACleanup ws (closesocket ws (cl_net C)), exit_code := Some 1\<rparr>)"

text \<open>One round of the loop, up to the call that waits for the answer, and from it on.\<close>

definition Client_send :: "'n winsock \<Rightarrow> 'c console \<Rightarrow> ('n, 'c) Client \<Rightarrow> ('n, 'c) Client res" where
  "Client_send ws io C =
     (let C = say io prompt C in
      case read_line io (cl_con C) of None \<Rightarrow> None
      | Some (line, con) \<Rightarrow>
          andThen (gets_s (cl_buffer C) BUFFER_SIZE line) (\<lambda>buf.
          andThen (c_strlen buf) (\<lambda>n.
          let (ok, nt) = sendto ws (cl_net C) (take n buf) (serverAddress C);
              C = C\<lparr>cl_buffer := buf, cl_con := con, cl_net := nt\<rparr> in
          Ok (if ok then C else Client_fail ws io (str ''sendto failed with error: '') C))))"

fun print_answer :: "'c console \<Rightarrow> uint8 list \<Rightarrow> 'c \<Rightarrow> 'c" where
  "print_answer io [] con = con"
| "print_answer io (c # cs) con = (if c = BACKQUOTE then con else print_answer io cs (print io con [c]))"

definition Client_receive :: "'n winsock \<Rightarrow> 'c console \<Rightarrow> ('n, 'c) Client \<Rightarrow> ('n, 'c) Client res" where
  "Client_receive ws io C = (case recvfrom ws (cl_net C) BUFFER_SIZE of
     None \<Rightarrow> None
   | Some (ok, bs, a, nt) \<Rightarrow>
       let C = C\<lparr>cl_net := nt\<rparr> in
       if \<not> ok then Ok (Client_fail ws io (str ''recvfrom failed with error: '') C)
       else andThen (memcpy (cl_buffer C) 0 bs (length bs)) (\<lambda>buf.
            andThen (memcpy (serverAddress C) 0 a (length a)) (\<lambda>address.
            andThen (c_strlen buf) (\<lambda>n.
            let C = say io heading (C\<lparr>cl_buffer := buf, serverAddress := address\<rparr>) in
            Ok (C\<lparr>cl_con := print_answer io (take n buf) (cl_con C)\<rparr>)))))"

definition Client_round :: "'n winsock \<Rightarrow> 'c console \<Rightarrow> ('n, 'c) Client \<Rightarrow> ('n, 'c) Client res" where
  "Client_round ws io C =
     andThen (Client_send ws io C) (\<lambda>C. if exit_code C \<noteq> None then Ok C else Client_receive ws io C)"

partial_function (option) Client_loop :: "'n winsock \<Rightarrow> 'c console \<Rightarrow> ('n, 'c) Client \<Rightarrow> (fault + ('n, 'c) Client) option" where
  "Client_loop ws io C =
     (if exit_code C \<noteq> None then Ok C
      else andThen (Client_round ws io C) (Client_loop ws io))"

definition Client_main :: "'n winsock \<Rightarrow> 'c console \<Rightarrow> uint8 list \<Rightarrow> 'n \<Rightarrow> 'c \<Rightarrow> ('n, 'c) Client res" where
  "Client_main ws io junk n con = Client_loop ws io (Client_start ws io junk n con)"

section \<open>A round of the client\<close>

definition prints :: "'c console \<Rightarrow> uint8 list \<Rightarrow> 'c \<Rightarrow> 'c" where
  "prints io t con = foldl (\<lambda>con c. print io con [c]) con t"

lemma print_answer_ok: "BACKQUOTE \<notin> set t \<Longrightarrow> print_answer io (t @ BACKQUOTE # rest) con = prints io t con"
  by (induction t arbitrary: con) (auto simp: prints_def)

lemma Client_send_ok:
  assumes buf: "length (cl_buffer C) = BUFFER_SIZE" and l: "length q < BUFFER_SIZE" "0 \<notin> set q"
    and typed: "read_line io (print io (cl_con C) prompt) = Some (Some q, con)"
    and out: "sendto ws (cl_net C) q (serverAddress C) = (True, n)"
  shows "Client_send ws io C = Ok (C\<lparr>cl_buffer := q @ 0 # drop (Suc (length q)) (cl_buffer C), cl_con := con, cl_net := n\<rparr>)"
proof -
  have g: "gets_s (cl_buffer C) BUFFER_SIZE (Some q) = Ok (q @ 0 # drop (Suc (length q)) (cl_buffer C))"
    using buf l by (simp add: gets_s_def memcpy_def)
  moreover have "c_strlen (q @ 0 # drop (Suc (length q)) (cl_buffer C)) = Ok (length q)"
    by (rule c_strlen_ok) (use l(2) in simp)
  ultimately show ?thesis using typed out by (simp add: Client_send_def say_def Let_def)
qed

text \<open>
  The datagram is not terminated: that the string in the buffer ends at all depends on a zero
  behind it.
\<close>

lemma Client_receive_ok:
  assumes buf: "length (cl_buffer C) = BUFFER_SIZE" "length (serverAddress C) = 28" "length a \<le> 28"
    and t: "BACKQUOTE \<notin> set t" "0 \<notin> set t" "length t < BUFFER_SIZE" "0 \<in> set (drop (Suc (length t)) (cl_buffer C))"
    and inp: "recvfrom ws (cl_net C) BUFFER_SIZE = Some (True, t @ [BACKQUOTE], a, n)"
  shows "\<exists>C'. Client_receive ws io C = Ok C' \<and> cl_net C' = n \<and> cl_con C' = prints io t (print io (cl_con C) heading) \<and>
    exit_code C' = exit_code C \<and> length (cl_buffer C') = BUFFER_SIZE \<and> length (serverAddress C') = 28"
proof -
  let ?tail = "drop (Suc (length t)) (cl_buffer C)"
  let ?buf = "t @ BACKQUOTE # ?tail"
  obtain rest where r: "?tail = cstr ?tail @ 0 # rest" "0 \<notin> set (cstr ?tail)" using string_in_cstr [OF t(4)] by (rule string_inE)
  have "string_in ?buf (t @ BACKQUOTE # cstr ?tail)"
    unfolding string_in_def using r t(2) by (auto simp: ch_chars)
  then have "c_strlen ?buf = Ok (Suc (length t) + length (cstr ?tail))" by (simp add: c_strlen_ok)
  moreover have "take (Suc (length t) + length (cstr ?tail)) ?buf = t @ BACKQUOTE # take (length (cstr ?tail)) ?tail" by simp
  moreover have "memcpy (cl_buffer C) 0 (t @ [BACKQUOTE]) (length (t @ [BACKQUOTE])) = Ok ?buf"
    using buf(1) t(3) by (simp add: memcpy_def)
  moreover have "memcpy (serverAddress C) 0 a (length a) = Ok (a @ drop (length a) (serverAddress C))"
    using buf(2,3) by (simp add: memcpy_def)
  ultimately show ?thesis
    using inp buf t(1,3) by (simp add: Client_receive_def say_def Let_def print_answer_ok)
qed

section \<open>Clients and server on one network\<close>

text \<open>
  Between the two halves of a client's round the server makes its rounds; all see the same
  network.
\<close>

definition with_net :: "(ch_proc, 'n Ch) system \<Rightarrow> 'n \<Rightarrow> (ch_proc, 'n Ch) system" where
  "with_net Y n = Y\<lparr>ker := (ker Y)\<lparr>app := (app (ker Y))\<lparr>net := n\<rparr>\<rparr>\<rparr>"

definition exchange :: "bool \<Rightarrow> win32 \<Rightarrow> 'n winsock \<Rightarrow> 'n winsock \<Rightarrow> 'n stack \<Rightarrow> (nat \<Rightarrow> nat \<Rightarrow> uint32) \<Rightarrow> 'n handler \<Rightarrow> 'c console \<Rightarrow> nat
    \<Rightarrow> ('n, 'c) Client \<Rightarrow> (ch_proc, 'n Ch) system \<Rightarrow> (('n, 'c) Client \<times> (ch_proc, 'n Ch) system) res" where
  "exchange dbg w ws cws J clk noFree io k C Y =
     andThen (Client_send cws io (C\<lparr>cl_net := net (app (ker Y))\<rparr>)) (\<lambda>C.
     andThen (Start_for dbg w clk (ch_run dbg w ws J) noFree 3 k (with_net Y (cl_net C))) (\<lambda>Y.
     andThen (Client_receive cws io (C\<lparr>cl_net := net (app (ker Y))\<rparr>)) (\<lambda>C.
     Ok (C, with_net Y (cl_net C)))))"

lemma server_rep_net: "server_rep Y N (s, c, G) \<Longrightarrow> server_rep (with_net Y n) N (s, c, G\<lparr>net := n\<rparr>)"
  by (simp add: server_rep_def with_net_def)

text \<open>A network that loses nothing: \<open>ex_ws\<close> for the server, \<open>lossless me\<close> for the client with the address \<open>me\<close>.\<close>

definition lossless :: "uint8 list \<Rightarrow> ex_net winsock" where
  "lossless me = ex_ws\<lparr>
     recvfrom := (\<lambda>(ins, outs) size. case find (\<lambda>(t, a). a = sockaddr me) outs of
       None \<Rightarrow> None | Some (t, a) \<Rightarrow> Some (True, take size t, SERVER_ADDRESS, (ins, remove1 (t, a) outs))),
     sendto := (\<lambda>(ins, outs) t a. (True, (ins @ [(t, me)], outs)))\<rparr>"

text \<open>
  The client is ready and types \<open>q\<close>; what the buffer holds behind an answer of \<open>n\<close> bytes
  has a zero.
\<close>

definition types :: "'c console \<Rightarrow> ('n, 'c) Client \<Rightarrow> uint8 list \<Rightarrow> 'c \<Rightarrow> nat \<Rightarrow> bool" where
  "types io C q con n \<longleftrightarrow> length (cl_buffer C) = BUFFER_SIZE \<and> length (serverAddress C) = 28 \<and>
     read_line io (print io (cl_con C) prompt) = Some (Some q, con) \<and> length q < BUFFER_SIZE \<and> 0 \<notin> set q \<and>
     n < BUFFER_SIZE \<and> 0 \<in> set (drop n (cl_buffer C))"

lemma zero_behind:
  assumes "0 \<in> set (drop n b)"
  shows "0 \<in> set (drop n (q @ 0 # drop (Suc (length q)) b))"
proof (cases "n \<le> length q")
  case False
  then have "drop n (q @ 0 # drop (Suc (length q)) b) = drop n b" by (simp add: Suc_diff_le drop_Cons')
  then show ?thesis using assms by simp
qed simp

lemma exchange_ok:
  assumes w: "win32_documented w" "2 \<le> N" and Y: "server_rep Y N (s, c, G)" "net G = ([], [])"
    and C: "types io C q con (Suc (length t))" and t: "BACKQUOTE \<notin> set t" "0 \<notin> set t"
    and run: "ch_steps ex_ws J 3 (s, c, G\<lparr>net := ([(q, me)], [])\<rparr>) = Ok (s', c', G')"
    and answer: "net G' = ([], [(t @ [BACKQUOTE], sockaddr me)])"
  shows "\<exists>C' Y'. exchange dbg w ex_ws (lossless me) J clk noFree io k C Y = Ok (C', Y') \<and>
    cl_con C' = prints io t (print io con heading) \<and> server_rep Y' N (s', c', G'\<lparr>net := ([], [])\<rparr>)"
proof -
  have n: "net (app (ker Y)) = ([], [])" using Y by (simp add: server_rep_def)
  let ?C1 = "C\<lparr>cl_buffer := q @ 0 # drop (Suc (length q)) (cl_buffer C), cl_con := con, cl_net := ([(q, me)], [])\<rparr>"
  have send: "Client_send (lossless me) io (C\<lparr>cl_net := net (app (ker Y))\<rparr>) = Ok ?C1"
    using Client_send_ok [of "C\<lparr>cl_net := ([], [])\<rparr>" q io con "lossless me" "([(q, me)], [])"] C unfolding n
    by (simp add: types_def lossless_def)
  obtain Y1 where Y1: "Start_for dbg w clk (ch_run dbg w ex_ws J) noFree 3 k (with_net Y ([(q, me)], [])) = Ok Y1"
    "server_rep Y1 N (s', c', G')"
    using server_runs [OF w server_rep_net [OF Y(1)] run] by blast
  have n1: "net (app (ker Y1)) = ([], [(t @ [BACKQUOTE], sockaddr me)])" using Y1(2) answer by (simp add: server_rep_def)
  have "0 \<in> set (drop (Suc (length t)) (q @ 0 # drop (Suc (length q)) (cl_buffer C)))"
    by (rule zero_behind) (use C in \<open>simp add: types_def\<close>)
  then obtain C' where C': "Client_receive (lossless me) io (?C1\<lparr>cl_net := net (app (ker Y1))\<rparr>) = Ok C'" "cl_net C' = ([], [])"
    "cl_con C' = prints io t (print io con heading)"
    using Client_receive_ok [of "?C1\<lparr>cl_net := net (app (ker Y1))\<rparr>" SERVER_ADDRESS t "lossless me" "([], [])" io] C t n1
    by (auto simp: types_def lossless_def SERVER_ADDRESS_def)
  show ?thesis
    using send Y1(1) C' server_rep_net [OF Y1(2)] by (simp add: exchange_def)
qed

text \<open>The server has an ear for clients, and nothing is on its way.\<close>

definition listens :: "(ch_proc, ex_net Ch) system \<Rightarrow> nat \<Rightarrow> uint8 \<Rightarrow> uint16 \<Rightarrow> ex_net Ch \<Rightarrow> uint8 list list \<Rightarrow> bool" where
  "listens Y N s c G rs \<longleftrightarrow> server_rep Y N (s, Some c, G) \<and> handler_of s c = Some Idle_Cl_Connected \<and> net G = ([], []) \<and>
     shape G \<and> serves G rs \<and> \<not> alreadyexists G"

lemma listens_sends:
  assumes "listens Y N s c G rs" "length q < BUFFER_SIZE" "0 \<notin> set q"
  shows "client_sends ex_ws (s, Some c, G\<lparr>net := ([(q, me)], [])\<rparr>) q me ([], [])"
  using assms by (simp add: listens_def client_sends_def ex_ws_def)

lemma ex_ws_sends: "sendto ex_ws (ins, outs) t a = (True, (ins, outs @ [(t, a)]))"
  by (simp add: ex_ws_def)

lemma publisher_exchange:
  assumes w: "win32_documented w" "2 \<le> N" and Y: "listens Y N s c G rs" and J: "junk_ok (J ([], []))" "0 \<in> set (J ([], []) AckMessageTmp)"
    and p: "publication t msg rs" "\<forall>r \<in> set rs. name r \<noteq> t" and C: "types io C (str ''PUB'' @ SPACE # t @ SPACE # msg) con 26"
  shows "\<exists>C' Y' G'. exchange dbg w ex_ws (lossless me) J clk noFree io k C Y = Ok (C', Y') \<and>
    cl_con C' = prints io (str ''Topic added successfully!'') (print io con heading) \<and>
    listens Y' N FSM_Ch_Publish_ACK_State MSG_Stay_Connected G' (rs @ [new_text t msg])"
proof -
  let ?q = "str ''PUB'' @ SPACE # t @ SPACE # msg" and ?t = "str ''Topic added successfully!''"
  let ?G = "G\<lparr>net := ([(?q, me)], [])\<rparr>"
  have q: "length ?q < BUFFER_SIZE" "0 \<notin> set ?q" using C by (simp_all add: types_def)
  have G: "shape ?G" "serves ?G rs" "\<not> alreadyexists ?G" using Y by (simp_all add: listens_def)
  have ack: "ack_text = ?t @ [BACKQUOTE]" by (simp add: ack_text_def str_def ch_chars)
  obtain G' where G': "ch_steps ex_ws J 3 (s, Some c, ?G) = Ok (FSM_Ch_Publish_ACK_State, Some MSG_Stay_Connected, G')"
    "net G' = ([], [(?t @ [BACKQUOTE], sockaddr me)])" "serves G' (rs @ [new_text t msg])" "shape G'" "\<not> alreadyexists G'"
    using publish_new_machine [where J = J, OF listens_sends [OF Y q] G J p ex_ws_sends] unfolding ack by auto
  have "BACKQUOTE \<notin> set ?t" "0 \<notin> set ?t" "Suc (length ?t) = 26" by (simp_all add: str_def ch_chars)
  then obtain C' Y' where 1: "exchange dbg w ex_ws (lossless me) J clk noFree io k C Y = Ok (C', Y')"
    "cl_con C' = prints io ?t (print io con heading)"
    "server_rep Y' N (FSM_Ch_Publish_ACK_State, Some MSG_Stay_Connected, G'\<lparr>net := ([], [])\<rparr>)"
    using exchange_ok [OF w _ _ _ _ _ G'(1,2)] Y C unfolding listens_def by metis
  then show ?thesis using G'(3-5)
    by (intro exI [of _ C'] exI [of _ Y'] exI [of _ "G'\<lparr>net := ([], [])\<rparr>"]) (simp add: listens_def handler_table)
qed

lemma subscriber_exchange:
  assumes w: "win32_documented w" "2 \<le> N" and Y: "listens Y N s c G rs" and J: "junk_ok (J ([], []))"
    and t: "length t < TOPIC_BUFFER_SIZE" "length (found_text t rs) + 2 \<le> BUFFER_SIZE" "BACKQUOTE \<notin> set (found_text t rs)"
    and C: "types io C (str ''SUB'' @ SPACE # t) con (Suc (length (found_text t rs)))"
  shows "\<exists>C' Y' G'. exchange dbg w ex_ws (lossless me) J clk noFree io k C Y = Ok (C', Y') \<and>
    cl_con C' = prints io (found_text t rs) (print io con heading) \<and>
    listens Y' N FSM_Ch_Share_Data_on_Topic MSG_Stay_Connected G' rs"
proof -
  let ?q = "str ''SUB'' @ SPACE # t" and ?t = "found_text t rs"
  let ?G = "G\<lparr>net := ([(?q, me)], [])\<rparr>"
  have q: "length ?q < BUFFER_SIZE" "0 \<notin> set ?q" using C by (simp_all add: types_def)
  have G: "shape ?G" "serves ?G rs" "\<not> alreadyexists G" using Y by (simp_all add: listens_def)
  obtain G' where G': "ch_steps ex_ws J 3 (s, Some c, ?G) = Ok (FSM_Ch_Share_Data_on_Topic, Some MSG_Stay_Connected, G')"
    "net G' = ([], [(?t @ [BACKQUOTE], sockaddr me)])" "serves G' rs" "shape G'" "alreadyexists G' = alreadyexists ?G"
    using subscribe_machine [where J = J, OF listens_sends [OF Y q] G(1,2) J t(1,2) ex_ws_sends] by auto
  have "0 \<notin> set r" if "r \<in> set rs" for r using that servesE [OF G(2)] by (metis in_set_conv_nth)
  then have "0 \<notin> set ?t" using found_text_subset [of t rs] by auto
  then obtain C' Y' where 1: "exchange dbg w ex_ws (lossless me) J clk noFree io k C Y = Ok (C', Y')"
    "cl_con C' = prints io ?t (print io con heading)"
    "server_rep Y' N (FSM_Ch_Share_Data_on_Topic, Some MSG_Stay_Connected, G'\<lparr>net := ([], [])\<rparr>)"
    using exchange_ok [OF w _ _ C t(3) _ G'(1,2)] Y unfolding listens_def by metis
  then show ?thesis using G'(3-5) G(3)
    by (intro exI [of _ C'] exI [of _ Y'] exI [of _ "G'\<lparr>net := ([], [])\<rparr>"]) (simp add: listens_def handler_table)
qed

text \<open>C7: what one client publishes another one reads. The server and two clients share a network that
  loses nothing. At the first client a user types \<^verbatim>\<open>PUB <topic> <message>\<close>, at the second one
  \<^verbatim>\<open>SUB <topic>\<close>, with a topic in capitals that starts with another letter than every topic the
  server has. It holds if the server has fewer than ten topics, if the topic and the message fit
  the arrays and together the row of 150 bytes (\<open>publication\<close>), if the uninitialised array of the handler that
  acknowledges happens to hold a zero, and if the clients' buffers hold a zero behind an answer, because
  a datagram is not terminated. Then the first client prints that the topic was added, the second one the topic, a
  colon, a space and the message up to its first backquote; and the server listens again.\<close>

theorem publication_reaches_subscriber:
  assumes "win32_documented w" "2 \<le> N" "listens Y N s c G rs" "junk_ok (J ([], []))" "0 \<in> set (J ([], []) AckMessageTmp)"
    and "junk_ok (J' ([], []))" "publication t msg rs" "stands_out t rs" "capitals t = t"
    and "types io A (str ''PUB'' @ SPACE # t @ SPACE # msg) conA 26"
    and "types io' B (str ''SUB'' @ SPACE # t) conB (length t + 3 + length (takeWhile (\<lambda>c. c \<noteq> BACKQUOTE) msg))"
  shows "\<exists>A' B' Y1 Y2 G'. exchange dbg w ex_ws (lossless a) J clk noFree io k A Y = Ok (A', Y1) \<and>
    exchange dbg w ex_ws (lossless b) J' clk noFree io' k' B Y1 = Ok (B', Y2) \<and>
    cl_con A' = prints io (str ''Topic added successfully!'') (print io conA heading) \<and>
    cl_con B' = prints io' (t @ COLON # SPACE # takeWhile (\<lambda>c. c \<noteq> BACKQUOTE) msg) (print io' conB heading) \<and>
    listens Y2 N FSM_Ch_Share_Data_on_Topic MSG_Stay_Connected G' (rs @ [t @ COLON # SPACE # msg])"
proof -
  let ?u = "takeWhile (\<lambda>c. c \<noteq> BACKQUOTE) msg"
  have new: "new_text t msg = t @ COLON # SPACE # msg" "found_text t (rs @ [new_text t msg]) = t @ COLON # SPACE # ?u"
    using found_text_new [OF assms(8,9)] assms(9) by (simp_all add: new_text_def)
  have "\<forall>r \<in> set rs. name r \<noteq> t" using assms(8) by (auto simp: stands_out_def)
  then obtain A' Y1 G1 where 1: "exchange dbg w ex_ws (lossless a) J clk noFree io k A Y = Ok (A', Y1)"
    "cl_con A' = prints io (str ''Topic added successfully!'') (print io conA heading)"
    "listens Y1 N FSM_Ch_Publish_ACK_State MSG_Stay_Connected G1 (rs @ [new_text t msg])"
    using publisher_exchange [where J = J, OF assms(1-5,7) _ assms(10)] by blast
  have "BACKQUOTE \<notin> set t" using capitals_clean(3) [of t] assms(9) by simp
  moreover have "BACKQUOTE \<notin> set ?u" by (auto dest: set_takeWhileD)
  ultimately have f: "BACKQUOTE \<notin> set (found_text t (rs @ [new_text t msg]))" unfolding new(2) by (simp add: ch_chars)
  have len: "length t < TOPIC_BUFFER_SIZE" "length (found_text t (rs @ [new_text t msg])) + 2 \<le> BUFFER_SIZE"
    using assms(7) length_takeWhile_le [of "\<lambda>c. c \<noteq> BACKQUOTE" msg] unfolding new(2) publication_def by (simp_all add: ch_sizes)
  have B: "types io' B (str ''SUB'' @ SPACE # t) conB (Suc (length (found_text t (rs @ [new_text t msg]))))"
    using assms(11) unfolding new(2) by (simp add: numeral_3_eq_3)
  obtain B' Y2 G2 where 2: "exchange dbg w ex_ws (lossless b) J' clk noFree io' k' B Y1 = Ok (B', Y2)"
    "cl_con B' = prints io' (found_text t (rs @ [new_text t msg])) (print io' conB heading)"
    "listens Y2 N FSM_Ch_Share_Data_on_Topic MSG_Stay_Connected G2 (rs @ [new_text t msg])"
    using subscriber_exchange [where J = J', OF assms(1,2) 1(3) assms(6) len f B] by blast
  show ?thesis using 1(1,2) 2(1) 2(2) [unfolded new(2)] 2(3) [unfolded new(1)] by blast
qed

text \<open>A console for the witness: the lines that will be typed, and what is on the screen.\<close>

definition ex_console :: "(uint8 list list \<times> uint8 list) console" where
  "ex_console = \<lparr>read_line = (\<lambda>(ls, scr). case ls of [] \<Rightarrow> Some (None, (ls, scr)) | l # ls \<Rightarrow> Some (Some l, (ls, scr))),
     print = (\<lambda>(ls, scr) t. (ls, scr @ t))\<rparr>"

lemma ex_console_prints: "prints ex_console t (ls, scr) = (ls, scr @ t)" "print ex_console (ls, scr) t = (ls, scr @ t)"
proof -
  show "print ex_console (ls, scr) t = (ls, scr @ t)" for ls scr t by (simp add: ex_console_def)
  then show "prints ex_console t (ls, scr) = (ls, scr @ t)" by (induction t arbitrary: scr) (simp_all add: prints_def)
qed

definition ex_client_at :: "uint8 list list \<Rightarrow> (ex_net, uint8 list list \<times> uint8 list) Client" where
  "ex_client_at ls = \<lparr>cl_buffer = replicate BUFFER_SIZE 0, serverAddress = SERVER_ADDRESS, cl_net = ([], []),
     cl_con = (ls, []), exit_code = None\<rparr>"

theorem publication_reaches_subscriber_witness:
  "\<exists>(Y :: (ch_proc, ex_net Ch) system) Y1 Y2 A B.
    exchange True ex_win ex_ws (lossless [1]) (\<lambda>_. ex_junk) (\<lambda>_ _. 0) Ch_NoFreeInstances ex_console 0 (ex_client_at [str ''PUB NEWS hello`'']) Y = Ok (A, Y1) \<and>
    exchange True ex_win ex_ws (lossless [2]) (\<lambda>_. ex_junk) (\<lambda>_ _. 0) Ch_NoFreeInstances ex_console 0 (ex_client_at [str ''SUB NEWS'']) Y1 = Ok (B, Y2) \<and>
    cl_con A = ([], prompt @ heading @ str ''Topic added successfully!'') \<and>
    cl_con B = ([], prompt @ heading @ str ''NEWS: hello'')"
proof -
  let ?t = "str ''NEWS''" and ?m = "str ''hello`''"
  let ?G = "started (Ch_globals ([], []))"
  obtain Y :: "(ch_proc, ex_net Ch) system" where Y: "server_rep Y 50 (start_effect ex_ws (Ch_globals ([], [])))"
    using ex_server by blast
  have l: "listens Y 50 FSM_Ch_Idle MSG_Channel_Wait_Cl_Message ?G initial_texts"
    using Y started_shape [of "([], []) :: ex_net"] started_serves [of "([], []) :: ex_net"] unfolding ex_start
    by (simp add: listens_def handler_table) (simp add: started_def Ch_globals_def)
  note p = news_publication
  have two: "2 \<le> (50 :: nat)" by simp
  have u: "takeWhile (\<lambda>c. c \<noteq> BACKQUOTE) ?m = str ''hello''" by (simp add: str_def ch_chars)
  have A: "types ex_console (ex_client_at [str ''PUB NEWS hello`'']) (str ''PUB'' @ SPACE # ?t @ SPACE # ?m) ([], prompt) 26"
    by (simp add: types_def ex_client_at_def ex_console_def SERVER_ADDRESS_def str_def ch_chars BUFFER_SIZE_def)
  have B: "types ex_console (ex_client_at [str ''SUB NEWS'']) (str ''SUB'' @ SPACE # ?t) ([], prompt)
      (length ?t + 3 + length (takeWhile (\<lambda>c. c \<noteq> BACKQUOTE) ?m))"
    unfolding u by (simp add: types_def ex_client_at_def ex_console_def SERVER_ADDRESS_def str_def ch_chars BUFFER_SIZE_def)
  have m: "?t @ COLON # SPACE # str ''hello'' = str ''NEWS: hello''" by (simp add: str_def ch_chars)
  show ?thesis
    using publication_reaches_subscriber [where J = "\<lambda>_. ex_junk" and J' = "\<lambda>_. ex_junk", OF ex_win_documented two l
      ex_junk_ok ex_junk_ok(1) p A B, of True "[1]" "\<lambda>_ _. 0" Ch_NoFreeInstances 0 "[2]" 0]
    unfolding u m ex_console_prints append_assoc by blast
qed

end
