(* ===== verification/Log_File.thy ===== *)
theory Log_File
  imports Log_Interface Net_Platform
begin

text \<open>
  \<^verbatim>\<open>Kernel/LogFile.cpp\<close>: the server's logger, which learns the names of automates, messages and
  timers from an initialisation file and can look up a parameter of the record under
  construction. \<^verbatim>\<open>Write\<close> returns at once; what follows its \<^verbatim>\<open>return\<close> is never executed.
  A name is the text in its array of 51 characters; \<open>P section i\<close> is what
  \<^verbatim>\<open>GetPrivateProfileString\<close> stores for the key \<^verbatim>\<open>i\<close>, or the default.
\<close>

definition MAX_NUM_OF_MESSAGES :: nat where "MAX_NUM_OF_MESSAGES = 100"
definition MAX_NUM_OF_TIMERS :: nat where "MAX_NUM_OF_TIMERS = 20"
definition MAX_NUM_OF_AUTOMATE_TYPES :: nat where "MAX_NUM_OF_AUTOMATE_TYPES = 50"
definition MAX_NUM_OF_MSG_CODING_TYPES :: nat where "MAX_NUM_OF_MSG_CODING_TYPES = 5"
definition MAX_NAME_LENGTH :: nat where "MAX_NAME_LENGTH = 51"

lemmas log_file_sizes = MAX_NUM_OF_MESSAGES_def MAX_NUM_OF_TIMERS_def MAX_NUM_OF_AUTOMATE_TYPES_def
  MAX_NUM_OF_MSG_CODING_TYPES_def MAX_NAME_LENGTH_def

record StructMsgData =
  msgName :: "uint8 list list"
  msgCode :: "uint16 list"
  NumOfMsgs :: uint16

record StructAutomateData =
  automateName :: "uint8 list"
  timerName :: "uint8 list list"

record LogFile = LogInterface +
  FileName :: "uint8 list"
  IniFileName :: "uint8 list"
  AutomateData :: "StructAutomateData list"
  MsgData :: "StructMsgData list"
  MaxNameLength :: nat

section \<open>Numbers in the file\<close>

definition atob :: "uint8 \<Rightarrow> uint8" where
  "atob c = (if 0x30 \<le> c \<and> c \<le> 0x39 then c - 0x30
     else if 0x61 \<le> c \<and> c \<le> 0x66 then c - 0x57
     else if 0x41 \<le> c \<and> c \<le> 0x46 then c - 0x37
     else 0)"

text \<open>\<^verbatim>\<open>dd = strchr(hex, c); if(dd != 0) hex = ++dd;\<close>\<close>

definition skip_past :: "uint8 \<Rightarrow> uint8 list \<Rightarrow> uint8 list" where
  "skip_past c t = (if c \<in> set t then tl (dropWhile (\<lambda>b. b \<noteq> c) t) else t)"

definition BLANK :: uint8 where "BLANK = 0x20"

text \<open>A \<^verbatim>\<open>long\<close> has 32 bits.\<close>

definition ConvertToBin :: "uint8 list \<Rightarrow> uint32" where
  "ConvertToBin hex = foldl (\<lambda>tmp c. push_bit 4 tmp OR ucast (atob c)) 0
     (skip_past 0x78 (skip_past 0x58 (takeWhile (\<lambda>b. b \<noteq> BLANK) hex)))"

section \<open>Reading the initialisation file\<close>

definition put_name :: "uint8 list \<Rightarrow> uint8 list res" where
  "put_name t = (if length t < MAX_NAME_LENGTH then Ok t else Fault MemFault)"

definition read_automate :: "(string \<Rightarrow> nat \<Rightarrow> uint8 list) \<Rightarrow> nat \<Rightarrow> LogFile \<Rightarrow> LogFile res" where
  "read_automate P i L =
     andThen (rd (AutomateData L) i) (\<lambda>A.
     andThen (put_name (P ''AUTOMATES'' i)) (\<lambda>name.
     Ok (L\<lparr>AutomateData := (AutomateData L)[i := A\<lparr>automateName := name\<rparr>],
        MaxNameLength := max (MaxNameLength L) (length name)\<rparr>)))"

fun read_automates :: "(string \<Rightarrow> nat \<Rightarrow> uint8 list) \<Rightarrow> nat list \<Rightarrow> LogFile \<Rightarrow> LogFile res" where
  "read_automates P [] L = Ok L"
| "read_automates P (i # is) L = andThen (read_automate P i L) (read_automates P is)"

definition enter_msg :: "uint16 \<Rightarrow> uint8 list \<Rightarrow> uint8 list \<Rightarrow> LogFile \<Rightarrow> LogFile res" where
  "enter_msg code name info L =
     (let coding = unat (of_int (atol info) :: uint16) in
      andThen (rd (MsgData L) coding) (\<lambda>D.
      let msgNum = unat (NumOfMsgs D) in
      andThen (wr (msgCode D) msgNum code) (\<lambda>codes.
      andThen (put_name name) (\<lambda>name.
      andThen (wr (msgName D) msgNum name) (\<lambda>names.
      Ok (L\<lparr>MsgData := (MsgData L)[coding := \<lparr>msgName = names, msgCode = codes, NumOfMsgs = NumOfMsgs D + 1\<rparr>],
         MaxNameLength := max (MaxNameLength L) (length name)\<rparr>))))))"

text \<open>The codings of one message: the inner loop and what follows it.\<close>

function enter_codings :: "uint16 \<Rightarrow> uint8 list \<Rightarrow> uint8 list \<Rightarrow> LogFile \<Rightarrow> LogFile res" where
  "enter_codings code name info L =
     (if COMMA \<in> set info
      then andThen (next_field info) (\<lambda>(f, info).
           andThen (enter_msg code name f L) (enter_codings code name info))
      else enter_msg code name info L)"
  by pat_completeness auto
termination
  by (relation "measure (\<lambda>(code, name, info, L). length info)") (auto dest: next_field_shorter)

declare enter_codings.simps [simp del]

text \<open>
  The loop over the messages, from the key \<open>i\<close> on. What was read is cut at its first comma, and
  at a blank before it, when the loop compares it with \<^verbatim>\<open>END\<close> again.
\<close>

partial_function (option) read_messages :: "(string \<Rightarrow> nat \<Rightarrow> uint8 list) \<Rightarrow> nat \<Rightarrow> LogFile \<Rightarrow> (fault + LogFile) option" where
  [code]: "read_messages P i L =
     (let data = P ''MESSAGES'' i in
      if data = str ''END'' then Ok L
      else andThen (next_field data) (\<lambda>(data, info).
           andThen (next_field info) (\<lambda>(msgName, info).
           andThen (enter_codings (ucast (ConvertToBin data)) msgName info L) (\<lambda>L.
           if takeWhile (\<lambda>b. b \<noteq> BLANK) data = str ''END'' then Ok L
           else read_messages P (Suc i) L))))"

definition enter_timer :: "uint8 list \<Rightarrow> uint8 list \<Rightarrow> uint8 list \<Rightarrow> LogFile \<Rightarrow> LogFile res" where
  "enter_timer data info name L =
     (let automate = unat (of_int (atol data) :: uint16); code = unat (of_int (atol info) :: uint16) in
      andThen (rd (AutomateData L) automate) (\<lambda>A.
      andThen (put_name name) (\<lambda>name.
      andThen (wr (timerName A) code name) (\<lambda>names.
      Ok (L\<lparr>AutomateData := (AutomateData L)[automate := A\<lparr>timerName := names\<rparr>]\<rparr>)))))"

partial_function (option) read_timers :: "(string \<Rightarrow> nat \<Rightarrow> uint8 list) \<Rightarrow> nat \<Rightarrow> LogFile \<Rightarrow> (fault + LogFile) option" where
  [code]: "read_timers P i L =
     (let data = P ''TIMERS'' i in
      if data = str ''END'' then Ok L
      else andThen (next_field data) (\<lambda>(data, info).
           andThen (next_field info) (\<lambda>(info, name).
           andThen (enter_timer data info name L) (\<lambda>L.
           if data = str ''END'' then Ok L else read_timers P (Suc i) L))))"

definition ReadIniFile :: "(string \<Rightarrow> nat \<Rightarrow> uint8 list) \<Rightarrow> LogFile \<Rightarrow> LogFile res" where
  "ReadIniFile P L =
     andThen (read_automates P [0 ..< MAX_NUM_OF_AUTOMATE_TYPES] L) (\<lambda>L.
     andThen (read_messages P 0 L) (read_timers P 0))"

text \<open>
  The constructor. \<open>opens\<close> tells whether the log file can be created; if not, the process
  exits with 100, modelled as an abort.
\<close>

definition LogFile_new :: "(string \<Rightarrow> nat \<Rightarrow> uint8 list) \<Rightarrow> bool \<Rightarrow> uint8 list \<Rightarrow> uint8 list \<Rightarrow> uint8 list \<Rightarrow> LogFile res" where
  "LogFile_new P opens raw fileName iniFileName =
     andThen (if length fileName < 60 \<and> length iniFileName < 60 then Ok () else Fault MemFault) (\<lambda>_.
     andThen (ReadIniFile P (LogInterface.extend (LogInterface_new raw) (LogFile.fields fileName iniFileName
        (replicate MAX_NUM_OF_AUTOMATE_TYPES \<lparr>automateName = [], timerName = replicate MAX_NUM_OF_TIMERS []\<rparr>)
        (replicate MAX_NUM_OF_MSG_CODING_TYPES
          \<lparr>msgName = replicate MAX_NUM_OF_MESSAGES [], msgCode = replicate MAX_NUM_OF_MESSAGES 0, NumOfMsgs = 0\<rparr>) 0))) (\<lambda>L.
     if opens then Ok L else Fault AssertFailed))"

definition LogFile_Write :: "LogFile \<Rightarrow> LogFile" where "LogFile_Write L = L"

section \<open>Looking up a parameter\<close>

text \<open>The place of the code byte in \<^verbatim>\<open>LogBuffer\<close>, or \<^const>\<open>None\<close> for a null pointer.\<close>

partial_function (option) find_param_from :: "'a LogInterface_scheme \<Rightarrow> uint8 \<Rightarrow> uint16 \<Rightarrow> (fault + nat option) option" where
  [code]: "find_param_from L ParamCode pos =
     (if pos < ParamOffset L
      then andThen (rd (LogBuffer L) (unat pos)) (\<lambda>b.
           if b = ParamCode then Ok (Some (unat pos))
           else andThen (rd (LogBuffer L) (unat pos + 1)) (\<lambda>n. find_param_from L ParamCode (pos + (ucast n + 2))))
      else Ok None)"

definition LogFile_FindParam :: "'a LogInterface_scheme \<Rightarrow> uint8 \<Rightarrow> nat option res" where
  "LogFile_FindParam L ParamCode = find_param_from L ParamCode 4"

section \<open>The parameters of a record\<close>

definition record_params :: "(uint8 \<times> uint8 list) list \<Rightarrow> uint8 list" where
  "record_params ps = concat (map (\<lambda>(c, v). tlv c v) ps)"

text \<open>Where the first parameter of a code lies, from place \<open>i\<close> on.\<close>

fun param_place :: "(uint8 \<times> uint8 list) list \<Rightarrow> uint8 \<Rightarrow> nat \<Rightarrow> nat option" where
  "param_place [] c i = None"
| "param_place ((d, v) # ps) c i = (if d = c then Some i else param_place ps c (i + length v + 2))"

lemma record_params_simps [simp]:
  "record_params [] = []" "record_params ((c, v) # ps) = tlv c v @ record_params ps"
  by (simp_all add: record_params_def)

lemma find_param_from_ok:
  assumes "log_rep L code (pre @ record_params ps)" "\<forall>(d, v) \<in> set ps. length v < 256"
  shows "find_param_from L c (of_nat (4 + length pre)) = Ok (param_place ps c (4 + length pre))"
  using assms
proof (induction ps arbitrary: pre)
  case Nil
  then have "unat (ParamOffset L) = 4 + length pre" by (simp add: log_rep_def)
  then have "of_nat (4 + length pre) = ParamOffset L" by (metis of_nat_unat ucast_id)
  then show ?case by (subst find_param_from.simps) simp
next
  case (Cons p ps)
  obtain d v where p: "p = (d, v)" by (cases p)
  let ?o = "4 + length pre"
  note rep = Cons.prems(1)[unfolded p record_params_simps log_rep_def]
  have lv: "length v < 256" using Cons.prems(2) p by simp
  have short: "?o < 2 ^ 16" "?o + length v + 2 < 2 ^ 16" using rep by simp_all
  have o: "unat (of_nat ?o :: uint16) = ?o" by (rule unat16 [OF short(1)])
  have less: "(of_nat ?o :: uint16) < ParamOffset L" using o rep by (simp add: word_less_nat_alt)
  have b: "LogBuffer L ! ?o = d" "LogBuffer L ! (?o + 1) = of_nat (length v)"
    using rep [THEN conjunct2, THEN conjunct2, THEN conjunct2, THEN conjunct2, THEN conjunct2, rule_format, of "length pre"]
      rep [THEN conjunct2, THEN conjunct2, THEN conjunct2, THEN conjunct2, THEN conjunct2, rule_format, of "length pre + 1"]
    by (simp_all add: tlv_def nth_append)
  have u8: "unat (of_nat (length v) :: uint8) = length v" using unat8 [of "length v"] lv by simp
  have u: "ucast (of_nat (length v) :: uint8) = (of_nat (length v) :: uint16)"
    using u8 by (metis of_nat_unat)
  have next_pos: "of_nat ?o + (ucast (of_nat (length v) :: uint8) + 2) = (of_nat (4 + length (pre @ tlv d v)) :: uint16)"
    unfolding u by simp
  have "find_param_from L c (of_nat ?o) = (if d = c then Ok (Some ?o) else find_param_from L c (of_nat (4 + length (pre @ tlv d v))))"
    using less o b rep next_pos by (subst find_param_from.simps) simp
  moreover have "find_param_from L c (of_nat (4 + length (pre @ tlv d v))) = Ok (param_place ps c (4 + length (pre @ tlv d v)))"
    by (rule Cons.IH) (use Cons.prems p in simp_all)
  ultimately show ?case by (simp add: p)
qed

lemma param_place_None: "param_place ps c i = None \<longleftrightarrow> map_of ps c = None"
  by (induction ps c i rule: param_place.induct) auto

lemma param_place_Some:
  "param_place ps c i = Some k \<Longrightarrow> \<exists>qs v rs. ps = qs @ (c, v) # rs \<and> map_of ps c = Some v \<and> k = i + length (record_params qs)"
proof (induction ps c i rule: param_place.induct)
  case (2 d v ps c i)
  show ?case
  proof (cases "d = c")
    case True
    then have "(d, v) # ps = [] @ (c, v) # ps \<and> map_of ((d, v) # ps) c = Some v \<and> k = i + length (record_params [])" using 2(2) by simp
    then show ?thesis by blast
  next
    case False
    then obtain qs w rs where "ps = qs @ (c, w) # rs" "map_of ps c = Some w" "k = i + length v + 2 + length (record_params qs)"
      using 2 by auto
    then show ?thesis using False by (intro exI [of _ "(d, v) # qs"] exI [of _ w] exI [of _ rs]) simp
  qed
qed simp

text \<open>C34: a parameter that was logged is found. In a record built from parameters of less than
  256 bytes, \<^verbatim>\<open>FindParam\<close> always returns, gives a null pointer when no parameter has the code,
  and otherwise the place of the first one that has: its length byte and its value lie
  behind the code byte.\<close>

theorem logged_parameter_found:
  assumes "log_rep L code (record_params ps)" "\<forall>(d, v) \<in> set ps. length v < 256"
  shows "case map_of ps c of None \<Rightarrow> LogFile_FindParam L c = Ok None
    | Some v \<Rightarrow> \<exists>k. LogFile_FindParam L c = Ok (Some k) \<and> LogBuffer L ! (k + 1) = of_nat (length v) \<and>
        take (length v) (drop (k + 2) (LogBuffer L)) = v"
proof -
  have find: "LogFile_FindParam L c = Ok (param_place ps c 4)"
    using find_param_from_ok [of L code "[]" ps c] assms by (simp add: LogFile_FindParam_def)
  show ?thesis
  proof (cases "param_place ps c 4")
    case None
    then show ?thesis using find by (simp add: param_place_None)
  next
    case (Some k)
    then obtain qs v rs where ps: "ps = qs @ (c, v) # rs" "map_of ps c = Some v" "k = 4 + length (record_params qs)"
      using param_place_Some [OF Some] by blast
    have "record_params ps = record_params qs @ tlv c v @ record_params rs" by (simp add: ps(1) record_params_def)
    then have rep: "length (LogBuffer L) = 8192" "4 + length (record_params qs) + length v + 2 \<le> 8192"
      "\<And>j. j < length (record_params ps) \<Longrightarrow> LogBuffer L ! (4 + j) = (record_params qs @ tlv c v @ record_params rs) ! j"
      "length (record_params ps) = length (record_params qs) + (length v + 2) + length (record_params rs)"
      using assms(1) by (simp_all add: log_rep_def)
    have "LogBuffer L ! (k + 1) = of_nat (length v)"
      using rep(3) [of "length (record_params qs) + 1"] rep(4) ps(3) by (simp add: tlv_def nth_append)
    moreover have "take (length v) (drop (k + 2) (LogBuffer L)) = v"
    proof (rule nth_equalityI)
      show "length (take (length v) (drop (k + 2) (LogBuffer L))) = length v" using rep(1,2) ps(3) by simp
      fix j assume j: "j < length (take (length v) (drop (k + 2) (LogBuffer L)))"
      then have jv: "j < length v" by simp
      have "LogBuffer L ! (4 + (length (record_params qs) + (2 + j))) = tlv c v ! (2 + j)"
        using rep(3) [of "length (record_params qs) + (2 + j)"] rep(4) jv by (simp add: nth_append)
      then show "take (length v) (drop (k + 2) (LogBuffer L)) ! j = v ! j"
        using jv rep(1,2) ps(3) by (simp add: tlv_def add.commute add.left_commute)
    qed
    ultimately show ?thesis using find Some ps(2) by simp
  qed
qed

definition ex_record :: "LogInterface res" where
  "ex_record = PrepareNewRecord 3 (LogInterface_new (replicate 8192 0)) LOG_EVENT_START 5 9"

theorem logged_parameter_found_witness:
  "\<exists>L k. ex_record = Ok L \<and> LogFile_FindParam L LOG_PARAM_AUTOMATE = Ok (Some k) \<and> take 1 (drop (k + 2) (LogBuffer L)) = [5] \<and>
    LogFile_FindParam L LOG_PARAM_STATE = Ok None"
proof -
  let ?ps = "[(LOG_PARAM_TIME, bytes32 3), (LOG_PARAM_COMPUTER_ID, [INVALID_08]), (LOG_PARAM_AUTOMATE, [5]), (LOG_PARAM_OBJECT_ID, bytes32 9)]"
  obtain L where L: "ex_record = Ok L" "log_rep L 3 (record_params ?ps)"
    using PrepareNewRecord_ok [of "LogInterface_new (replicate 8192 0)" 3 LOG_EVENT_START 5 9]
    by (auto simp: ex_record_def LogInterface_new_def log_head_def)
  have found: "case map_of ?ps c of None \<Rightarrow> LogFile_FindParam L c = Ok None
    | Some v \<Rightarrow> \<exists>k. LogFile_FindParam L c = Ok (Some k) \<and> LogBuffer L ! (k + 1) = of_nat (length v) \<and>
        take (length v) (drop (k + 2) (LogBuffer L)) = v" for c
    by (rule logged_parameter_found [OF L(2)]) simp
  have "\<exists>k. LogFile_FindParam L LOG_PARAM_AUTOMATE = Ok (Some k) \<and> take 1 (drop (k + 2) (LogBuffer L)) = [5]"
    using found [of LOG_PARAM_AUTOMATE] by (auto simp: log_params)
  moreover have "LogFile_FindParam L LOG_PARAM_STATE = Ok None"
    using found [of LOG_PARAM_STATE] by (simp add: log_params)
  ultimately show ?thesis using L(1) by blast
qed

section \<open>The initialisation file as written\<close>

text \<open>How a number is written in base 16.\<close>

definition hex_digit :: "nat \<Rightarrow> uint8" where
  "hex_digit d = of_nat (if d < 10 then 0x30 + d else 0x57 + d)"

fun hexadecimal :: "nat \<Rightarrow> uint8 list" where
  "hexadecimal n = (if n < 16 then [hex_digit n] else hexadecimal (n div 16) @ [hex_digit (n mod 16)])"

declare hexadecimal.simps [simp del]

lemma hex_digit_cases:
  assumes "d < 16"
  shows "atob (hex_digit d) = of_nat d \<and> hex_digit d \<noteq> 0x78 \<and> hex_digit d \<noteq> 0x58 \<and> hex_digit d \<noteq> BLANK \<and> hex_digit d \<noteq> COMMA"
proof -
  have "d \<in> set [0 ..< 16]" using assms by simp
  moreover have "\<forall>d \<in> set [0 ..< 16]. atob (hex_digit d) = of_nat d \<and> hex_digit d \<noteq> 0x78 \<and> hex_digit d \<noteq> 0x58 \<and>
      hex_digit d \<noteq> BLANK \<and> hex_digit d \<noteq> COMMA"
    by (simp add: upt_rec atob_def hex_digit_def BLANK_def COMMA_def)
  ultimately show ?thesis by blast
qed

lemma hexadecimal_chars: "c \<in> set (hexadecimal n) \<Longrightarrow> c \<noteq> 0x78 \<and> c \<noteq> 0x58 \<and> c \<noteq> BLANK \<and> c \<noteq> COMMA"
proof (induction n rule: hexadecimal.induct)
  case (1 n)
  then show ?case
    using hex_digit_cases [of n] hex_digit_cases [of "n mod 16"] by (subst (asm) hexadecimal.simps) (auto split: if_splits)
qed

lemma shift_in_digit: "d < 16 \<Longrightarrow> push_bit 4 (v :: uint32) OR of_nat d = 16 * v + of_nat d"
proof -
  assume d: "d < 16"
  have "\<not> bit (of_nat d :: uint32) n" if "4 \<le> n" for n
  proof -
    have "d div 2 ^ n = 0" using d power_increasing [OF that, of "2 :: nat"] by simp
    then have "\<not> bit d n" by (simp add: bit_iff_odd)
    then show ?thesis by (simp add: bit_of_nat_iff)
  qed
  then have "push_bit 4 v OR of_nat d = push_bit 4 v + of_nat d"
    by (intro disjunctive_add_eq_or [symmetric] bit_word_eqI) (auto simp: bit_simps not_le)
  then show ?thesis by (simp add: push_bit_eq_mult)
qed

definition hex_value :: "uint8 list \<Rightarrow> uint32" where
  "hex_value ds = foldl (\<lambda>tmp c. push_bit 4 tmp OR ucast (atob c)) 0 ds"

lemma hex_value_hexadecimal: "hex_value (hexadecimal n) = of_nat n"
proof (induction n rule: hexadecimal.induct)
  case (1 n)
  have app: "hex_value (xs @ [x]) = push_bit 4 (hex_value xs) OR ucast (atob x)" for xs x
    by (simp add: hex_value_def)
  have u: "ucast (of_nat d :: uint8) = (of_nat d :: uint32)" if "d < 16" for d
  proof -
    have "unat (of_nat d :: uint8) = d" using that by (intro unat8) simp
    then show ?thesis by (metis of_nat_unat)
  qed
  show ?case
  proof (cases "n < 16")
    case True
    then show ?thesis
      using hex_digit_cases [OF True] u [OF True] shift_in_digit [OF True, of 0]
      by (subst hexadecimal.simps) (simp add: hex_value_def)
  next
    case False
    have m: "n mod 16 < 16" by simp
    have "16 * (of_nat (n div 16) :: uint32) + of_nat (n mod 16) = of_nat (16 * (n div 16) + n mod 16)"
      by (simp only: of_nat_add of_nat_mult of_nat_numeral)
    then have split: "16 * (of_nat (n div 16) :: uint32) + of_nat (n mod 16) = of_nat n" by (simp only: mult_div_mod_eq)
    show ?thesis
      using 1 False split hex_digit_cases [OF m] u [OF m] shift_in_digit [OF m, of "of_nat (n div 16)"]
      by (subst hexadecimal.simps) (simp add: app)
  qed
qed

lemma ConvertToBin_hexadecimal: "ConvertToBin (str ''0x'' @ hexadecimal n) = of_nat n"
proof -
  have "\<forall>c \<in> set (hexadecimal n). c \<noteq> BLANK" using hexadecimal_chars by blast
  then have t: "takeWhile (\<lambda>b. b \<noteq> BLANK) (str ''0x'' @ hexadecimal n) = 0x30 # 0x78 # hexadecimal n"
    by (simp add: str_def BLANK_def takeWhile_append)
  have "0x58 \<notin> set (hexadecimal n)" using hexadecimal_chars by blast
  then show ?thesis using hex_value_hexadecimal [of n] unfolding ConvertToBin_def t by (simp add: skip_past_def hex_value_def)
qed

text \<open>One line of \<^verbatim>\<open>[MESSAGES]\<close>: code, name, codings.\<close>

fun codings_text :: "nat list \<Rightarrow> uint8 list" where
  "codings_text [] = []"
| "codings_text [c] = decimal c"
| "codings_text (c # cs) = decimal c @ COMMA # codings_text cs"

definition message_text :: "uint16 \<times> uint8 list \<times> nat list \<Rightarrow> uint8 list" where
  "message_text = (\<lambda>(code, name, cs). str ''0x'' @ hexadecimal (unat code) @ COMMA # name @ COMMA # codings_text cs)"

definition messages_text :: "(uint16 \<times> uint8 list \<times> nat list) list \<Rightarrow> nat \<Rightarrow> uint8 list" where
  "messages_text ms i = (if i < length ms then message_text (ms ! i) else str ''END'')"

text \<open>The messages of a coding.\<close>

definition msgs_of :: "StructMsgData \<Rightarrow> (uint16 \<times> uint8 list) list" where
  "msgs_of D = take (unat (NumOfMsgs D)) (zip (msgCode D) (msgName D))"

fun written_for :: "nat \<Rightarrow> (uint16 \<times> uint8 list \<times> nat list) list \<Rightarrow> (uint16 \<times> uint8 list) list" where
  "written_for k [] = []"
| "written_for k ((code, name, cs) # ms) = replicate (count_list cs k) (code, name) @ written_for k ms"

definition msg_data_ok :: "LogFile \<Rightarrow> bool" where
  "msg_data_ok L \<longleftrightarrow> length (MsgData L) = MAX_NUM_OF_MSG_CODING_TYPES \<and>
     (\<forall>D \<in> set (MsgData L). length (msgName D) = MAX_NUM_OF_MESSAGES \<and> length (msgCode D) = MAX_NUM_OF_MESSAGES \<and>
        unat (NumOfMsgs D) \<le> MAX_NUM_OF_MESSAGES)"

lemma msg_data_okD:
  assumes "msg_data_ok L" "k < MAX_NUM_OF_MSG_CODING_TYPES"
  shows "k < length (MsgData L)" "length (msgName (MsgData L ! k)) = MAX_NUM_OF_MESSAGES"
    "length (msgCode (MsgData L ! k)) = MAX_NUM_OF_MESSAGES" "length (msgs_of (MsgData L ! k)) = unat (NumOfMsgs (MsgData L ! k))"
  using assms by (auto simp: msg_data_ok_def msgs_of_def)

lemma enter_msg_ok:
  assumes ok: "msg_data_ok L" and c: "c < MAX_NUM_OF_MSG_CODING_TYPES" and name: "length name < MAX_NAME_LENGTH"
    and free: "length (msgs_of (MsgData L ! c)) < MAX_NUM_OF_MESSAGES"
  shows "\<exists>L'. enter_msg code name (decimal c) L = Ok L' \<and> msg_data_ok L' \<and>
    (\<forall>k < MAX_NUM_OF_MSG_CODING_TYPES. msgs_of (MsgData L' ! k) = msgs_of (MsgData L ! k) @ replicate (count_list [c] k) (code, name))"
proof -
  let ?D = "MsgData L ! c" and ?n = "unat (NumOfMsgs (MsgData L ! c))"
  note d = msg_data_okD [OF ok c]
  have "unat (of_nat c :: uint16) = c" using c by (intro unat16) (simp add: log_file_sizes)
  then have uc: "unat (of_int (atol (decimal c)) :: uint16) = c" using c by (simp add: log_file_sizes)
  have n: "?n < MAX_NUM_OF_MESSAGES" using free d(4) by simp
  then have n1: "unat (NumOfMsgs ?D + 1) = Suc ?n" by (simp add: unat_word_ariths log_file_sizes)
  let ?E = "\<lparr>msgName = (msgName ?D)[?n := name], msgCode = (msgCode ?D)[?n := code], NumOfMsgs = NumOfMsgs ?D + 1\<rparr>"
  let ?L = "L\<lparr>MsgData := (MsgData L)[c := ?E], MaxNameLength := max (MaxNameLength L) (length name)\<rparr>"
  have "enter_msg code name (decimal c) L = Ok ?L"
    using d n name by (simp add: enter_msg_def Let_def uc put_name_def del: atol_decimal)
  moreover have "msg_data_ok ?L"
    using ok n n1 d(2,3) by (auto simp: msg_data_ok_def dest!: set_update_subset_insert [THEN subsetD])
  moreover have "zip ((msgCode ?D)[?n := code]) ((msgName ?D)[?n := name]) = (zip (msgCode ?D) (msgName ?D))[?n := (code, name)]"
    by (simp add: zip_update)
  then have "msgs_of ?E = msgs_of ?D @ [(code, name)]"
    using n n1 d(2,3) by (simp add: msgs_of_def take_Suc_conv_app_nth)
  then have "msgs_of (MsgData ?L ! k) = msgs_of (MsgData L ! k) @ replicate (count_list [c] k) (code, name)"
    if "k < MAX_NUM_OF_MSG_CODING_TYPES" for k
    using d(1) by (cases "k = c") simp_all
  ultimately show ?thesis by blast
qed

lemma enter_codings_ok:
  assumes "msg_data_ok L" "cs \<noteq> []" "\<forall>c \<in> set cs. c < MAX_NUM_OF_MSG_CODING_TYPES" "length name < MAX_NAME_LENGTH"
    and "\<forall>k < MAX_NUM_OF_MSG_CODING_TYPES. length (msgs_of (MsgData L ! k)) + count_list cs k \<le> MAX_NUM_OF_MESSAGES"
  shows "\<exists>L'. enter_codings code name (codings_text cs) L = Ok L' \<and> msg_data_ok L' \<and>
    (\<forall>k < MAX_NUM_OF_MSG_CODING_TYPES. msgs_of (MsgData L' ! k) = msgs_of (MsgData L ! k) @ replicate (count_list cs k) (code, name))"
  using assms
proof (induction cs arbitrary: L rule: codings_text.induct)
  case (2 c)
  have "enter_codings code name (decimal c) L = enter_msg code name (decimal c) L"
    using decimal_no_comma [of c] by (subst enter_codings.simps) simp
  then show ?case using enter_msg_ok [of L c name code] 2 by (fastforce simp: count_list.simps)
next
  case (3 c d cs)
  have cc: "c < MAX_NUM_OF_MSG_CODING_TYPES" using 3(4) by simp
  then have "length (msgs_of (MsgData L ! c)) < MAX_NUM_OF_MESSAGES" using 3(6) [rule_format, OF cc] by simp
  then obtain L1 where 1: "enter_msg code name (decimal c) L = Ok L1" "msg_data_ok L1"
    "\<And>k. k < MAX_NUM_OF_MSG_CODING_TYPES \<Longrightarrow> msgs_of (MsgData L1 ! k) = msgs_of (MsgData L ! k) @ replicate (count_list [c] k) (code, name)"
    using enter_msg_ok [OF 3(2) cc 3(5)] by blast
  have split: "count_list (c # d # cs) k = count_list [c] k + count_list (d # cs) k" for k by simp
  have "\<exists>L'. enter_codings code name (codings_text (d # cs)) L1 = Ok L' \<and> msg_data_ok L' \<and>
    (\<forall>k < MAX_NUM_OF_MSG_CODING_TYPES. msgs_of (MsgData L' ! k) = msgs_of (MsgData L1 ! k) @ replicate (count_list (d # cs) k) (code, name))"
  proof (rule 3(1))
    show "\<forall>k < MAX_NUM_OF_MSG_CODING_TYPES. length (msgs_of (MsgData L1 ! k)) + count_list (d # cs) k \<le> MAX_NUM_OF_MESSAGES"
      using 3(6) 1(3) by (simp del: count_list.simps add: split add.assoc)
  qed (use 1(2) 3(4,5) in simp_all)
  then obtain L' where L': "enter_codings code name (codings_text (d # cs)) L1 = Ok L'" "msg_data_ok L'"
    "\<And>k. k < MAX_NUM_OF_MSG_CODING_TYPES \<Longrightarrow> msgs_of (MsgData L' ! k) = msgs_of (MsgData L1 ! k) @ replicate (count_list (d # cs) k) (code, name)"
    by blast
  have "enter_codings code name (codings_text (c # d # cs)) L = Ok L'"
    using 1(1) L'(1) decimal_no_comma [of c] by (subst enter_codings.simps) simp
  moreover have "msgs_of (MsgData L' ! k) = msgs_of (MsgData L ! k) @ replicate (count_list (c # d # cs) k) (code, name)"
    if "k < MAX_NUM_OF_MSG_CODING_TYPES" for k
    unfolding L'(3) [OF that] 1(3) [OF that] split replicate_add by simp
  ultimately show ?case using L'(2) by blast
qed simp

lemma read_messages_ok:
  assumes P: "P ''MESSAGES'' = messages_text all_ms"
  shows "drop i all_ms = ms \<Longrightarrow> msg_data_ok L \<Longrightarrow>
    \<forall>(code, name, cs) \<in> set ms. cs \<noteq> [] \<and> (\<forall>c \<in> set cs. c < MAX_NUM_OF_MSG_CODING_TYPES) \<and> length name < MAX_NAME_LENGTH \<and> COMMA \<notin> set name \<Longrightarrow>
    \<forall>k < MAX_NUM_OF_MSG_CODING_TYPES. length (msgs_of (MsgData L ! k)) + length (written_for k ms) \<le> MAX_NUM_OF_MESSAGES \<Longrightarrow>
    \<exists>L'. read_messages P i L = Ok L' \<and> msg_data_ok L' \<and>
      (\<forall>k < MAX_NUM_OF_MSG_CODING_TYPES. msgs_of (MsgData L' ! k) = msgs_of (MsgData L ! k) @ written_for k ms)"
proof (induction ms arbitrary: i L)
  case Nil
  then have "P ''MESSAGES'' i = str ''END''" by (simp add: P messages_text_def)
  then have "read_messages P i L = Ok L" by (subst read_messages.simps) simp
  then show ?case using Nil(2) by simp
next
  case (Cons m ms)
  obtain code name cs where m: "m = (code, name, cs)" by (cases m)
  have i: "i < length all_ms" "all_ms ! i = m" "drop (Suc i) all_ms = ms"
    using Cons.prems(1) by (metis drop_eq_Nil2 list.distinct(1) not_le_imp_less, metis nth_via_drop, metis drop_Suc list.sel(3) tl_drop)
  define d where "d = str ''0x'' @ hexadecimal (unat code)"
  have nc: "COMMA \<notin> set d" "\<forall>b \<in> set d. b \<noteq> BLANK"
    using hexadecimal_chars [of _ "unat code"] by (auto simp: d_def str_def COMMA_def BLANK_def)
  have data: "P ''MESSAGES'' i = d @ COMMA # name @ COMMA # codings_text cs"
    using i(1,2) m by (simp add: P messages_text_def message_text_def d_def)
  have hd0: "hd (d @ t) = 0x30" "hd (str ''END'') = 0x45" for t by (simp_all add: d_def str_def)
  have ne: "d @ t \<noteq> str ''END''" for t
  proof
    assume "d @ t = str ''END''"
    then have "hd (d @ t) = hd (str ''END'')" by (rule arg_cong)
    then show False unfolding hd0 by simp
  qed
  have tw: "takeWhile (\<lambda>b. b \<noteq> BLANK) d = d" using nc(2) by (simp only: takeWhile_eq_all_conv)
  have go: "takeWhile (\<lambda>b. b \<noteq> BLANK) d \<noteq> str ''END''" unfolding tw using ne [of "[]"] by simp
  have code: "ucast (ConvertToBin d) = code" unfolding d_def ConvertToBin_hexadecimal by (intro bit_word_eqI) (simp add: bit_simps)
  have name: "COMMA \<notin> set name" "length name < MAX_NAME_LENGTH" "cs \<noteq> []" "\<forall>c \<in> set cs. c < MAX_NUM_OF_MSG_CODING_TYPES"
    using Cons.prems(3) m by auto
  have step: "read_messages P i L =
      andThen (enter_codings code name (codings_text cs) L) (\<lambda>L. read_messages P (Suc i) L)"
    using ne [of "COMMA # name @ COMMA # codings_text cs"] go nc(1) name(1) code
    by (subst read_messages.simps) (simp add: data Let_def)
  have room: "\<forall>k < MAX_NUM_OF_MSG_CODING_TYPES. length (msgs_of (MsgData L ! k)) + count_list cs k \<le> MAX_NUM_OF_MESSAGES"
    using Cons.prems(4) m by fastforce
  obtain L1 where 1: "enter_codings code name (codings_text cs) L = Ok L1" "msg_data_ok L1"
    "\<And>k. k < MAX_NUM_OF_MSG_CODING_TYPES \<Longrightarrow> msgs_of (MsgData L1 ! k) = msgs_of (MsgData L ! k) @ replicate (count_list cs k) (code, name)"
    using enter_codings_ok [OF Cons.prems(2) name(3,4,2) room] by blast
  have "\<exists>L'. read_messages P (Suc i) L1 = Ok L' \<and> msg_data_ok L' \<and>
      (\<forall>k < MAX_NUM_OF_MSG_CODING_TYPES. msgs_of (MsgData L' ! k) = msgs_of (MsgData L1 ! k) @ written_for k ms)"
    by (rule Cons.IH [OF i(3) 1(2)]) (use Cons.prems(3,4) m 1(3) in \<open>auto simp: add.assoc\<close>)
  then show ?case using step 1(1,3) m by auto
qed

lemma read_automates_ok:
  assumes "length (AutomateData L) = n" "\<forall>i \<in> set is. i < n \<and> length (P ''AUTOMATES'' i) < MAX_NAME_LENGTH"
  shows "\<exists>L'. read_automates P is L = Ok L' \<and> MsgData L' = MsgData L \<and> length (AutomateData L') = n \<and>
    (\<forall>j < n. automateName (AutomateData L' ! j) = (if j \<in> set is then P ''AUTOMATES'' j else automateName (AutomateData L ! j)))"
  using assms
proof (induction "is" arbitrary: L)
  case (Cons i "is")
  let ?L = "L\<lparr>AutomateData := (AutomateData L)[i := (AutomateData L ! i)\<lparr>automateName := P ''AUTOMATES'' i\<rparr>],
     MaxNameLength := max (MaxNameLength L) (length (P ''AUTOMATES'' i))\<rparr>"
  have "read_automate P i L = Ok ?L" using Cons.prems by (simp add: read_automate_def put_name_def)
  moreover obtain L' where "read_automates P is ?L = Ok L'" "MsgData L' = MsgData ?L" "length (AutomateData L') = n"
    "\<forall>j < n. automateName (AutomateData L' ! j) = (if j \<in> set is then P ''AUTOMATES'' j else automateName (AutomateData ?L ! j))"
    using Cons.IH [of ?L] Cons.prems by auto
  ultimately show ?case using Cons.prems by (intro exI [of _ L']) (auto simp: nth_list_update)
qed simp

text \<open>The names are read as they were written. When the initialisation file gives every
  message a code in base 16, a name of at most 50 characters without a comma, and codings
  below 5, and no coding has more than 100 messages, the constructor of \<^verbatim>\<open>LogFile\<close>
  returns with the messages of every coding in the order of the file, under their codes
  and names. The reader checks none of these bounds:
  anything larger is written outside the arrays.\<close>

lemma LogFile_reads_names:
  assumes "P ''MESSAGES'' = messages_text ms" "P ''TIMERS'' 0 = str ''END''"
    and "\<forall>i < MAX_NUM_OF_AUTOMATE_TYPES. length (P ''AUTOMATES'' i) < MAX_NAME_LENGTH"
    and "\<forall>(code, name, cs) \<in> set ms. cs \<noteq> [] \<and> (\<forall>c \<in> set cs. c < MAX_NUM_OF_MSG_CODING_TYPES) \<and> length name < MAX_NAME_LENGTH \<and> COMMA \<notin> set name"
    and "\<forall>k < MAX_NUM_OF_MSG_CODING_TYPES. length (written_for k ms) \<le> MAX_NUM_OF_MESSAGES"
    and "length fileName < 60" "length iniFileName < 60"
  shows "\<exists>L. LogFile_new P True raw fileName iniFileName = Ok L \<and>
    (\<forall>k < MAX_NUM_OF_MSG_CODING_TYPES. msgs_of (MsgData L ! k) = written_for k ms)"
proof -
  let ?new = "LogInterface.extend (LogInterface_new raw) (LogFile.fields fileName iniFileName
        (replicate MAX_NUM_OF_AUTOMATE_TYPES \<lparr>automateName = [], timerName = replicate MAX_NUM_OF_TIMERS []\<rparr>)
        (replicate MAX_NUM_OF_MSG_CODING_TYPES
          \<lparr>msgName = replicate MAX_NUM_OF_MESSAGES [], msgCode = replicate MAX_NUM_OF_MESSAGES 0, NumOfMsgs = 0\<rparr>) 0)"
  have new: "MsgData ?new = replicate MAX_NUM_OF_MSG_CODING_TYPES
        \<lparr>msgName = replicate MAX_NUM_OF_MESSAGES [], msgCode = replicate MAX_NUM_OF_MESSAGES 0, NumOfMsgs = 0\<rparr>"
    "length (AutomateData ?new) = MAX_NUM_OF_AUTOMATE_TYPES"
    by (simp_all add: LogFile.defs LogInterface.defs LogInterface_new_def)
  obtain L1 where 1: "read_automates P [0 ..< MAX_NUM_OF_AUTOMATE_TYPES] ?new = Ok L1" "MsgData L1 = MsgData ?new"
    using read_automates_ok [OF new(2), of "[0 ..< MAX_NUM_OF_AUTOMATE_TYPES]" P] assms(3) by auto
  have ok1: "msg_data_ok L1" and empty: "\<And>k. k < MAX_NUM_OF_MSG_CODING_TYPES \<Longrightarrow> msgs_of (MsgData L1 ! k) = []"
    unfolding 1(2) new(1) by (simp_all add: msg_data_ok_def msgs_of_def 1(2) new(1))
  have room: "\<forall>k < MAX_NUM_OF_MSG_CODING_TYPES. length (msgs_of (MsgData L1 ! k)) + length (written_for k ms) \<le> MAX_NUM_OF_MESSAGES"
    using assms(5) empty by simp
  obtain L2 where 2: "read_messages P 0 L1 = Ok L2"
    "\<forall>k < MAX_NUM_OF_MSG_CODING_TYPES. msgs_of (MsgData L2 ! k) = msgs_of (MsgData L1 ! k) @ written_for k ms"
    using read_messages_ok [of P ms 0 ms L1, OF assms(1) drop_0 ok1 assms(4) room] by blast
  have "read_timers P 0 L2 = Ok L2" using assms(2) by (subst read_timers.simps) simp
  then have "LogFile_new P True raw fileName iniFileName = Ok L2"
    using 1(1) 2(1) assms(6,7) by (simp add: LogFile_new_def ReadIniFile_def)
  then show ?thesis using 2(2) empty by simp
qed

end
