(* ===== verification/Cfg_File.thy ===== *)
theory Cfg_File
  imports Log_File C_Strings
begin

text \<open>
  Reading initialisation files: \<^verbatim>\<open>Kernel/systemFunctions.cpp\<close> (\<^verbatim>\<open>getCfgString\<close>, \<^verbatim>\<open>getCfgInt\<close>) and the
  Linux versions of the Win32 calls in \<^verbatim>\<open>linuxFunctions.cpp\<close>. Both look for a section, then for
  a key, line by line in an array of 300 characters; they differ in how they cut a line. A
  file is the list of its bytes; the array is kept as it is, as bytes behind the zero of one
  line can be read in the next. The locale \<open>ini_reader\<close> is what their callers rely on.
\<close>

definition LINE :: nat where "LINE = 300"
definition CR :: uint8 where "CR = 0x0d"
definition LF :: uint8 where "LF = 0x0a"
definition LBRACKET :: uint8 where "LBRACKET = 0x5b"
definition RBRACKET :: uint8 where "RBRACKET = 0x5d"
definition EQUALS :: uint8 where "EQUALS = 0x3d"
definition SEMICOLON :: uint8 where "SEMICOLON = 0x3b"

lemmas ini_chars = CR_def LF_def LBRACKET_def RBRACKET_def EQUALS_def SEMICOLON_def BLANK_def

section \<open>Lines\<close>

text \<open>\<^verbatim>\<open>fgets(line, 300, f)\<close>: the array and what is left of the file, or \<^const>\<open>None\<close> at its end.\<close>

definition fgets :: "uint8 list \<Rightarrow> uint8 list \<Rightarrow> (uint8 list \<times> uint8 list) option" where
  "fgets line f = (if f = [] then None
     else let t = take (LINE - 1) (takeWhile (\<lambda>c. c \<noteq> LF) f @ take 1 (dropWhile (\<lambda>c. c \<noteq> LF) f)) in
          Some (t @ 0 # drop (Suc (length t)) line, drop (length t) f))"

lemma fgets_shorter: "fgets line f = Some (line', f') \<Longrightarrow> length f' < length f"
proof -
  assume a: "fgets line f = Some (line', f')"
  let ?t = "take (LINE - 1) (takeWhile (\<lambda>c. c \<noteq> LF) f @ take 1 (dropWhile (\<lambda>c. c \<noteq> LF) f))"
  have f: "f \<noteq> []" "f' = drop (length ?t) f" using a by (auto simp: fgets_def Let_def split: if_splits)
  have "takeWhile (\<lambda>c. c \<noteq> LF) f @ take 1 (dropWhile (\<lambda>c. c \<noteq> LF) f) \<noteq> []" using f(1) by (cases f) auto
  then have "0 < length ?t" by (simp add: LINE_def)
  then show ?thesis using f by simp
qed

text \<open>\<open>cut p\<close>: \<^verbatim>\<open>while(p(line[strlen(line)-1])) line[strlen(line)-1] = 0;\<close> An empty line is read in front of the array.\<close>

lemma strlen_cut: "c_strlen line = Ok (Suc n) \<Longrightarrow> length (cstr (line[n := 0])) < length (cstr line)"
proof -
  assume a: "c_strlen line = Ok (Suc n)"
  then obtain rest where line: "line = cstr line @ 0 # rest" "0 \<notin> set (cstr line)"
    using string_in_cstr [OF c_strlen_in [OF a]] by (auto elim: string_inE)
  then have "c_strlen line = Ok (length (cstr line))" by (metis c_strlen_ok string_in_append)
  then have l: "length (cstr line) = Suc n" using a by simp
  then obtain s x where s: "cstr line = s @ [x]" "length s = n" by (metis length_Suc_conv_rev)
  have "line[n := 0] = (s @ [x] @ 0 # rest)[n := 0]" using line(1) s(1) by simp
  also have "\<dots> = s @ 0 # 0 # rest" using s(2) by (simp add: list_update_append)
  finally have "cstr (line[n := 0]) = s" using line(2) s(1) by (simp add: cstr_append)
  then show ?thesis using s l by simp
qed

function cut_end :: "(uint8 \<Rightarrow> bool) \<Rightarrow> uint8 list \<Rightarrow> uint8 list res" where
  "cut_end p line =
     andThen (c_strlen line) (\<lambda>len. case len of 0 \<Rightarrow> Fault MemFault
     | Suc n \<Rightarrow> if p (line ! n) then cut_end p (line[n := 0]) else Ok line)"
  by pat_completeness auto
termination by (relation "measure (\<lambda>(p, line). length (cstr line))") (auto dest: strlen_cut)

declare cut_end.simps [simp del]

definition chomp :: "uint8 list \<Rightarrow> uint8 list res" where
  "chomp line = cut_end (\<lambda>c. c = CR \<or> c = LF) line"

text \<open>The same for the blanks behind a key, where the loop also ends when nothing is left.\<close>

function strip_blanks :: "uint8 list \<Rightarrow> uint8 list res" where
  "strip_blanks line =
     andThen (c_strlen line) (\<lambda>len. case len of 0 \<Rightarrow> Fault MemFault
     | Suc n \<Rightarrow> if line ! n = BLANK then (if n = 0 then Ok (line[n := 0]) else strip_blanks (line[n := 0])) else Ok line)"
  by pat_completeness auto
termination by (relation "measure (\<lambda>line. length (cstr line))") (auto dest: strlen_cut)

declare strip_blanks.simps [simp del]

text \<open>\<^verbatim>\<open>while(*offset == ' ') offset++;\<close>\<close>

function skip_blanks :: "uint8 list \<Rightarrow> nat \<Rightarrow> nat res" where
  "skip_blanks line offset = andThen (rd line offset) (\<lambda>c. if c = BLANK then skip_blanks line (Suc offset) else Ok offset)"
  by pat_completeness auto
termination by (relation "measure (\<lambda>(line, offset). length line - offset)") (auto simp: rd_def split: if_splits)

declare skip_blanks.simps [simp del]

section \<open>systemFunctions.cpp\<close>

text \<open>The first loop, for the line \<open>name\<close>; \<open>trim\<close> cuts the line end.\<close>

function find_section :: "(uint8 list \<Rightarrow> uint8 list res) \<Rightarrow> uint8 list \<Rightarrow> uint8 list \<Rightarrow> uint8 list \<Rightarrow> (uint8 list \<times> uint8 list) option res" where
  "find_section trim name line f = (case fgets line f of None \<Rightarrow> Ok None
     | Some (line, f) \<Rightarrow>
         andThen (trim line) (\<lambda>line.
         andThen (c_streq line (name @ [0])) (\<lambda>same.
         if same then Ok (Some (line, f)) else find_section trim name line f)))"
  by pat_completeness auto
termination by (relation "measure (\<lambda>(trim, name, line, f). length f)") (auto dest: fgets_shorter)

declare find_section.simps [simp del]

text \<open>
  The second loop: the value of \<open>key\<close>, or \<open>d\<close> at the end of the section. A value that does not
  fit into \<open>size\<close> bytes is passed over; the test looks one character behind its start.
\<close>

function find_key :: "uint8 list \<Rightarrow> nat \<Rightarrow> uint8 list \<Rightarrow> uint8 list \<Rightarrow> uint8 list \<Rightarrow> uint8 list res" where
  "find_key key n d line f = (case fgets line f of None \<Rightarrow> Ok d
     | Some (line, f) \<Rightarrow>
         if line ! 0 = LBRACKET then Ok d
         else andThen (chomp line) (\<lambda>line.
           if EQUALS \<notin> set (cstr line) then find_key key n d line f
           else let offset = length (takeWhile (\<lambda>c. c \<noteq> EQUALS) line) in
             andThen (strip_blanks (line[offset := 0])) (\<lambda>line.
             andThen (skip_blanks line (Suc offset)) (\<lambda>offset.
             andThen (c_streq line (key @ [0])) (\<lambda>same.
             if \<not> same then find_key key n d line f
             else andThen (c_strlen (drop (Suc offset) line)) (\<lambda>len.
               if len < n - 1 then Ok (cstr (drop offset line)) else find_key key n d line f))))))"
  by pat_completeness auto
termination by (relation "measure (\<lambda>(key, n, d, line, f). length f)") (auto dest: fgets_shorter)

declare find_key.simps [simp del]

text \<open>
  \<open>opened\<close> is the file, \<^const>\<open>None\<close> when \<^verbatim>\<open>fopen\<close> fails, \<open>line\<close> the array as it was found, \<open>n\<close> the
  size of the caller's buffer; the result is the text in that buffer.
\<close>

definition getCfgString :: "uint8 list \<Rightarrow> uint8 list option \<Rightarrow> uint8 list \<Rightarrow> uint8 list \<Rightarrow> uint8 list \<Rightarrow> nat \<Rightarrow> uint8 list res" where
  "getCfgString line opened sec key d n =
     andThen (if length d < n \<and> length sec + 2 < 256 then Ok () else Fault MemFault) (\<lambda>_.
     case opened of None \<Rightarrow> Fault MemFault
     | Some f \<Rightarrow> andThen (find_section chomp (LBRACKET # sec @ [RBRACKET]) line f) (\<lambda>r.
         case r of None \<Rightarrow> Ok d | Some (line, f) \<Rightarrow> find_key key n d line f))"

text \<open>\<^verbatim>\<open>sprintf("%d")\<close>\<close>

definition int_text :: "int \<Rightarrow> uint8 list" where
  "int_text i = (if i < 0 then 0x2d # decimal (nat (- i)) else decimal (nat i))"

definition getCfgInt :: "uint8 list \<Rightarrow> uint8 list option \<Rightarrow> uint8 list \<Rightarrow> uint8 list \<Rightarrow> int \<Rightarrow> int res" where
  "getCfgInt line opened sec key defaultres =
     andThen (getCfgString line opened sec key (int_text defaultres) 30) (\<lambda>data.
     Ok (if data \<noteq> [] then atol data else defaultres))"

section \<open>linuxFunctions.cpp\<close>

text \<open>\<^verbatim>\<open>line[strlen(line)-2] = NULL;\<close>: the line end is taken to be two characters.\<close>

definition cut_two :: "uint8 list \<Rightarrow> uint8 list res" where
  "cut_two line = andThen (c_strlen line) (\<lambda>n. if n < 2 then Fault MemFault else Ok (line[n - 2 := 0]))"

text \<open>\<open>n\<close> is the size of the caller's buffer, which the code ignores.\<close>

function lx_find_key :: "uint8 list \<Rightarrow> nat \<Rightarrow> uint8 list \<Rightarrow> uint8 list \<Rightarrow> uint8 list \<Rightarrow> uint8 list res" where
  "lx_find_key key n d line f = (case fgets line f of None \<Rightarrow> Ok d
     | Some (line, f) \<Rightarrow>
         if line ! 0 = LBRACKET then Ok d
         else andThen (cut_two line) (\<lambda>line.
           if EQUALS \<notin> set (cstr line) then Fault MemFault
           else let offset = length (takeWhile (\<lambda>c. c \<noteq> EQUALS) line); line = line[offset := 0] in
             andThen (c_streq line (key @ [0])) (\<lambda>same.
             if \<not> same then lx_find_key key n d line f
             else let t = cstr (drop (Suc offset) line) in if length t < n then Ok t else Fault MemFault)))"
  by pat_completeness auto
termination by (relation "measure (\<lambda>(key, n, d, line, f). length f)") (auto dest: fgets_shorter)

declare lx_find_key.simps [simp del]

definition GetPrivateProfileString :: "uint8 list \<Rightarrow> uint8 list option \<Rightarrow> uint8 list \<Rightarrow> uint8 list \<Rightarrow> uint8 list \<Rightarrow> nat \<Rightarrow> uint8 list res" where
  "GetPrivateProfileString line opened sec key d n =
     andThen (if length d < n \<and> length sec + 2 < 40 then Ok () else Fault MemFault) (\<lambda>_.
     case opened of None \<Rightarrow> Fault MemFault
     | Some f \<Rightarrow> andThen (find_section cut_two (LBRACKET # sec @ [RBRACKET]) line f) (\<lambda>r.
         case r of None \<Rightarrow> Ok d | Some (line, f) \<Rightarrow> lx_find_key key n d line f))"

text \<open>
  When the key is found, \<^verbatim>\<open>break\<close> in front of the \<^verbatim>\<open>return\<close> leaves the function without a value,
  whose use C++ leaves undefined.
\<close>

function lx_find_int :: "uint8 list \<Rightarrow> int \<Rightarrow> uint8 list \<Rightarrow> uint8 list \<Rightarrow> int res" where
  "lx_find_int key d line f = (case fgets line f of None \<Rightarrow> Ok d
     | Some (line, f) \<Rightarrow>
         if line ! 0 = LBRACKET then Ok d
         else if line ! 0 = SEMICOLON then lx_find_int key d line f
         else andThen (cut_two line) (\<lambda>line.
           if EQUALS \<notin> set (cstr line) then Fault MemFault
           else let line = line[length (takeWhile (\<lambda>c. c \<noteq> EQUALS) line) := 0] in
             andThen (c_streq line (key @ [0])) (\<lambda>same. if same then Fault MemFault else lx_find_int key d line f)))"
  by pat_completeness auto
termination by (relation "measure (\<lambda>(key, d, line, f). length f)") (auto dest: fgets_shorter)

declare lx_find_int.simps [simp del]

definition GetPrivateProfileInt :: "uint8 list \<Rightarrow> uint8 list option \<Rightarrow> uint8 list \<Rightarrow> uint8 list \<Rightarrow> int \<Rightarrow> int res" where
  "GetPrivateProfileInt line opened sec key d =
     andThen (if length sec + 2 < 40 then Ok () else Fault MemFault) (\<lambda>_.
     case opened of None \<Rightarrow> Fault MemFault
     | Some f \<Rightarrow> andThen (find_section cut_two (LBRACKET # sec @ [RBRACKET]) line f) (\<lambda>r.
         case r of None \<Rightarrow> Ok d | Some (line, f) \<Rightarrow> lx_find_int key d line f))"

section \<open>A file as it is written\<close>

text \<open>Sections with their entries; \<open>ini_value\<close> is what a look-up means.\<close>

type_synonym ini = "(uint8 list \<times> (uint8 list \<times> uint8 list) list) list"

definition entry_text :: "uint8 list \<times> uint8 list \<Rightarrow> uint8 list" where
  "entry_text = (\<lambda>(k, v). k @ EQUALS # v @ [CR, LF])"

definition entries_text :: "(uint8 list \<times> uint8 list) list \<Rightarrow> uint8 list" where
  "entries_text es = concat (map entry_text es)"

definition section_text :: "uint8 list \<times> (uint8 list \<times> uint8 list) list \<Rightarrow> uint8 list" where
  "section_text = (\<lambda>(name, es). (LBRACKET # name @ [RBRACKET]) @ [CR, LF] @ entries_text es)"

definition ini_text :: "ini \<Rightarrow> uint8 list" where
  "ini_text S = concat (map section_text S)"

definition ini_value :: "ini \<Rightarrow> uint8 list \<Rightarrow> uint8 list \<Rightarrow> uint8 list \<Rightarrow> uint8 list" where
  "ini_value S sec key d = (case map_of S sec of None \<Rightarrow> d
     | Some es \<Rightarrow> case map_of es key of None \<Rightarrow> d | Some v \<Rightarrow> v)"

definition plain :: "uint8 list \<Rightarrow> bool" where
  "plain t \<longleftrightarrow> 0 \<notin> set t \<and> CR \<notin> set t \<and> LF \<notin> set t"

definition entry_ok :: "uint8 list \<times> uint8 list \<Rightarrow> bool" where
  "entry_ok = (\<lambda>(k, v). plain k \<and> plain v \<and> k \<noteq> [] \<and> hd k \<noteq> LBRACKET \<and> last k \<noteq> BLANK \<and> EQUALS \<notin> set k \<and>
     (v = [] \<or> hd v \<noteq> BLANK) \<and> length k + length v + 3 < LINE)"

definition ini_ok :: "ini \<Rightarrow> bool" where
  "ini_ok S \<longleftrightarrow> (\<forall>(name, es) \<in> set S. plain name \<and> length name + 2 < 40 \<and> (\<forall>e \<in> set es. entry_ok e))"

lemma fgets_line:
  assumes "plain l" "length l + 2 < LINE"
  shows "fgets line (l @ [CR, LF] @ rest) = Some (l @ [CR, LF] @ 0 # drop (length l + 3) line, rest)"
proof -
  have "\<forall>c \<in> set (l @ [CR]). c \<noteq> LF" using assms(1) by (auto simp: plain_def ini_chars)
  then have tw: "takeWhile (\<lambda>c. c \<noteq> LF) ((l @ [CR]) @ LF # rest) = l @ [CR]"
    "dropWhile (\<lambda>c. c \<noteq> LF) ((l @ [CR]) @ LF # rest) = LF # rest"
    by (simp_all add: takeWhile_append dropWhile_append3)
  have "take (LINE - 1) (l @ [CR, LF]) = l @ [CR, LF]" using assms(2) by simp
  then show ?thesis using tw by (simp add: fgets_def Let_def numeral_3_eq_3)
qed

lemma fgets_head: "c \<noteq> LF \<Longrightarrow> \<exists>line' f'. fgets line (c # f) = Some (line', f') \<and> line' ! 0 = c"
  by (simp add: fgets_def Let_def LINE_def take_Cons')

text \<open>Both ways to cut the line end leave the line's text in the array.\<close>

definition trims :: "(uint8 list \<Rightarrow> uint8 list res) \<Rightarrow> bool" where
  "trims trim \<longleftrightarrow> (\<forall>l junk. plain l \<longrightarrow> l \<noteq> [] \<longrightarrow> (\<exists>junk'. trim (l @ [CR, LF] @ 0 # junk) = Ok (l @ 0 # junk')))"

lemma chomp_line:
  assumes "plain l" "l \<noteq> []"
  shows "chomp (l @ [CR, LF] @ 0 # junk) = Ok (l @ 0 # 0 # 0 # junk)"
proof -
  have nz: "0 \<notin> set (l @ [CR, LF])" "0 \<notin> set (l @ [CR])" "0 \<notin> set l" using assms(1) by (auto simp: plain_def ini_chars)
  have n: "c_strlen ((l @ [CR, LF]) @ 0 # junk) = Ok (Suc (Suc (length l)))" "c_strlen ((l @ [CR]) @ 0 # 0 # junk) = Ok (Suc (length l))"
    "c_strlen (l @ 0 # 0 # 0 # junk) = Ok (length l)"
    using c_strlen_ok [OF string_in_append [OF nz(1)]] c_strlen_ok [OF string_in_append [OF nz(2)]] c_strlen_ok [OF string_in_append [OF nz(3)]]
    by simp_all
  obtain m where m: "length l = Suc m" using assms(2) by (cases l) auto
  have "(l @ t) ! m = last l" for t using m assms(2) by (simp add: nth_append last_conv_nth)
  moreover have "last l \<noteq> CR" "last l \<noteq> LF" using assms last_in_set [OF assms(2)] unfolding plain_def by metis+
  ultimately have 3: "cut_end (\<lambda>c. c = CR \<or> c = LF) (l @ 0 # 0 # 0 # junk) = Ok (l @ 0 # 0 # 0 # junk)"
    using n(3) m by (subst cut_end.simps) simp
  have 2: "cut_end (\<lambda>c. c = CR \<or> c = LF) ((l @ [CR]) @ 0 # 0 # junk) = cut_end (\<lambda>c. c = CR \<or> c = LF) (l @ 0 # 0 # 0 # junk)"
    using n(2) by (subst cut_end.simps) (simp add: nth_append list_update_append)
  have "cut_end (\<lambda>c. c = CR \<or> c = LF) ((l @ [CR, LF]) @ 0 # junk) = cut_end (\<lambda>c. c = CR \<or> c = LF) ((l @ [CR]) @ 0 # 0 # junk)"
    using n(1) by (subst cut_end.simps) (simp add: nth_append list_update_append)
  then show ?thesis using 2 3 by (simp add: chomp_def)
qed

lemma trims_chomp: "trims chomp"
  unfolding trims_def using chomp_line by blast

lemma cut_two_line:
  assumes "plain l"
  shows "cut_two (l @ [CR, LF] @ 0 # junk) = Ok (l @ 0 # LF # 0 # junk)"
proof -
  have "0 \<notin> set (l @ [CR, LF])" using assms by (auto simp: plain_def ini_chars)
  then have "c_strlen ((l @ [CR, LF]) @ 0 # junk) = Ok (Suc (Suc (length l)))"
    using c_strlen_ok [OF string_in_append] by fastforce
  then show ?thesis by (simp add: cut_two_def list_update_append)
qed

lemma trims_cut_two: "trims cut_two"
  unfolding trims_def using cut_two_line by blast

section \<open>Finding a section\<close>

text \<open>One line that is looked at in search of a section.\<close>

lemma find_section_line:
  assumes "trims trim" "plain l" "l \<noteq> []" "length l + 2 < LINE" "0 \<notin> set name"
  shows "\<exists>line'. find_section trim name line (l @ [CR, LF] @ rest) =
    (if l = name then Ok (Some (line', rest)) else find_section trim name line' rest)"
proof -
  obtain junk where t: "trim (l @ [CR, LF] @ 0 # drop (length l + 3) line) = Ok (l @ 0 # junk)"
    using assms(1-3) unfolding trims_def by blast
  have "0 \<notin> set l" using assms(2) by (simp add: plain_def)
  then have "c_streq (l @ 0 # junk) (name @ [0]) = Ok (l = name)"
    by (intro c_streq_ok) (use assms(5) in simp_all)
  then have "find_section trim name line (l @ [CR, LF] @ rest) =
      (if l = name then Ok (Some (l @ 0 # junk, rest)) else find_section trim name (l @ 0 # junk) rest)"
    unfolding find_section.simps [of trim name line] fgets_line [OF assms(2,4)] using t by simp
  then show ?thesis by blast
qed

lemma entry_line:
  assumes "entry_ok (k, v)"
  shows "plain (k @ EQUALS # v)" "k @ EQUALS # v \<noteq> LBRACKET # t" "length (k @ EQUALS # v) + 2 < LINE"
proof -
  show "plain (k @ EQUALS # v)" using assms by (auto simp: entry_ok_def plain_def EQUALS_def CR_def LF_def)
  show "k @ EQUALS # v \<noteq> LBRACKET # t" using assms by (cases k) (auto simp: entry_ok_def)
  show "length (k @ EQUALS # v) + 2 < LINE" using assms by (simp add: entry_ok_def)
qed

lemma find_section_entries:
  assumes "trims trim" "LBRACKET # t = name" "0 \<notin> set name"
  shows "\<forall>e \<in> set es. entry_ok e \<Longrightarrow> \<exists>line'. find_section trim name line (entries_text es @ rest) = find_section trim name line' rest"
proof (induction es arbitrary: line)
  case Nil
  then show ?case by (auto simp: entries_text_def)
next
  case (Cons e es)
  obtain k v where e: "e = (k, v)" by (cases e)
  then have ok: "entry_ok (k, v)" using Cons.prems by simp
  have split_text: "entries_text (e # es) @ rest = (k @ EQUALS # v) @ [CR, LF] @ entries_text es @ rest"
    by (simp add: e entries_text_def entry_text_def)
  obtain l1 where "find_section trim name line ((k @ EQUALS # v) @ [CR, LF] @ entries_text es @ rest) =
      (if k @ EQUALS # v = name then Ok (Some (l1, entries_text es @ rest)) else find_section trim name l1 (entries_text es @ rest))"
    using find_section_line [OF assms(1) entry_line(1) [OF ok] _ entry_line(3) [OF ok] assms(3), of line] by blast
  then show ?case using entry_line(2) [OF ok, of t] assms(2) Cons split_text by auto
qed

definition starts_section :: "uint8 list \<Rightarrow> bool" where
  "starts_section t \<longleftrightarrow> t = [] \<or> hd t = LBRACKET"

lemma find_section_ok:
  assumes "trims trim" "0 \<notin> set sec"
  shows "ini_ok S \<Longrightarrow> \<exists>line'. case map_of S sec of
      None \<Rightarrow> find_section trim (LBRACKET # sec @ [RBRACKET]) line (ini_text S) = Ok None
    | Some es \<Rightarrow> (\<exists>tail. find_section trim (LBRACKET # sec @ [RBRACKET]) line (ini_text S) = Ok (Some (line', entries_text es @ tail)) \<and>
        starts_section tail \<and> (\<forall>e \<in> set es. entry_ok e))"
proof (induction S arbitrary: line)
  case Nil
  have "fgets line [] = None" by (simp add: fgets_def)
  then show ?case by (simp add: ini_text_def find_section.simps)
next
  case (Cons s S)
  let ?name = "LBRACKET # sec @ [RBRACKET]"
  obtain n es where s: "s = (n, es)" by (cases s)
  have ok: "plain n" "length n + 2 < 40" "\<forall>e \<in> set es. entry_ok e" "ini_ok S"
    using Cons.prems s by (auto simp: ini_ok_def)
  have nz: "0 \<notin> set ?name" using assms(2) by (simp add: ini_chars)
  have l: "plain (LBRACKET # n @ [RBRACKET])" "length (LBRACKET # n @ [RBRACKET]) + 2 < LINE"
    using ok(1,2) by (auto simp: plain_def ini_chars LINE_def)
  have split_text: "ini_text (s # S) = (LBRACKET # n @ [RBRACKET]) @ [CR, LF] @ entries_text es @ ini_text S"
    by (simp add: s ini_text_def section_text_def)
  obtain l1 where 1: "find_section trim ?name line (ini_text (s # S)) =
      (if LBRACKET # n @ [RBRACKET] = ?name then Ok (Some (l1, entries_text es @ ini_text S))
       else find_section trim ?name l1 (entries_text es @ ini_text S))"
    unfolding split_text using find_section_line [OF assms(1) l(1) _ l(2) nz] by blast
  show ?case
  proof (cases "n = sec")
    case True
    have "starts_section (ini_text S)"
      by (cases S) (auto simp: starts_section_def ini_text_def section_text_def split: prod.splits)
    then show ?thesis using True 1 ok(3) s by auto
  next
    case False
    obtain l2 where "find_section trim ?name l1 (entries_text es @ ini_text S) = find_section trim ?name l2 (ini_text S)"
      using find_section_entries [OF assms(1) refl nz ok(3)] by blast
    then show ?thesis using False 1 s Cons.IH [OF ok(4), of l2] by (cases "map_of S sec") simp_all
  qed
qed

section \<open>Finding a key\<close>

lemma find_key_end:
  assumes "starts_section tail"
  shows "find_key key n d line tail = Ok d" "lx_find_key key n d line tail = Ok d"
proof -
  have "tail = [] \<or> (\<exists>t. tail = LBRACKET # t)" using assms by (cases tail) (auto simp: starts_section_def)
  moreover have "\<exists>line' f'. fgets line (LBRACKET # t) = Some (line', f') \<and> line' ! 0 = LBRACKET" for t
    by (rule fgets_head) (simp add: ini_chars)
  ultimately show "find_key key n d line tail = Ok d" "lx_find_key key n d line tail = Ok d"
    by (auto simp: find_key.simps [of _ _ _ _ tail] lx_find_key.simps [of _ _ _ _ tail] fgets_def)
qed

text \<open>The line of an entry, cut at its equals sign.\<close>

lemma entry_cut:
  assumes "entry_ok (k, v)"
  shows "length (takeWhile (\<lambda>c. c \<noteq> EQUALS) ((k @ EQUALS # v) @ 0 # junk)) = length k"
    "((k @ EQUALS # v) @ 0 # junk)[length k := 0] = k @ 0 # v @ 0 # junk"
    "EQUALS \<in> set (cstr ((k @ EQUALS # v) @ 0 # junk))"
    "0 \<notin> set key \<Longrightarrow> c_streq (k @ 0 # v @ 0 # junk) (key @ [0]) = Ok (k = key)"
    "cstr (drop (Suc (length k)) (k @ 0 # v @ 0 # junk)) = v" "((k @ EQUALS # v) @ [CR, LF] @ t) ! 0 \<noteq> LBRACKET"
proof -
  have k: "\<forall>c \<in> set k. c \<noteq> EQUALS" "0 \<notin> set k" "0 \<notin> set v" "k \<noteq> []" "hd k \<noteq> LBRACKET"
    using assms by (auto simp: entry_ok_def plain_def)
  show "length (takeWhile (\<lambda>c. c \<noteq> EQUALS) ((k @ EQUALS # v) @ 0 # junk)) = length k" using k(1) by (simp add: takeWhile_append)
  show "((k @ EQUALS # v) @ 0 # junk)[length k := 0] = k @ 0 # v @ 0 # junk" by (simp add: list_update_append)
  have "cstr ((k @ EQUALS # v) @ 0 # junk) = k @ EQUALS # v" by (rule cstr_append) (use k in \<open>auto simp: EQUALS_def\<close>)
  then show "EQUALS \<in> set (cstr ((k @ EQUALS # v) @ 0 # junk))" by simp
  show "c_streq (k @ 0 # v @ 0 # junk) (key @ [0]) = Ok (k = key)" if "0 \<notin> set key"
    by (rule c_streq_ok) (use k that in simp_all)
  show "cstr (drop (Suc (length k)) (k @ 0 # v @ 0 # junk)) = v" using k(3) by (simp add: cstr_append)
  show "((k @ EQUALS # v) @ [CR, LF] @ t) ! 0 \<noteq> LBRACKET" using k(4,5) by (cases k) simp_all
qed

lemma find_key_entry:
  assumes ok: "entry_ok (k, v)" and key: "0 \<notin> set key" and n: "k = key \<Longrightarrow> length v < n" "1 < n"
  shows "\<exists>line'. find_key key n d line ((k @ EQUALS # v) @ [CR, LF] @ rest) = (if k = key then Ok v else find_key key n d line' rest)"
proof -
  let ?l = "k @ EQUALS # v" and ?junk = "0 # 0 # drop (length (k @ EQUALS # v) + 3) line"
  have ne: "?l \<noteq> []" by simp
  have f: "fgets line (?l @ [CR, LF] @ rest) = Some (?l @ [CR, LF] @ 0 # drop (length ?l + 3) line, rest)"
    by (rule fgets_line [OF entry_line(1,3) [OF ok]])
  note c = entry_cut(1-5) [OF ok, where junk = ?junk] entry_cut(6) [OF ok]
  have k: "k \<noteq> []" "last k \<noteq> BLANK" "0 \<notin> set k" "v = [] \<or> hd v \<noteq> BLANK" "0 \<notin> set v"
    using ok by (auto simp: entry_ok_def plain_def)
  let ?cut = "k @ 0 # v @ 0 # ?junk"
  obtain m where m: "length k = Suc m" using k(1) by (cases k) auto
  have "c_strlen ?cut = Ok (length k)" by (rule c_strlen_ok [OF string_in_append [OF k(3)]])
  moreover have "?cut ! m = last k" using m k(1) by (simp add: nth_append last_conv_nth)
  ultimately have sb: "strip_blanks ?cut = Ok ?cut" using k(2) m by (subst strip_blanks.simps) simp
  have "rd ?cut (Suc (length k)) = Ok ((v @ 0 # ?junk) ! 0)" by (simp add: rd_def nth_append)
  moreover have "(v @ 0 # ?junk) ! 0 \<noteq> BLANK" using k(4) by (cases v) (auto simp: BLANK_def)
  ultimately have sk: "skip_blanks ?cut (Suc (length k)) = Ok (Suc (length k))" by (subst skip_blanks.simps) simp
  have "string_in (drop (Suc (Suc (length k))) ?cut) (tl v)"
    using k(5) by (cases v) (auto simp: string_in_def)
  then have len: "c_strlen (drop (Suc (Suc (length k))) ?cut) = Ok (length v - 1)" using c_strlen_ok by fastforce
  define l l0 cut where ls: "l = ?l @ [CR, LF] @ 0 # drop (length ?l + 3) line" "l0 = ?l @ 0 # ?junk" "cut = ?cut"
  have short: "k = key \<Longrightarrow> length v - 1 < n - 1" using n by (cases v) auto
  have "l ! 0 \<noteq> LBRACKET" "chomp l = Ok l0" "EQUALS \<in> set (cstr l0)" "length (takeWhile (\<lambda>c. c \<noteq> EQUALS) l0) = length k"
    "l0[length k := 0] = cut" "c_streq cut (key @ [0]) = Ok (k = key)" "cstr (drop (Suc (length k)) cut) = v"
    using chomp_line [OF entry_line(1) [OF ok] ne] c key by (simp_all only: ls not_False_eq_True)
  then have "find_key key n d line (?l @ [CR, LF] @ rest) = (if k = key then Ok v else find_key key n d cut rest)"
    unfolding find_key.simps [of key n d line] f [folded ls(1)]
    using sb [folded ls(3)] sk [folded ls(3)] len [folded ls(3)] short by (cases "k = key") (simp_all add: Let_def)
  then show ?thesis by blast
qed

lemma lx_find_key_entry:
  assumes ok: "entry_ok (k, v)" and key: "0 \<notin> set key" and n: "k = key \<Longrightarrow> length v < n" "1 < n"
  shows "\<exists>line'. lx_find_key key n d line ((k @ EQUALS # v) @ [CR, LF] @ rest) = (if k = key then Ok v else lx_find_key key n d line' rest)"
proof -
  let ?l = "k @ EQUALS # v" and ?junk = "LF # 0 # drop (length (k @ EQUALS # v) + 3) line"
  have f: "fgets line (?l @ [CR, LF] @ rest) = Some (?l @ [CR, LF] @ 0 # drop (length ?l + 3) line, rest)"
    by (rule fgets_line [OF entry_line(1,3) [OF ok]])
  note c = entry_cut(1-5) [OF ok, where junk = ?junk] entry_cut(6) [OF ok]
  define l l0 cut where ls: "l = ?l @ [CR, LF] @ 0 # drop (length ?l + 3) line" "l0 = ?l @ 0 # ?junk" "cut = k @ 0 # v @ 0 # ?junk"
  have "l ! 0 \<noteq> LBRACKET" "cut_two l = Ok l0" "EQUALS \<in> set (cstr l0)" "length (takeWhile (\<lambda>c. c \<noteq> EQUALS) l0) = length k"
    "l0[length k := 0] = cut" "c_streq cut (key @ [0]) = Ok (k = key)" "cstr (drop (Suc (length k)) cut) = v"
    using cut_two_line [OF entry_line(1) [OF ok]] c key by (simp_all only: ls not_False_eq_True)
  then have "lx_find_key key n d line (?l @ [CR, LF] @ rest) = (if k = key then Ok v else lx_find_key key n d cut rest)"
    unfolding lx_find_key.simps [of key n d line] f [folded ls(1)]
    using n(1) by (cases "k = key") (simp_all add: Let_def)
  then show ?thesis by blast
qed

lemma entries_text_Cons: "entries_text ((k, v) # es) @ rest = (k @ EQUALS # v) @ [CR, LF] @ entries_text es @ rest"
  by (simp add: entries_text_def entry_text_def)

lemma find_key_ok:
  assumes "0 \<notin> set key" "1 < n" "starts_section tail"
  shows "\<forall>e \<in> set es. entry_ok e \<Longrightarrow> \<forall>v. map_of es key = Some v \<longrightarrow> length v < n \<Longrightarrow>
    find_key key n d line (entries_text es @ tail) = Ok (case map_of es key of None \<Rightarrow> d | Some v \<Rightarrow> v)"
proof (induction es arbitrary: line)
  case Nil
  then show ?case using find_key_end(1) [OF assms(3)] by (simp add: entries_text_def)
next
  case (Cons e es)
  obtain k v where e: "e = (k, v)" by (cases e)
  then have "entry_ok (k, v)" "k = key \<Longrightarrow> length v < n" using Cons.prems by simp_all
  then obtain l1 where "find_key key n d line (entries_text (e # es) @ tail) =
      (if k = key then Ok v else find_key key n d l1 (entries_text es @ tail))"
    unfolding e entries_text_Cons using find_key_entry [OF _ assms(1) _ assms(2), of k v d line "entries_text es @ tail"] by blast
  then show ?case using Cons.IH [of l1] Cons.prems e by (cases "k = key") simp_all
qed

lemma lx_find_key_ok:
  assumes "0 \<notin> set key" "1 < n" "starts_section tail"
  shows "\<forall>e \<in> set es. entry_ok e \<Longrightarrow> \<forall>v. map_of es key = Some v \<longrightarrow> length v < n \<Longrightarrow>
    lx_find_key key n d line (entries_text es @ tail) = Ok (case map_of es key of None \<Rightarrow> d | Some v \<Rightarrow> v)"
proof (induction es arbitrary: line)
  case Nil
  then show ?case using find_key_end(2) [OF assms(3)] by (simp add: entries_text_def)
next
  case (Cons e es)
  obtain k v where e: "e = (k, v)" by (cases e)
  then have "entry_ok (k, v)" "k = key \<Longrightarrow> length v < n" using Cons.prems by simp_all
  then obtain l1 where "lx_find_key key n d line (entries_text (e # es) @ tail) =
      (if k = key then Ok v else lx_find_key key n d l1 (entries_text es @ tail))"
    unfolding e entries_text_Cons using lx_find_key_entry [OF _ assms(1) _ assms(2), of k v d line "entries_text es @ tail"] by blast
  then show ?case using Cons.IH [of l1] Cons.prems e by (cases "k = key") simp_all
qed

section \<open>What the callers rely on\<close>

text \<open>
  The callers pass names that fit the buffers and room for the value; \<open>asks S sec key d n\<close> says that much.
\<close>

definition asks :: "ini \<Rightarrow> uint8 list \<Rightarrow> uint8 list \<Rightarrow> uint8 list \<Rightarrow> nat \<Rightarrow> bool" where
  "asks S sec key d n \<longleftrightarrow> ini_ok S \<and> 0 \<notin> set sec \<and> length sec + 2 < 40 \<and> 0 \<notin> set key \<and>
     1 < n \<and> length d < n \<and> length (ini_value S sec key d) < n"

locale ini_reader =
  fixes get :: "uint8 list \<Rightarrow> uint8 list option \<Rightarrow> uint8 list \<Rightarrow> uint8 list \<Rightarrow> uint8 list \<Rightarrow> nat \<Rightarrow> uint8 list res"
  assumes lookup: "asks S sec key d n \<Longrightarrow> get line (Some (ini_text S)) sec key d n = Ok (ini_value S sec key d)"
begin

text \<open>What the array holds before the call does not matter, nor do other sections and keys.\<close>

lemma same_value:
  assumes "asks S sec key d n" "asks S' sec key d n" "map_of S sec = map_of S' sec"
  shows "get line (Some (ini_text S)) sec key d n = get line' (Some (ini_text S')) sec key d n"
  using assms by (simp add: lookup ini_value_def)

lemma first_section_wins:
  assumes "asks ((sec, es) # S) sec key d n" "map_of es key = Some v"
  shows "get line (Some (ini_text ((sec, es) # S))) sec key d n = Ok v"
  using assms by (simp add: lookup ini_value_def)

lemma absent:
  assumes "asks S sec key d n" "\<forall>es. map_of S sec = Some es \<longrightarrow> map_of es key = None"
  shows "get line (Some (ini_text S)) sec key d n = Ok d"
  using assms by (auto simp: lookup ini_value_def split: option.split)

end

lemma getCfgString_lookup:
  assumes a: "asks S sec key d n"
  shows "getCfgString line (Some (ini_text S)) sec key d n = Ok (ini_value S sec key d)"
proof -
  have s: "0 \<notin> set sec" "ini_ok S" "0 \<notin> set key" "1 < n" "length d < n" "length sec + 2 < 256"
    and fits: "\<And>es v. map_of S sec = Some es \<Longrightarrow> map_of es key = Some v \<Longrightarrow> length v < n"
    using a by (auto simp: asks_def ini_value_def)
  obtain l1 where l1: "case map_of S sec of
      None \<Rightarrow> find_section chomp (LBRACKET # sec @ [RBRACKET]) line (ini_text S) = Ok None
    | Some es \<Rightarrow> (\<exists>tail. find_section chomp (LBRACKET # sec @ [RBRACKET]) line (ini_text S) = Ok (Some (l1, entries_text es @ tail)) \<and>
        starts_section tail \<and> (\<forall>e \<in> set es. entry_ok e))"
    using find_section_ok [OF trims_chomp s(1,2), of line] by blast
  show ?thesis
  proof (cases "map_of S sec")
    case None
    then show ?thesis using l1 s(5,6) by (simp add: getCfgString_def ini_value_def)
  next
    case (Some es)
    then show ?thesis using l1 s find_key_ok [OF s(3,4)] fits by (auto simp: getCfgString_def ini_value_def)
  qed
qed

lemma GetPrivateProfileString_lookup:
  assumes a: "asks S sec key d n"
  shows "GetPrivateProfileString line (Some (ini_text S)) sec key d n = Ok (ini_value S sec key d)"
proof -
  have s: "0 \<notin> set sec" "ini_ok S" "0 \<notin> set key" "1 < n" "length d < n" "length sec + 2 < 40"
    and fits: "\<And>es v. map_of S sec = Some es \<Longrightarrow> map_of es key = Some v \<Longrightarrow> length v < n"
    using a by (auto simp: asks_def ini_value_def)
  obtain l1 where l1: "case map_of S sec of
      None \<Rightarrow> find_section cut_two (LBRACKET # sec @ [RBRACKET]) line (ini_text S) = Ok None
    | Some es \<Rightarrow> (\<exists>tail. find_section cut_two (LBRACKET # sec @ [RBRACKET]) line (ini_text S) = Ok (Some (l1, entries_text es @ tail)) \<and>
        starts_section tail \<and> (\<forall>e \<in> set es. entry_ok e))"
    using find_section_ok [OF trims_cut_two s(1,2), of line] by blast
  show ?thesis
  proof (cases "map_of S sec")
    case None
    then show ?thesis using l1 s(5,6) by (simp add: GetPrivateProfileString_def ini_value_def)
  next
    case (Some es)
    then show ?thesis using l1 s lx_find_key_ok [OF s(3,4)] fits by (auto simp: GetPrivateProfileString_def ini_value_def)
  qed
qed

interpretation cfg: ini_reader getCfgString
  by unfold_locales (rule getCfgString_lookup)

interpretation profile: ini_reader GetPrivateProfileString
  by unfold_locales (rule GetPrivateProfileString_lookup)

text \<open>C37: both readers return what the file says. For a file of sections with their entries, names
  without line ends, brackets or signs of their own and without blanks next to the equals
  sign, in lines of less than 300 characters, for the name of a section of less than 38 characters and a buffer that
  takes the value and the default,
  \<^verbatim>\<open>getCfgString\<close> and the Linux \<^verbatim>\<open>GetPrivateProfileString\<close> return the value of the key in
  the first section of that name, or the default: entries of the same name in other
  sections, the order of the sections and what the line buffer held do not matter.\<close>

theorem config_lookup_as_written:
  assumes "asks S sec key d n"
  shows "getCfgString line (Some (ini_text S)) sec key d n = Ok (ini_value S sec key d) \<and>
    GetPrivateProfileString line' (Some (ini_text S)) sec key d n = Ok (ini_value S sec key d)"
  using cfg.lookup [OF assms] profile.lookup [OF assms] by blast

definition ex_cfg :: ini where
  "ex_cfg = [(str ''LOG'', [(str ''port'', str ''1'')]), (str ''SERVERS'', [(str ''host'', str ''a b''), (str ''port'', str ''-27'')])]"

lemma ex_cfg_ok: "ini_ok ex_cfg"
  by (simp add: ini_ok_def ex_cfg_def entry_ok_def plain_def str_def ini_chars LINE_def)

theorem config_lookup_as_written_witness:
  "getCfgString [] (Some (ini_text ex_cfg)) (str ''SERVERS'') (str ''port'') (str ''0'') 30 = Ok (str ''-27'') \<and>
   GetPrivateProfileString [] (Some (ini_text ex_cfg)) (str ''SERVERS'') (str ''port'') (str ''0'') 30 = Ok (str ''-27'')"
proof -
  have v: "ini_value ex_cfg (str ''SERVERS'') (str ''port'') (str ''0'') = str ''-27''"
    by (simp add: ini_value_def ex_cfg_def str_def)
  have "asks ex_cfg (str ''SERVERS'') (str ''port'') (str ''0'') 30"
    unfolding asks_def v using ex_cfg_ok by (simp add: str_def)
  then show ?thesis using config_lookup_as_written [of ex_cfg "str ''SERVERS''" "str ''port''" "str ''0''" 30 "[]" "[]"] v by simp
qed

section \<open>Numbers\<close>

lemma length_decimal: "n < 10 ^ k \<Longrightarrow> 0 < k \<Longrightarrow> length (decimal n) \<le> k"
proof (induction n arbitrary: k rule: decimal.induct)
  case (1 n)
  show ?case
  proof (cases "n < 10")
    case True
    then show ?thesis using 1(3) by (subst decimal.simps) simp
  next
    case False
    then obtain j where k: "k = Suc j" "0 < j" using 1(2,3) by (cases k; cases "k - 1") auto
    then have "n div 10 < 10 ^ j" using 1(2) by (simp add: less_mult_imp_div_less mult.commute)
    then have "length (decimal (n div 10)) \<le> j" using 1(1) False k(2) by blast
    then show ?thesis using False k by (subst decimal.simps) simp
  qed
qed

text \<open>A value of type \<^verbatim>\<open>int\<close>.\<close>

definition in_int :: "int \<Rightarrow> bool" where
  "in_int i \<longleftrightarrow> - (2 ^ 31) \<le> i \<and> i < 2 ^ 31"

lemma atol_int_text: "in_int i \<Longrightarrow> atol (int_text i) = i"
proof (cases "i < 0")
  case True
  assume i: "in_int i"
  have t: "takeWhile digit (decimal (nat (- i))) = decimal (nat (- i))"
    by (simp add: takeWhile_eq_all_conv decimal_digits)
  show ?thesis using True i by (simp add: int_text_def atol_def blank_def word_le_nat_alt t in_int_def)
qed (simp add: int_text_def in_int_def nat_less_iff)

lemma int_text_shape:
  assumes "in_int i"
  shows "int_text i \<noteq> []" "length (int_text i) < 30"
proof -
  show "int_text i \<noteq> []" by (simp add: int_text_def)
  have "nat \<bar>i\<bar> < 10 ^ 10" using assms by (auto simp: nat_less_iff in_int_def abs_if)
  then have "length (decimal (nat \<bar>i\<bar>)) \<le> 10" by (rule length_decimal) simp
  then show "length (int_text i) < 30" by (auto simp: int_text_def)
qed

text \<open>C39: a configured number is read back. When the value of the key is the decimal text of an
  \<^verbatim>\<open>int\<close> \<open>i\<close>, from \<open>- 2 ^ 31\<close> up to \<open>2 ^ 31 - 1\<close>, or the key is missing and \<open>i\<close> is the default,
  \<^verbatim>\<open>getCfgInt\<close> returns \<open>i\<close>: its buffer of 30 characters is large enough for every number and its
  default. The file is one as in the look-up of texts.\<close>

theorem configured_number_read_back:
  assumes "ini_ok S" "0 \<notin> set sec" "length sec + 2 < 40" "0 \<notin> set key"
    and "ini_value S sec key (int_text j) = int_text i" "in_int i" "in_int j"
  shows "getCfgInt line (Some (ini_text S)) sec key j = Ok i"
proof -
  have s: "length (int_text i) < 30" "length (int_text j) < 30" "int_text i \<noteq> []"
    using int_text_shape [of i] int_text_shape [of j] assms(6,7) by simp_all
  have "asks S sec key (int_text j) 30" using assms s by (simp add: asks_def)
  then have "getCfgString line (Some (ini_text S)) sec key (int_text j) 30 = Ok (int_text i)"
    by (simp add: cfg.lookup assms(5))
  then show ?thesis using s(3) assms(6) by (simp add: getCfgInt_def atol_int_text)
qed

theorem configured_number_read_back_witness:
  "getCfgInt [] (Some (ini_text ex_cfg)) (str ''SERVERS'') (str ''port'') 5 = Ok (- 27) \<and>
   getCfgInt [] (Some (ini_text ex_cfg)) (str ''SERVERS'') (str ''size'') 5 = Ok 5"
proof -
  have t: "int_text (- 27) = str ''-27''" "int_text 5 = str ''5''"
    by (simp_all add: int_text_def decimal.simps str_def)
  have "getCfgInt [] (Some (ini_text ex_cfg)) (str ''SERVERS'') (str ''port'') 5 = Ok (- 27)"
    by (rule configured_number_read_back) (use ex_cfg_ok in \<open>simp_all add: t ini_value_def ex_cfg_def str_def in_int_def\<close>)
  moreover have "getCfgInt [] (Some (ini_text ex_cfg)) (str ''SERVERS'') (str ''size'') 5 = Ok 5"
    by (rule configured_number_read_back) (use ex_cfg_ok in \<open>simp_all add: t ini_value_def ex_cfg_def str_def in_int_def\<close>)
  ultimately show ?thesis by blast
qed

text \<open>The Linux \<^verbatim>\<open>GetPrivateProfileInt\<close>, whose loop leaves without a value when it finds the key.\<close>

lemma lx_find_int_entry:
  assumes ok: "entry_ok (k, v)" "hd k \<noteq> SEMICOLON" and key: "0 \<notin> set key"
  shows "\<exists>line'. lx_find_int key d line ((k @ EQUALS # v) @ [CR, LF] @ rest) = (if k = key then Fault MemFault else lx_find_int key d line' rest)"
proof -
  let ?l = "k @ EQUALS # v" and ?junk = "LF # 0 # drop (length (k @ EQUALS # v) + 3) line"
  have f: "fgets line (?l @ [CR, LF] @ rest) = Some (?l @ [CR, LF] @ 0 # drop (length ?l + 3) line, rest)"
    by (rule fgets_line [OF entry_line(1,3) [OF ok(1)]])
  note c = entry_cut(1-5) [OF ok(1), where junk = ?junk] entry_cut(6) [OF ok(1)]
  have semi: "(?l @ [CR, LF] @ t) ! 0 \<noteq> SEMICOLON" for t using ok by (cases k) (auto simp: entry_ok_def)
  define l l0 cut where ls: "l = ?l @ [CR, LF] @ 0 # drop (length ?l + 3) line" "l0 = ?l @ 0 # ?junk" "cut = k @ 0 # v @ 0 # ?junk"
  have "l ! 0 \<noteq> LBRACKET" "l ! 0 \<noteq> SEMICOLON" "cut_two l = Ok l0" "EQUALS \<in> set (cstr l0)" "length (takeWhile (\<lambda>c. c \<noteq> EQUALS) l0) = length k"
    "l0[length k := 0] = cut" "c_streq cut (key @ [0]) = Ok (k = key)"
    using cut_two_line [OF entry_line(1) [OF ok(1)]] c key semi by (simp_all only: ls not_False_eq_True)
  then have "lx_find_int key d line (?l @ [CR, LF] @ rest) = (if k = key then Fault MemFault else lx_find_int key d cut rest)"
    unfolding lx_find_int.simps [of key d line] f [folded ls(1)] by (simp add: Let_def)
  then show ?thesis by blast
qed

lemma lx_find_int_ok:
  assumes "0 \<notin> set key" "starts_section tail"
  shows "\<forall>e \<in> set es. entry_ok e \<and> hd (fst e) \<noteq> SEMICOLON \<Longrightarrow>
    lx_find_int key d line (entries_text es @ tail) = (case map_of es key of None \<Rightarrow> Ok d | Some v \<Rightarrow> Fault MemFault)"
proof (induction es arbitrary: line)
  case Nil
  have "tail = [] \<or> (\<exists>t. tail = LBRACKET # t)" using assms(2) by (cases tail) (auto simp: starts_section_def)
  moreover have "\<exists>line' f'. fgets line (LBRACKET # t) = Some (line', f') \<and> line' ! 0 = LBRACKET" for t
    by (rule fgets_head) (simp add: ini_chars)
  ultimately show ?case by (auto simp: entries_text_def lx_find_int.simps [of _ _ _ tail] fgets_def)
next
  case (Cons e es)
  obtain k v where e: "e = (k, v)" by (cases e)
  then have "entry_ok (k, v)" "hd k \<noteq> SEMICOLON" using Cons.prems by simp_all
  then obtain l1 where "lx_find_int key d line (entries_text (e # es) @ tail) =
      (if k = key then Fault MemFault else lx_find_int key d l1 (entries_text es @ tail))"
    unfolding e entries_text_Cons using lx_find_int_entry [OF _ _ assms(1), of k v d line "entries_text es @ tail"] by blast
  then show ?case using Cons.IH [of l1] Cons.prems e by (cases "k = key") simp_all
qed

text \<open>C40: the Linux \<^verbatim>\<open>GetPrivateProfileInt\<close> never returns a configured number: it returns the
  default when section or key is missing, and runs off its end, with no value returned,
  when the key is there.\<close>

theorem configured_number_never_returned:
  assumes "ini_ok S" "\<forall>(name, es) \<in> set S. \<forall>e \<in> set es. hd (fst e) \<noteq> SEMICOLON"
    and "0 \<notin> set sec" "length sec + 2 < 40" "0 \<notin> set key"
  shows "GetPrivateProfileInt line (Some (ini_text S)) sec key d =
    (case map_of S sec of None \<Rightarrow> Ok d
     | Some es \<Rightarrow> case map_of es key of None \<Rightarrow> Ok d | Some v \<Rightarrow> Fault MemFault)"
proof -
  obtain l1 where l1: "case map_of S sec of
      None \<Rightarrow> find_section cut_two (LBRACKET # sec @ [RBRACKET]) line (ini_text S) = Ok None
    | Some es \<Rightarrow> (\<exists>tail. find_section cut_two (LBRACKET # sec @ [RBRACKET]) line (ini_text S) = Ok (Some (l1, entries_text es @ tail)) \<and>
        starts_section tail \<and> (\<forall>e \<in> set es. entry_ok e))"
    using find_section_ok [OF trims_cut_two assms(3,1), of line] by blast
  show ?thesis
  proof (cases "map_of S sec")
    case None
    then show ?thesis using l1 assms(4) by (simp add: GetPrivateProfileInt_def)
  next
    case (Some es)
    then have "\<forall>e \<in> set es. hd (fst e) \<noteq> SEMICOLON" using map_of_SomeD [OF Some] assms(2) by auto
    then show ?thesis using Some l1 assms(4) lx_find_int_ok [OF assms(5)] by (auto simp: GetPrivateProfileInt_def)
  qed
qed

theorem configured_number_never_returned_witness:
  "GetPrivateProfileInt [] (Some (ini_text ex_cfg)) (str ''SERVERS'') (str ''port'') 5 = Fault MemFault \<and>
   GetPrivateProfileInt [] (Some (ini_text ex_cfg)) (str ''LOG'') (str ''host'') 5 = Ok 5"
proof -
  have semi: "\<forall>(name, es) \<in> set ex_cfg. \<forall>e \<in> set es. hd (fst e) \<noteq> SEMICOLON"
    by (simp add: ex_cfg_def str_def SEMICOLON_def)
  show ?thesis
    using configured_number_never_returned [OF ex_cfg_ok semi, of "str ''SERVERS''" "str ''port''" "[]" 5]
      configured_number_never_returned [OF ex_cfg_ok semi, of "str ''LOG''" "str ''host''" "[]" 5]
    by (simp add: ex_cfg_def str_def)
qed

end
