(* ===== verification/Log_From_File.thy ===== *)
theory Log_From_File
  imports Cfg_File
begin

text \<open>
  The log file's names read from the bytes of its initialisation file: the constructor of
  \<^verbatim>\<open>LogFile\<close> (\<^verbatim>\<open>Kernel/LogFile.cpp\<close>) composed with the reader of \<^verbatim>\<open>Kernel/linuxFunctions.cpp\<close>.
\<close>

section \<open>Numbered entries\<close>

definition numbered :: "uint8 list list \<Rightarrow> (uint8 list \<times> uint8 list) list" where
  "numbered ts = map (\<lambda>i. (decimal i, ts ! i)) [0 ..< length ts]"

lemma decimal_eq [simp]: "decimal i = decimal j \<longleftrightarrow> i = j"
  by (metis digits_value_decimal)

lemma numbered_value: "map_of (numbered ts) (decimal i) = (if i < length ts then Some (ts ! i) else None)"
proof -
  have "map_of (map (\<lambda>i. (decimal i, ts ! i)) is) (decimal i) = (if i \<in> set is then Some (ts ! i) else None)" for "is"
    by (induction "is") auto
  then show ?thesis by (simp add: numbered_def)
qed

definition entry_value_ok :: "uint8 list \<Rightarrow> bool" where
  "entry_value_ok t \<longleftrightarrow> plain t \<and> (t = [] \<or> hd t \<noteq> BLANK) \<and> length t < 280"

lemma decimal_chars: "plain (decimal i)" "hd (decimal i) \<noteq> LBRACKET" "last (decimal i) \<noteq> BLANK" "EQUALS \<notin> set (decimal i)"
proof -
  have "digit c \<Longrightarrow> c \<noteq> 0 \<and> c \<noteq> CR \<and> c \<noteq> LF \<and> c \<noteq> LBRACKET \<and> c \<noteq> BLANK \<and> c \<noteq> EQUALS" for c
    by (auto simp: digit_def word_le_nat_alt ini_chars)
  then have c: "c \<in> set (decimal i) \<Longrightarrow> c \<noteq> 0 \<and> c \<noteq> CR \<and> c \<noteq> LF \<and> c \<noteq> LBRACKET \<and> c \<noteq> BLANK \<and> c \<noteq> EQUALS" for c
    using decimal_digits by blast
  show "plain (decimal i)" "EQUALS \<notin> set (decimal i)" using c by (auto simp: plain_def)
  show "hd (decimal i) \<noteq> LBRACKET" "last (decimal i) \<noteq> BLANK"
    using c [of "hd (decimal i)"] c [of "last (decimal i)"] by simp_all
qed

lemma numbered_ok:
  assumes "\<forall>t \<in> set ts. entry_value_ok t" "length ts \<le> 1000" "e \<in> set (numbered ts)"
  shows "entry_ok e"
proof -
  obtain i where e: "e = (decimal i, ts ! i)" "i < length ts" using assms(3) by (auto simp: numbered_def)
  then have "entry_value_ok (ts ! i)" using assms(1) by simp
  moreover have "length (decimal i) \<le> 4" by (rule length_decimal) (use e(2) assms(2) in simp_all)
  ultimately show ?thesis
    using decimal_chars [of i] by (auto simp: e(1) entry_ok_def entry_value_ok_def LINE_def)
qed

section \<open>The names of a log file\<close>

text \<open>The file: names of automates, and messages with code, name and codings.\<close>

definition log_ini :: "uint8 list list \<Rightarrow> (uint16 \<times> uint8 list \<times> nat list) list \<Rightarrow> ini" where
  "log_ini names ms = [(str ''AUTOMATES'', numbered names), (str ''MESSAGES'', numbered (map message_text ms)), (str ''TIMERS'', [])]"

text \<open>What \<^verbatim>\<open>ReadIniFile\<close> gets for the key \<open>i\<close> of a section, whatever its line buffer holds.\<close>

definition read_default :: "string \<Rightarrow> uint8 list" where
  "read_default sec = str (if sec = ''AUTOMATES'' then ''UNKNOWN'' else ''END'')"

definition reads_from :: "uint8 list \<Rightarrow> (string \<Rightarrow> nat \<Rightarrow> uint8 list) \<Rightarrow> bool" where
  "reads_from f P \<longleftrightarrow> (\<forall>sec \<in> {''AUTOMATES'', ''MESSAGES'', ''TIMERS''}. \<forall>i line.
     GetPrivateProfileString line (Some f) (str sec) (decimal i) (read_default sec) 300 = Ok (P sec i))"

text \<open>The values that were written.\<close>

definition log_value :: "uint8 list list \<Rightarrow> (uint16 \<times> uint8 list \<times> nat list) list \<Rightarrow> string \<Rightarrow> nat \<Rightarrow> uint8 list" where
  "log_value names ms sec i = (if sec = ''AUTOMATES'' then (if i < length names then names ! i else str ''UNKNOWN'')
     else if sec = ''MESSAGES'' then messages_text ms i else str ''END'')"

definition log_ini_ok :: "uint8 list list \<Rightarrow> (uint16 \<times> uint8 list \<times> nat list) list \<Rightarrow> bool" where
  "log_ini_ok names ms \<longleftrightarrow> length names \<le> 1000 \<and> length ms \<le> 1000 \<and>
     (\<forall>t \<in> set names. entry_value_ok t) \<and> (\<forall>m \<in> set ms. entry_value_ok (message_text m))"

lemma log_ini_asks:
  assumes "log_ini_ok names ms" "sec \<in> {''AUTOMATES'', ''MESSAGES'', ''TIMERS''}"
  shows "ini_value (log_ini names ms) (str sec) (decimal i) (read_default sec) = log_value names ms sec i"
    "asks (log_ini names ms) (str sec) (decimal i) (read_default sec) 300"
proof -
  have strs: "str ''MESSAGES'' \<noteq> str ''AUTOMATES''" "str ''TIMERS'' \<noteq> str ''AUTOMATES''" "str ''TIMERS'' \<noteq> str ''MESSAGES''"
    by (simp_all add: str_def)
  show v: "ini_value (log_ini names ms) (str sec) (decimal i) (read_default sec) = log_value names ms sec i"
    using assms(2) strs by (auto simp: ini_value_def log_ini_def log_value_def read_default_def numbered_value messages_text_def)
  have e: "e \<in> set (numbered names) \<Longrightarrow> entry_ok e" "e \<in> set (numbered (map message_text ms)) \<Longrightarrow> entry_ok e" for e
    using assms(1) numbered_ok [of names e] numbered_ok [of "map message_text ms" e] by (auto simp: log_ini_ok_def)
  have n: "plain (str ''AUTOMATES'')" "plain (str ''MESSAGES'')" "plain (str ''TIMERS'')"
    "length (str ''AUTOMATES'') = 9" "length (str ''MESSAGES'') = 8" "length (str ''TIMERS'') = 6"
    by (simp_all add: str_def plain_def ini_chars)
  have "ini_ok (log_ini names ms)" using e n by (auto simp: ini_ok_def log_ini_def)
  moreover have "length (log_value names ms sec i) < 300"
    using assms(1) by (auto simp: log_value_def messages_text_def log_ini_ok_def entry_value_ok_def str_def dest!: nth_mem)
  moreover have "length (read_default sec) < 300" "0 \<notin> set (str sec)" "length (str sec) + 2 < 40"
    using assms(2) n by (auto simp: read_default_def plain_def str_def)
  moreover have "0 \<notin> set (decimal i)" using decimal_chars(1) [of i] by (simp add: plain_def)
  ultimately show "asks (log_ini names ms) (str sec) (decimal i) (read_default sec) 300"
    unfolding asks_def v by simp
qed

lemma log_ini_read:
  assumes "log_ini_ok names ms"
  shows "reads_from (ini_text (log_ini names ms)) (log_value names ms)"
  unfolding reads_from_def
proof (intro ballI allI)
  fix sec i line
  assume s: "sec \<in> {''AUTOMATES'', ''MESSAGES'', ''TIMERS''}"
  show "GetPrivateProfileString line (Some (ini_text (log_ini names ms))) (str sec) (decimal i) (read_default sec) 300 =
      Ok (log_value names ms sec i)"
    unfolding profile.lookup [OF log_ini_asks(2) [OF assms s]] log_ini_asks(1) [OF assms s] ..
qed



end
