(* ===== verification/Server_Main.thy ===== *)
theory Server_Main
  imports Ch_Main Log_From_File
begin

text \<open>
  The server's program: \<^verbatim>\<open>mainProgram\<close> and \<^verbatim>\<open>SystemThread\<close> of \<^verbatim>\<open>POP3ClientCppUnit/main.cpp\<close>, as two
  threads whose steps interleave. They share the flag \<^verbatim>\<open>g_ProgramEnd\<close> and the global \<^verbatim>\<open>sys\<close>.
\<close>

section \<open>The system thread\<close>

text \<open>
  Everything up to \<^verbatim>\<open>sys.Start()\<close>: the log file, the kernel with its automate, the first
  message. \<open>P\<close>, \<open>opens\<close> and \<open>rawlog\<close> are the initialisation file, whether the log file can be
  created, and the bytes its record buffer starts with.
\<close>

definition server_build :: "bool \<Rightarrow> win32 \<Rightarrow> 'n winsock \<Rightarrow> (nat \<Rightarrow> addr) \<Rightarrow> (addr \<Rightarrow> uint8) \<Rightarrow> (nat \<Rightarrow> bool) \<Rightarrow> addr
    \<Rightarrow> (string \<Rightarrow> nat \<Rightarrow> uint8 list) \<Rightarrow> bool \<Rightarrow> uint8 list \<Rightarrow> ch_proc FiniteStateMachine \<Rightarrow> addr \<Rightarrow> 'n Ch kernel
    \<Rightarrow> (ch_proc, 'n Ch) system res" where
  "server_build dbg w ws base bs created dummy P opens rawlog raw obj K =
     andThen (LogFile_new P opens rawlog (str ''log.log'') (str ''./log.ini'')) (\<lambda>L.
     andThen (SystemThread_init dbg base bs created dummy True (LogInterface.truncate L) raw obj K) (\<lambda>Y.
     call (ChAuto_Start dbg w ws) Y obj))"

definition server_work :: "bool \<Rightarrow> win32 \<Rightarrow> 'n winsock \<Rightarrow> 'n stack \<Rightarrow> (nat \<Rightarrow> nat \<Rightarrow> uint32) \<Rightarrow> nat
    \<Rightarrow> (ch_proc, 'n Ch) system \<Rightarrow> (ch_proc, 'n Ch) system res" where
  "server_work dbg w ws J clk k = Start_step dbg w (clk k) (ch_run dbg w ws J) Ch_NoFreeInstances"

text \<open>With the log file as its logger, \<^const>\<open>SystemThread\<close> is these two in sequence.\<close>

lemma SystemThread_build:
  assumes "LogFile_new P opens rawlog (str ''log.log'') (str ''./log.ini'') = Ok L"
  shows "SystemThread dbg w ws J clk base bs created dummy True (LogInterface.truncate L) raw obj K =
    andThen (server_build dbg w ws base bs created dummy P opens rawlog raw obj K)
      (Start dbg w clk (ch_run dbg w ws J) Ch_NoFreeInstances)"
  by (simp add: SystemThread_def server_build_def assms andThen_assoc)

section \<open>Both threads\<close>

text \<open>Where a thread is; \<open>InRound n k\<close>: \<open>k\<close> messages are done, \<open>n\<close> iterations of the inner loop are left.\<close>

datatype thread_state = NoThread | Initialising | Starting | Testing nat | InRound nat nat | Ended | Failed

datatype main_state = Creating | Waiting | AtGetch | Stopping | Closing | Returned

record 'n program =
  the_sys :: "(ch_proc, 'n Ch) system"
  thread :: thread_state
  main_at :: main_state
  g_ProgramEnd :: bool

definition program_start :: "'n Ch kernel \<Rightarrow> bool \<Rightarrow> 'n program" where
  "program_start K g = \<lparr>the_sys = \<lparr>objects = Map.empty, sys = static_sys, ker = K\<rparr>,
     thread = NoThread, main_at = Creating, g_ProgramEnd = g\<rparr>"

definition set_working :: "bool \<Rightarrow> ('p, 'g) system \<Rightarrow> ('p, 'g) system" where
  "set_working b Y = Y\<lparr>sys := (sys Y)\<lparr>SystemWorking := b\<rparr>\<rparr>"

definition alive :: "'n program \<Rightarrow> bool" where
  "alive P \<longleftrightarrow> thread P \<noteq> Failed \<and> main_at P \<noteq> Returned"

text \<open>
  A step of either thread. \<^verbatim>\<open>sys\<close> is constructed before \<^verbatim>\<open>main\<close> runs, so building the kernel
  leaves the flag \<^verbatim>\<open>SystemWorking\<close> as it is. The other thread touches no more of \<^verbatim>\<open>sys\<close> than this
  flag, which an iteration of the inner loop does not read: an iteration is one step. When
  \<^verbatim>\<open>mainProgram\<close> returns the process ends, and so it does when a thread fails.
\<close>

inductive program_step :: "(ch_proc, 'n Ch) system res \<Rightarrow> (nat \<Rightarrow> (ch_proc, 'n Ch) system \<Rightarrow> (ch_proc, 'n Ch) system res)
    \<Rightarrow> 'n program \<Rightarrow> 'n program \<Rightarrow> bool" for build work where
  create: "alive P \<Longrightarrow> main_at P = Creating \<Longrightarrow> program_step build work P (P\<lparr>thread := Initialising, main_at := Waiting\<rparr>)"
| no_thread: "alive P \<Longrightarrow> main_at P = Creating \<Longrightarrow> program_step build work P (P\<lparr>main_at := Waiting\<rparr>)"
| test_end: "alive P \<Longrightarrow> main_at P = Waiting \<Longrightarrow>
    program_step build work P (P\<lparr>main_at := (if g_ProgramEnd P then AtGetch else Waiting)\<rparr>)"
| getch: "alive P \<Longrightarrow> main_at P = AtGetch \<Longrightarrow> program_step build work P (P\<lparr>main_at := Stopping\<rparr>)"
| stop: "alive P \<Longrightarrow> main_at P = Stopping \<Longrightarrow>
    program_step build work P (P\<lparr>the_sys := StopSystem (the_sys P), main_at := Closing\<rparr>)"
| close: "alive P \<Longrightarrow> main_at P = Closing \<Longrightarrow> program_step build work P (P\<lparr>main_at := Returned\<rparr>)"
| built: "alive P \<Longrightarrow> thread P = Initialising \<Longrightarrow> build = Ok Y \<Longrightarrow>
    program_step build work P (P\<lparr>the_sys := set_working (SystemWorking (sys (the_sys P))) Y, thread := Starting\<rparr>)"
| not_built: "alive P \<Longrightarrow> thread P = Initialising \<Longrightarrow> build = Fault e \<Longrightarrow> program_step build work P (P\<lparr>thread := Failed\<rparr>)"
| started: "alive P \<Longrightarrow> thread P = Starting \<Longrightarrow>
    program_step build work P (P\<lparr>the_sys := set_working True (the_sys P), thread := Testing 0\<rparr>)"
| test_working: "alive P \<Longrightarrow> thread P = Testing k \<Longrightarrow>
    program_step build work P (P\<lparr>thread := (if SystemWorking (sys (the_sys P)) then InRound (unat (NumberOfMbx (sys (the_sys P)))) k else Ended)\<rparr>)"
| iteration: "alive P \<Longrightarrow> thread P = InRound (Suc n) k \<Longrightarrow> work k (the_sys P) = Ok Y \<Longrightarrow>
    program_step build work P (P\<lparr>the_sys := Y, thread := InRound n (Suc k)\<rparr>)"
| iteration_fails: "alive P \<Longrightarrow> thread P = InRound (Suc n) k \<Longrightarrow> work k (the_sys P) = Fault e \<Longrightarrow>
    program_step build work P (P\<lparr>thread := Failed\<rparr>)"
| round_done: "alive P \<Longrightarrow> thread P = InRound 0 k \<Longrightarrow> program_step build work P (P\<lparr>thread := Testing k\<rparr>)"

inductive program_reached :: "(ch_proc, 'n Ch) system res \<Rightarrow> (nat \<Rightarrow> (ch_proc, 'n Ch) system \<Rightarrow> (ch_proc, 'n Ch) system res)
    \<Rightarrow> 'n program \<Rightarrow> 'n program \<Rightarrow> bool" for build work P0 where
  begins: "program_reached build work P0 P0"
| goes_on: "program_reached build work P0 P \<Longrightarrow> program_step build work P P' \<Longrightarrow> program_reached build work P0 P'"

section \<open>The log file's buffer\<close>

lemma enter_msg_buffer: "enter_msg code name info L = Ok L' \<Longrightarrow> LogBuffer L' = LogBuffer L"
  by (auto simp: enter_msg_def Let_def put_name_def split: if_splits)

lemma enter_codings_buffer: "enter_codings code name info L = Ok L' \<Longrightarrow> LogBuffer L' = LogBuffer L"
proof (induction code name info L rule: enter_codings.induct)
  case (1 code name info L)
  show ?case
  proof (cases "COMMA \<in> set info")
    case True
    then obtain f r L1 where f: "next_field info = Ok (f, r)" "enter_msg code name f L = Ok L1" "enter_codings code name r L1 = Ok L'"
      using 1(2) by (subst (asm) enter_codings.simps) auto
    then show ?thesis using 1(1) [OF True, of "(f, r)" f r L1] enter_msg_buffer [OF f(2)] by simp
  next
    case False
    then show ?thesis using 1(2) enter_msg_buffer by (subst (asm) enter_codings.simps) simp
  qed
qed

lemma read_automates_buffer: "read_automates P is L = Ok L' \<Longrightarrow> LogBuffer L' = LogBuffer L"
proof (induction "is" arbitrary: L)
  case (Cons i "is")
  then obtain L1 where "read_automate P i L = Ok L1" "read_automates P is L1 = Ok L'" by auto
  then show ?case using Cons.IH by (auto simp: read_automate_def)
qed simp

lemma read_messages_buffer:
  assumes "read_messages P i L = Some r"
  shows "case r of Inr L' \<Rightarrow> LogBuffer L' = LogBuffer L | Inl e \<Rightarrow> True"
proof (rule read_messages.raw_induct [where Pa = "\<lambda>((P, i), L) r. case r of Inr L' \<Rightarrow> LogBuffer L' = LogBuffer L | Inl e \<Rightarrow> True",
    OF _ assms, unfolded prod.case], goal_cases)
  case (1 rm P i L y)
  show ?case
  proof (cases y)
    case (Inr L')
    show ?thesis
    proof (cases "P ''MESSAGES'' i = str ''END''")
      case False
      then obtain d r name r' L1 where s: "enter_codings (ucast (ConvertToBin d)) name r' L = Ok L1"
        "(if takeWhile (\<lambda>b. b \<noteq> BLANK) d = str ''END'' then Ok L1 else rm P (Suc i) L1) = Ok L'"
        using 1(2) Inr by (auto simp: Let_def)
      have "LogBuffer L1 = LogBuffer L" using enter_codings_buffer [OF s(1)] .
      then show ?thesis using s(2) 1(1) [of P "Suc i" L1 "Inr L'"] Inr by (auto split: if_splits)
    qed (use 1(2) Inr in simp)
  qed simp
qed

lemma read_timers_buffer:
  assumes "read_timers P i L = Some r"
  shows "case r of Inr L' \<Rightarrow> LogBuffer L' = LogBuffer L | Inl e \<Rightarrow> True"
proof (rule read_timers.raw_induct [where Pa = "\<lambda>((P, i), L) r. case r of Inr L' \<Rightarrow> LogBuffer L' = LogBuffer L | Inl e \<Rightarrow> True",
    OF _ assms, unfolded prod.case], goal_cases)
  case (1 rt P i L y)
  show ?case
  proof (cases y)
    case (Inr L')
    show ?thesis
    proof (cases "P ''TIMERS'' i = str ''END''")
      case False
      then obtain d info name L1 where s: "enter_timer d info name L = Ok L1"
        "(if d = str ''END'' then Ok L1 else rt P (Suc i) L1) = Ok L'"
        using 1(2) Inr by (auto simp: Let_def)
      have "LogBuffer L1 = LogBuffer L" using s(1) by (auto simp: enter_timer_def Let_def)
      then show ?thesis using s(2) 1(1) [of P "Suc i" L1 "Inr L'"] Inr by (auto split: if_splits)
    qed (use 1(2) Inr in simp)
  qed simp
qed

lemma LogFile_new_buffer:
  assumes "LogFile_new P opens raw fileName iniFileName = Ok L"
  shows "LogBuffer (LogInterface.truncate L) = raw"
proof -
  obtain L0 L1 L2 where 1: "LogBuffer L0 = raw" "read_automates P [0 ..< MAX_NUM_OF_AUTOMATE_TYPES] L0 = Ok L1"
    "read_messages P 0 L1 = Ok L2" "read_timers P 0 L2 = Ok L"
  proof -
    let ?L0 = "LogInterface.extend (LogInterface_new raw) (LogFile.fields fileName iniFileName
        (replicate MAX_NUM_OF_AUTOMATE_TYPES \<lparr>automateName = [], timerName = replicate MAX_NUM_OF_TIMERS []\<rparr>)
        (replicate MAX_NUM_OF_MSG_CODING_TYPES
          \<lparr>msgName = replicate MAX_NUM_OF_MESSAGES [], msgCode = replicate MAX_NUM_OF_MESSAGES 0, NumOfMsgs = 0\<rparr>) 0)"
    have "LogBuffer ?L0 = raw" by (simp add: LogInterface.defs LogFile.defs LogInterface_new_def)
    then show thesis using that [of ?L0] assms by (auto simp: LogFile_new_def ReadIniFile_def split: if_splits)
  qed
  have "LogBuffer L1 = LogBuffer L0" using read_automates_buffer 1(2) .
  moreover have "LogBuffer L2 = LogBuffer L1" using read_messages_buffer [OF 1(3)] by simp
  moreover have "LogBuffer L = LogBuffer L2" using read_timers_buffer [OF 1(4)] by simp
  ultimately show ?thesis using 1(1) by (simp add: LogInterface.defs)
qed

section \<open>What an iteration leaves alone\<close>

lemma call_sys: "call f Y obj = Ok Y' \<Longrightarrow> sys Y' = sys Y"
  by (auto simp: call_def)

lemma dispatch_flags:
  assumes "dispatch dbg clk run noFree Y msg = Ok Y'"
  shows "SystemWorking (sys Y') = SystemWorking (sys Y) \<and> NumberOfMbx (sys Y') = NumberOfMbx (sys Y)"
proof -
  have d: "DiscardMsg dbg Y msg = Ok Y' \<Longrightarrow> sys Y' = sys Y"
    by (auto simp: DiscardMsg_def Let_def)
  have c: "call f (Y\<lparr>objects := objs, sys := (sys Y)\<lparr>FreeAutomates := fs\<rparr>\<rparr>) a = Ok Y' \<Longrightarrow>
      SystemWorking (sys Y') = SystemWorking (sys Y) \<and> NumberOfMbx (sys Y') = NumberOfMbx (sys Y)" for f objs fs a
    using call_sys [of f "Y\<lparr>objects := objs, sys := (sys Y)\<lparr>FreeAutomates := fs\<rparr>\<rparr>" a Y'] by simp
  show ?thesis
    using assms unfolding dispatch_def Let_def
    by (simp only: andThen_eq_Ok case_prod_beta split: if_split_asm) (metis c d call_sys)+
qed

lemma server_work_flags:
  assumes "server_work dbg w ws J clk k Y = Ok Y'"
  shows "SystemWorking (sys Y') = SystemWorking (sys Y)" "NumberOfMbx (sys Y') = NumberOfMbx (sys Y)"
proof -
  obtain msg Y1 where 1: "GetMsgSync dbg w Y = Ok (msg, Y1)"
    "(if msg = NULL then Ok Y1 else dispatch dbg (clk k) (ch_run dbg w ws J) Ch_NoFreeInstances Y1 msg) = Ok Y'"
    using assms by (auto simp: server_work_def Start_step_def)
  have "sys Y1 = sys Y" using 1(1) by (auto simp: GetMsgSync_def Let_def split: if_splits)
  then show "SystemWorking (sys Y') = SystemWorking (sys Y)" "NumberOfMbx (sys Y') = NumberOfMbx (sys Y)"
    using 1(2) by (auto dest: dispatch_flags split: if_splits)
qed

lemma server_rep_set_working [simp]:
  "server_rep (set_working b Y) N e = server_rep Y N e" "server_rep (StopSystem Y) N e = server_rep Y N e"
  by (simp_all add: server_rep_def set_working_def StopSystem_def only_server_def)

lemma set_working_flags [simp]:
  "SystemWorking (sys (set_working b Y)) = b" "NumberOfMbx (sys (set_working b Y)) = NumberOfMbx (sys Y)"
  by (simp_all add: set_working_def)

lemma ch_steps_0: "ch_steps ws J 0 = Ok"
  by (rule ext) simp

lemma ch_steps_Suc: "ch_steps ws J (Suc n) e = andThen (ch_steps ws J n e) (ch_step ws J)"
proof (induction n arbitrary: e)
  case (Suc n)
  have "ch_steps ws J (Suc (Suc n)) e = andThen (ch_step ws J e) (ch_steps ws J (Suc n))" by simp
  also have "\<dots> = andThen (ch_step ws J e) (\<lambda>e. andThen (ch_steps ws J n e) (ch_step ws J))"
    by (rule arg_cong [where f = "andThen (ch_step ws J e)"]) (rule ext, rule Suc)
  finally show ?case by (simp add: andThen_assoc)
qed (simp add: ch_steps_0)

section \<open>The server at work\<close>

text \<open>The number of messages done, while the system is running.\<close>

definition messages_done :: "thread_state \<Rightarrow> nat option" where
  "messages_done t = (case t of Testing k \<Rightarrow> Some k | InRound n k \<Rightarrow> Some k | _ \<Rightarrow> None)"

lemma server_build_rep:
  assumes "win32_documented w" "kernel_memory base dummy (memory K) 1 [50] [256]" "\<forall>i < 4. created i"
    and "length rawlog = 8192" "obj \<noteq> NULL" "obj < 2 ^ 32"
    and "server_build dbg w ws base bs created dummy P opens rawlog raw obj K = Ok Y"
  shows "server_rep Y 50 (start_effect ws (app K))"
proof -
  obtain L where L: "LogFile_new P opens rawlog (str ''log.log'') (str ''./log.ini'') = Ok L"
    using assms(7) by (auto simp: server_build_def)
  have "length (LogBuffer (LogInterface.truncate L)) = 8192" using LogFile_new_buffer [OF L] assms(4) by simp
  from comes_up [OF assms(1-3) this assms(5,6), of dbg bs raw ws]
  show ?thesis using assms(7) L by (auto simp: server_build_def)
qed

text \<open>A run to the first test of the loop, on the machine of the witnesses.\<close>

abbreviation ex_build :: "ex_net \<Rightarrow> (ch_proc, ex_net Ch) system res" where
  "ex_build n \<equiv> server_build True ex_win ex_ws (\<lambda>_. 4096) (\<lambda>_. 0) (\<lambda>_. True) 8 (log_value [] []) True (replicate 8192 0) undefined 9 (ex_ch_kernel n)"

lemma ex_build_ok: "\<exists>Y. ex_build n = Ok Y"
proof -
  have "\<exists>L. LogFile_new (log_value [] []) True (replicate 8192 0) (str ''log.log'') (str ''./log.ini'') = Ok L \<and>
      (\<forall>k < MAX_NUM_OF_MSG_CODING_TYPES. msgs_of (MsgData L ! k) = written_for k [])"
    by (rule LogFile_reads_names) (simp_all add: log_value_def fun_eq_iff messages_text_def log_file_sizes str_def)
  then obtain L where L: "LogFile_new (log_value [] []) True (replicate 8192 0) (str ''log.log'') (str ''./log.ini'') = Ok L" by blast
  have lg: "length (LogBuffer (LogInterface.truncate L)) = 8192" using LogFile_new_buffer [OF L] by simp
  have "\<exists>Y Y'. SystemThread_init True (\<lambda>_. 4096) (\<lambda>_. 0) (\<lambda>_. True) 8 True (LogInterface.truncate L) undefined 9 (ex_ch_kernel n) = Ok Y \<and>
    call (ChAuto_Start True ex_win ex_ws) Y 9 = Ok Y' \<and> server_rep Y' 50 (start_effect ex_ws (app (ex_ch_kernel n)))"
    by (rule comes_up [OF ex_win_documented ex_memory _ lg]) simp_all
  then show ?thesis using L by (auto simp: server_build_def)
qed

lemma first_test_reached:
  assumes "build = Ok Y"
  shows "\<exists>Q. program_reached build work (program_start K g) Q \<and> thread Q = Testing 0 \<and> main_at Q = Waiting"
proof -
  let ?P1 = "(program_start K g)\<lparr>thread := Initialising, main_at := Waiting\<rparr>"
  let ?P2 = "?P1\<lparr>the_sys := set_working (SystemWorking (sys (the_sys ?P1))) Y, thread := Starting\<rparr>"
  let ?P3 = "?P2\<lparr>the_sys := set_working True (the_sys ?P2), thread := Testing 0\<rparr>"
  have "program_step build work (program_start K g) ?P1" by (rule create) (simp_all add: program_start_def alive_def)
  then have 1: "program_reached build work (program_start K g) ?P1" by (rule goes_on [OF begins])
  have "program_step build work ?P1 ?P2" by (rule built) (simp_all add: alive_def assms)
  then have 2: "program_reached build work (program_start K g) ?P2" by (rule goes_on [OF 1])
  have "program_step build work ?P2 ?P3" by (rule started) (simp_all add: alive_def)
  then have "program_reached build work (program_start K g) ?P3" by (rule goes_on [OF 2])
  then show ?thesis by (intro exI [of _ ?P3]) simp
qed

text \<open>C2: whatever the two threads of the program do to each other, the server follows its
  machine. In every state the program can come to, from its start to its end, the system after
  \<open>k\<close> messages is in the state, with the pending message, the globals and all 50 buffers, that
  the machine of ten transitions has after \<open>k\<close> steps from the server's start: the log file, the
  construction of the kernel, \<^verbatim>\<open>ChAuto::Start\<close>, the monitor loop and the main thread composed.\<close>

theorem program_follows_machine:
  assumes "win32_documented w" "kernel_memory base dummy (memory K) 1 [50] [256]" "\<forall>i < 4. created i"
    and "length rawlog = 8192" "obj \<noteq> NULL" "obj < 2 ^ 32"
    and "program_reached (server_build dbg w ws base bs created dummy P opens rawlog raw obj K) (server_work dbg w ws J clk)
      (program_start K g) Q" "messages_done (thread Q) = Some k"
  shows "\<exists>e. ch_steps ws J k (start_effect ws (app K)) = Ok e \<and> server_rep (the_sys Q) 50 e"
proof -
  have "(thread Q = Starting \<longrightarrow> server_rep (the_sys Q) 50 (start_effect ws (app K))) \<and>
    (\<forall>k. messages_done (thread Q) = Some k \<longrightarrow>
      (\<exists>e. ch_steps ws J k (start_effect ws (app K)) = Ok e \<and> server_rep (the_sys Q) 50 e))"
    using assms(7)
  proof (induction rule: program_reached.induct)
    case begins
    then show ?case by (simp add: program_start_def messages_done_def)
  next
    case (goes_on Q Q')
    from goes_on(2) show ?case
    proof cases
      case (built Y)
      then show ?thesis using server_build_rep [OF assms(1-6)] by (simp add: messages_done_def)
    next
      case (iteration n k Y)
      then obtain e where e: "ch_steps ws J k (start_effect ws (app K)) = Ok e" "server_rep (the_sys Q) 50 e"
        using goes_on(3) by (auto simp: messages_done_def)
      have "simulated (\<lambda>e Y. server_rep Y 50 e) (ch_step ws J e) (server_work dbg w ws J clk k (the_sys Q))"
        unfolding server_work_def by (rule Start_step_server [OF assms(1) e(2)]) simp
      then obtain e' where "ch_step ws J e = Ok e'" "server_rep Y 50 e'"
        using iteration by (cases "ch_step ws J e" rule: res_cases) auto
      moreover have "ch_steps ws J (Suc k) (start_effect ws (app K)) = Ok e'"
        unfolding ch_steps_Suc e(1) using calculation(1) by simp
      moreover have "thread Q' = InRound n (Suc k)" "the_sys Q' = Y" using iteration by simp_all
      ultimately show ?thesis by (auto simp: messages_done_def simp del: split_paired_Ex)
    qed (use goes_on(3) in \<open>auto simp: messages_done_def\<close>)
  qed
  then show ?thesis using assms(8) by blast
qed

theorem program_follows_machine_witness:
  "\<forall>J clk. \<exists>Q e. program_reached (ex_build ([], [])) (server_work True ex_win ex_ws J clk) (program_start (ex_ch_kernel ([], [])) False) Q \<and>
    messages_done (thread Q) = Some 0 \<and>
    ch_steps ex_ws J 0 (start_effect ex_ws (app (ex_ch_kernel ([], [])))) = Ok e \<and> server_rep (the_sys Q) 50 e"
proof (intro allI)
  fix J clk
  obtain Y where "ex_build ([], []) = Ok Y" using ex_build_ok by blast
  then obtain Q where Q: "program_reached (ex_build ([], [])) (server_work True ex_win ex_ws J clk) (program_start (ex_ch_kernel ([], [])) False) Q"
    "messages_done (thread Q) = Some 0"
    using first_test_reached [of "ex_build ([], [])" Y "server_work True ex_win ex_ws J clk" "ex_ch_kernel ([], [])" False]
    by (auto simp: messages_done_def)
  show "\<exists>Q e. program_reached (ex_build ([], [])) (server_work True ex_win ex_ws J clk) (program_start (ex_ch_kernel ([], [])) False) Q \<and>
      messages_done (thread Q) = Some 0 \<and>
      ch_steps ex_ws J 0 (start_effect ex_ws (app (ex_ch_kernel ([], [])))) = Ok e \<and> server_rep (the_sys Q) 50 e"
    using program_follows_machine [OF ex_win_documented ex_memory _ _ _ _ Q] Q by auto
qed

text \<open>C38: the server is never stopped. \<^verbatim>\<open>g_ProgramEnd\<close> is false when the program starts and is
  set nowhere, so the main thread waits for ever: it never stops the system, and the system
  thread never leaves its loop in the way that is meant, by finding that the system no longer works. (A
  failure in the loop is a state without a next one, and not excluded by this.)\<close>

theorem server_never_stopped:
  assumes "program_reached build (server_work dbg w ws J clk) (program_start K False) Q"
  shows "main_at Q \<in> {Creating, Waiting} \<and> thread Q \<noteq> Ended \<and>
    (messages_done (thread Q) \<noteq> None \<longrightarrow> SystemWorking (sys (the_sys Q)))"
proof -
  have "\<not> g_ProgramEnd Q \<and> main_at Q \<in> {Creating, Waiting} \<and> thread Q \<noteq> Ended \<and>
    (messages_done (thread Q) \<noteq> None \<longrightarrow> SystemWorking (sys (the_sys Q)))"
    using assms
  proof (induction rule: program_reached.induct)
    case begins
    then show ?case by (simp add: program_start_def messages_done_def)
  next
    case (goes_on Q Q')
    from goes_on(2) show ?case
    proof cases
      case (iteration n k Y)
      then show ?thesis using goes_on(3) server_work_flags(1) [of dbg w ws J clk k "the_sys Q" Y] by (simp add: messages_done_def)
    qed (use goes_on(3) in \<open>auto simp: messages_done_def\<close>)
  qed
  then show ?thesis by blast
qed

theorem server_never_stopped_witness:
  "\<forall>J clk. \<exists>Q. program_reached (ex_build ([], [])) (server_work True ex_win ex_ws J clk) (program_start (ex_ch_kernel ([], [])) False) Q \<and>
    messages_done (thread Q) = Some 0 \<and> main_at Q = Waiting \<and> SystemWorking (sys (the_sys Q))"
proof (intro allI)
  fix J clk
  obtain Y where "ex_build ([], []) = Ok Y" using ex_build_ok by blast
  then obtain Q where Q: "program_reached (ex_build ([], [])) (server_work True ex_win ex_ws J clk) (program_start (ex_ch_kernel ([], [])) False) Q"
    "messages_done (thread Q) = Some 0" "main_at Q = Waiting"
    using first_test_reached [of "ex_build ([], [])" Y "server_work True ex_win ex_ws J clk" "ex_ch_kernel ([], [])" False]
    by (auto simp: messages_done_def)
  then show "\<exists>Q. program_reached (ex_build ([], [])) (server_work True ex_win ex_ws J clk) (program_start (ex_ch_kernel ([], [])) False) Q \<and>
      messages_done (thread Q) = Some 0 \<and> main_at Q = Waiting \<and> SystemWorking (sys (the_sys Q))"
    using server_never_stopped [OF Q(1)] by auto
qed

section \<open>If the program were told to end\<close>

text \<open>A system that is stopped while it works finishes its round and leaves the loop.\<close>

lemma stopped_server_finishes_round:
  assumes "thread P = InRound n k" "\<not> SystemWorking (sys (the_sys P))" "main_at P \<noteq> Creating"
    and "program_reached build (server_work dbg w ws J clk) P Q"
  shows "thread Q \<in> {Ended, Failed, Testing (k + n)} \<or> (\<exists>m j. thread Q = InRound m j \<and> j + m = k + n)"
proof -
  have "\<not> SystemWorking (sys (the_sys Q)) \<and>
    (thread Q \<in> {Ended, Failed, Testing (k + n)} \<or> (\<exists>m j. thread Q = InRound m j \<and> j + m = k + n)) \<and> main_at Q \<noteq> Creating"
    using assms(4)
  proof (induction rule: program_reached.induct)
    case begins
    then show ?case using assms(1-3) by auto
  next
    case (goes_on Q Q')
    from goes_on(2) show ?case
    proof cases
      case (iteration m j Y)
      then show ?thesis using goes_on(3) server_work_flags(1) [of dbg w ws J clk j "the_sys Q" Y] by auto
    qed (use goes_on(3) in \<open>auto simp: StopSystem_def\<close>)
  qed
  then show ?thesis by blast
qed

text \<open>A stop in front of \<^verbatim>\<open>sys.Start()\<close> is lost: \<^verbatim>\<open>Start\<close> sets the flag again.\<close>

lemma early_stop_is_lost:
  assumes "build = Ok Y"
  shows "\<exists>Q. program_reached build work (program_start K True) Q \<and> main_at Q = Closing \<and>
    thread Q = Testing 0 \<and> SystemWorking (sys (the_sys Q))"
proof -
  let ?P1 = "(program_start K True)\<lparr>thread := Initialising, main_at := Waiting\<rparr>"
  let ?P2 = "?P1\<lparr>main_at := AtGetch\<rparr>"
  let ?P3 = "?P2\<lparr>main_at := Stopping\<rparr>"
  let ?P4 = "?P3\<lparr>the_sys := StopSystem (the_sys ?P3), main_at := Closing\<rparr>"
  let ?P5 = "?P4\<lparr>the_sys := set_working (SystemWorking (sys (the_sys ?P4))) Y, thread := Starting\<rparr>"
  let ?P6 = "?P5\<lparr>the_sys := set_working True (the_sys ?P5), thread := Testing 0\<rparr>"
  have "program_step build work (program_start K True) ?P1" by (rule create) (simp_all add: program_start_def alive_def)
  then have 1: "program_reached build work (program_start K True) ?P1" by (rule goes_on [OF begins])
  have "program_step build work ?P1 ?P2" using test_end [of ?P1] by (simp add: program_start_def alive_def)
  then have 2: "program_reached build work (program_start K True) ?P2" by (rule goes_on [OF 1])
  have "program_step build work ?P2 ?P3" by (rule getch) (simp_all add: alive_def)
  then have 3: "program_reached build work (program_start K True) ?P3" by (rule goes_on [OF 2])
  have "program_step build work ?P3 ?P4" by (rule stop) (simp_all add: alive_def)
  then have 4: "program_reached build work (program_start K True) ?P4" by (rule goes_on [OF 3])
  have "program_step build work ?P4 ?P5" by (rule built) (simp_all add: alive_def assms)
  then have 5: "program_reached build work (program_start K True) ?P5" by (rule goes_on [OF 4])
  have "program_step build work ?P5 ?P6" by (rule started) (simp_all add: alive_def)
  then have "program_reached build work (program_start K True) ?P6" by (rule goes_on [OF 5])
  then show ?thesis by (intro exI [of _ ?P6]) simp
qed

end
