(* ===== verification/Error_Object.thy ===== *)
theory Error_Object
  imports Cfg_File
begin

text \<open>
  Class \<^verbatim>\<open>TErrorObject\<close> of \<^verbatim>\<open>Kernel/errorObject.cpp\<close>: what is thrown, with the error it was raised
  from. Elsewhere in the development a thrown object is represented by its code, the only part
  of it that tells two errors apart.
\<close>

record TErrorObject =
  ErrorCode :: uint32
  LibErrorCode :: uint32
  Line :: uint32
  File :: "uint8 list"
  PrevErrObj :: addr

text \<open>The constructors; \<open>raw\<close> is what the 256 characters for the file name hold before.\<close>

definition TErrorObject_new :: "uint8 list \<Rightarrow> TErrorObject" where
  "TErrorObject_new raw = \<lparr>ErrorCode = 0, LibErrorCode = 0, Line = 0, File = raw, PrevErrObj = NULL\<rparr>"

definition TErrorObject_at :: "uint8 list \<Rightarrow> uint32 \<Rightarrow> uint8 list \<Rightarrow> uint32 \<Rightarrow> uint32 \<Rightarrow> TErrorObject res" where
  "TErrorObject_at raw line file errCode libErrorCode =
     andThen (c_strcpy raw file) (\<lambda>name.
     Ok \<lparr>ErrorCode = errCode, LibErrorCode = libErrorCode, Line = line, File = name, PrevErrObj = NULL\<rparr>)"

definition TErrorObject_from :: "uint8 list \<Rightarrow> uint32 \<Rightarrow> uint8 list \<Rightarrow> uint32 \<Rightarrow> addr \<Rightarrow> uint32 \<Rightarrow> TErrorObject res" where
  "TErrorObject_from raw line file errCode prev libErrorCode =
     andThen (c_strcpy raw file) (\<lambda>name.
     Ok \<lparr>ErrorCode = errCode, LibErrorCode = libErrorCode, Line = line, File = name, PrevErrObj = prev\<rparr>)"

text \<open>
  \<^verbatim>\<open>operator<<\<close> on a stream that prints numbers in base 10; \<open>E\<close> has the objects that exist. The
  width of 2 goes to the next text, which is longer, and is gone when the code is printed.
\<close>

definition error_text :: "TErrorObject \<Rightarrow> uint8 list" where
  "error_text e = [LF] @ str ''Greska u liniji: '' @ decimal (unat (Line e)) @ str '' modula: '' @ cstr (File e) @ [LF] @
     str '' Kod Greske: '' @ hexadecimal (unat (ErrorCode e)) @ [LF] @
     str '' Dodatni kod: '' @ hexadecimal (unat (LibErrorCode e)) @ [LF] @ [LF] @ str ''Nasledjena greska: ''"

partial_function (option) print_error :: "(addr \<Rightarrow> TErrorObject option) \<Rightarrow> addr \<Rightarrow> (fault + uint8 list) option" where
  [code]: "print_error E a =
     andThen (case E a of None \<Rightarrow> Fault MemFault | Some e \<Rightarrow> Ok e) (\<lambda>e.
     if PrevErrObj e \<noteq> NULL then andThen (print_error E (PrevErrObj e)) (\<lambda>t. Ok (error_text e @ t))
     else Ok (error_text e @ str ''nema'' @ [LF]))"

section \<open>Chains of errors\<close>

text \<open>\<open>chained E a es\<close>: the error at \<open>a\<close> and those it was raised from, up to the first.\<close>

fun chained :: "(addr \<Rightarrow> TErrorObject option) \<Rightarrow> addr \<Rightarrow> TErrorObject list \<Rightarrow> bool" where
  "chained E a [] \<longleftrightarrow> False"
| "chained E a [e] \<longleftrightarrow> E a = Some e \<and> PrevErrObj e = NULL"
| "chained E a (e # es) \<longleftrightarrow> E a = Some e \<and> PrevErrObj e \<noteq> NULL \<and> chained E (PrevErrObj e) es"

lemma print_error_chain:
  "chained E a es \<Longrightarrow> print_error E a = Ok (concat (map error_text es) @ str ''nema'' @ [LF])"
proof (induction E a es rule: chained.induct)
  case (2 E a e)
  then show ?case by (subst print_error.simps) simp
next
  case (3 E a e f fs)
  then have "E a = Some e" "PrevErrObj e \<noteq> NULL" "print_error E (PrevErrObj e) = Ok (concat (map error_text (f # fs)) @ str ''nema'' @ [LF])"
    by simp_all
  then show ?case by (subst print_error.simps) simp
qed simp

text \<open>An error raised from another one extends the chain, as long as the other one still exists.\<close>

lemma raised_from_chain:
  assumes "TErrorObject_from raw line file errCode prev libErrorCode = Ok e" "chained E prev es" "prev \<noteq> NULL" "E a = None"
  shows "chained (E(a \<mapsto> e)) a (e # es)"
proof -
  have keep: "chained E p es \<Longrightarrow> chained (E(a \<mapsto> e)) p es" for p
    using assms(4) by (induction E p es rule: chained.induct) auto
  have "PrevErrObj e = prev" using assms(1) by (auto simp: TErrorObject_from_def)
  moreover obtain f fs where "es = f # fs" using assms(2) by (cases es) auto
  ultimately show ?thesis using keep [OF assms(2)] assms(3) by simp
qed

text \<open>An object caught and raised anew dies with its handler; what is printed then is lost.\<close>

lemma raised_from_dead:
  assumes "TErrorObject_from raw line file errCode prev libErrorCode = Ok e" "prev \<noteq> NULL" "E a = Some e" "E prev = None"
  shows "print_error E a = Fault MemFault"
proof -
  have "PrevErrObj e = prev" using assms(1) by (auto simp: TErrorObject_from_def)
  moreover have "print_error E prev = Fault MemFault" using assms(4) by (subst print_error.simps) simp
  ultimately show ?thesis using assms(2,3) by (subst print_error.simps) simp
qed

text \<open>The name of a file is kept when it fits; the longest that does has 255 characters.\<close>

lemma file_name_kept:
  assumes "0 \<notin> set name" "length raw = 256"
  shows "length name < 256 \<Longrightarrow> \<exists>e. TErrorObject_at raw line (name @ [0]) errCode lib = Ok e \<and> cstr (File e) = name"
    and "256 \<le> length name \<Longrightarrow> TErrorObject_at raw line (name @ [0]) errCode lib = Fault MemFault"
proof -
  have n: "c_strlen (name @ [0]) = Ok (length name)" by (rule c_strlen_ok) (use assms in simp)
  show "length name < 256 \<Longrightarrow> \<exists>e. TErrorObject_at raw line (name @ [0]) errCode lib = Ok e \<and> cstr (File e) = name"
    using n assms by (simp add: TErrorObject_at_def c_strcpy_def memcpy_def cstr_append)
  show "256 \<le> length name \<Longrightarrow> TErrorObject_at raw line (name @ [0]) errCode lib = Fault MemFault"
    using n assms by (simp add: TErrorObject_at_def c_strcpy_def memcpy_def)
qed

end
