(* ===== verification/Distribution.thy ===== *)
theory Distribution
  imports Fsm_System Net_Platform
begin

text \<open>
  \<^verbatim>\<open>Kernel/Distribution.cpp\<close>: class \<^verbatim>\<open>Distribution\<close>, a system of automates spread over up to
  ten servers. For every type of automate it keeps a list of ranges of objects with the
  servers that may serve them; its loop processes a message here or sends it to the server
  in charge, framed by its length, and one thread per server puts what arrives into mailbox
  3. The theory models the lists, the configuration, the framing and the routing.
\<close>

definition MAX_SERVER_NUM :: nat where "MAX_SERVER_NUM = 10"
definition MAX_AUTO_TYPES_NUM :: nat where "MAX_AUTO_TYPES_NUM = MAX_NUM_OF_AUTOMATES_TYPES"

record AutoSrv =
  as_next :: addr
  startId :: uint32
  lastId :: uint32
  compId :: "uint8 list"

record AHDR =
  ah_head :: addr
  ah_tail :: addr

record SERVER =
  srv_init :: bool
  srv_sock :: int

type_synonym nodes = "addr \<Rightarrow> AutoSrv option"

text \<open>\<open>threads\<close>: the servers a \<^verbatim>\<open>ReceiveThread\<close> was started for; \<open>accepting\<close>: the accepting thread runs.\<close>

record ('p, 'g, 's) dist =
  base :: "('p, 'g) system"
  server :: "SERVER list"
  connSocket :: int
  serverName :: "uint8 list"
  automates :: "AHDR list"
  anodes :: nodes
  net :: 's
  threads :: "nat list"
  accepting :: bool

definition node_at :: "nodes \<Rightarrow> addr \<Rightarrow> AutoSrv res" where
  "node_at N a = (if a = NULL then Fault MemFault
     else case N a of None \<Rightarrow> Fault MemFault | Some n \<Rightarrow> Ok n)"

definition AutoSrv_new :: "AutoSrv \<Rightarrow> AutoSrv" where
  "AutoSrv_new raw = raw\<lparr>compId := replicate MAX_SERVER_NUM INVALID_08\<rparr>"

section \<open>List elements\<close>

definition AH_PutInListTail :: "AHDR \<Rightarrow> nodes \<Rightarrow> addr \<Rightarrow> (AHDR \<times> nodes) res" where
  "AH_PutInListTail H N newEl =
     andThen (node_at N newEl) (\<lambda>n.
     let N = N(newEl \<mapsto> n\<lparr>as_next := NULL\<rparr>) in
     if ah_head H = NULL then Ok (\<lparr>ah_head = newEl, ah_tail = newEl\<rparr>, N)
     else andThen (node_at N (ah_tail H)) (\<lambda>t.
          Ok (H\<lparr>ah_tail := newEl\<rparr>, N(ah_tail H \<mapsto> t\<lparr>as_next := newEl\<rparr>))))"

definition AH_PutInListHead :: "AHDR \<Rightarrow> nodes \<Rightarrow> addr \<Rightarrow> (AHDR \<times> nodes) res" where
  "AH_PutInListHead H N newEl =
     (if ah_head H = NULL then Ok (\<lparr>ah_head = newEl, ah_tail = newEl\<rparr>, N)
      else andThen (node_at N newEl) (\<lambda>n.
           Ok (H\<lparr>ah_head := newEl\<rparr>, N(newEl \<mapsto> n\<lparr>as_next := ah_head H\<rparr>))))"

definition AH_RemoveFromListHead :: "AHDR \<Rightarrow> nodes \<Rightarrow> (addr \<times> AHDR \<times> nodes) res" where
  "AH_RemoveFromListHead H N =
     (if ah_head H = ah_tail H then Ok (ah_head H, \<lparr>ah_head = NULL, ah_tail = NULL\<rparr>, N)
      else andThen (node_at N (ah_head H)) (\<lambda>n. Ok (ah_head H, H\<lparr>ah_head := as_next n\<rparr>, N)))"

definition InitLists :: "('p, 'g, 's) dist \<Rightarrow> ('p, 'g, 's) dist" where
  "InitLists D = D\<lparr>automates := replicate MAX_AUTO_TYPES_NUM \<lparr>ah_head = NULL, ah_tail = NULL\<rparr>\<rparr>"

definition PutInListTail :: "('p, 'g, 's) dist \<Rightarrow> nat \<Rightarrow> addr \<Rightarrow> ('p, 'g, 's) dist res" where
  "PutInListTail D AType newEl = andThen (rd (automates D) AType) (\<lambda>H.
     andThen (AH_PutInListTail H (anodes D) newEl) (\<lambda>(H, N).
     Ok (D\<lparr>automates := (automates D)[AType := H], anodes := N\<rparr>)))"

definition PutInListHead :: "('p, 'g, 's) dist \<Rightarrow> nat \<Rightarrow> addr \<Rightarrow> ('p, 'g, 's) dist res" where
  "PutInListHead D AType newEl = andThen (rd (automates D) AType) (\<lambda>H.
     andThen (AH_PutInListHead H (anodes D) newEl) (\<lambda>(H, N).
     Ok (D\<lparr>automates := (automates D)[AType := H], anodes := N\<rparr>)))"

definition GetFromListHead :: "('p, 'g, 's) dist \<Rightarrow> uint8 \<Rightarrow> addr res" where
  "GetFromListHead D AutoType = andThen (rd (automates D) (unat AutoType)) (\<lambda>H. Ok (ah_head H))"

definition RemoveFromListHead :: "('p, 'g, 's) dist \<Rightarrow> nat \<Rightarrow> (addr \<times> ('p, 'g, 's) dist) res" where
  "RemoveFromListHead D AType = andThen (rd (automates D) AType) (\<lambda>H.
     andThen (AH_RemoveFromListHead H (anodes D)) (\<lambda>(pom, H, N).
     Ok (pom, D\<lparr>automates := (automates D)[AType := H], anodes := N\<rparr>)))"

text \<open>The destructor: \<^verbatim>\<open>while(as != NULL) { delete as; as = RemoveFromListHead(i); }\<close>.\<close>

partial_function (option) delete_list :: "nat \<Rightarrow> ('p, 'g, 's) dist \<Rightarrow> (fault + ('p, 'g, 's) dist) option" where
  [code]: "delete_list i D = andThen (RemoveFromListHead D i) (\<lambda>(a, D).
     if a = NULL then Ok D else delete_list i (D\<lparr>anodes := (anodes D)(a := None)\<rparr>))"

fun delete_lists :: "nat list \<Rightarrow> ('p, 'g, 's) dist \<Rightarrow> ('p, 'g, 's) dist res" where
  "delete_lists [] D = Ok D"
| "delete_lists (i # is) D = andThen (delete_list i D) (\<lambda>D. delete_lists is D)"

definition Distribution_delete :: "('p, 'g, 's) dist \<Rightarrow> ('p, 'g, 's) dist res" where
  "Distribution_delete D = delete_lists [0 ..< MAX_AUTO_TYPES_NUM] D"

section \<open>The framing of messages\<close>

definition on_base :: "('p, 'g) system res \<Rightarrow> ('p, 'g, 's) dist \<Rightarrow> ('p, 'g, 's) dist res" where
  "on_base r D = andThen r (\<lambda>Y. Ok (D\<lparr>base := Y\<rparr>))"

text \<open>
  \<^verbatim>\<open>ReceiveMsg\<close> from its second \<^verbatim>\<open>recv\<close> on; every \<^verbatim>\<open>recv\<close> stores into \<^verbatim>\<open>buff[100]\<close> and is
  followed by the same test. \<open>msg\<close> is the array of the caller.
\<close>

function ReceiveMsg_loop :: "'s tcp \<Rightarrow> int \<Rightarrow> uint8 list \<Rightarrow> nat \<Rightarrow> nat \<Rightarrow> uint8 list option \<times> 's \<Rightarrow> (nat \<times> uint8 list \<times> 's) res" where
  "ReceiveMsg_loop T sock msg msgLen currLen (r, s) = (case r of
       None \<Rightarrow> Ok (0, msg, s)
     | Some buff \<Rightarrow>
         if 100 < length buff then Fault MemFault
         else if buff = [] then Ok (0, msg, s)
         else if currLen + length buff \<le> msgLen
         then if length msg < currLen + length buff then Fault MemFault
              else let msg = take currLen msg @ buff @ drop (currLen + length buff) msg;
                       currLen = currLen + length buff in
                   if msgLen = currLen then Ok (msgLen, msg, s)
                   else ReceiveMsg_loop T sock msg msgLen currLen (recv T sock (msgLen - currLen) s)
         else Ok (0, msg, s))"
  by pat_completeness auto
termination by (relation "measure (\<lambda>(T, sock, msg, msgLen, currLen, r). msgLen - currLen)")
    (auto simp: neq_Nil_conv)

declare ReceiveMsg_loop.simps [simp del]

text \<open>\<open>raw\<close> is what the uninitialised \<^verbatim>\<open>msgLen\<close> holds.\<close>

definition ReceiveMsg :: "'s tcp \<Rightarrow> uint8 list \<Rightarrow> SERVER \<Rightarrow> uint8 list \<Rightarrow> 's \<Rightarrow> (nat \<times> uint8 list \<times> 's) res" where
  "ReceiveMsg T raw srv msg s = (case recv T (srv_sock srv) 2 s of
       (None, s) \<Rightarrow> Ok (0, msg, s)
     | (Some hdr, s) \<Rightarrow>
         if 2 < length hdr then Fault MemFault
         else if hdr = [] then Ok (0, msg, s)
         else let msgLen = unat (le16 (hdr @ drop (length hdr) raw) 0) in
              ReceiveMsg_loop T (srv_sock srv) msg msgLen 0 (recv T (srv_sock srv) msgLen s))"

definition close_server :: "'s tcp \<Rightarrow> ('p, 'g, 's) dist \<Rightarrow> nat \<Rightarrow> ('p, 'g, 's) dist res" where
  "close_server T D n = andThen (rd (server D) n) (\<lambda>S.
     Ok (D\<lparr>server := (server D)[n := S\<lparr>srv_init := False\<rparr>], net := closesocket T (srv_sock S) (net D)\<rparr>))"

text \<open>One round of \<^verbatim>\<open>Receive\<close>: whether it goes on, and the array \<^verbatim>\<open>msg[512]\<close>.\<close>

definition Receive_step :: "bool \<Rightarrow> win32 \<Rightarrow> 's tcp \<Rightarrow> uint8 list \<Rightarrow> nat \<Rightarrow> uint8 list \<times> ('p, 'g, 's) dist
    \<Rightarrow> (bool \<times> uint8 list \<times> ('p, 'g, 's) dist) res" where
  "Receive_step dbg w T raw n = (\<lambda>(msg, D).
     andThen (rd (server D) n) (\<lambda>S.
     andThen (ReceiveMsg T raw S msg (net D)) (\<lambda>(ret, msg, s).
     let D = D\<lparr>net := s\<rparr>; Y = base D; K = ker Y in
     if ret = 0 then andThen (close_server T D n) (\<lambda>D. Ok (False, msg, D))
     else andThen (if FreeKernelMemory (sys Y) then Ok () else Fault MemFault) (\<lambda>_.
          andThen (GetBuffer dbg (pool K) (memory K) (of_nat ret)) (\<lambda>(sendMsg, p, h).
          andThen (on_bytes h sendMsg (\<lambda>d. if length d < ret \<or> length msg < ret then Fault MemFault
            else Ok (take ret msg @ drop ret d))) (\<lambda>h.
          andThen (PO_Add w (office K) h 3 sendMsg) (\<lambda>(po, h).
          Ok (True, msg, D\<lparr>base := Y\<lparr>ker := K\<lparr>pool := p, office := po, memory := h\<rparr>\<rparr>\<rparr>))))))))"

partial_function (option) Receive :: "bool \<Rightarrow> win32 \<Rightarrow> 's tcp \<Rightarrow> (nat \<Rightarrow> uint8 list) \<Rightarrow> nat \<Rightarrow> nat \<Rightarrow> uint8 list \<times> ('p, 'g, 's) dist
    \<Rightarrow> (fault + ('p, 'g, 's) dist) option" where
  [code]: "Receive dbg w T raw k n st = andThen (Receive_step dbg w T (raw k) n st) (\<lambda>(more, msg, D).
     if more then Receive dbg w T raw (Suc k) n (msg, D) else Ok D)"

text \<open>What \<^verbatim>\<open>SendMsgToServer\<close> puts together in \<^verbatim>\<open>sendingMsg[512]\<close>: the length and the message.\<close>

definition frame :: "uint8 list \<Rightarrow> uint8 list" where
  "frame m = put16 [0, 0] 0 (of_nat (length m)) @ m"

definition SendMsgToServer :: "bool \<Rightarrow> 's tcp \<Rightarrow> ('p, 'g, 's) dist \<Rightarrow> nat \<Rightarrow> addr \<Rightarrow> ('p, 'g, 's) dist res" where
  "SendMsgToServer dbg T D n msg =
     (let h = memory (ker (base D)) in
      andThen (read8 h msg (off MSG_LENGTH)) (\<lambda>info.
      andThen (get_bytes h msg) (\<lambda>bs.
      let len = unat info + MSG_HEADER_LENGTH in
      if length bs < len \<or> 512 < len + 2 then Fault MemFault
      else andThen (rd (server D) n) (\<lambda>S.
           case send T (srv_sock S) (frame (take len bs)) (net D) of (sendLen, s) \<Rightarrow>
           andThen (if sendLen \<le> 0 then close_server T (D\<lparr>net := s\<rparr>) n else Ok (D\<lparr>net := s\<rparr>)) (\<lambda>D.
           on_base (DiscardMsg dbg (base D) msg) D)))))"

section \<open>The routing of messages\<close>

text \<open>The loop of \<^verbatim>\<open>GetActivSrv\<close> over the ten entries of \<^verbatim>\<open>compId\<close>.\<close>

fun first_active :: "SERVER list \<Rightarrow> uint8 list \<Rightarrow> uint8 res" where
  "first_active srv [] = Ok INVALID_08"
| "first_active srv (c # cs) =
     (if c = INVALID_08 then first_active srv cs
      else andThen (rd srv (unat c)) (\<lambda>S. if srv_init S then Ok c else first_active srv cs))"

definition GetActivSrv :: "SERVER list \<Rightarrow> AutoSrv \<Rightarrow> uint8 res" where
  "GetActivSrv srv as = first_active srv (compId as)"

text \<open>
  The loops over a list of ranges: the first node whose active server passes the test, with
  that server, or \<^verbatim>\<open>NULL\<close>.
\<close>

partial_function (option) find_srv :: "(uint8 \<Rightarrow> AutoSrv \<Rightarrow> bool) \<Rightarrow> SERVER list \<Rightarrow> nodes \<Rightarrow> addr \<Rightarrow> (fault + addr \<times> uint8) option" where
  [code]: "find_srv P srv N as =
     (if as = NULL then Ok (NULL, INVALID_08)
      else andThen (node_at N as) (\<lambda>n. andThen (GetActivSrv srv n) (\<lambda>c.
           if P c n then Ok (as, c) else find_srv P srv N (as_next n))))"

definition IsSupported :: "('p, 'g, 's) dist \<Rightarrow> uint8 \<Rightarrow> uint32 \<Rightarrow> bool res" where
  "IsSupported D AType ObjId = andThen (GetFromListHead D AType) (\<lambda>ai.
     let own = serverId (sys (base D)) in
     andThen (if ObjId = INVALID_32 then find_srv (\<lambda>c _. c = own) (server D) (anodes D) ai
       else find_srv (\<lambda>c n. c = own \<and> startId n \<le> ObjId \<and> ObjId \<le> lastId n) (server D) (anodes D) ai)
     (\<lambda>(a, _). Ok (a \<noteq> NULL)))"

definition SendMsgToFirstSrv :: "bool \<Rightarrow> 's tcp \<Rightarrow> ('p, 'g, 's) dist \<Rightarrow> addr \<Rightarrow> ('p, 'g, 's) dist res" where
  "SendMsgToFirstSrv dbg T D msg =
     andThen (read8 (memory (ker (base D))) msg (off MSG_TO_AUTOMATE)) (\<lambda>t.
     andThen (GetFromListHead D t) (\<lambda>as.
     andThen (find_srv (\<lambda>c _. c \<noteq> INVALID_08 \<and> c \<noteq> serverId (sys (base D))) (server D) (anodes D) as) (\<lambda>(a, c).
     if a \<noteq> NULL then SendMsgToServer dbg T D (unat c) msg
     else on_base (DiscardMsg dbg (base D) msg) D)))"

definition SendMsgToNextSrv :: "bool \<Rightarrow> 's tcp \<Rightarrow> ('p, 'g, 's) dist \<Rightarrow> addr \<Rightarrow> ('p, 'g, 's) dist res" where
  "SendMsgToNextSrv dbg T D msg =
     andThen (read8 (memory (ker (base D))) msg (off MSG_TO_AUTOMATE)) (\<lambda>t.
     andThen (GetFromListHead D t) (\<lambda>as.
     andThen (find_srv (\<lambda>c _. c = serverId (sys (base D))) (server D) (anodes D) as) (\<lambda>(a, _).
     andThen (if a = NULL then Ok NULL else andThen (node_at (anodes D) a) (\<lambda>n. Ok (as_next n))) (\<lambda>as.
     andThen (find_srv (\<lambda>c _. c \<noteq> INVALID_08) (server D) (anodes D) as) (\<lambda>(a, c).
     if a \<noteq> NULL then SendMsgToServer dbg T D (unat c) msg
     else SendMsgToFirstSrv dbg T D msg)))))"

definition ProcessMsg :: "bool \<Rightarrow> 's tcp \<Rightarrow> (nat \<Rightarrow> uint32) \<Rightarrow> ('p \<Rightarrow> ('p, 'g) meth)
    \<Rightarrow> ('p, 'g, 's) dist \<Rightarrow> addr \<Rightarrow> ('p, 'g, 's) dist res" where
  "ProcessMsg dbg T clk run D msg =
     (let Y = base D; S = sys Y; h = memory (ker Y) in
      andThen (read8 h msg (off MSG_TO_AUTOMATE)) (\<lambda>automateType.
      andThen (read32 h msg (off MSG_OBJECT_ID_TO)) (\<lambda>objNum.
      andThen (read8 h msg (off MSG_TO_GROUP)) (\<lambda>group.
      if objNum = INVALID_32
      then andThen (rd (FreeAutomates S) (unat automateType)) (\<lambda>L.
           andThen (FL_Get L (objects Y)) (\<lambda>(obj, L, objs).
           let Y = Y\<lparr>objects := objs, sys := S\<lparr>FreeAutomates := (FreeAutomates S)[unat automateType := L]\<rparr>\<rparr> in
           if obj \<noteq> NULL then on_base (call (\<lambda>F K. Process dbg clk run F K msg) Y obj) D
           else if group = INVALID_08 then SendMsgToNextSrv dbg T (D\<lparr>base := Y\<rparr>) msg
           else Ok (D\<lparr>base := Y\<rparr>)))
      else andThen (array_at S automateType) (\<lambda>arr. andThen (rd arr (unat objNum)) (\<lambda>a.
           on_base (call (\<lambda>F K. Process dbg clk run F K msg) Y a) D))))))"

definition Dist_GetMsg :: "bool \<Rightarrow> ('p, 'g) system \<Rightarrow> uint8 \<Rightarrow> (addr \<times> ('p, 'g) system) res" where
  "Dist_GetMsg dbg Y mb =
     (let K = ker Y in
      andThen (if FreeKernelMemory (sys Y) then Ok () else Fault MemFault) (\<lambda>_.
      andThen (PO_Get dbg (office K) (pool K) (memory K) mb) (\<lambda>(msg, po, p, h).
      Ok (msg, Y\<lparr>ker := K\<lparr>office := po, pool := p, memory := h\<rparr>\<rparr>))))"

text \<open>What \<^verbatim>\<open>Start\<close> does with a message, and with mailbox \<open>i\<close>.\<close>

definition Dist_dispatch :: "bool \<Rightarrow> 's tcp \<Rightarrow> (nat \<Rightarrow> uint32) \<Rightarrow> ('p \<Rightarrow> ('p, 'g) meth)
    \<Rightarrow> ('p, 'g, 's) dist \<Rightarrow> addr \<Rightarrow> ('p, 'g, 's) dist res" where
  "Dist_dispatch dbg T clk run D msg =
     (let h = memory (ker (base D)) in
      andThen (read8 h msg (off MSG_TO_AUTOMATE)) (\<lambda>automateType.
      andThen (read32 h msg (off MSG_OBJECT_ID_TO)) (\<lambda>objNum.
      andThen (read8 h msg (off MSG_TO_GROUP)) (\<lambda>group.
      if group = serverId (sys (base D))
      then andThen (IsSupported D automateType objNum) (\<lambda>sup.
           if sup then ProcessMsg dbg T clk run D msg else on_base (DiscardMsg dbg (base D) msg) D)
      else if group = INVALID_08
      then andThen (IsSupported D automateType objNum) (\<lambda>sup.
           if sup then ProcessMsg dbg T clk run D msg else SendMsgToFirstSrv dbg T D msg)
      else SendMsgToServer dbg T D (unat group) msg))))"

definition Dist_step :: "bool \<Rightarrow> 's tcp \<Rightarrow> (nat \<Rightarrow> uint32) \<Rightarrow> ('p \<Rightarrow> ('p, 'g) meth) \<Rightarrow> uint8
    \<Rightarrow> ('p, 'g, 's) dist \<Rightarrow> ('p, 'g, 's) dist res" where
  "Dist_step dbg T clk run i D = andThen (Dist_GetMsg dbg (base D) i) (\<lambda>(msg, Y).
     if msg = NULL then Ok (D\<lparr>base := Y\<rparr>) else Dist_dispatch dbg T clk run (D\<lparr>base := Y\<rparr>) msg)"

fun Dist_for :: "bool \<Rightarrow> 's tcp \<Rightarrow> (nat \<Rightarrow> nat \<Rightarrow> uint32) \<Rightarrow> ('p \<Rightarrow> ('p, 'g) meth) \<Rightarrow> nat list \<Rightarrow> nat
    \<Rightarrow> ('p, 'g, 's) dist \<Rightarrow> ('p, 'g, 's) dist res" where
  "Dist_for dbg T clk run [] k D = Ok D"
| "Dist_for dbg T clk run (i # is) k D =
     andThen (Dist_step dbg T (clk k) run (of_nat i) D) (\<lambda>D. Dist_for dbg T clk run is (Suc k) D)"

partial_function (option) Dist_while :: "bool \<Rightarrow> 's tcp \<Rightarrow> (nat \<Rightarrow> nat \<Rightarrow> uint32) \<Rightarrow> ('p \<Rightarrow> ('p, 'g) meth) \<Rightarrow> nat
    \<Rightarrow> ('p, 'g, 's) dist \<Rightarrow> (fault + ('p, 'g, 's) dist) option" where
  [code]: "Dist_while dbg T clk run k D =
     (let n = unat (NumberOfMbx (sys (base D))) in
      if \<not> SystemWorking (sys (base D)) then Ok D
      else andThen (Dist_for dbg T clk run [0 ..< n] k D) (\<lambda>D'. Dist_while dbg T clk run (k + n) D'))"

definition Dist_Start :: "bool \<Rightarrow> 's tcp \<Rightarrow> (nat \<Rightarrow> nat \<Rightarrow> uint32) \<Rightarrow> ('p \<Rightarrow> ('p, 'g) meth)
    \<Rightarrow> ('p, 'g, 's) dist \<Rightarrow> ('p, 'g, 's) dist res" where
  "Dist_Start dbg T clk run D = Dist_while dbg T clk run 0
     (D\<lparr>base := (base D)\<lparr>sys := (sys (base D))\<lparr>SystemWorking := True\<rparr>\<rparr>\<rparr>)"

section \<open>The lists of ranges are queues\<close>

definition node_links :: "nodes \<Rightarrow> heap" where
  "node_links N a = map_option (\<lambda>n. \<lparr>BUFF_CODE = 0, BUFF_PREV = NULL, BUFF_NEXT = as_next n, bytes = []\<rparr>) (N a)"

definition node_alloc :: "nodes \<Rightarrow> addr \<Rightarrow> bool" where
  "node_alloc N a \<longleftrightarrow> a \<noteq> NULL \<and> N a \<noteq> None"

definition ranges_rep :: "AHDR \<Rightarrow> nodes \<Rightarrow> addr list \<Rightarrow> bool" where
  "ranges_rep H N xs \<longleftrightarrow> queue_rep (node_links N) (ah_head H) (ah_tail H) xs"

text \<open>\<open>rechained S N N'\<close>: at most the fields \<^verbatim>\<open>next\<close> of the nodes of \<open>S\<close> differ.\<close>

definition rechained :: "addr set \<Rightarrow> nodes \<Rightarrow> nodes \<Rightarrow> bool" where
  "rechained S N N' \<longleftrightarrow> (\<forall>a. map_option (as_next_update (\<lambda>_. NULL)) (N' a) = map_option (as_next_update (\<lambda>_. NULL)) (N a) \<and>
     (a \<notin> S \<longrightarrow> N' a = N a))"

lemma rechained_trans:
  "rechained S N1 N2 \<Longrightarrow> rechained T N2 N3 \<Longrightarrow> S \<subseteq> U \<Longrightarrow> T \<subseteq> U \<Longrightarrow> rechained U N1 N3"
  unfolding rechained_def by (metis subsetD)

lemma rechained_upd: "N a = Some n \<Longrightarrow> a \<in> S \<Longrightarrow> rechained S N (N(a \<mapsto> n\<lparr>as_next := v\<rparr>))"
  by (auto simp: rechained_def)

lemma rechained_alloc: "rechained S N N' \<Longrightarrow> node_alloc N' a = node_alloc N a"
  unfolding rechained_def node_alloc_def by (metis option.map_disc_iff)

lemma node_at_ok [simp]: "a \<noteq> NULL \<Longrightarrow> N a = Some n \<Longrightarrow> node_at N a = Ok n"
  by (simp add: node_at_def)

lemma node_links_upd [simp]:
  "node_links (N(a \<mapsto> n)) = (node_links N)(a \<mapsto> \<lparr>BUFF_CODE = 0, BUFF_PREV = NULL, BUFF_NEXT = as_next n, bytes = []\<rparr>)"
  by (rule ext) (simp add: node_links_def)

lemma ranges_put:
  assumes rep: "ranges_rep H N xs" and a: "node_alloc N a" "a \<notin> set xs"
  shows "\<exists>H' N'. AH_PutInListTail H N a = Ok (H', N') \<and> ranges_rep H' N' (xs @ [a]) \<and> rechained (insert a (set xs)) N N'"
proof -
  obtain n where n: "a \<noteq> NULL" "N a = Some n" using a(1) by (auto simp: node_alloc_def)
  let ?N = "N(a \<mapsto> n\<lparr>as_next := NULL\<rparr>)"
  have q: "queue_rep (node_links N) (ah_head H) (ah_tail H) xs" using rep by (simp add: ranges_rep_def)
  have b: "node_links ?N a = Some \<lparr>BUFF_CODE = 0, BUFF_PREV = NULL, BUFF_NEXT = NULL, bytes = []\<rparr>" by simp
  have r1: "rechained (insert a (set xs)) N ?N" by (rule rechained_upd) (use n in auto)
  show ?thesis
  proof (cases "ah_head H = NULL")
    case True
    then have "xs = []" using q queue_rep_head by blast
    then have "ranges_rep \<lparr>ah_head = a, ah_tail = a\<rparr> ?N (xs @ [a])"
      using n queue_rep_put_empty [of "node_links ?N" a, OF b] by (simp add: ranges_rep_def)
    then show ?thesis using True n r1 by (simp add: AH_PutInListTail_def)
  next
    case False
    then have tl: "ah_tail H \<noteq> NULL" using queue_rep_head [OF q] queue_rep_tail [OF q] by simp
    then obtain t where t: "ah_tail H \<in> set xs" "N (ah_tail H) = Some t"
      using q queue_rep_mem queue_rep_tail_mem by (fastforce simp: node_links_def)
    then have na: "ah_tail H \<noteq> a" using a(2) by blast
    let ?N2 = "?N(ah_tail H \<mapsto> t\<lparr>as_next := a\<rparr>)"
    have q1: "queue_rep (node_links ?N) (ah_head H) (ah_tail H) xs"
      using q a(2) by (subst queue_rep_local [of xs _ "node_links N"]) auto
    have l: "node_links ?N (ah_tail H) = Some \<lparr>BUFF_CODE = 0, BUFF_PREV = NULL, BUFF_NEXT = as_next t, bytes = []\<rparr>"
      using t na by (simp add: node_links_def)
    have "queue_rep (node_links ?N2) (ah_head H) a (xs @ [a])"
      unfolding node_links_upd [of ?N "ah_tail H"] by (rule queue_rep_put_tail [OF q1 tl l a(2) n(1) b]) simp_all
    then have "ranges_rep (H\<lparr>ah_tail := a\<rparr>) ?N2 (xs @ [a])" by (simp add: ranges_rep_def)
    moreover have "rechained (insert a (set xs)) ?N ?N2" by (rule rechained_upd [of ?N]) (use t na in auto)
    then have "rechained (insert a (set xs)) N ?N2" by (rule rechained_trans [OF r1]) auto
    ultimately show ?thesis using False n t na tl by (simp add: AH_PutInListTail_def)
  qed
qed

lemma ranges_remove:
  assumes rep: "ranges_rep H N (x # xs)"
  shows "\<exists>H'. AH_RemoveFromListHead H N = Ok (x, H', N) \<and> ranges_rep H' N xs"
proof -
  have q: "queue_rep (node_links N) (ah_head H) (ah_tail H) (x # xs)" using rep by (simp add: ranges_rep_def)
  then have x: "ah_head H = x" "x \<noteq> NULL" "distinct (x # xs)" "ah_tail H = last (x # xs)"
    by (auto simp: queue_rep_def last_or_null_def)
  obtain n where n: "N x = Some n" using queue_rep_mem [OF q, of x] by (auto simp: node_links_def)
  have t: "queue_rep (node_links N) (as_next n) (if as_next n = NULL then NULL else ah_tail H) xs"
    using queue_rep_take [OF q, of "\<lparr>BUFF_CODE = 0, BUFF_PREV = NULL, BUFF_NEXT = as_next n, bytes = []\<rparr>"] n
    by (simp add: node_links_def)
  show ?thesis
  proof (cases "xs = []")
    case True
    then show ?thesis using x by (simp add: AH_RemoveFromListHead_def ranges_rep_def)
  next
    case False
    then have "last xs \<in> set xs" "ah_tail H = last xs" using x(4) by simp_all
    then have ne: "ah_head H \<noteq> ah_tail H" using x(1,3) by (metis distinct.simps(2))
    have "as_next n \<noteq> NULL" using queue_rep_head [OF t] False by blast
    then show ?thesis using ne x(1,2) n t by (simp add: AH_RemoveFromListHead_def ranges_rep_def)
  qed
qed

interpretation ranges: fifo node_alloc rechained "\<lambda>N. N" AH_PutInListTail AH_RemoveFromListHead ranges_rep
proof (unfold_locales, goal_cases)
  case 1 then show ?case by (simp add: rechained_def)
next
  case 2 then show ?case by (rule rechained_trans)
next
  case 3 then show ?case by (rule rechained_alloc)
next
  case 4 then show ?case by (simp add: rechained_def)
next
  case 5 then show ?case by (rule ranges_put)
next
  case (6 H N x xs)
  moreover have "rechained S N N" for S by (simp add: rechained_def)
  ultimately show ?case using ranges_remove [OF 6] by blast
next
  case (7 H N xs N')
  then have "queue_rep (node_links N') p q xs = queue_rep (node_links N) p q xs" for p q
    by (intro queue_rep_local) (simp add: node_links_def)
  then show ?case using 7(1) by (simp add: ranges_rep_def)
next
  case 8 then show ?case by (simp add: ranges_rep_def queue_rep_def)
qed

end
