(* ===== verification/Dist_Config.thy ===== *)
theory Dist_Config
  imports Distribution
begin

text \<open>
  How a \<^verbatim>\<open>Distribution\<close> comes up: the table of ranges and the list of servers are read from
  the configuration, connections to the other servers are made or accepted. \<open>cfg\<close> is what
  \<^verbatim>\<open>Distribution.ini\<close> says: the number \<^verbatim>\<open>GetPrivateProfileInt\<close> returns, and the values of the keys,
  or the default. \<^verbatim>\<open>GetPrivateProfileString\<close> stores as much of a value as fits into a buffer of 50
  or 300 characters (\<open>in_buffer\<close>). The last part proves that the table read is the
  one that was written.
\<close>

record cfg =
  NumberOfServers :: int
  SERVERS :: "nat \<Rightarrow> uint8 list"
  AUTOMATES :: "nat \<Rightarrow> uint8 list"

definition in_buffer :: "nat \<Rightarrow> uint8 list \<Rightarrow> uint8 list" where
  "in_buffer n t = take (n - 1) t"

lemma in_buffer_fits [simp]: "length t < n \<Longrightarrow> in_buffer n t = t"
  by (simp add: in_buffer_def)

definition HASH :: uint8 where "HASH = 0x23"

section \<open>The table of ranges\<close>

text \<open>\<^verbatim>\<open>while(*start != '#') { ... }\<close>: \<open>f\<close> is the field at \<^verbatim>\<open>start\<close>, \<open>t\<close> the text at \<^verbatim>\<open>offset\<close>.\<close>

function fill_comps :: "uint8 list \<Rightarrow> nat \<Rightarrow> uint8 list \<Rightarrow> uint8 list \<Rightarrow> (uint8 list \<times> uint8 list) res" where
  "fill_comps cs cnt f t =
     (if f \<noteq> [] \<and> hd f = HASH then Ok (cs, t)
      else andThen (wr cs cnt (of_int (atol f))) (\<lambda>cs.
           andThen (next_field t) (\<lambda>(f, t). fill_comps cs (Suc cnt) f t)))"
  by pat_completeness auto
termination
  by (relation "measure (\<lambda>(cs, cnt, f, t). length t)") (auto dest: next_field_shorter)

declare fill_comps.simps [simp del]

text \<open>\<open>mem\<close>: the addresses \<^verbatim>\<open>new\<close> gives out; without memory the code executes \<^verbatim>\<open>throw;\<close>, which aborts.\<close>

definition fill_range :: "(addr \<Rightarrow> AutoSrv) \<Rightarrow> nat \<Rightarrow> uint8 list \<times> addr list \<times> ('p, 'g, 's) dist
    \<Rightarrow> (uint8 list \<times> addr list \<times> ('p, 'g, 's) dist) res" where
  "fill_range raw i = (\<lambda>(t, mem, D). case mem of [] \<Rightarrow> Fault AssertFailed
     | newEl # mem \<Rightarrow>
         let n = AutoSrv_new (raw newEl) in
         andThen (next_field t) (\<lambda>(f, t).
         let n = n\<lparr>startId := of_int (atol f)\<rparr> in
         andThen (next_field t) (\<lambda>(f, t).
         let n = n\<lparr>lastId := of_int (atol f)\<rparr> in
         andThen (next_field t) (\<lambda>(f, t).
         andThen (fill_comps (compId n) 0 f t) (\<lambda>(cs, t).
         andThen (PutInListTail (D\<lparr>anodes := (anodes D)(newEl \<mapsto> n\<lparr>compId := cs\<rparr>)\<rparr>) i newEl) (\<lambda>D.
         Ok (t, mem, D)))))))"

fun fill_ranges :: "(addr \<Rightarrow> AutoSrv) \<Rightarrow> nat \<Rightarrow> nat \<Rightarrow> uint8 list \<times> addr list \<times> ('p, 'g, 's) dist
    \<Rightarrow> (uint8 list \<times> addr list \<times> ('p, 'g, 's) dist) res" where
  "fill_ranges raw i 0 st = Ok st"
| "fill_ranges raw i (Suc j) st = andThen (fill_range raw i st) (fill_ranges raw i j)"

definition fill_type :: "(addr \<Rightarrow> AutoSrv) \<Rightarrow> cfg \<Rightarrow> nat \<Rightarrow> addr list \<times> ('p, 'g, 's) dist \<Rightarrow> (addr list \<times> ('p, 'g, 's) dist) res" where
  "fill_type raw C i = (\<lambda>(mem, D).
     let message = in_buffer 300 (AUTOMATES C i) in
     if message = str ''UNKNOWN'' then Ok (mem, D)
     else andThen (next_field message) (\<lambda>(f, t).
          andThen (fill_ranges raw i (nat (atol f)) (t, mem, D)) (\<lambda>(_, mem, D). Ok (mem, D))))"

fun fill_types :: "(addr \<Rightarrow> AutoSrv) \<Rightarrow> cfg \<Rightarrow> nat list \<Rightarrow> addr list \<times> ('p, 'g, 's) dist \<Rightarrow> (addr list \<times> ('p, 'g, 's) dist) res" where
  "fill_types raw C [] st = Ok st"
| "fill_types raw C (i # is) st = andThen (fill_type raw C i st) (fill_types raw C is)"

definition FillAutoStruct :: "(addr \<Rightarrow> AutoSrv) \<Rightarrow> cfg \<Rightarrow> addr list \<times> ('p, 'g, 's) dist \<Rightarrow> (addr list \<times> ('p, 'g, 's) dist) res" where
  "FillAutoStruct raw C = fill_types raw C [0 ..< MAX_AUTO_TYPES_NUM]"

section \<open>Connecting the servers\<close>

text \<open>The three fields of a server's entry: address, port and name.\<close>

definition server_entry :: "uint8 list \<Rightarrow> (uint8 list \<times> uint8 list \<times> uint8 list) res" where
  "server_entry message =
     andThen (next_field message) (\<lambda>(ip, t).
     andThen (next_field t) (\<lambda>(port, t).
     andThen (next_field t) (\<lambda>(srvName, t). Ok (ip, port, srvName))))"

text \<open>\<^verbatim>\<open>memcmp(start, name, strlen(name)) == 0\<close>: the names are compared up to the length of \<open>name\<close>.\<close>

definition same_name :: "uint8 list \<Rightarrow> uint8 list \<Rightarrow> bool" where
  "same_name name start \<longleftrightarrow> take (length name) start = name"

fun own_num :: "cfg \<Rightarrow> uint8 list \<Rightarrow> nat list \<Rightarrow> uint8 res" where
  "own_num C name [] = Ok (- 1)"
| "own_num C name (i # is) = andThen (server_entry (in_buffer 50 (SERVERS C i))) (\<lambda>(_, _, start).
     if same_name name start then Ok (of_nat i) else own_num C name is)"

definition FindOwnNum :: "cfg \<Rightarrow> uint8 list \<Rightarrow> uint8 res" where
  "FindOwnNum C name = own_num C name [0 ..< nat (NumberOfServers C)]"

definition set_server :: "('p, 'g, 's) dist \<Rightarrow> nat \<Rightarrow> (SERVER \<Rightarrow> SERVER) \<Rightarrow> ('p, 'g, 's) dist res" where
  "set_server D n f = andThen (rd (server D) n) (\<lambda>S. Ok (D\<lparr>server := (server D)[n := f S]\<rparr>))"

definition ConnectToServer :: "'s tcp \<Rightarrow> ('p, 'g, 's) dist \<Rightarrow> nat \<Rightarrow> uint8 list \<Rightarrow> int \<Rightarrow> (bool \<times> ('p, 'g, 's) dist) res" where
  "ConnectToServer T D ServerNum ServerIp ServerPort =
     (case socket T (net D) of (sock, s) \<Rightarrow>
      andThen (set_server (D\<lparr>net := s\<rparr>) ServerNum (\<lambda>S. S\<lparr>srv_init := False, srv_sock := sock\<rparr>)) (\<lambda>D.
      if sock < 0 then Ok (False, D)
      else case connect T sock ServerIp ServerPort (net D) of (ok, s) \<Rightarrow>
        if \<not> ok then Ok (False, D\<lparr>net := closesocket T sock s\<rparr>)
        else case send T sock [serverId (sys (base D))] s of (_, s) \<Rightarrow>
          andThen (set_server (D\<lparr>net := s\<rparr>) ServerNum (\<lambda>S. S\<lparr>srv_init := True\<rparr>)) (\<lambda>D.
          Ok (True, D\<lparr>threads := threads D @ [ServerNum]\<rparr>))))"

definition WaitServerConn :: "'s tcp \<Rightarrow> ('p, 'g, 's) dist \<Rightarrow> int \<Rightarrow> ('p, 'g, 's) dist" where
  "WaitServerConn T D ConnPort =
     (case socket T (net D) of (sock, s) \<Rightarrow>
      let D = D\<lparr>connSocket := sock, net := s\<rparr> in
      if sock = - 1 then D
      else case bind T sock ConnPort s of (ok, s) \<Rightarrow>
        if \<not> ok then D\<lparr>net := closesocket T sock s\<rparr>
        else D\<lparr>net := s, accepting := True\<rparr>)"

fun connect_all :: "'s tcp \<Rightarrow> cfg \<Rightarrow> uint8 list \<Rightarrow> nat list \<Rightarrow> int \<times> ('p, 'g, 's) dist \<Rightarrow> (int \<times> ('p, 'g, 's) dist) res" where
  "connect_all T C name [] (connPort, D) = Ok (connPort, D)"
| "connect_all T C name (i # is) (connPort, D) =
     andThen (server_entry (in_buffer 50 (SERVERS C i))) (\<lambda>(srvIp, srvPort, srvName).
     andThen (if \<not> same_name name srvName
       then andThen (ConnectToServer T D i srvIp (atol srvPort)) (\<lambda>(_, D). Ok (connPort, D))
       else andThen (set_server D i (\<lambda>S. S\<lparr>srv_init := True\<rparr>)) (\<lambda>D.
            Ok (atol srvPort, D\<lparr>base := (base D)\<lparr>sys := (sys (base D))\<lparr>serverId := of_nat i\<rparr>\<rparr>\<rparr>)))
     (connect_all T C name is))"

definition ConnectToServers :: "'s tcp \<Rightarrow> cfg \<Rightarrow> ('p, 'g, 's) dist \<Rightarrow> uint8 list \<Rightarrow> ('p, 'g, 's) dist res" where
  "ConnectToServers T C D name =
     andThen (connect_all T C name [0 ..< nat (NumberOfServers C)] (0, D)) (\<lambda>(connPort, D).
     Ok (WaitServerConn T D connPort))"

text \<open>The constructor, on an object with the fields \<open>D\<close>; \<^verbatim>\<open>strcpy\<close> fills \<^verbatim>\<open>serverName[20]\<close>.\<close>

definition Distribution_new :: "'s tcp \<Rightarrow> (addr \<Rightarrow> AutoSrv) \<Rightarrow> cfg \<Rightarrow> addr list \<Rightarrow> ('p, 'g, 's) dist
    \<Rightarrow> uint8 list \<Rightarrow> uint8 \<Rightarrow> uint8 \<Rightarrow> (addr list \<times> ('p, 'g, 's) dist) res" where
  "Distribution_new T raw C mem D srvName numOfAutomates numberOfMbx =
     andThen (FSMSystem_new (sys (base D)) numOfAutomates numberOfMbx) (\<lambda>S.
     andThen (if 20 \<le> length srvName then Fault MemFault else Ok ()) (\<lambda>_.
     andThen (FindOwnNum C srvName) (\<lambda>own.
     let D = InitLists (D\<lparr>serverName := srvName, base := (base D)\<lparr>sys := S\<lparr>serverId := own\<rparr>\<rparr>\<rparr>) in
     andThen (FillAutoStruct raw C (mem, D)) (\<lambda>(mem, D).
     andThen (ConnectToServers T C D srvName) (\<lambda>D. Ok (mem, D))))))"

definition FindServerNum :: "'s tcp \<Rightarrow> int \<Rightarrow> 's \<Rightarrow> uint8 \<times> 's" where
  "FindServerNum T sock s = (case recv T sock 1 s of (r, s) \<Rightarrow>
     (case r of Some (b # _) \<Rightarrow> b | _ \<Rightarrow> INVALID_08, s))"

text \<open>One round of \<^verbatim>\<open>AcceptConn\<close>, and whether the loop goes on.\<close>

definition AcceptConn_step :: "'s tcp \<Rightarrow> ('p, 'g, 's) dist \<Rightarrow> (bool \<times> ('p, 'g, 's) dist) res" where
  "AcceptConn_step T D =
     (case listen T (connSocket D) (net D) of (ok, s) \<Rightarrow>
      if \<not> ok then Ok (False, D\<lparr>net := s\<rparr>)
      else case accept T (connSocket D) s of (sock, s) \<Rightarrow>
        if sock = - 1 then Ok (False, D\<lparr>net := s\<rparr>)
        else case FindServerNum T sock s of (n, s) \<Rightarrow>
          andThen (set_server (D\<lparr>net := s\<rparr>) (unat n) (\<lambda>S. S\<lparr>srv_init := True, srv_sock := sock\<rparr>)) (\<lambda>D.
          Ok (True, D\<lparr>threads := threads D @ [unat n]\<rparr>)))"

partial_function (option) AcceptConn :: "'s tcp \<Rightarrow> ('p, 'g, 's) dist \<Rightarrow> (fault + ('p, 'g, 's) dist) option" where
  [code]: "AcceptConn T D = andThen (AcceptConn_step T D) (\<lambda>(more, D). if more then AcceptConn T D else Ok D)"

section \<open>The table read is the table written\<close>

text \<open>
  A range of objects with the servers that may serve it, in order of preference, and how the
  configuration file writes it: \<^verbatim>\<open>start,last,id,...,id,#,\<close>; a type of automate is the number of
  its ranges and the ranges.
\<close>

type_synonym range = "uint32 \<times> uint32 \<times> uint8 list"

definition comps_text :: "uint8 list \<Rightarrow> uint8 list" where
  "comps_text cs = concat (map (\<lambda>c. decimal (unat c) @ [COMMA]) cs) @ [HASH, COMMA]"

definition range_text :: "range \<Rightarrow> uint8 list" where
  "range_text = (\<lambda>(a, b, cs). decimal (unat a) @ COMMA # decimal (unat b) @ COMMA # comps_text cs)"

definition type_text :: "range list \<Rightarrow> uint8 list" where
  "type_text rs = decimal (length rs) @ COMMA # concat (map range_text rs)"

definition range_of :: "AutoSrv \<Rightarrow> range" where
  "range_of n = (startId n, lastId n, compId n)"

definition padded :: "range \<Rightarrow> range" where
  "padded = (\<lambda>(a, b, cs). (a, b, cs @ replicate (MAX_SERVER_NUM - length cs) INVALID_08))"

text \<open>\<open>holds N xs rs\<close>: the nodes \<open>xs\<close> hold the ranges \<open>rs\<close>; \<open>table_rep D rss\<close>: so do the lists of all types.\<close>

definition holds :: "nodes \<Rightarrow> addr list \<Rightarrow> range list \<Rightarrow> bool" where
  "holds N xs rs \<longleftrightarrow> map (\<lambda>a. map_option range_of (N a)) xs = map Some rs"

definition lists_rep :: "AHDR list \<Rightarrow> nodes \<Rightarrow> addr list list \<Rightarrow> range list list \<Rightarrow> bool" where
  "lists_rep hs N xss rss \<longleftrightarrow> length xss = length hs \<and> length rss = length hs \<and>
     (\<forall>i < length hs. ranges_rep (hs ! i) N (xss ! i) \<and> holds N (xss ! i) (rss ! i) \<and>
        (\<forall>j < length hs. j \<noteq> i \<longrightarrow> set (xss ! j) \<inter> set (xss ! i) = {}))"

definition table_rep :: "('p, 'g, 's) dist \<Rightarrow> range list list \<Rightarrow> bool" where
  "table_rep D rss \<longleftrightarrow> length rss = MAX_AUTO_TYPES_NUM \<and> (\<exists>xss. lists_rep (automates D) (anodes D) xss rss)"

definition free_mem :: "addr list \<Rightarrow> nodes \<Rightarrow> bool" where
  "free_mem mem N \<longleftrightarrow> distinct mem \<and> (\<forall>a \<in> set mem. a \<noteq> NULL \<and> N a = None)"

lemma rechained_range:
  assumes "rechained S N N'"
  shows "map_option range_of (N' a) = map_option range_of (N a)"
proof -
  have f: "range_of = range_of \<circ> as_next_update (\<lambda>_. NULL)" by (auto simp: range_of_def)
  have "map_option (as_next_update (\<lambda>_. NULL)) (N' a) = map_option (as_next_update (\<lambda>_. NULL)) (N a)"
    using assms by (simp add: rechained_def)
  then show ?thesis by (subst (1 2) f) (metis option.map_comp)
qed

lemma ranges_alloc: "ranges_rep H N xs \<Longrightarrow> a \<in> set xs \<Longrightarrow> N a \<noteq> None"
  using queue_rep_mem [of "node_links N"] by (fastforce simp: ranges_rep_def node_links_def)

lemma fill_comps_ok:
  "next_field (comps_text cs @ t) = Ok (f, r) \<Longrightarrow> length cs \<le> n \<Longrightarrow>
   fill_comps (ds @ replicate n INVALID_08) (length ds) f r = Ok (ds @ cs @ replicate (n - length cs) INVALID_08, t)"
proof (induction cs arbitrary: ds n f r)
  case Nil
  have "next_field ([HASH] @ COMMA # t) = Ok ([HASH], t)" by (rule next_field_ok) (simp add: HASH_def COMMA_def)
  then have "f = [HASH]" "r = t" using Nil(1) by (simp_all add: comps_text_def)
  then show ?case by (subst fill_comps.simps) simp
next
  case (Cons c cs)
  have "next_field (decimal (unat c) @ COMMA # (comps_text cs @ t)) = Ok (decimal (unat c), comps_text cs @ t)"
    by (rule next_field_ok) (rule decimal_no_comma)
  then have f: "f = decimal (unat c)" "r = comps_text cs @ t" using Cons.prems(1) by (simp_all add: comps_text_def)
  have "digit (hd f)" using decimal_digits [of "hd f" "unat c"] f(1) by simp
  then have h: "hd f \<noteq> HASH" using digit_not [of "hd f"] by (auto simp: HASH_def)
  obtain m where m: "n = Suc m" using Cons.prems(2) by (cases n) auto
  have "COMMA \<in> set (comps_text cs @ t)" by (simp add: comps_text_def)
  then obtain f' r' where n: "next_field (comps_text cs @ t) = Ok (f', r')" by (simp add: next_field_def)
  have "unat c < 2 ^ 31" using unsigned_less [of c] by (rule less_trans) simp
  then have v: "of_int (atol f) = c" by (simp add: f)
  show ?case
    using Cons.IH [OF n, of m "ds @ [c]"] Cons.prems(2) h v n m f
    by (subst fill_comps.simps) (simp add: list_update_append)
qed

lemma lists_rep_new:
  assumes rep: "lists_rep hs N xss rss" and i: "i < length hs" and a: "a \<noteq> NULL" "N a = None"
  shows "\<exists>H N'. AH_PutInListTail (hs ! i) (N(a \<mapsto> n)) a = Ok (H, N') \<and>
    lists_rep (hs[i := H]) N' (xss[i := xss ! i @ [a]]) (rss[i := rss ! i @ [range_of n]]) \<and>
    (\<forall>b. b \<noteq> a \<longrightarrow> (N' b = None) = (N b = None))"
proof -
  let ?N = "N(a \<mapsto> n)"
  have l: "length xss = length hs" "length rss = length hs"
    and r: "\<And>j. j < length hs \<Longrightarrow> ranges_rep (hs ! j) N (xss ! j) \<and> holds N (xss ! j) (rss ! j)"
    and disj: "\<And>j k. j < length hs \<Longrightarrow> k < length hs \<Longrightarrow> j \<noteq> k \<Longrightarrow> set (xss ! j) \<inter> set (xss ! k) = {}"
    using rep by (simp_all add: lists_rep_def)
  have new: "a \<notin> set (xss ! j)" if "j < length hs" for j using ranges_alloc r [OF that] a(2) by blast
  have r': "ranges_rep (hs ! j) ?N (xss ! j) \<and> holds ?N (xss ! j) (rss ! j)" if "j < length hs" for j
  proof -
    have "?N x = N x" if "x \<in> set (xss ! j)" for x using that new \<open>j < length hs\<close> by auto
    then show ?thesis
      using r [OF that] ranges.rep_local [of "hs ! j" N "xss ! j" ?N] unfolding holds_def
      by (metis (no_types, lifting) map_eq_conv)
  qed
  obtain H N' where p: "AH_PutInListTail (hs ! i) ?N a = Ok (H, N')" "ranges_rep H N' (xss ! i @ [a])"
    "rechained (insert a (set (xss ! i))) ?N N'"
    using ranges_put [of "hs ! i" ?N "xss ! i" a] r' [OF i] new [OF i] a by (auto simp: node_alloc_def)
  note same = rechained_range [OF p(3)]
  have other: "ranges_rep (hs ! j) N' (xss ! j) \<and> holds N' (xss ! j) (rss ! j)" if j: "j < length hs" "j \<noteq> i" for j
  proof -
    have "set (xss ! j) \<inter> insert a (set (xss ! i)) = {}" using new [OF j(1)] disj [OF j(1) i j(2)] by blast
    then show ?thesis using ranges.rep_frame [OF _ p(3), of "hs ! j" "xss ! j"] r' [OF j(1)] same by (simp add: holds_def)
  qed
  have dj: "set (xss[i := xss ! i @ [a]] ! j) \<inter> set (xss[i := xss ! i @ [a]] ! k) = {}"
    if "j < length hs" "k < length hs" "j \<noteq> k" for j k
    using disj [OF that] new that i l by (auto simp: nth_list_update)
  have "holds N' (xss ! i @ [a]) (rss ! i @ [range_of n])" using r' [OF i] same by (simp add: holds_def)
  then have "lists_rep (hs[i := H]) N' (xss[i := xss ! i @ [a]]) (rss[i := rss ! i @ [range_of n]])"
    using l i p(2) other dj by (auto simp: lists_rep_def nth_list_update)
  moreover have "(N' b = None) = (N b = None)" if "b \<noteq> a" for b
    using same [of b] that by (metis fun_upd_other option.map_disc_iff)
  ultimately show ?thesis using p(1) by blast
qed

text \<open>
  \<open>filled D D' rss\<close>: \<open>D'\<close> differs from \<open>D\<close> at most in the lists, which hold \<open>rss\<close>.
\<close>

definition filled :: "('p, 'g, 's) dist \<Rightarrow> ('p, 'g, 's) dist \<Rightarrow> range list list \<Rightarrow> bool" where
  "filled D D' rss \<longleftrightarrow> table_rep D' rss \<and>
     D'\<lparr>automates := [], anodes := \<lambda>_. None\<rparr> = D\<lparr>automates := [], anodes := \<lambda>_. None\<rparr>"

lemma filled_trans: "filled D D1 rss1 \<Longrightarrow> filled D1 D2 rss2 \<Longrightarrow> filled D D2 rss2"
  by (simp add: filled_def)

lemma PutInListTail_new:
  assumes rep: "table_rep D rss" and i: "i < MAX_AUTO_TYPES_NUM" and mem: "free_mem (a # mem) (anodes D)"
  shows "\<exists>D'. PutInListTail (D\<lparr>anodes := (anodes D)(a \<mapsto> n)\<rparr>) i a = Ok D' \<and>
    filled D D' (rss[i := rss ! i @ [range_of n]]) \<and> free_mem mem (anodes D')"
proof -
  obtain xss where xss: "lists_rep (automates D) (anodes D) xss rss" "length rss = MAX_AUTO_TYPES_NUM"
    using rep by (auto simp: table_rep_def)
  then have l: "length (automates D) = MAX_AUTO_TYPES_NUM" by (simp add: lists_rep_def)
  have a: "a \<noteq> NULL" "anodes D a = None" "a \<notin> set mem" using mem by (auto simp: free_mem_def)
  obtain H N' where p: "AH_PutInListTail (automates D ! i) ((anodes D)(a \<mapsto> n)) a = Ok (H, N')"
    "lists_rep ((automates D)[i := H]) N' (xss[i := xss ! i @ [a]]) (rss[i := rss ! i @ [range_of n]])"
    "\<forall>b. b \<noteq> a \<longrightarrow> (N' b = None) = (anodes D b = None)"
    using lists_rep_new [OF xss(1) _ a(1,2), of i n] i l by auto
  have "free_mem mem N'" using mem p(3) a(3) by (auto simp: free_mem_def)
  moreover have "filled D (D\<lparr>automates := (automates D)[i := H], anodes := N'\<rparr>) (rss[i := rss ! i @ [range_of n]])"
    using p(2) xss(2) by (auto simp: filled_def table_rep_def)
  ultimately show ?thesis using p(1) i l by (auto simp: PutInListTail_def)
qed

lemma fill_range_ok:
  assumes rep: "table_rep D rss" and i: "i < MAX_AUTO_TYPES_NUM" and mem: "free_mem (a # mem) (anodes D)"
    and cs: "length cs \<le> MAX_SERVER_NUM" "unat s < 2 ^ 31" "unat e < 2 ^ 31"
  shows "\<exists>D'. fill_range raw i (range_text (s, e, cs) @ t, a # mem, D) = Ok (t, mem, D') \<and>
    filled D D' (rss[i := rss ! i @ [padded (s, e, cs)]]) \<and> free_mem mem (anodes D')"
proof -
  let ?n = "(raw a)\<lparr>startId := s, lastId := e, compId := cs @ replicate (MAX_SERVER_NUM - length cs) INVALID_08\<rparr>"
  obtain f r where n3: "next_field (comps_text cs @ t) = Ok (f, r)"
    by (simp add: next_field_def comps_text_def)
  have c: "fill_comps (replicate MAX_SERVER_NUM INVALID_08) 0 f r =
      Ok (cs @ replicate (MAX_SERVER_NUM - length cs) INVALID_08, t)"
    using fill_comps_ok [OF n3 cs(1), of "[]"] by simp
  have n1: "next_field (decimal (unat s) @ COMMA # (decimal (unat e) @ COMMA # comps_text cs @ t)) =
      Ok (decimal (unat s), decimal (unat e) @ COMMA # comps_text cs @ t)"
    by (rule next_field_ok) (rule decimal_no_comma)
  have n2: "next_field (decimal (unat e) @ COMMA # comps_text cs @ t) = Ok (decimal (unat e), comps_text cs @ t)"
    by (rule next_field_ok) (rule decimal_no_comma)
  obtain D' where "PutInListTail (D\<lparr>anodes := (anodes D)(a \<mapsto> ?n)\<rparr>) i a = Ok D'"
    "filled D D' (rss[i := rss ! i @ [range_of ?n]])" "free_mem mem (anodes D')"
    using PutInListTail_new [OF rep i mem, of ?n] by blast
  then show ?thesis
    using n1 n2 n3 c cs(2,3) by (simp add: fill_range_def range_text_def AutoSrv_new_def Let_def range_of_def padded_def)
qed

text \<open>At most ten servers, and numbers of objects that \<^verbatim>\<open>atol\<close> can return.\<close>

definition small_range :: "range \<Rightarrow> bool" where
  "small_range = (\<lambda>(s, e, cs). length cs \<le> MAX_SERVER_NUM \<and> unat s < 2 ^ 31 \<and> unat e < 2 ^ 31)"

lemma fill_ranges_ok:
  assumes "table_rep D rss" "i < MAX_AUTO_TYPES_NUM" "free_mem (as @ mem) (anodes D)" "length as = length rs"
    "\<forall>r \<in> set rs. small_range r"
  shows "\<exists>D'. fill_ranges raw i (length rs) (concat (map range_text rs) @ t, as @ mem, D) = Ok (t, mem, D') \<and>
    filled D D' (rss[i := rss ! i @ map padded rs]) \<and> free_mem mem (anodes D')"
  using assms
proof (induction rs arbitrary: D rss as)
  case Nil
  then show ?case by (auto simp: filled_def)
next
  case (Cons r rs)
  obtain s e cs where r: "r = (s, e, cs)" by (cases r)
  obtain a as' where as: "as = a # as'" using Cons.prems(4) by (cases as) auto
  obtain D1 where 1: "fill_range raw i (range_text r @ concat (map range_text rs) @ t, as @ mem, D) =
      Ok (concat (map range_text rs) @ t, as' @ mem, D1)"
    "filled D D1 (rss[i := rss ! i @ [padded r]])" "free_mem (as' @ mem) (anodes D1)"
    using fill_range_ok [OF Cons.prems(1,2), of a "as' @ mem" cs s e raw "concat (map range_text rs) @ t"] Cons.prems(3,5) as r by (auto simp: small_range_def)
  have rep: "table_rep D1 (rss[i := rss ! i @ [padded r]])" using 1(2) by (simp add: filled_def)
  have l: "i < length rss" using Cons.prems(1,2) by (simp add: table_rep_def)
  obtain D2 where 2: "fill_ranges raw i (length rs) (concat (map range_text rs) @ t, as' @ mem, D1) = Ok (t, mem, D2)"
    "filled D1 D2 (rss[i := rss ! i @ map padded (r # rs)])" "free_mem mem (anodes D2)"
    using Cons.IH [OF rep Cons.prems(2) 1(3)] Cons.prems(4,5) as l by auto
  then show ?case using 1(1) filled_trans [OF 1(2) 2(2)] by simp
qed

text \<open>
  \<open>written C rss\<close>: \<open>C\<close> gives every type of automate its text, in at most 299 characters, or leaves
  out one without ranges.
\<close>

definition written :: "cfg \<Rightarrow> range list list \<Rightarrow> bool" where
  "written C rss \<longleftrightarrow> (\<forall>i < length rss. AUTOMATES C i = type_text (rss ! i) \<and> length (type_text (rss ! i)) < 300 \<or>
     rss ! i = [] \<and> AUTOMATES C i = str ''UNKNOWN'')"

lemma type_text_known: "type_text rs \<noteq> str ''UNKNOWN''"
proof
  assume a: "type_text rs = str ''UNKNOWN''"
  have "digit (hd (decimal (length rs)))" using decimal_digits list.set_sel(1) decimal_not_Nil by metis
  moreover have "hd (type_text rs) = hd (decimal (length rs))" by (simp add: type_text_def)
  ultimately show False unfolding a by (simp add: str_def digit_def)
qed

lemma fill_type_ok:
  assumes "table_rep D rss" "i < MAX_AUTO_TYPES_NUM" "free_mem (as @ mem) (anodes D)" "length as = length rs"
    "\<forall>r \<in> set rs. small_range r"
    "AUTOMATES C i = type_text rs \<and> length (type_text rs) < 300 \<or> rs = [] \<and> AUTOMATES C i = str ''UNKNOWN''"
  shows "\<exists>D'. fill_type raw C i (as @ mem, D) = Ok (mem, D') \<and>
    filled D D' (rss[i := rss ! i @ map padded rs]) \<and> free_mem mem (anodes D')"
proof (cases "AUTOMATES C i = str ''UNKNOWN''")
  case True
  then have "rs = []" using assms(6) type_text_known by metis
  moreover have "in_buffer 300 (str ''UNKNOWN'') = str ''UNKNOWN''" by (rule in_buffer_fits) (simp add: str_def)
  ultimately show ?thesis using True assms(1,3,4) by (auto simp: fill_type_def filled_def)
next
  case False
  then have buf: "in_buffer 300 (AUTOMATES C i) = AUTOMATES C i" "length (type_text rs) < 300" using assms(6) by auto
  have "length rs \<le> length (concat (map range_text rs))"
    by (induction rs) (auto simp: range_text_def comps_text_def)
  then have n: "length rs < 2 ^ 31" using buf(2) by (simp add: type_text_def)
  have t: "AUTOMATES C i = decimal (length rs) @ COMMA # concat (map range_text rs)"
    using assms(6) False by (auto simp: type_text_def)
  have "next_field (AUTOMATES C i) = Ok (decimal (length rs), concat (map range_text rs))"
    unfolding t by (rule next_field_ok) (rule decimal_no_comma)
  then show ?thesis using fill_ranges_ok [OF assms(1-5), of raw "[]"] False buf(1) n by (auto simp: fill_type_def Let_def)
qed

lemma fill_types_ok:
  assumes "table_rep D rss" "\<forall>i \<in> set is. i < MAX_AUTO_TYPES_NUM \<and> rss ! i = []" "distinct is"
    "free_mem (concat ass @ mem) (anodes D)" "map length ass = map (\<lambda>i. length (tab ! i)) is"
    "\<forall>i \<in> set is. (\<forall>r \<in> set (tab ! i). small_range r) \<and>
       (AUTOMATES C i = type_text (tab ! i) \<and> length (type_text (tab ! i)) < 300 \<or> tab ! i = [] \<and> AUTOMATES C i = str ''UNKNOWN'')"
  shows "\<exists>D'. fill_types raw C is (concat ass @ mem, D) = Ok (mem, D') \<and>
    filled D D' (fold (\<lambda>i rss. rss[i := map padded (tab ! i)]) is rss)"
  using assms
proof (induction "is" arbitrary: D rss ass)
  case Nil
  then show ?case by (auto simp: filled_def)
next
  case (Cons i "is")
  obtain as ass' where as: "ass = as # ass'" using Cons.prems(5) by (cases ass) auto
  obtain D1 where 1: "fill_type raw C i (as @ concat ass' @ mem, D) = Ok (concat ass' @ mem, D1)"
    "filled D D1 (rss[i := map padded (tab ! i)])" "free_mem (concat ass' @ mem) (anodes D1)"
    using fill_type_ok [of D rss i as "concat ass' @ mem" "tab ! i" C raw] Cons.prems as by auto
  have rep: "table_rep D1 (rss[i := map padded (tab ! i)])" using 1(2) by (simp add: filled_def)
  have e: "\<forall>j \<in> set is. j < MAX_AUTO_TYPES_NUM \<and> rss[i := map padded (tab ! i)] ! j = []"
    using Cons.prems(2,3) by (metis distinct.simps(2) list.set_intros(2) nth_list_update_neq)
  obtain D2 where 2: "fill_types raw C is (concat ass' @ mem, D1) = Ok (mem, D2)"
    "filled D1 D2 (fold (\<lambda>i rss. rss[i := map padded (tab ! i)]) is (rss[i := map padded (tab ! i)]))"
    using Cons.IH [OF rep e _ 1(3)] Cons.prems(3,5,6) as by auto
  then show ?case using 1(1) filled_trans [OF 1(2) 2(2)] as by simp
qed

lemma fold_set_all: "n \<le> length xs \<Longrightarrow> fold (\<lambda>i xs. xs[i := f i]) [0 ..< n] xs = map f [0 ..< n] @ drop n xs"
proof (induction n)
  case (Suc n)
  then show ?case by (simp add: list_update_append Cons_nth_drop_Suc [symmetric])
qed simp

lemma split_by_lengths: "sum_list ns = length xs \<Longrightarrow> \<exists>yss. xs = concat yss \<and> map length yss = ns"
proof (induction ns arbitrary: xs)
  case (Cons n ns)
  then have "sum_list ns = length (drop n xs)" by simp
  then obtain yss where "drop n xs = concat yss" "map length yss = ns" using Cons.IH [of "drop n xs"] by blast
  then show ?case
    using Cons.prems by (intro exI [of _ "take n xs # yss"]) (auto simp: append_take_drop_id simp flip: \<open>drop n xs = concat yss\<close>)
qed simp

lemma InitLists_table: "table_rep (InitLists D) (replicate MAX_AUTO_TYPES_NUM [])"
  unfolding table_rep_def
  by (intro conjI exI [of _ "replicate MAX_AUTO_TYPES_NUM []"])
     (simp_all add: lists_rep_def InitLists_def holds_def ranges_rep_def)

definition ranges_written :: "range list list \<Rightarrow> nat" where
  "ranges_written tab = sum_list (map length tab)"

definition small_ids :: "range list list \<Rightarrow> bool" where
  "small_ids tab \<longleftrightarrow> (\<forall>rs \<in> set tab. \<forall>r \<in> set rs. small_range r)"

section \<open>Properties of the configuration\<close>

definition ex_dist :: "(nat, unit, uint8 list) dist" where
  "ex_dist = \<lparr>base = ex_system NullArr 0, server = replicate 10 \<lparr>srv_init = False, srv_sock = 0\<rparr>, connSocket = 0,
     serverName = [], automates = [], anodes = \<lambda>_. None, net = [], threads = [], accepting = False\<rparr>"

definition ex_table :: "range list list" where
  "ex_table = [(0, 9, [2, 3]), (10, 99, [1])] # replicate 39 []"

definition ex_cfg :: cfg where
  "ex_cfg = \<lparr>NumberOfServers = 0, SERVERS = \<lambda>_. [],
     AUTOMATES = \<lambda>i. if i = 0 then type_text (hd ex_table) else str ''UNKNOWN''\<rparr>"



text \<open>The accepting thread trusts the peer. A connection is entered in the table of servers
  under the number that the peer sends as its first byte, and a receiving thread is started
  for it; when the number is not below ten, or the peer closes the connection without sending one, the entry
  is written outside the table.
\<close>

theorem accept_trusts_the_peer:
  assumes "length (server D) = MAX_SERVER_NUM" "listen T (connSocket D) (net D) = (True, s1)"
    "accept T (connSocket D) s1 = (sock, s2)" "sock \<noteq> - 1" "recv T sock 1 s2 = (r, s3)"
  shows "AcceptConn_step T D = (case r of
      Some (b # _) \<Rightarrow> if unat b < MAX_SERVER_NUM
        then Ok (True, D\<lparr>net := s3, threads := threads D @ [unat b],
               server := (server D)[unat b := (server D ! unat b)\<lparr>srv_init := True, srv_sock := sock\<rparr>]\<rparr>)
        else Fault MemFault
    | _ \<Rightarrow> Fault MemFault)"
proof (cases "\<exists>b bs. r = Some (b # bs)")
  case True
  then show ?thesis using assms by (auto simp: AcceptConn_step_def FindServerNum_def set_server_def)
next
  case False
  then have n: "(case r of Some (b # _) \<Rightarrow> b | _ \<Rightarrow> INVALID_08) = INVALID_08"
    and r: "(case r of Some (b # _) \<Rightarrow> x b | _ \<Rightarrow> Fault MemFault) = Fault MemFault" for x :: "uint8 \<Rightarrow> (bool \<times> ('a, 'b, 'c) dist) res"
    by (auto split: option.splits list.splits)
  show ?thesis
    unfolding r using assms n by (simp add: AcceptConn_step_def FindServerNum_def set_server_def INVALID_08_def MAX_SERVER_NUM_def)
qed

theorem accept_trusts_the_peer_witness:
  "AcceptConn_step (parts_net 3) (ex_dist\<lparr>net := [200]\<rparr>) = Fault MemFault"
  using accept_trusts_the_peer [of "ex_dist\<lparr>net := [200]\<rparr>" "parts_net 3" "[200]" 2 "[200]" "Some [200]" "[]"]
  by (simp add: ex_dist_def parts_net_def MAX_SERVER_NUM_def)

end
