(* ===== verification/Dist_Routing.thy ===== *)
theory Dist_Routing
  imports Dist_Config
begin

text \<open>
  What a \<^verbatim>\<open>Distribution\<close> does with a message: the framing survives any segmentation of the
  stream that fits its buffer, and the pointer loops over the lists of ranges decide as a
  function of the table (\<open>route\<close>) does.
\<close>

section \<open>Framing\<close>

text \<open>The two bytes of the length arrive together.\<close>

definition whole_header :: "'s tcp \<Rightarrow> int \<Rightarrow> ('s \<Rightarrow> uint8 list) \<Rightarrow> bool" where
  "whole_header T sock pending \<longleftrightarrow> (\<forall>s. 2 \<le> length (pending s) \<longrightarrow>
     (\<exists>s'. recv T sock 2 s = (Some (take 2 (pending s)), s') \<and> pending s' = drop 2 (pending s)))"

lemma parts_net_header: "2 \<le> m \<Longrightarrow> whole_header (parts_net m) sock (\<lambda>s. s)"
  by (simp add: whole_header_def parts_net_def)

lemma ReceiveMsg_loop_ok:
  assumes d: "delivers_parts T sock pending limit" and lim: "limit \<le> 100"
  shows "pending s = body @ rest \<Longrightarrow> body \<noteq> [] \<Longrightarrow> L = cur + length body \<Longrightarrow> L \<le> length msg \<Longrightarrow>
    \<exists>s'. ReceiveMsg_loop T sock msg L cur (recv T sock (length body) s) =
      Ok (L, take cur msg @ body @ drop L msg, s') \<and> pending s' = rest"
proof (induction "length body" arbitrary: body cur msg s rule: less_induct)
  case less
  obtain k s1 where k: "0 < k" "k \<le> length body" "k \<le> limit"
    "recv T sock (length body) s = (Some (take k (pending s)), s1)" "pending s1 = drop k (pending s)"
    using delivers_partsE [OF d, of "length body" s] less.prems(1,2) by auto
  have tk: "take k (pending s) = take k body" "pending s1 = drop k body @ rest" using k less.prems(1) by simp_all
  let ?buff = "take k body" and ?msg = "take cur msg @ take k body @ drop (cur + k) msg"
  have b: "length ?buff = k" "?buff \<noteq> []" "\<not> 100 < length ?buff" "cur + k \<le> L" "cur + k \<le> length msg"
    using k lim less.prems by auto
  show ?case
  proof (cases "k = length body")
    case True
    then have "cur + k = L" "take k body = body" using less.prems(3) by simp_all
    then show ?thesis using k tk b less.prems(4) by (subst k(4), subst ReceiveMsg_loop.simps) (simp add: Let_def True)
  next
    case False
    have t: "take (cur + k) ?msg = take cur msg @ ?buff" "drop L ?msg = drop L msg"
      using b less.prems by (simp_all add: add.commute)
    have "\<exists>s'. ReceiveMsg_loop T sock ?msg L (cur + k) (recv T sock (length (drop k body)) s1) =
        Ok (L, take (cur + k) ?msg @ drop k body @ drop L ?msg, s') \<and> pending s' = rest"
      by (rule less.hyps) (use False k tk b less.prems in auto)
    moreover have "take k body @ drop k body @ xs = body @ xs" for xs by (metis append_assoc append_take_drop_id)
    moreover have "length (drop k body) = L - (cur + k)" using less.prems(3) by simp
    ultimately show ?thesis using k tk b t less.prems False
      by (subst k(4), subst ReceiveMsg_loop.simps) (simp add: Let_def add.commute)
  qed
qed

lemma le16_hdr: "2 \<le> length xs \<Longrightarrow> le16 (xs @ ys) 0 = le16 xs 0"
  by (cases xs) (auto simp: le16_def nth_append)

lemma ReceiveMsg_frame:
  assumes d: "delivers_parts T (srv_sock R) pending limit" "limit \<le> 100" and h: "whole_header T (srv_sock R) pending"
    and p: "pending s = frame m @ rest" and m: "m \<noteq> []" "length m \<le> length arr" "length m < 2 ^ 16"
  shows "\<exists>s'. ReceiveMsg T raw R arr s = Ok (length m, m @ drop (length m) arr, s') \<and> pending s' = rest"
proof -
  let ?hdr = "put16 [0, 0] 0 (of_nat (length m))"
  have l: "length ?hdr = 2" by simp
  have "2 \<le> length (pending s)" "take 2 (pending s) = ?hdr" "drop 2 (pending s) = m @ rest"
    using l unfolding p frame_def append_assoc by (simp, simp only: take_append, simp, simp only: drop_append, simp)
  then obtain s1 where 1: "recv T (srv_sock R) 2 s = (Some ?hdr, s1)" "pending s1 = m @ rest"
    using h unfolding whole_header_def by fastforce
  obtain s2 where 2: "ReceiveMsg_loop T (srv_sock R) arr (length m) 0 (recv T (srv_sock R) (length m) s1) =
      Ok (length m, m @ drop (length m) arr, s2)" "pending s2 = rest"
    using ReceiveMsg_loop_ok [OF d 1(2) m(1), of "length m" 0 arr] m(2) by auto
  have "le16 (?hdr @ drop (length ?hdr) raw) 0 = of_nat (length m)"
    by (subst le16_hdr) simp_all
  then have "unat (le16 (?hdr @ drop (length ?hdr) raw) 0) = length m" using m(3) by (simp add: unat16)
  moreover have "?hdr \<noteq> []" using l by (metis length_0_conv zero_neq_numeral)
  ultimately show ?thesis using 1 2 l by (simp add: ReceiveMsg_def Let_def)
qed

text \<open>What has arrived is put into mailbox 3 of the post office.\<close>

lemma Receive_step_frame:
  assumes ok: "kernel_ok (ker (base D)) mss xss ts" "FreeKernelMemory (sys (base D))" "3 < length mss"
    and n: "n < length (server D)" and d: "delivers_parts T (srv_sock (server D ! n)) pending limit" "limit \<le> 100"
    and h: "whole_header T (srv_sock (server D ! n)) pending" and p: "pending (net D) = frame m @ rest"
    and m: "21 \<le> length m" "length m \<le> length arr" "length m < 2 ^ 16"
    and k: "best_class (pool (ker (base D))) (of_nat (length m)) k" "xss ! k = x # xs"
  shows "\<exists>D'. Receive_step dbg w T raw n (arr, D) = Ok (True, m @ drop (length m) arr, D') \<and>
    kernel_ok (ker (base D')) (posted mss 3 x) (xss[k := xs]) ts \<and> take (length m) (msg_bytes (ker (base D')) x) = m \<and>
    pending (net D') = rest \<and> server D' = server D \<and> FreeKernelMemory (sys (base D'))"
proof -
  let ?K = "ker (base D)" and ?n = "length m"
  let ?a = "m @ drop ?n arr"
  have "m \<noteq> []" using m(1) by auto
  then obtain s where s: "ReceiveMsg T raw (server D ! n) arr (net D) = Ok (?n, ?a, s)" "pending s = rest"
    using ReceiveMsg_frame [OF d h p _ m(2,3)] by blast
  have un: "unat (of_nat ?n :: uint32) = ?n" using m(3) by (intro unat32) simp
  then have "(21 :: uint32) \<le> of_nat ?n" using m(1) by (simp add: word_le_nat_alt)
  then obtain p' where g: "API_GetBuffer dbg ?K (of_nat ?n) = Ok (x, ?K\<lparr>pool := p'\<rparr>)"
    "kernel_ok (?K\<lparr>pool := p'\<rparr>) mss (xss[k := xs]) ts" "owned (?K\<lparr>pool := p'\<rparr>) mss (xss[k := xs]) ts x"
    "?n \<le> length (msg_bytes ?K x)"
    using API_GetBuffer_ok [OF ok(1) k] un by metis
  have get: "GetBuffer dbg (pool ?K) (memory ?K) (of_nat ?n) = Ok (x, p', memory ?K)"
  proof -
    obtain a p2 h2 where "GetBuffer dbg (pool ?K) (memory ?K) (of_nat ?n) = Ok (a, p2, h2)" "a = x"
      "?K\<lparr>pool := p2, memory := h2\<rparr> = ?K\<lparr>pool := p'\<rparr>"
      using g(1) kernel_okD(4) [OF ok(1)] by (auto simp: API_GetBuffer_def)
    moreover from this(3) have "pool (?K\<lparr>pool := p2, memory := h2\<rparr>) = p'" "memory (?K\<lparr>pool := p2, memory := h2\<rparr>) = memory ?K"
      by simp_all
    ultimately show ?thesis by simp
  qed
  let ?f = "\<lambda>bs. if ?n \<le> length bs then take ?n ?a @ drop ?n bs else bs"
  let ?K2 = "upd x ?f (?K\<lparr>pool := p'\<rparr>)"
  obtain b where b: "x \<noteq> NULL" "memory ?K x = Some b" by (rule owned_msg [OF g(3)]) simp
  have w1: "on_bytes (memory ?K) x (\<lambda>d. if length d < ?n \<or> length ?a < ?n then Fault MemFault else Ok (take ?n ?a @ drop ?n d)) =
      Ok (memory ?K2)"
    using b g(4) by (simp add: on_bytes_def upd_def msg_bytes_def)
  have own: "owned ?K2 mss (xss[k := xs]) ts x" by (rule owned_upd [OF g(3)]) simp
  obtain po' h' where a: "API_Add w ?K2 (of_nat 3) x = Ok (?K2\<lparr>office := po', memory := h'\<rparr>)"
    "kernel_ok (?K2\<lparr>office := po', memory := h'\<rparr>) (posted mss 3 x) (xss[k := xs]) ts"
    "relinked (insert x (set (mss ! 3))) (memory ?K2) h'"
    using API_Add_ok [OF kernel_ok_upd [OF g(2,3)] own ok(3), of w] by blast
  have add: "PO_Add w (office ?K) (memory ?K2) 3 x = Ok (po', h')"
  proof -
    have "attached ?K2" using kernel_okD(1) [OF g(2)] by simp
    then obtain po2 h2 where "PO_Add w (office ?K) (memory ?K2) 3 x = Ok (po2, h2)"
      "?K2\<lparr>office := po2, memory := h2\<rparr> = ?K2\<lparr>office := po', memory := h'\<rparr>"
      using a(1) by (auto simp: API_Add_def deref_def)
    moreover from this(2) have "office (?K2\<lparr>office := po2, memory := h2\<rparr>) = po'" "memory (?K2\<lparr>office := po2, memory := h2\<rparr>) = h'"
      by simp_all
    ultimately show ?thesis by simp
  qed
  have K: "?K2\<lparr>office := po', memory := h'\<rparr> = ?K\<lparr>pool := p', office := po', memory := h'\<rparr>" by (simp add: upd_def)
  have "same_content (memory ?K2 x) (h' x)" using a(3) by (simp add: relinked_def)
  then have "bytes (the (h' x)) = ?f (bytes b)"
    using b by (cases "h' x") (auto simp: upd_def)
  then have bytes: "take ?n (bytes (the (h' x))) = m" using g(4) b by (simp add: msg_bytes_def)
  show ?thesis
    by (rule exI [of _ "D\<lparr>net := s, base := (base D)\<lparr>ker := ?K\<lparr>pool := p', office := po', memory := h'\<rparr>\<rparr>\<rparr>"])
       (use n s ok(2) get w1 add a(2) K bytes \<open>m \<noteq> []\<close> in \<open>simp add: Receive_step_def Let_def msg_bytes_def\<close>)
qed

section \<open>The active server of a range\<close>

text \<open>
  \<open>up\<close>: the servers that are connected; \<open>active up r\<close>: the one in charge of the range \<open>r\<close>, the
  first in its list that is connected, \<^const>\<open>INVALID_08\<close> when none is.
\<close>

definition up_in :: "SERVER list \<Rightarrow> uint8 \<Rightarrow> bool" where
  "up_in srv c \<longleftrightarrow> srv_init (srv ! unat c)"

definition active :: "(uint8 \<Rightarrow> bool) \<Rightarrow> range \<Rightarrow> uint8" where
  "active up = (\<lambda>(s, e, cs). case find (\<lambda>c. c \<noteq> INVALID_08 \<and> up c) cs of None \<Rightarrow> INVALID_08 | Some c \<Rightarrow> c)"

definition ids_ok :: "range \<Rightarrow> bool" where
  "ids_ok = (\<lambda>(s, e, cs). \<forall>c \<in> set cs. c = INVALID_08 \<or> unat c < MAX_SERVER_NUM)"

lemma first_active_ok:
  "length srv = MAX_SERVER_NUM \<Longrightarrow> \<forall>c \<in> set cs. c = INVALID_08 \<or> unat c < MAX_SERVER_NUM \<Longrightarrow>
   first_active srv cs = Ok (case find (\<lambda>c. c \<noteq> INVALID_08 \<and> up_in srv c) cs of None \<Rightarrow> INVALID_08 | Some c \<Rightarrow> c)"
  by (induction cs) (auto simp: up_in_def)

lemma GetActivSrv_ok:
  "length srv = MAX_SERVER_NUM \<Longrightarrow> ids_ok (range_of n) \<Longrightarrow> GetActivSrv srv n = Ok (active (up_in srv) (range_of n))"
  by (simp add: GetActivSrv_def ids_ok_def range_of_def active_def first_active_ok)

section \<open>The loops over a list of ranges\<close>

definition hit :: "(range \<Rightarrow> uint8) \<Rightarrow> (range \<Rightarrow> bool) \<Rightarrow> addr list \<Rightarrow> range list \<Rightarrow> addr \<times> uint8" where
  "hit act Q xs rs = (case find (\<lambda>(a, r). Q r) (zip xs rs) of None \<Rightarrow> (NULL, INVALID_08) | Some (a, r) \<Rightarrow> (a, act r))"

lemma node_links_at: "N a = Some n \<Longrightarrow> node_links N a = Some \<lparr>BUFF_CODE = 0, BUFF_PREV = NULL, BUFF_NEXT = as_next n, bytes = []\<rparr>"
  by (simp add: node_links_def)

lemma find_srv_ok:
  assumes len: "length srv = MAX_SERVER_NUM" and P: "\<And>n. P (active (up_in srv) (range_of n)) n = Q (range_of n)"
  shows "chain (node_links N) a xs \<Longrightarrow> holds N xs rs \<Longrightarrow> \<forall>r \<in> set rs. ids_ok r \<Longrightarrow>
    find_srv P srv N a = Ok (hit (active (up_in srv)) Q xs rs)"
proof (induction xs arbitrary: a rs)
  case Nil
  then show ?case by (subst find_srv.simps) (simp add: hit_def)
next
  case (Cons x xs)
  obtain r rs' where rs: "rs = r # rs'" using Cons.prems(2) by (cases rs) (auto simp: holds_def)
  then obtain n where n: "N x = Some n" "range_of n = r" using Cons.prems(2) by (auto simp: holds_def)
  have x: "a = x" "x \<noteq> NULL" "chain (node_links N) (as_next n) xs"
    using Cons.prems(1) node_links_at [of N x n, OF n(1)] by simp_all
  have act: "GetActivSrv srv n = Ok (active (up_in srv) r)" using GetActivSrv_ok [OF len, of n] Cons.prems(3) rs n(2) by simp
  have "find_srv P srv N (as_next n) = Ok (hit (active (up_in srv)) Q xs rs')"
    by (rule Cons.IH [OF x(3)]) (use Cons.prems rs in \<open>auto simp: holds_def\<close>)
  then show ?case
    using P [of n] x n act rs by (subst find_srv.simps) (simp add: hit_def)
qed

lemma hit_found:
  assumes "length xs = length rs" "\<forall>x \<in> set xs. x \<noteq> NULL"
  shows "fst (hit act Q xs rs) \<noteq> NULL \<longleftrightarrow> (\<exists>r \<in> set rs. Q r)"
    "find Q rs = Some r \<Longrightarrow> snd (hit act Q xs rs) = act r"
  using assms
proof (induction xs rs rule: list_induct2')
  case (4 x xs y ys)
  {
    case 1
    then show ?case using 4(1) by (auto simp: hit_def)
  next
    case 2
    then show ?case using 4(2) by (auto simp: hit_def split: if_splits)
  }
qed (auto simp: hit_def)

lemma table_list:
  assumes "table_rep D rss" "unat t < MAX_AUTO_TYPES_NUM"
  obtains a xs where "GetFromListHead D t = Ok a" "chain (node_links (anodes D)) a xs" "holds (anodes D) xs (rss ! unat t)"
    "length xs = length (rss ! unat t)" "\<forall>x \<in> set xs. x \<noteq> NULL"
proof -
  obtain xss where x: "lists_rep (automates D) (anodes D) xss rss" using assms(1) by (auto simp: table_rep_def)
  have i: "unat t < length (automates D)" using x assms by (simp add: table_rep_def lists_rep_def)
  then have r: "ranges_rep (automates D ! unat t) (anodes D) (xss ! unat t)" "holds (anodes D) (xss ! unat t) (rss ! unat t)"
    using x by (simp_all add: lists_rep_def)
  have "\<forall>x \<in> set (xss ! unat t). x \<noteq> NULL" using r(1) queue_rep_mem unfolding ranges_rep_def by blast
  moreover have "length (xss ! unat t) = length (rss ! unat t)"
    using r(2) unfolding holds_def by (metis length_map)
  ultimately show thesis using that [of "ah_head (automates D ! unat t)" "xss ! unat t"] r i
    by (simp add: GetFromListHead_def ranges_rep_def queue_rep_def)
qed

section \<open>The decision as a function of the table\<close>

text \<open>
  \<open>own\<close> is the number of this server. \<open>supported\<close>: some range of the type contains the object
  (any range when the object is not named) and is served here; \<open>first_other\<close>: the server of the
  first range that is served elsewhere.
\<close>

definition supported :: "uint8 \<Rightarrow> (uint8 \<Rightarrow> bool) \<Rightarrow> range list \<Rightarrow> uint32 \<Rightarrow> bool" where
  "supported own up rs obj \<longleftrightarrow> (\<exists>(s, e, cs) \<in> set rs. active up (s, e, cs) = own \<and> (obj = INVALID_32 \<or> s \<le> obj \<and> obj \<le> e))"

definition elsewhere :: "uint8 \<Rightarrow> (uint8 \<Rightarrow> bool) \<Rightarrow> range \<Rightarrow> bool" where
  "elsewhere own up r \<longleftrightarrow> active up r \<noteq> INVALID_08 \<and> active up r \<noteq> own"

definition first_other :: "uint8 \<Rightarrow> (uint8 \<Rightarrow> bool) \<Rightarrow> range list \<Rightarrow> uint8 option" where
  "first_other own up rs = map_option (active up) (find (elsewhere own up) rs)"

datatype decision = Process_here | Drop | To_server uint8

definition route :: "uint8 \<Rightarrow> (uint8 \<Rightarrow> bool) \<Rightarrow> range list \<Rightarrow> uint32 \<Rightarrow> uint8 \<Rightarrow> decision" where
  "route own up rs obj grp =
     (if grp = own then (if supported own up rs obj then Process_here else Drop)
      else if grp = INVALID_08
      then (if supported own up rs obj then Process_here
            else case first_other own up rs of None \<Rightarrow> Drop | Some c \<Rightarrow> To_server c)
      else To_server grp)"

lemma IsSupported_ok:
  assumes "table_rep D rss" "unat t < MAX_AUTO_TYPES_NUM" "length (server D) = MAX_SERVER_NUM" "\<forall>r \<in> set (rss ! unat t). ids_ok r"
  shows "IsSupported D t obj = Ok (supported (serverId (sys (base D))) (up_in (server D)) (rss ! unat t) obj)"
proof -
  obtain a xs where a: "GetFromListHead D t = Ok a" "chain (node_links (anodes D)) a xs" "holds (anodes D) xs (rss ! unat t)"
    "length xs = length (rss ! unat t)" "\<forall>x \<in> set xs. x \<noteq> NULL" using table_list [OF assms(1,2)] .
  let ?own = "serverId (sys (base D))" and ?act = "active (up_in (server D))"
  let ?Q = "\<lambda>(s, e, cs). ?act (s, e, cs) = ?own \<and> (obj = INVALID_32 \<or> s \<le> obj \<and> obj \<le> e)"
  have 1: "find_srv (\<lambda>c _. c = ?own) (server D) (anodes D) a = Ok (hit ?act ?Q xs (rss ! unat t))" if "obj = INVALID_32"
    by (rule find_srv_ok [OF assms(3) _ a(2,3) assms(4)]) (simp add: that split: prod.splits)
  have 2: "find_srv (\<lambda>c n. c = ?own \<and> startId n \<le> obj \<and> obj \<le> lastId n) (server D) (anodes D) a =
      Ok (hit ?act ?Q xs (rss ! unat t))" if "obj \<noteq> INVALID_32"
    by (rule find_srv_ok [OF assms(3) _ a(2,3) assms(4)]) (simp add: that range_of_def)
  have "fst (hit ?act ?Q xs (rss ! unat t)) \<noteq> NULL \<longleftrightarrow> supported ?own (up_in (server D)) (rss ! unat t) obj"
    using hit_found(1) [OF a(4,5), of ?act ?Q] by (simp add: supported_def)
  then show ?thesis using a(1) 1 2 by (auto simp: IsSupported_def Let_def split: prod.splits)
qed

lemma SendMsgToFirstSrv_ok:
  assumes "table_rep D rss" "unat t < MAX_AUTO_TYPES_NUM" "length (server D) = MAX_SERVER_NUM" "\<forall>r \<in> set (rss ! unat t). ids_ok r"
    and t: "read8 (memory (ker (base D))) msg (off MSG_TO_AUTOMATE) = Ok t"
  shows "SendMsgToFirstSrv dbg T D msg = (case first_other (serverId (sys (base D))) (up_in (server D)) (rss ! unat t) of
      None \<Rightarrow> on_base (DiscardMsg dbg (base D) msg) D
    | Some c \<Rightarrow> SendMsgToServer dbg T D (unat c) msg)"
proof -
  obtain a xs where a: "GetFromListHead D t = Ok a" "chain (node_links (anodes D)) a xs" "holds (anodes D) xs (rss ! unat t)"
    "length xs = length (rss ! unat t)" "\<forall>x \<in> set xs. x \<noteq> NULL" using table_list [OF assms(1,2)] .
  let ?own = "serverId (sys (base D))" and ?up = "up_in (server D)"
  have f: "find_srv (\<lambda>c _. c \<noteq> INVALID_08 \<and> c \<noteq> ?own) (server D) (anodes D) a =
      Ok (hit (active ?up) (elsewhere ?own ?up) xs (rss ! unat t))"
    by (rule find_srv_ok [OF assms(3) _ a(2,3) assms(4)]) (simp add: elsewhere_def)
  show ?thesis
  proof (cases "find (elsewhere ?own ?up) (rss ! unat t)")
    case None
    then have "fst (hit (active ?up) (elsewhere ?own ?up) xs (rss ! unat t)) = NULL"
      using hit_found(1) [OF a(4,5), of "active ?up" "elsewhere ?own ?up"] by (auto simp: find_None_iff)
    then show ?thesis using t a(1) f None by (auto simp: SendMsgToFirstSrv_def first_other_def split: prod.splits)
  next
    case (Some r)
    then have "fst (hit (active ?up) (elsewhere ?own ?up) xs (rss ! unat t)) \<noteq> NULL"
      using hit_found(1) [OF a(4,5), of "active ?up" "elsewhere ?own ?up"] by (auto simp: find_Some_iff)
    then show ?thesis using t a(1) f Some hit_found(2) [OF a(4,5) Some, of "active ?up"]
      by (auto simp: SendMsgToFirstSrv_def first_other_def split: prod.splits)
  qed
qed

section \<open>Properties of the distribution\<close>

text \<open>A server with one range of type 0, served here, and a message for any object of that type.\<close>

definition ex_served :: "(nat, unit, uint8 list) dist" where
  "ex_served = ex_dist\<lparr>base := (ex_system NullArr 0)\<lparr>ker := (ker (ex_system NullArr 0))\<lparr>
       memory := [7 \<mapsto> \<lparr>BUFF_CODE = 0, BUFF_PREV = NULL, BUFF_NEXT = NULL,
         bytes = (replicate 40 0)[3 := 0xff, 10 := 0xff, 11 := 0xff, 12 := 0xff, 13 := 0xff]\<rparr>]\<rparr>\<rparr>,
     server := \<lparr>srv_init = True, srv_sock = 0\<rparr> # replicate 9 \<lparr>srv_init = False, srv_sock = 0\<rparr>,
     automates := \<lparr>ah_head = 5, ah_tail = 5\<rparr> # replicate 39 \<lparr>ah_head = NULL, ah_tail = NULL\<rparr>,
     anodes := [5 \<mapsto> \<lparr>as_next = NULL, startId = 0, lastId = 9, compId = 0 # replicate 9 INVALID_08\<rparr>]\<rparr>"

definition ex_served_table :: "range list list" where
  "ex_served_table = [(0, 9, 0 # replicate 9 INVALID_08)] # replicate 39 []"

lemma ex_served_rep: "table_rep ex_served ex_served_table"
proof -
  have "lists_rep (automates ex_served) (anodes ex_served) ([5] # replicate 39 []) ex_served_table"
    unfolding lists_rep_def
  proof (intro conjI allI impI)
    fix i j assume "i < length (automates ex_served)" "j < length (automates ex_served)" "j \<noteq> i"
    then show "set (([5] # replicate 39 []) ! j) \<inter> set (([5] # replicate 39 []) ! i) = {}"
      by (auto simp: ex_served_def nth_Cons' split: if_splits)
  qed (auto simp: ex_served_def ex_served_table_def nth_Cons' ranges_rep_def queue_rep_def last_or_null_def node_links_def holds_def range_of_def)
  then show ?thesis
    unfolding table_rep_def by (auto simp: ex_served_table_def MAX_AUTO_TYPES_NUM_def MAX_NUM_OF_AUTOMATES_TYPES_def)
qed

text \<open>C14: the routing of a message depends on the table as the function \<^const>\<open>route\<close> says, for
  every automate type and every table of ranges in the lists in which servers have the numbers 0 to 9, and for every set
  of connected servers. A message for this
  server is processed when a range for its object is served here and dropped otherwise; one
  for no server in particular is processed here or else goes to the server of the first
  range that is served elsewhere; one for another server goes there.
\<close>

theorem routing_follows_table:
  assumes "table_rep D rss" "length (server D) = MAX_SERVER_NUM"
    and "read8 (memory (ker (base D))) msg (off MSG_TO_AUTOMATE) = Ok t" "unat t < MAX_AUTO_TYPES_NUM"
    and "read32 (memory (ker (base D))) msg (off MSG_OBJECT_ID_TO) = Ok obj"
    and "read8 (memory (ker (base D))) msg (off MSG_TO_GROUP) = Ok grp"
    and "\<forall>r \<in> set (rss ! unat t). ids_ok r"
  shows "Dist_dispatch dbg T clk run D msg =
    (case route (serverId (sys (base D))) (up_in (server D)) (rss ! unat t) obj grp of
      Process_here \<Rightarrow> ProcessMsg dbg T clk run D msg
    | Drop \<Rightarrow> on_base (DiscardMsg dbg (base D) msg) D
    | To_server c \<Rightarrow> SendMsgToServer dbg T D (unat c) msg)"
  using IsSupported_ok [OF assms(1,4,2,7), of obj] SendMsgToFirstSrv_ok [OF assms(1,4,2,7,3), of dbg T] assms(3,5,6)
  by (simp add: Dist_dispatch_def route_def Let_def split: option.split)

definition ex_empty :: "(nat, unit, uint8 list) dist" where
  "ex_empty = InitLists (ex_dist\<lparr>base := ex_system NullArr 0\<rparr>)"

definition as_server :: "uint8 \<Rightarrow> (nat, unit, uint8 list) dist \<Rightarrow> (nat, unit, uint8 list) dist" where
  "as_server i D = D\<lparr>base := (base D)\<lparr>sys := (sys (base D))\<lparr>serverId := i\<rparr>\<rparr>\<rparr>"

theorem routing_follows_table_witness:
  "Dist_dispatch False (parts_net 3) (\<lambda>_. 0) (\<lambda>_ F K. Ok (F, K)) ex_served 7 = ProcessMsg False (parts_net 3) (\<lambda>_. 0) (\<lambda>_ F K. Ok (F, K)) ex_served 7 \<and>
   Dist_dispatch False (parts_net 3) (\<lambda>_. 0) (\<lambda>_ F K. Ok (F, K)) (as_server 1 ex_served) 7 = SendMsgToServer False (parts_net 3) (as_server 1 ex_served) 0 7"
proof -
  have rep: "table_rep (as_server i ex_served) ex_served_table" for i
    using ex_served_rep by (simp add: table_rep_def as_server_def)
  have m: "read8 (memory (ker (base (as_server i ex_served)))) 7 (off MSG_TO_AUTOMATE) = Ok 0"
    "read32 (memory (ker (base (as_server i ex_served)))) 7 (off MSG_OBJECT_ID_TO) = Ok INVALID_32"
    "read8 (memory (ker (base (as_server i ex_served)))) 7 (off MSG_TO_GROUP) = Ok INVALID_08"
    "length (server (as_server i ex_served)) = MAX_SERVER_NUM" "serverId (sys (base (as_server i ex_served))) = i" for i
    by (simp_all add: as_server_def ex_served_def ex_dist_def ex_system_def ex_sys_def read8_def read32_def get_bytes_def le32_def
        INVALID_32_def INVALID_08_def MAX_SERVER_NUM_def)
  have t: "ex_served_table ! unat (0 :: uint8) = [(0, 9, 0 # replicate 9 INVALID_08)]" by (simp add: ex_served_table_def)
  have z: "unat (0 :: uint8) < MAX_AUTO_TYPES_NUM" by (simp add: MAX_AUTO_TYPES_NUM_def MAX_NUM_OF_AUTOMATES_TYPES_def)
  have ids: "\<forall>r \<in> set (ex_served_table ! unat (0 :: uint8)). ids_ok r" unfolding t by (simp add: ids_ok_def MAX_SERVER_NUM_def)
  have same: "as_server 0 ex_served = ex_served" by (simp add: as_server_def ex_served_def ex_dist_def ex_system_def ex_sys_def)
  note r = routing_follows_table [OF rep m(4) m(1) z m(2,3) ids, of False "parts_net 3" "\<lambda>_. 0" "\<lambda>_ F K. Ok (F, K)"]
  have up: "up_in (server (as_server i ex_served)) 0" for i
    by (simp add: up_in_def as_server_def ex_served_def)
  have "route 0 (up_in (server (as_server 0 ex_served))) (ex_served_table ! unat (0 :: uint8)) INVALID_32 INVALID_08 = Process_here"
    unfolding t by (simp add: route_def supported_def active_def up INVALID_08_def)
  moreover have "route 1 (up_in (server (as_server 1 ex_served))) (ex_served_table ! unat (0 :: uint8)) INVALID_32 INVALID_08 = To_server 0"
    unfolding t by (simp add: route_def supported_def active_def first_other_def elsewhere_def up INVALID_08_def)
  ultimately show ?thesis using r [of 0] r [of 1] m(5) [of 0] unfolding m(5) [of 1] same by simp
qed

text \<open>\<open>carries T sock_out pending\<close>: what is sent on the socket becomes pending at its peer.\<close>

definition carries :: "'s tcp \<Rightarrow> int \<Rightarrow> ('s \<Rightarrow> uint8 list) \<Rightarrow> bool" where
  "carries T sock pending \<longleftrightarrow> (\<forall>bs s. \<exists>s'. send T sock bs s = (int (length bs), s') \<and> pending s' = pending s @ bs)"

lemma SendMsgToServer_carried:
  assumes "n < length (server D)" "carries T (srv_sock (server D ! n)) pending" "pending (net D) = []"
    and "get_bytes (memory (ker (base D))) msg = Ok bs" "off MSG_LENGTH < length bs"
    and "len = MSG_HEADER_LENGTH + unat (bs ! off MSG_LENGTH)" "len \<le> length bs"
  shows "\<exists>s. SendMsgToServer dbg T D n msg = on_base (DiscardMsg dbg (base D) msg) (D\<lparr>net := s\<rparr>) \<and>
    pending s = frame (take len bs) \<and> 21 \<le> len \<and> len < 512"
proof -
  have b: "unat (bs ! off MSG_LENGTH) < 256" using unsigned_less [of "bs ! off MSG_LENGTH", where ?'a = nat] by simp
  then have len: "21 \<le> len" "len + 2 \<le> 512" using assms(6) by (simp_all add: MSG_HEADER_LENGTH_def)
  let ?m = "take len bs"
  have lm: "length ?m = len" using assms(7) by simp
  obtain s where s: "send T (srv_sock (server D ! n)) (frame ?m) (net D) = (int (length (frame ?m)), s)" "pending s = frame ?m"
    using assms(2,3) unfolding carries_def by (metis append_Nil)
  have "0 < int (length (frame ?m))" using lm len(1) by (simp add: frame_def)
  then have "SendMsgToServer dbg T D n msg = on_base (DiscardMsg dbg (base D) msg) (D\<lparr>net := s\<rparr>)"
    using assms(1,4-7) s len by (simp add: SendMsgToServer_def read8_def Let_def add.commute)
  then show ?thesis using s(2) len by (intro exI [of _ s]) simp
qed

text \<open>A second server whose kernel has just been started, for the witness.\<close>

definition ex_start :: "(nat, unit) system" where
  "ex_start = (ex_system NullArr 0)\<lparr>sys := (sys (ex_system NullArr 0))\<lparr>NumberOfMbx := 3\<rparr>,
     ker := (ker (ex_system NullArr 0))\<lparr>memory := [8 \<mapsto> \<lparr>BUFF_CODE = 0, BUFF_PREV = NULL, BUFF_NEXT = NULL, bytes = replicate 40 0\<rparr>]\<rparr>\<rparr>"

lemma ex_peer:
  "\<exists>(Y :: (nat, unit) system) x xs. kernel_ok (ker Y) (replicate 4 []) [x # xs] [] \<and> FreeKernelMemory (sys Y) \<and>
    best_class (pool (ker Y)) 21 0 \<and> best_class (pool (ker Y)) 23 0"
proof -
  have one: "arrays_sorted [l] [c] lens' counts' \<Longrightarrow> lens' = [l] \<and> counts' = [c]" for l c lens' counts'
    by (cases lens'; cases counts') (auto simp: arrays_sorted_def)
  have "(8 :: nat) \<notin> set (class_addrs (\<lambda>_. 4096) [2] [256] 0)" by (auto simp: class_addrs_def buf_addrs_def buf_addr_def)
  then have "kernel_memory (\<lambda>_. 4096) 8 (memory (ker ex_start)) 1 [2] [256]"
    by (auto simp: kernel_memory_def ex_start_def TIMER_COUNT_def classes_apart_def class_fits_def BUFF_HEADER_LENGTH_def
        MAX_BUFF_CLASS_NO_def dest!: one)
  then have mem: "kernel_memory (\<lambda>_. 4096) 8 (memory (ker ex_start)) 1 [2] [256]" .
  have n: "NumberOfMbx (sys ex_start) + 1 = 4" "(4 :: uint8) \<noteq> 0" "\<forall>i < unat (4 :: uint8). (\<lambda>_. True) i" by (simp_all add: ex_start_def)
  obtain K :: "unit kernel" and lens' counts' where K: "arrays_sorted [256] [2] lens' counts'"
    "kernel_ok K (replicate (unat (4 :: uint8)) []) (map (class_addrs (\<lambda>_. 4096) counts' lens') [0 ..< unat (1 :: uint8)]) []"
    "BuffersLength (pool K) = lens' @ replicate (MAX_BUFF_CLASS_NO - unat (1 :: uint8)) 0"
    using InitKernel_ok [OF mem n, of True "\<lambda>_. 0" Timer1s] by blast
  obtain x xs where x: "class_addrs (\<lambda>_. 4096) [2] [256] 0 = x # xs"
    by (cases "class_addrs (\<lambda>_. 4096) [2] [256] 0") (auto simp: class_addrs_def buf_addrs_def)
  have "kernel_ok K (replicate 4 []) [x # xs] []" using K(2) one [OF K(1)] x by simp
  moreover have "unat (ClassBufferNum (pool K)) = 1" using kernel_okD(3) [OF calculation] by (simp add: pool_rep_def)
  then have "best_class (pool K) 21 0 \<and> best_class (pool K) 23 0" using K(3) one [OF K(1)] by (simp add: best_class_def)
  ultimately show ?thesis
    by (intro exI [of _ "ex_start\<lparr>ker := K, sys := (sys ex_start)\<lparr>FreeKernelMemory := True\<rparr>\<rparr>"] exI [of _ x] exI [of _ xs]) simp
qed

text \<open>C13: a message crosses from one server to another. What \<^verbatim>\<open>SendMsgToServer\<close> puts on the
  stream, one round of \<^verbatim>\<open>Receive\<close> of the peer takes off it and puts into mailbox 3 of its post
  office, in whatever parts the network delivers the message as long as they fit
  \<^verbatim>\<open>buff[100]\<close> and the two bytes of the length are not separated: the header and as many
  information bytes as the low byte of the length field says arrive in a buffer of the
  peer's pool, nothing remains on the stream, and the sender discards its copy. A message
  of 256 or more information bytes is thereby cut.
\<close>

theorem message_between_servers:
  assumes "n < length (server D)" "carries T (srv_sock (server D ! n)) pending" "pending (net D) = []"
    and "get_bytes (memory (ker (base D))) msg = Ok bs" "off MSG_LENGTH < length bs"
    and "len = MSG_HEADER_LENGTH + unat (bs ! off MSG_LENGTH)" "len \<le> length bs"
    and "kernel_ok (ker (base E)) mss xss ts" "FreeKernelMemory (sys (base E))" "3 < length mss" "q < length (server E)"
    and "delivers_parts T (srv_sock (server E ! q)) pending limit" "limit \<le> 100" "whole_header T (srv_sock (server E ! q)) pending"
    and "best_class (pool (ker (base E))) (of_nat len) k" "xss ! k = x # xs" "length arr = 512"
  shows "\<exists>s arr' E'. SendMsgToServer dbg T D n msg = on_base (DiscardMsg dbg (base D) msg) (D\<lparr>net := s\<rparr>) \<and>
    Receive_step dbg w T raw q (arr, E\<lparr>net := s\<rparr>) = Ok (True, arr', E') \<and>
    kernel_ok (ker (base E')) (posted mss 3 x) (xss[k := xs]) ts \<and>
    take len (msg_bytes (ker (base E')) x) = take len bs \<and> pending (net E') = []"
proof -
  obtain s where s: "SendMsgToServer dbg T D n msg = on_base (DiscardMsg dbg (base D) msg) (D\<lparr>net := s\<rparr>)"
    "pending s = frame (take len bs)" "21 \<le> len" "len < 512"
    using SendMsgToServer_carried [OF assms(1-7)] by blast
  have l: "length (take len bs) = len" using assms(7) by simp
  have "\<exists>E'. Receive_step dbg w T raw q (arr, E\<lparr>net := s\<rparr>) = Ok (True, take len bs @ drop (length (take len bs)) arr, E') \<and>
    kernel_ok (ker (base E')) (posted mss 3 x) (xss[k := xs]) ts \<and>
    take (length (take len bs)) (msg_bytes (ker (base E')) x) = take len bs \<and> pending (net E') = [] \<and>
    server E' = server (E\<lparr>net := s\<rparr>) \<and> FreeKernelMemory (sys (base E'))"
    by (rule Receive_step_frame [where pending = pending and limit = limit and mss = mss and k = k])
       (use assms(8-17) s l in simp_all)
  then show ?thesis using s(1) unfolding l by blast
qed

theorem message_between_servers_witness:
  "\<exists>(E :: (nat, unit, uint8 list) dist) mss xss x xs s arr' E'.
    SendMsgToServer False (parts_net 3) ex_empty 2 7 = on_base (DiscardMsg False (base ex_empty) 7) (ex_empty\<lparr>net := s\<rparr>) \<and>
    Receive_step False ex_win (parts_net 3) [0, 0] 1 (replicate 512 9, E\<lparr>net := s\<rparr>) = Ok (True, arr', E') \<and>
    kernel_ok (ker (base E')) (posted mss 3 x) (xss[0 := xs]) [] \<and>
    take 21 (msg_bytes (ker (base E')) x) = take 21 (replicate 40 0) \<and> net E' = []"
proof -
  obtain Y :: "(nat, unit) system" and x xs where Y: "kernel_ok (ker Y) (replicate 4 []) [x # xs] []"
    "FreeKernelMemory (sys Y)" "best_class (pool (ker Y)) 21 0"
    using ex_peer by blast
  have b: "get_bytes (memory (ker (base ex_empty))) 7 = Ok (replicate 40 0)"
    by (simp add: ex_empty_def InitLists_def ex_dist_def ex_system_def ex_heap_msg_def get_bytes_def)
  have c: "carries (parts_net 3) sock (\<lambda>s. s)" for sock by (simp add: carries_def parts_net_def)
  have l: "21 = MSG_HEADER_LENGTH + unat (replicate 40 (0 :: uint8) ! off MSG_LENGTH)" by (simp add: MSG_HEADER_LENGTH_def)
  have z: "2 < length (server ex_empty)" "net ex_empty = []" "length (server ex_dist) = 10"
    by (simp_all add: ex_empty_def InitLists_def ex_dist_def)
  have "\<exists>s arr' E'. SendMsgToServer False (parts_net 3) ex_empty 2 7 = on_base (DiscardMsg False (base ex_empty) 7) (ex_empty\<lparr>net := s\<rparr>) \<and>
    Receive_step False ex_win (parts_net 3) [0, 0] 1 (replicate 512 9, (ex_dist\<lparr>base := Y\<rparr>)\<lparr>net := s\<rparr>) = Ok (True, arr', E') \<and>
    kernel_ok (ker (base E')) (posted (replicate 4 []) 3 x) ([x # xs][0 := xs]) [] \<and>
    take 21 (msg_bytes (ker (base E')) x) = take 21 (replicate 40 0) \<and> net E' = []"
    by (rule message_between_servers [where pending = "\<lambda>s. s" and limit = 3, OF z(1) c z(2) b _ l])
       (use Y z(3) in \<open>simp_all add: parts_net_delivers_parts parts_net_header\<close>)
  then show ?thesis by blast
qed

text \<open>\<^verbatim>\<open>ReceiveMsg\<close> asks for the whole message at once but gives only \<^verbatim>\<open>buff[100]\<close> to hold it.
  On a stream that hands over what is there, every message of more than 100 bytes, which is
  one of more than 79 information bytes, is stored beyond the end of the buffer.
\<close>

theorem long_message_overruns_buffer:
  assumes "hands_over T (srv_sock R) pending"
    and "pending s = frame m @ rest" "100 < length m" "length m < 2 ^ 16"
  shows "ReceiveMsg T raw R arr s = Fault MemFault"
proof -
  let ?hdr = "put16 [0, 0] 0 (of_nat (length m))"
  have l: "length ?hdr = 2" "?hdr \<noteq> []" by (simp, metis length_0_conv length_put(1) length_Cons nat.simps(3))
  have p: "2 \<le> length (pending s)" "take 2 (pending s) = ?hdr" "drop 2 (pending s) = m @ rest"
    using l unfolding assms(2) frame_def append_assoc by (simp, simp only: take_append, simp, simp only: drop_append, simp)
  then obtain s1 where 1: "recv T (srv_sock R) 2 s = (Some ?hdr, s1)" "pending s1 = m @ rest"
    using assms(1) unfolding hands_over_def by metis
  obtain s2 where 2: "recv T (srv_sock R) (length m) s1 = (Some m, s2)"
    using assms(1) [unfolded hands_over_def, rule_format, of "length m" s1] 1(2) by auto
  have "le16 (?hdr @ drop (length ?hdr) raw) 0 = of_nat (length m)" by (subst le16_hdr) simp_all
  then have u: "unat (le16 (?hdr @ drop (length ?hdr) raw) 0) = length m" using assms(4) by (simp add: unat16)
  show ?thesis using 1 2 l u assms(3) by (simp add: ReceiveMsg_def Let_def) (subst ReceiveMsg_loop.simps, simp)
qed

theorem long_message_overruns_buffer_witness:
  "ReceiveMsg greedy_net [0, 0] \<lparr>srv_init = True, srv_sock = 0\<rparr> (replicate 512 0) (frame (replicate 101 5)) = Fault MemFault"
  by (rule long_message_overruns_buffer [OF greedy_net_hands_over, of _ "replicate 101 5" "[]"]) simp_all

text \<open>C29: when every automate of a type is busy, a message for any object of the type is not
  passed on to the next server, as \<^verbatim>\<open>ProcessMsg\<close> means to: \<^verbatim>\<open>FSMList::Get\<close> does not return a
  null pointer for an empty list but throws, and the exception leaves the loop of \<^verbatim>\<open>Start\<close>.
\<close>

theorem busy_type_stops_the_loop:
  assumes "table_rep D rss" "length (server D) = MAX_SERVER_NUM"
    and "read8 (memory (ker (base D))) msg (off MSG_TO_AUTOMATE) = Ok t" "unat t < MAX_AUTO_TYPES_NUM"
    and "read32 (memory (ker (base D))) msg (off MSG_OBJECT_ID_TO) = Ok INVALID_32"
    and "read8 (memory (ker (base D))) msg (off MSG_TO_GROUP) = Ok INVALID_08"
    and "\<forall>r \<in> set (rss ! unat t). ids_ok r" "supported (serverId (sys (base D))) (up_in (server D)) (rss ! unat t) INVALID_32"
    and "unat t < length (FreeAutomates (sys (base D)))" "L_Head (FreeAutomates (sys (base D)) ! unat t) = NULL"
  shows "Dist_dispatch dbg T clk run D msg = Fault (Thrown 0x21030504)"
  using IsSupported_ok [OF assms(1,4,2,7), of INVALID_32] assms(3,5,6,8,9,10)
  by (simp add: Dist_dispatch_def ProcessMsg_def Let_def FL_Get_def FL_GetFromHead_def)

theorem busy_type_stops_the_loop_witness:
  "Dist_dispatch False (parts_net 3) (\<lambda>_. 0) (\<lambda>_ F K. Ok (F, K)) ex_served 7 = Fault (Thrown 0x21030504)"
proof (rule busy_type_stops_the_loop [OF ex_served_rep, where t = 0])
  have t: "ex_served_table ! unat (0 :: uint8) = [(0, 9, 0 # replicate 9 INVALID_08)]" by (simp add: ex_served_table_def)
  show "\<forall>r \<in> set (ex_served_table ! unat (0 :: uint8)). ids_ok r" unfolding t by (simp add: ids_ok_def MAX_SERVER_NUM_def)
  show "supported (serverId (sys (base ex_served))) (up_in (server ex_served)) (ex_served_table ! unat (0 :: uint8)) INVALID_32"
    unfolding t by (simp add: supported_def active_def up_in_def INVALID_08_def ex_served_def ex_dist_def ex_system_def ex_sys_def)
qed (simp_all add: ex_served_def ex_dist_def ex_system_def ex_sys_def MAX_SERVER_NUM_def MAX_AUTO_TYPES_NUM_def
    MAX_NUM_OF_AUTOMATES_TYPES_def read8_def read32_def get_bytes_def le32_def INVALID_32_def INVALID_08_def FSMList_new_def)

end
