(* ===== verification/Net_Fsm.thy ===== *)
theory Net_Fsm
  imports Dist_Routing
begin

text \<open>
  \<^verbatim>\<open>Kernel/NetFSM.cpp\<close>, \<^verbatim>\<open>TransportInterface.cpp\<close>, \<^verbatim>\<open>Client.cpp\<close>, \<^verbatim>\<open>Client_DTP.cpp\<close> and
  \<^verbatim>\<open>thread.cpp\<close>: automates that talk to a peer over TCP. The automate sends its new message
  over the connection; a thread receives what the peer sends and posts it to the automate's
  own mailbox. The conversions between the two formats are virtual functions of the
  application and arguments here. A \<^verbatim>\<open>NetException\<close> or \<^verbatim>\<open>ThreadException\<close> carries no code
  and is thrown as 0.
\<close>

definition NET_MAX_LENGTH :: nat where "NET_MAX_LENGTH = 40960"
definition CLIENT_MAX_LENGTH :: nat where "CLIENT_MAX_LENGTH = 1024"

record Transport =
  port :: uint16
  ip :: "uint8 list"
  fsmMessageR :: "uint8 list"
  protocolMessageR :: "uint8 list"
  fsmMessageS :: "uint8 list"
  protocolMessageS :: "uint8 list"
  fsmMessageSInfoLength :: uint16
  fsmMessageSLength :: uint16
  receivedMessageLength :: uint16
  fsmMessageRLength :: uint16
  currentMessageCode :: uint16
  client :: int
  cli_sock :: int
  priv :: "uint8 list"

text \<open>A receiving thread's object; the class \<^verbatim>\<open>Client\<close>, whose buffers have 1024 bytes.\<close>

record Clnt =
  c_client :: int
  ptrBuffer :: "uint8 list"
  c_priv :: "uint8 list"
  currentMsgLength :: uint16
  c_end :: bool

record ('p, 'g, 's) netfsm =
  fsm :: "'p FiniteStateMachine"
  tr :: Transport
  kern :: "'g kernel"
  nets :: 's
  receivingSide :: "Clnt option"

section \<open>Class TransportInterface\<close>

definition setIP :: "Transport \<Rightarrow> uint8 list \<Rightarrow> Transport res" where
  "setIP R ipnew = andThen (memcpy (ip R) 0 (ipnew @ [0]) (Suc (length ipnew))) (\<lambda>bs. Ok (R\<lparr>ip := bs\<rparr>))"

definition setPort :: "Transport \<Rightarrow> uint16 \<Rightarrow> Transport" where
  "setPort R p = R\<lparr>port := p\<rparr>"

section \<open>Class Client\<close>

text \<open>The constructor, with the memory \<open>b1\<close> and \<open>b2\<close> that \<^verbatim>\<open>new\<close> returns.\<close>

definition Client_new :: "uint8 list \<Rightarrow> uint8 list \<Rightarrow> int \<Rightarrow> Clnt" where
  "Client_new b1 b2 cl = \<lparr>c_client = cl, ptrBuffer = take CLIENT_MAX_LENGTH b1, c_priv = take CLIENT_MAX_LENGTH b2,
     currentMsgLength = 0, c_end = False\<rparr>"

text \<open>\<^verbatim>\<open>ThreadBase::stop\<close>, and \<^verbatim>\<open>Client::releaseAll\<close>.\<close>

definition thread_stop :: "Clnt \<Rightarrow> Clnt" where "thread_stop C = C\<lparr>c_end := True\<rparr>"

definition releaseAll :: "'s tcp \<Rightarrow> Clnt \<times> 's \<Rightarrow> Clnt \<times> 's" where
  "releaseAll T = (\<lambda>(C, s). if c_client C \<noteq> 0
     then (thread_stop (C\<lparr>c_client := 0\<rparr>), closesocket T (c_client C) s)
     else (thread_stop C, s))"

text \<open>\<^verbatim>\<open>recv(client, ptrBuffer, n, 0)\<close>: its result, negative on an error, and what it stores.\<close>

definition recv_into :: "'s tcp \<Rightarrow> nat \<Rightarrow> Clnt \<times> 's \<Rightarrow> (int \<times> Clnt \<times> 's) res" where
  "recv_into T n = (\<lambda>(C, s). case recv T (c_client C) n s of
       (None, s) \<Rightarrow> Ok (- 1, C, s)
     | (Some bs, s) \<Rightarrow> andThen (memcpy (ptrBuffer C) 0 bs (length bs)) (\<lambda>b.
         Ok (int (length bs), C\<lparr>ptrBuffer := b\<rparr>, s)))"

text \<open>
  The loop of \<^verbatim>\<open>Client::workToDo\<close> that puts a message of \<open>L\<close> bytes together; \<open>r\<close> is
  \<^verbatim>\<open>receivedBytesMess\<close>. A negative \<open>r\<close> passes the test of the loop and becomes a huge length
  for \<^verbatim>\<open>memcpy\<close>.
\<close>

partial_function (option) gather_loop :: "'s tcp \<Rightarrow> nat \<Rightarrow> int \<Rightarrow> Clnt \<times> 's \<Rightarrow> (fault + Clnt \<times> 's) option" where
  [code]: "gather_loop T L r st = (case st of (C, s) \<Rightarrow>
     if r \<le> int L - int (unat (currentMsgLength C))
     then if r < 0 then Fault MemFault
          else andThen (memcpy (c_priv C) (unat (currentMsgLength C)) (ptrBuffer C) (nat r)) (\<lambda>p.
               let C = C\<lparr>c_priv := p, currentMsgLength := currentMsgLength C + of_int r\<rparr> in
               if L = unat (currentMsgLength C)
               then andThen (memcpy (ptrBuffer C) 0 (c_priv C) L) (\<lambda>b. Ok (C\<lparr>ptrBuffer := b\<rparr>, s))
               else andThen (recv_into T (L - unat (currentMsgLength C)) (C, s)) (\<lambda>(r, C, s).
                    gather_loop T L r (if r \<le> 0 then releaseAll T (C, s) else (C, s))))
     else Ok (C, s))"

section \<open>Class NetFSM\<close>

text \<open>The arrays are what \<^verbatim>\<open>new\<close> returned, the socket \<^verbatim>\<open>client\<close> is not initialised.\<close>

definition NetFSM_new :: "Transport \<Rightarrow> 'p FiniteStateMachine \<Rightarrow> 'g kernel \<Rightarrow> 's \<Rightarrow> ('p, 'g, 's) netfsm" where
  "NetFSM_new raw F K s = \<lparr>fsm = F, tr = raw, kern = K, nets = s, receivingSide = None\<rparr>"

text \<open>The destructor does not wait for the thread, nor does it delete the client.\<close>

definition NetFSM_delete :: "('p, 'g, 's) netfsm \<Rightarrow> ('p, 'g, 's) netfsm" where
  "NetFSM_delete N = N\<lparr>receivingSide := map_option thread_stop (receivingSide N)\<rparr>"

text \<open>\<open>started\<close>: \<^verbatim>\<open>CreateThread\<close> succeeds; \<open>b1\<close>, \<open>b2\<close> are the new client's memory.\<close>

definition acceptConnection :: "bool \<Rightarrow> uint8 list \<Rightarrow> uint8 list \<Rightarrow> ('p, 'g, 's) netfsm \<Rightarrow> int \<Rightarrow> int \<times> ('p, 'g, 's) netfsm" where
  "acceptConnection started b1 b2 N newSocket =
     (let N = N\<lparr>receivingSide := Some (Client_new b1 b2 newSocket)\<rparr> in
      if started then (0, N\<lparr>tr := (tr N)\<lparr>client := newSocket\<rparr>\<rparr>) else (- 1, N))"

text \<open>
  \<open>known\<close> tells whether \<^verbatim>\<open>gethostbyname\<close> finds a name; its null result is dereferenced. The
  socket is bound to port 0, any local port.
\<close>

definition establishConnection :: "'s tcp \<Rightarrow> (uint8 list \<Rightarrow> bool) \<Rightarrow> bool \<Rightarrow> uint8 list \<Rightarrow> uint8 list \<Rightarrow> ('p, 'g, 's) netfsm \<Rightarrow> ('p, 'g, 's) netfsm res" where
  "establishConnection T known started b1 b2 N =
     (let R = tr N; host = takeWhile (\<lambda>b. b \<noteq> 0) (ip R) in
      andThen (rd (ip R) 0) (\<lambda>c.
      andThen (if digit c \<or> known host then Ok () else Fault MemFault) (\<lambda>_.
      case socket T (nets N) of (sock, s) \<Rightarrow>
      let N = N\<lparr>tr := R\<lparr>cli_sock := sock\<rparr>, nets := s\<rparr> in
      andThen (throwIf (sock = - 1) 0) (\<lambda>_.
      case setsockopt T sock s of (ok, s) \<Rightarrow>
      andThen (throwIf (\<not> ok) 0) (\<lambda>_.
      case bind T sock 0 s of (ok, s) \<Rightarrow>
      andThen (throwIf (\<not> ok) 0) (\<lambda>_.
      case connect T sock host (int (unat (port R))) s of (ok, s) \<Rightarrow>
      andThen (throwIf (\<not> ok) 0) (\<lambda>_.
      let s = (if client R \<noteq> 0 then closesocket T (client R) s else s);
          N = N\<lparr>tr := (tr N)\<lparr>client := sock\<rparr>, nets := s, receivingSide := Some (Client_new b1 b2 sock)\<rparr> in
      andThen (throwIf (\<not> started) 0) (\<lambda>_. Ok N)))))))) "

definition killConnection :: "'s tcp \<Rightarrow> ('p, 'g, 's) netfsm \<Rightarrow> ('p, 'g, 's) netfsm res" where
  "killConnection T N = (case receivingSide N of None \<Rightarrow> Fault MemFault
     | Some C \<Rightarrow> case releaseAll T (C, nets N) of (C, s) \<Rightarrow> Ok (N\<lparr>receivingSide := Some C, nets := s\<rparr>))"

text \<open>\<open>conv\<close> is \<^verbatim>\<open>convertFSMToNetMessage\<close>. The result of \<^verbatim>\<open>send\<close> is kept in 16 bits without a sign.\<close>

definition sendToTCP :: "bool \<Rightarrow> 's tcp \<Rightarrow> (('p, 'g, 's) netfsm \<Rightarrow> ('p, 'g, 's) netfsm res) \<Rightarrow> ('p, 'g, 's) netfsm \<Rightarrow> ('p, 'g, 's) netfsm res" where
  "sendToTCP dbg T conv N =
     (let F = fsm N; K = kern N in
      andThen (get16 K (NewMessage F) MSG_LENGTH) (\<lambda>len.
      andThen (get_bytes (memory K) (NewMessage F)) (\<lambda>newMsg.
      andThen (memcpy (fsmMessageS (tr N)) 0 newMsg (unat len + MSG_HEADER_LENGTH)) (\<lambda>m.
      andThen (API_RetBuffer dbg K (NewMessage F)) (\<lambda>K.
      andThen (conv (N\<lparr>fsm := F\<lparr>NewMessage := NULL\<rparr>, kern := K, tr := (tr N)\<lparr>fsmMessageS := m,
        fsmMessageSInfoLength := len, fsmMessageSLength := len + of_nat MSG_HEADER_LENGTH\<rparr>\<rparr>)) (\<lambda>N.
      let R = tr N in
      andThen (throwIf (client R = 0) 0) (\<lambda>_.
      andThen (memcpy (priv R) 0 (protocolMessageS R) NET_MAX_LENGTH) (\<lambda>p.
      if 0 \<notin> set (protocolMessageS R) then Fault MemFault
      else case send T (client R) (takeWhile (\<lambda>b. b \<noteq> 0) (protocolMessageS R)) (nets N) of (r, s) \<Rightarrow>
        let sendedBytes = of_int r :: uint16 in
        andThen (throwIf (sendedBytes = 0) 0) (\<lambda>_.
        Ok (N\<lparr>tr := R\<lparr>priv := p\<rparr>, nets := s\<rparr>))))))))))"

definition workWhenReceive :: "bool \<Rightarrow> win32 \<Rightarrow> uint16 \<Rightarrow> ('p, 'g, 's) netfsm \<Rightarrow> ('p, 'g, 's) netfsm res" where
  "workWhenReceive dbg w msgCoding N =
     (let F = fsm N; R = tr N; n = unat (fsmMessageRLength R) in
      andThen (API_GetBuffer dbg (kern N) (ucast (fsmMessageRLength R) + of_nat MSG_HEADER_LENGTH)) (\<lambda>(msg, K).
      andThen (on_bytes (memory K) msg (\<lambda>bs. memcpy bs MSG_HEADER_LENGTH (fsmMessageR R) n)) (\<lambda>h.
      andThen (set8 (K\<lparr>memory := h\<rparr>) msg MSG_TO_AUTOMATE (automateId F)) (\<lambda>K.
      andThen (set8 K msg MSG_TO_GROUP (GroupId F)) (\<lambda>K.
      andThen (set32 K msg MSG_OBJECT_ID_TO (ConnectionId F)) (\<lambda>K.
      andThen (set8 K msg MSG_INFO_CODING (ucast msgCoding)) (\<lambda>K.
      andThen (set16 K msg MSG_CODE (currentMessageCode R)) (\<lambda>K.
      andThen (set16 K msg MSG_LENGTH (fsmMessageRLength R)) (\<lambda>K.
      andThen (SendMessage_msg w K (mbxId F) msg) (\<lambda>K. Ok (N\<lparr>kern := K\<rparr>)))))))))))"

definition getMsgCodeFSMMessageS :: "Transport \<Rightarrow> uint16 res" where
  "getMsgCodeFSMMessageS R = andThen (rd (fsmMessageS R) (off MSG_CODE)) (\<lambda>b. Ok (ucast b))"

definition getMsgCodingInfoFSMMessageS :: "Transport \<Rightarrow> uint8 res" where
  "getMsgCodingInfoFSMMessageS R = rd (fsmMessageS R) (off MSG_INFO_CODING)"

section \<open>The receiving threads\<close>

text \<open>
  \<open>to_fsm\<close> is \<^verbatim>\<open>convertNetToFSMMessage\<close>, \<open>infoCoding\<close> \<^verbatim>\<open>getProtocolInfoCoding\<close>, \<open>hlen\<close> and \<open>tpkt_len\<close>
  are \<^verbatim>\<open>getTPKTLen\<close> and \<^verbatim>\<open>getLenFromTPKT\<close>. \<^verbatim>\<open>NetError\<close> does nothing unless it is overridden.
\<close>

definition deliver :: "(('p, 'g, 's) netfsm \<Rightarrow> (uint16 \<times> ('p, 'g, 's) netfsm) res) \<Rightarrow> uint16 \<Rightarrow> uint8 list
    \<Rightarrow> ('p, 'g, 's) netfsm \<Rightarrow> ('p, 'g, 's) netfsm res" where
  "deliver to_fsm len prot N =
     andThen (to_fsm (N\<lparr>tr := (tr N)\<lparr>receivedMessageLength := len, protocolMessageR := prot\<rparr>\<rparr>)) (\<lambda>(code, N).
     Ok (N\<lparr>tr := (tr N)\<lparr>currentMessageCode := code\<rparr>\<rparr>))"

definition Client_workToDo :: "bool \<Rightarrow> win32 \<Rightarrow> 's tcp \<Rightarrow> nat \<Rightarrow> (uint8 list \<Rightarrow> uint32) \<Rightarrow> uint8
    \<Rightarrow> (('p, 'g, 's) netfsm \<Rightarrow> (uint16 \<times> ('p, 'g, 's) netfsm) res) \<Rightarrow> Clnt \<times> ('p, 'g, 's) netfsm \<Rightarrow> (Clnt \<times> ('p, 'g, 's) netfsm) res" where
  "Client_workToDo dbg w T hlen tpkt_len infoCoding to_fsm = (\<lambda>(C, N).
     andThen (recv_into T hlen (C, nets N)) (\<lambda>(r, C, s).
     if r \<le> 0 then (case releaseAll T (C, s) of (C, s) \<Rightarrow> Ok (C, N\<lparr>nets := s\<rparr>))
     else let l = unat (ucast (tpkt_len (ptrBuffer C)) :: uint16);
              L = (if CLIENT_MAX_LENGTH < l then CLIENT_MAX_LENGTH else l) in
       andThen (recv_into T L (C, s)) (\<lambda>(r, C, s).
       if r \<le> 0 then (case releaseAll T (C, s) of (C, s) \<Rightarrow> Ok (C, N\<lparr>nets := s\<rparr>))
       else andThen (gather_loop T L r (C, s)) (\<lambda>(C, s).
            andThen (memcpy (protocolMessageR (tr N)) 0 (ptrBuffer C) L) (\<lambda>prot.
            andThen (deliver to_fsm (of_nat L) prot (N\<lparr>nets := s\<rparr>)) (\<lambda>N.
            andThen (workWhenReceive dbg w (ucast infoCoding) N) (\<lambda>N. Ok (C, N))))))))"

text \<open>
  \<^verbatim>\<open>Client_DTP::workToDo\<close> asks for 2048 bytes in the buffer its base class gave 1024. Its
  loop has no exit.
\<close>

definition Client_DTP_round :: "'s tcp \<Rightarrow> (('p, 'g, 's) netfsm \<Rightarrow> (uint16 \<times> ('p, 'g, 's) netfsm) res)
    \<Rightarrow> Clnt \<times> ('p, 'g, 's) netfsm \<Rightarrow> (Clnt \<times> ('p, 'g, 's) netfsm) res" where
  "Client_DTP_round T to_fsm = (\<lambda>(C, N).
     andThen (recv_into T 2048 (C, nets N)) (\<lambda>(r, C, s).
     if r = 0 then (case releaseAll T (C, s) of (C, s) \<Rightarrow> Ok (C, N\<lparr>nets := s\<rparr>))
     else if 0 < r
     then andThen (memcpy (protocolMessageR (tr N)) 0 (ptrBuffer C) (nat r)) (\<lambda>prot.
          andThen (wr prot (nat r) 0) (\<lambda>prot.
          andThen (deliver to_fsm (of_int r) prot (N\<lparr>nets := s\<rparr>)) (\<lambda>N. Ok (C, N))))
     else Ok (C, N\<lparr>nets := s\<rparr>)))"

partial_function (option) Client_DTP_workToDo :: "'s tcp \<Rightarrow> (('p, 'g, 's) netfsm \<Rightarrow> (uint16 \<times> ('p, 'g, 's) netfsm) res)
    \<Rightarrow> Clnt \<times> ('p, 'g, 's) netfsm \<Rightarrow> (fault + Clnt \<times> ('p, 'g, 's) netfsm) option" where
  [code]: "Client_DTP_workToDo T to_fsm st = andThen (Client_DTP_round T to_fsm st) (Client_DTP_workToDo T to_fsm)"

text \<open>\<^verbatim>\<open>threadFunction\<close>: \<open>work\<close> is the virtual \<^verbatim>\<open>workToDo\<close>.\<close>

partial_function (option) threadFunction :: "(Clnt \<times> 'n \<Rightarrow> (Clnt \<times> 'n) res) \<Rightarrow> Clnt \<times> 'n \<Rightarrow> (fault + Clnt \<times> 'n) option" where
  [code]: "threadFunction work st =
     (if c_end (fst st) then Ok st else andThen (work st) (threadFunction work))"

section \<open>Putting a message together\<close>

definition client_ok :: "Clnt \<Rightarrow> bool" where
  "client_ok C \<longleftrightarrow> length (ptrBuffer C) = CLIENT_MAX_LENGTH \<and> length (c_priv C) = CLIENT_MAX_LENGTH"

lemma Client_new_ok:
  "CLIENT_MAX_LENGTH \<le> length b1 \<Longrightarrow> CLIENT_MAX_LENGTH \<le> length b2 \<Longrightarrow> client_ok (Client_new b1 b2 sock)"
  by (simp add: client_ok_def Client_new_def)

lemma recv_into_ok:
  assumes "client_ok C" "recv T (c_client C) n s = (Some bs, s')" "length bs \<le> CLIENT_MAX_LENGTH"
  shows "recv_into T n (C, s) = Ok (int (length bs), C\<lparr>ptrBuffer := bs @ drop (length bs) (ptrBuffer C)\<rparr>, s')"
  using assms by (simp add: recv_into_def client_ok_def memcpy_def)

lemma client_ok_filled:
  "client_ok C \<Longrightarrow> length bs = k \<Longrightarrow> k \<le> CLIENT_MAX_LENGTH \<Longrightarrow> client_ok (C\<lparr>ptrBuffer := bs @ drop k (ptrBuffer C)\<rparr>)"
  by (simp add: client_ok_def)

text \<open>
  From \<open>cur\<close> on the loop completes a message of \<open>L\<close> bytes with what the stream holds next:
  the first \<open>cur\<close> bytes of the result are those that were in \<^verbatim>\<open>priv\<close> before.
\<close>

lemma gather_loop_ok:
  assumes d: "delivers T sock pending"
  shows "client_ok C \<Longrightarrow> c_client C = sock \<Longrightarrow> unat (currentMsgLength C) = cur \<Longrightarrow> 0 < k \<Longrightarrow> cur + k \<le> L \<Longrightarrow>
    L \<le> CLIENT_MAX_LENGTH \<Longrightarrow> length got = k \<Longrightarrow> take k (ptrBuffer C) = got \<Longrightarrow> pending s = todo @ rest \<Longrightarrow>
    cur + k + length todo = L \<Longrightarrow>
    \<exists>C' s'. gather_loop T L (int k) (C, s) = Ok (C', s') \<and> client_ok C' \<and> c_client C' = sock \<and>
      unat (currentMsgLength C') = L \<and> take L (ptrBuffer C') = take cur (c_priv C) @ got @ todo \<and>
      take L (c_priv C') = take L (ptrBuffer C') \<and> pending s' = rest"
proof (induction "length todo" arbitrary: C cur k got todo s rule: less_induct)
  case less
  note C = less.prems(1)[unfolded client_ok_def]
  have c: "unat (currentMsgLength C) = cur" by (rule less.prems(3))
  have small: "cur + k < 2 ^ 16" using less.prems(5,6) by (simp add: CLIENT_MAX_LENGTH_def)
  have u: "unat (currentMsgLength C + of_nat k) = cur + k"
  proof -
    have "currentMsgLength C + of_nat k = of_nat (cur + k)" by (simp add: c [symmetric])
    then show ?thesis using unat16 [OF small] by simp
  qed
  let ?p = "take cur (c_priv C) @ got @ drop (cur + k) (c_priv C)"
  have m: "memcpy (c_priv C) cur (ptrBuffer C) k = Ok ?p"
    using C less.prems(5,6,8) by (simp add: memcpy_def)
  let ?C = "C\<lparr>c_priv := ?p, currentMsgLength := currentMsgLength C + of_nat k\<rparr>"
  have lp: "length ?p = CLIENT_MAX_LENGTH" using C less.prems(5,6,7) by simp
  have "int (unat (currentMsgLength C)) = int cur" using c by (rule arg_cong)
  then have g: "uint (currentMsgLength C) = int cur" by simp
  have step: "gather_loop T L (int k) (C, s) =
      (if L = cur + k then andThen (memcpy (ptrBuffer C) 0 ?p L) (\<lambda>b. Ok (?C\<lparr>ptrBuffer := b\<rparr>, s))
       else andThen (recv_into T (L - (cur + k)) (?C, s)) (\<lambda>(r, C, s).
            gather_loop T L r (if r \<le> 0 then releaseAll T (C, s) else (C, s))))"
    using less.prems(4,5) m u c g by (subst gather_loop.simps) (simp add: Let_def)
  show ?case
  proof (cases "L = cur + k")
    case True
    then have "todo = []" using less.prems(10) by simp
    moreover have "take L ?p = take cur (c_priv C) @ got" using True C less.prems(6,7) by simp
    ultimately show ?thesis
      using True step C lp u less.prems(2,6,9) by (simp add: memcpy_def client_ok_def)
  next
    case False
    then have "todo \<noteq> []" "0 < L - (cur + k)" using less.prems(5,10) by auto
    then have ne: "0 < L - (cur + k)" "pending s \<noteq> []" using less.prems(9) by auto
    obtain j s1 where j: "0 < j" "j \<le> L - (cur + k)" "j \<le> length (pending s)"
      "recv T sock (L - (cur + k)) s = (Some (take j (pending s)), s1)" "pending s1 = drop j (pending s)"
      using deliversE [OF d ne] by blast
    have jm: "j \<le> length todo" using j(2) less.prems(10) by simp
    have tk: "take j (pending s) = take j todo" "pending s1 = drop j todo @ rest" using j(5) jm less.prems(9) by simp_all
    have okC: "client_ok ?C" using C lp by (simp add: client_ok_def)
    let ?C2 = "?C\<lparr>ptrBuffer := take j todo @ drop j (ptrBuffer C)\<rparr>"
    have lj: "length (take j todo) = j" using jm by simp
    have r: "recv_into T (L - (cur + k)) (?C, s) = Ok (int j, ?C2, s1)"
      using recv_into_ok [OF okC, of T "L - (cur + k)" s "take j todo" s1] j(4) tk(1) lj jm less.prems(2,6,10) by simp
    have e: "take (cur + k) (c_priv ?C2) @ take j todo @ drop j todo = take cur (c_priv C) @ got @ todo"
      using C less.prems(5,6,7) by simp
    have "\<exists>C' s'. gather_loop T L (int j) (?C2, s1) = Ok (C', s') \<and> client_ok C' \<and> c_client C' = sock \<and>
      unat (currentMsgLength C') = L \<and> take L (ptrBuffer C') = take (cur + k) (c_priv ?C2) @ take j todo @ drop j todo \<and>
      take L (c_priv C') = take L (ptrBuffer C') \<and> pending s' = rest"
    proof (rule less.hyps)
      show "client_ok ?C2" using okC jm less.prems(6,10) by (simp add: client_ok_def)
    qed (use j jm tk u less.prems in auto)
    then show ?thesis using step False r j(1) unfolding e by simp
  qed
qed

section \<open>Posting what was received\<close>

lemma on_bytes_upd:
  assumes "owned K mss xss ts a" "f (msg_bytes K a) = Ok bs"
  shows "on_bytes (memory K) a f = Ok (memory (upd a (\<lambda>_. bs) K))"
proof -
  obtain b where "a \<noteq> NULL" "memory K a = Some b" by (rule owned_msg [OF assms(1)]) simp
  then show ?thesis using assms(2) by (simp add: on_bytes_def upd_def msg_bytes_def)
qed

lemma memory_upd_self: "K\<lparr>memory := memory (upd a f K)\<rparr> = upd a f K"
  by (simp add: upd_def)

text \<open>The header of a message an automate posts to itself, written over the bytes \<open>bs\<close>.\<close>

definition self_header :: "uint8 \<Rightarrow> uint8 \<Rightarrow> uint32 \<Rightarrow> uint8 \<Rightarrow> uint16 \<Rightarrow> uint16 \<Rightarrow> uint8 list \<Rightarrow> uint8 list" where
  "self_header a grp obj infoCoding code len bs =
     put16 (put16 ((put32 (bs[2 := a, 3 := grp]) 10 obj)[18 := infoCoding]) 4 code) 19 len"

lemma length_self_header [simp]: "length (self_header a g obj c code len bs) = length bs"
  by (simp add: self_header_def)

lemma self_header_fields:
  assumes "21 \<le> length bs"
  shows "self_header a g obj c code len bs ! off MSG_TO_AUTOMATE = a" "self_header a g obj c code len bs ! off MSG_TO_GROUP = g"
    "le32 (self_header a g obj c code len bs) (off MSG_OBJECT_ID_TO) = obj" "self_header a g obj c code len bs ! off MSG_INFO_CODING = c"
    "le16 (self_header a g obj c code len bs) (off MSG_CODE) = code" "le16 (self_header a g obj c code len bs) (off MSG_LENGTH) = len"
  using assms by (simp_all add: self_header_def)

lemma drop_self_header: "drop 21 (self_header a g obj c code len bs) = drop 21 bs"
  by (simp add: self_header_def put16_def put32_def drop_update_cancel)

abbreviation net_header :: "uint8 \<Rightarrow> ('p, 'g, 's) netfsm \<Rightarrow> uint8 list \<Rightarrow> uint8 list" where
  "net_header infoCoding N \<equiv> self_header (automateId (fsm N)) (GroupId (fsm N)) (ConnectionId (fsm N)) infoCoding
     (currentMessageCode (tr N)) (fsmMessageRLength (tr N))"

lemma owned_upd_at:
  assumes "owned K mss xss ts a" "length (f (msg_bytes K a)) = length (msg_bytes K a)"
  shows "owned (upd a f K) mss xss ts a"
proof -
  have "upd a f K = upd a (\<lambda>bs. if length (f bs) = length bs then f bs else bs) K"
    using assms(2) by (simp add: upd_def msg_bytes_def)
  then show ?thesis using owned_upd [OF assms(1), of "\<lambda>bs. if length (f bs) = length bs then f bs else bs"] by simp
qed

text \<open>A buffer of the best size is taken and \<open>n\<close> bytes are copied behind its header.\<close>

lemma get_and_fill:
  assumes ok: "kernel_ok K mss xss ts" and n: "n < 2 ^ 16" "n \<le> length src"
    and k: "best_class (pool K) (of_nat (n + MSG_HEADER_LENGTH)) k" "xss ! k = x # xs"
  shows "\<exists>p' K1. API_GetBuffer dbg K (of_nat (n + MSG_HEADER_LENGTH)) = Ok (x, K\<lparr>pool := p'\<rparr>) \<and>
    on_bytes (memory K) x (\<lambda>b. memcpy b MSG_HEADER_LENGTH src n) = Ok (memory K1) \<and> K\<lparr>pool := p', memory := memory K1\<rparr> = K1 \<and>
    kernel_ok K1 mss (xss[k := xs]) ts \<and> owned K1 mss (xss[k := xs]) ts x \<and>
    take n (drop MSG_HEADER_LENGTH (msg_bytes K1 x)) = take n src \<and> n + MSG_HEADER_LENGTH \<le> length (msg_bytes K1 x)"
proof -
  have un: "unat (of_nat (n + MSG_HEADER_LENGTH) :: uint32) = n + MSG_HEADER_LENGTH"
    using n(1) by (intro unat32) (simp add: MSG_HEADER_LENGTH_def)
  then have "(21 :: uint32) \<le> of_nat (n + MSG_HEADER_LENGTH)" by (simp add: word_le_nat_alt MSG_HEADER_LENGTH_def)
  then obtain p' where g: "API_GetBuffer dbg K (of_nat (n + MSG_HEADER_LENGTH)) = Ok (x, K\<lparr>pool := p'\<rparr>)"
    "kernel_ok (K\<lparr>pool := p'\<rparr>) mss (xss[k := xs]) ts" "owned (K\<lparr>pool := p'\<rparr>) mss (xss[k := xs]) ts x"
    "n + MSG_HEADER_LENGTH \<le> length (msg_bytes K x)"
    using API_GetBuffer_ok [OF ok k] un by metis
  let ?P = "K\<lparr>pool := p'\<rparr>"
  define bs where "bs = take MSG_HEADER_LENGTH (msg_bytes K x) @ take n src @ drop (MSG_HEADER_LENGTH + n) (msg_bytes K x)"
  have mP: "msg_bytes ?P x = msg_bytes K x" by (simp add: msg_bytes_def)
  have lb: "length bs = length (msg_bytes K x)" using g(4) n(2) by (simp add: bs_def)
  have m: "memcpy (msg_bytes ?P x) MSG_HEADER_LENGTH src n = Ok bs" using g(4) n(2) mP by (simp add: memcpy_def bs_def)
  define K1 where "K1 = upd x (\<lambda>_. bs) ?P"
  have o1: "owned K1 mss (xss[k := xs]) ts x" "kernel_ok K1 mss (xss[k := xs]) ts" "msg_bytes K1 x = bs"
    using owned_upd_at [OF g(3), of "\<lambda>_. bs"] kernel_ok_upd [OF g(2,3), of "\<lambda>_. bs"] lb mP by (simp_all add: K1_def)
  have "on_bytes (memory K) x (\<lambda>b. memcpy b MSG_HEADER_LENGTH src n) = Ok (memory K1)"
    using on_bytes_upd [OF g(3), of "\<lambda>b. memcpy b MSG_HEADER_LENGTH src n", OF m] by (simp add: K1_def)
  moreover have "K\<lparr>pool := p', memory := memory K1\<rparr> = K1"
    unfolding K1_def by (simp add: upd_def)
  moreover have "take n (drop MSG_HEADER_LENGTH bs) = take n src" using g(4) n(2) by (simp add: bs_def)
  ultimately show ?thesis using g(1,4) o1 lb by (intro exI [of _ p'], intro exI [of _ K1]) (simp only: simp_thms)
qed

text \<open>Its header is written and it is appended to a mailbox.\<close>

lemma post_filled:
  assumes ok: "kernel_ok K mss xss ts" and o: "owned K mss xss ts x" and f: "\<And>b. length (f b) = length b"
    and mb: "unat mbx < length mss"
  shows "\<exists>K'. SendMessage_msg w (upd x f K) mbx x = Ok K' \<and> kernel_ok K' (posted mss (unat mbx) x) xss ts \<and>
    msg_bytes K' x = f (msg_bytes K x)"
proof -
  let ?K = "upd x f K"
  have own: "owned ?K mss xss ts x" by (rule owned_upd [OF o f])
  obtain po' h' where a: "API_Add w ?K mbx x = Ok (?K\<lparr>office := po', memory := h'\<rparr>)"
    "kernel_ok (?K\<lparr>office := po', memory := h'\<rparr>) (posted mss (unat mbx) x) xss ts"
    "relinked (insert x (set (mss ! unat mbx))) (memory ?K) h'"
    using API_Add_ok [OF kernel_ok_upd [OF ok o] own mb, of w] by auto
  have "same_content (memory ?K x) (h' x)" using a(3) by (simp add: relinked_def)
  moreover obtain b where "memory K x = Some b" by (rule owned_msg [OF o]) simp
  ultimately have "msg_bytes (?K\<lparr>office := po', memory := h'\<rparr>) x = f (msg_bytes K x)"
    by (cases "h' x") (auto simp: upd_def msg_bytes_def)
  then show ?thesis using a(1,2) by (simp add: SendMessage_msg_def)
qed

lemma workWhenReceive_ok:
  assumes ok: "kernel_ok (kern N) mss xss ts" and n: "n = unat (fsmMessageRLength (tr N))" "n \<le> length (fsmMessageR (tr N))"
    and k: "best_class (pool (kern N)) (of_nat (n + MSG_HEADER_LENGTH)) k" "xss ! k = x # xs"
    and mb: "unat (mbxId (fsm N)) < length mss"
  shows "\<exists>K' bs. workWhenReceive dbg w msgCoding N = Ok (N\<lparr>kern := K'\<rparr>) \<and>
    kernel_ok K' (posted mss (unat (mbxId (fsm N))) x) (xss[k := xs]) ts \<and>
    msg_bytes K' x = net_header (ucast msgCoding) N bs \<and> take n (drop MSG_HEADER_LENGTH bs) = take n (fsmMessageR (tr N)) \<and>
    n + MSG_HEADER_LENGTH \<le> length bs"
proof -
  let ?K = "kern N"
  have n16: "n < 2 ^ 16" using unsigned_less [of "fsmMessageRLength (tr N)", where ?'a = nat] n(1) by simp
  have sz: "ucast (fsmMessageRLength (tr N)) + of_nat MSG_HEADER_LENGTH = (of_nat (n + MSG_HEADER_LENGTH) :: uint32)"
    by (simp add: n(1) unsigned_of_nat)
  obtain p' K1 where 1: "API_GetBuffer dbg ?K (of_nat (n + MSG_HEADER_LENGTH)) = Ok (x, ?K\<lparr>pool := p'\<rparr>)"
    "on_bytes (memory ?K) x (\<lambda>b. memcpy b MSG_HEADER_LENGTH (fsmMessageR (tr N)) n) = Ok (memory K1)"
    "?K\<lparr>pool := p', memory := memory K1\<rparr> = K1" "kernel_ok K1 mss (xss[k := xs]) ts" "owned K1 mss (xss[k := xs]) ts x"
    "take n (drop MSG_HEADER_LENGTH (msg_bytes K1 x)) = take n (fsmMessageR (tr N))" "n + MSG_HEADER_LENGTH \<le> length (msg_bytes K1 x)"
    using get_and_fill [OF ok n16 n(2) k] by blast
  let ?f = "net_header (ucast msgCoding) N"
  have o: "owned (upd x f K1) mss (xss[k := xs]) ts x" if "\<And>b. length (f b) = length b" for f
    by (rule owned_upd [OF 1(5) that])
  have run: "workWhenReceive dbg w msgCoding N = andThen (SendMessage_msg w (upd x ?f K1) (mbxId (fsm N)) x) (\<lambda>K. Ok (N\<lparr>kern := K\<rparr>))"
    using 1(1) [folded sz] 1(2) [unfolded n(1)] 1(3)
    by (simp add: workWhenReceive_def Let_def set_upd [OF 1(5)] set_upd [OF o] self_header_def [abs_def])
  obtain K' where "SendMessage_msg w (upd x ?f K1) (mbxId (fsm N)) x = Ok K'"
    "kernel_ok K' (posted mss (unat (mbxId (fsm N))) x) (xss[k := xs]) ts" "msg_bytes K' x = ?f (msg_bytes K1 x)"
    using post_filled [where f = ?f, OF 1(4,5) length_self_header mb, of w] by blast
  then show ?thesis using run 1(6,7) by (intro exI [of _ K'] exI [of _ "msg_bytes K1 x"]) simp
qed

section \<open>Properties of the network automates\<close>

definition ex_transport :: Transport where
  "ex_transport = \<lparr>port = 0, ip = replicate 16 0, fsmMessageR = replicate NET_MAX_LENGTH 7, protocolMessageR = replicate NET_MAX_LENGTH 0,
     fsmMessageS = replicate NET_MAX_LENGTH 0, protocolMessageS = replicate NET_MAX_LENGTH 0, fsmMessageSInfoLength = 0,
     fsmMessageSLength = 0, receivedMessageLength = 0, fsmMessageRLength = 2, currentMessageCode = 5, client = 1, cli_sock = 0,
     priv = replicate NET_MAX_LENGTH 0\<rparr>"

definition ex_netfsm :: "unit kernel \<Rightarrow> uint8 list \<Rightarrow> (nat, unit, uint8 list) netfsm" where
  "ex_netfsm K s = NetFSM_new ex_transport (ex_raw\<lparr>mbxId := 1\<rparr>) K s"

definition ex_clnt :: "uint16 \<Rightarrow> Clnt" where
  "ex_clnt c = (Client_new (replicate CLIENT_MAX_LENGTH 0) (replicate CLIENT_MAX_LENGTH 9) 1)\<lparr>currentMsgLength := c\<rparr>"

text \<open>C31: how \<^verbatim>\<open>Client::workToDo\<close> puts a message together. The header has arrived, the length in
  it, cut to 1024, is \<open>L\<close>, the stream holds at least \<open>L\<close> bytes, and the network gives them out in parts of any
  sizes, the first one being \<open>part\<close>. \<^verbatim>\<open>currentMsgLength\<close>, here \<open>c\<close>, is 0 for a new client: its first
  message is the next \<open>L\<close> bytes of the stream, which go on to be converted and posted. The length is never set
  back. For a later message it is that of an earlier one. If the first part leaves room for \<open>c\<close> bytes, the message
  that is converted and posted begins with \<open>c\<close> bytes of the message before, and \<open>c\<close> bytes of its own stay on the
  stream to be taken for the next header. Otherwise no other part is waited for: the message is that part and,
  if it is not all of the message, what the buffer held behind it, and the rest stays on the stream.\<close>

theorem reassembly_starts_at_old_length:
  assumes "client_ok C" "delivers T (c_client C) pending" "length (protocolMessageR (tr N)) = NET_MAX_LENGTH"
    and "recv T (c_client C) hlen (nets N) = (Some hdr, s1)" "hdr \<noteq> []" "length hdr \<le> CLIENT_MAX_LENGTH"
    and "buf = hdr @ drop (length hdr) (ptrBuffer C)" "L = min CLIENT_MAX_LENGTH (unat (ucast (tpkt_len buf) :: uint16))"
    and "c = unat (currentMsgLength C)" "0 < L" "L \<le> length (pending s1)" "recv T (c_client C) L s1 = (Some part, s2)"
  shows "\<exists>C' prot s'. Client_workToDo dbg w T hlen tpkt_len infoCoding to_fsm (C, N) =
      andThen (deliver to_fsm (of_nat L) prot (N\<lparr>nets := s'\<rparr>)) (\<lambda>N.
      andThen (workWhenReceive dbg w (ucast infoCoding) N) (\<lambda>N. Ok (C', N))) \<and> client_ok C' \<and>
    (c = 0 \<longrightarrow> take L prot = take L (pending s1) \<and> pending s' = drop L (pending s1)) \<and>
    (if c + length part \<le> L
     then take L prot = take c (c_priv C) @ take (L - c) (pending s1) \<and> pending s' = drop (L - c) (pending s1) \<and>
       unat (currentMsgLength C') = L \<and> take L (c_priv C') = take L prot
     else take L prot = part @ take (L - length part) (drop (length part) buf) \<and> pending s' = drop (length part) (pending s1) \<and>
       currentMsgLength C' = currentMsgLength C \<and> c_priv C' = c_priv C)"
proof -
  let ?C1 = "C\<lparr>ptrBuffer := buf\<rparr>" and ?k = "length part"
  have 1: "recv_into T hlen (C, nets N) = Ok (int (length hdr), ?C1, s1)"
    using recv_into_ok [OF assms(1,4,6)] assms(7) by simp
  have ok1: "client_ok ?C1" using assms(1,6,7) by (simp add: client_ok_def)
  have L: "L \<le> CLIENT_MAX_LENGTH" using assms(8) by simp
  have ne: "pending s1 \<noteq> []" using assms(10,11) by (cases "pending s1") auto
  have part: "0 < ?k" "?k \<le> L" "part = take ?k (pending s1)" "pending s2 = drop ?k (pending s1)"
    using deliversE [OF assms(2,10) ne] assms(11,12) by (metis length_take min.absorb2 option.inject prod.inject)+
  let ?C2 = "?C1\<lparr>ptrBuffer := part @ drop ?k buf\<rparr>"
  have kl: "?k \<le> CLIENT_MAX_LENGTH" using part(2) L by simp
  have 2: "recv_into T L (?C1, s1) = Ok (int ?k, ?C2, s2)" using recv_into_ok [OF ok1 _ kl, of T L s1 s2] assms(12) by simp
  have ok2: "client_ok ?C2" using client_ok_filled [OF ok1 refl kl] by simp
  have cut: "(if CLIENT_MAX_LENGTH < unat (ucast (tpkt_len buf) :: uint16) then CLIENT_MAX_LENGTH
      else unat (ucast (tpkt_len buf) :: uint16)) = L" using assms(8) by simp
  have "\<not> int (length hdr) \<le> 0" "\<not> int ?k \<le> 0" using assms(5) part(1) by simp_all
  then have run: "Client_workToDo dbg w T hlen tpkt_len infoCoding to_fsm (C, N) =
      andThen (gather_loop T L (int ?k) (?C2, s2)) (\<lambda>(C, s).
      andThen (memcpy (protocolMessageR (tr N)) 0 (ptrBuffer C) L) (\<lambda>prot.
      andThen (deliver to_fsm (of_nat L) prot (N\<lparr>nets := s\<rparr>)) (\<lambda>N.
      andThen (workWhenReceive dbg w (ucast infoCoding) N) (\<lambda>N. Ok (C, N)))))"
    using 1 2 cut by (cases "CLIENT_MAX_LENGTH < unat (ucast (tpkt_len buf) :: uint16)")
      (simp_all add: Client_workToDo_def Let_def del: of_nat_le_0_iff)
  have copy: "memcpy (protocolMessageR (tr N)) 0 (ptrBuffer C') L = Ok (take L (ptrBuffer C') @ drop L (protocolMessageR (tr N))) \<and>
      take L (take L (ptrBuffer C') @ drop L (protocolMessageR (tr N))) = take L (ptrBuffer C')" if "client_ok C'" for C'
    using that L assms(3) by (simp add: memcpy_def client_ok_def NET_MAX_LENGTH_def CLIENT_MAX_LENGTH_def)
  show ?thesis
  proof (cases "c + ?k \<le> L")
    case True
    let ?todo = "drop ?k (take (L - c) (pending s1))"
    have le: "?k \<le> length (take (L - c) (pending s1))" "take ?k (take (L - c) (pending s1)) = part"
      using True part(3) [symmetric] assms(11) by (simp_all add: min_absorb1)
    have split: "part @ ?todo = take (L - c) (pending s1)"
      using append_take_drop_id [of ?k "take (L - c) (pending s1)"] unfolding le(2) .
    have "drop ?k (take (L - c) (pending s1) @ drop (L - c) (pending s1)) = ?todo @ drop (L - c) (pending s1)"
      using le(1) by (simp only: drop_append) simp
    then have t: "pending s2 = ?todo @ drop (L - c) (pending s1)" using part(4) by simp
    have "\<exists>C' s'. gather_loop T L (int ?k) (?C2, s2) = Ok (C', s') \<and> client_ok C' \<and> c_client C' = c_client C \<and>
        unat (currentMsgLength C') = L \<and> take L (ptrBuffer C') = take c (c_priv ?C2) @ part @ ?todo \<and>
        take L (c_priv C') = take L (ptrBuffer C') \<and> pending s' = drop (L - c) (pending s1)"
      by (rule gather_loop_ok [OF assms(2) ok2]) (use True part(1) t L assms(9,11) in simp_all)
    then obtain C' s' where C': "gather_loop T L (int ?k) (?C2, s2) = Ok (C', s')" "client_ok C'" "unat (currentMsgLength C') = L"
      "take L (ptrBuffer C') = take c (c_priv C) @ take (L - c) (pending s1)" "take L (c_priv C') = take L (ptrBuffer C')"
      "pending s' = drop (L - c) (pending s1)"
      unfolding split by auto
    let ?prot = "take L (ptrBuffer C') @ drop L (protocolMessageR (tr N))"
    show ?thesis using run C' copy [OF C'(2)] True assms(11)
      by (intro exI [of _ C'] exI [of _ ?prot] exI [of _ s']) simp
  next
    case False
    have "gather_loop T L (int ?k) (?C2, s2) = Ok (?C2, s2)"
    proof -
      have "int c = uint (currentMsgLength C)" unfolding assms(9) by simp
      then have "\<not> int ?k \<le> int L - uint (currentMsgLength C)" using False by linarith
      then show ?thesis by (subst gather_loop.simps) simp
    qed
    moreover have "take L (ptrBuffer ?C2) = part @ take (L - ?k) (drop ?k buf)" using part(2) by simp
    moreover have "c \<noteq> 0" using False part(2) by simp
    ultimately show ?thesis using run copy [OF ok2] ok2 False part(4)
      by (intro exI [of _ ?C2] exI [of _ "take L (ptrBuffer ?C2) @ drop L (protocolMessageR (tr N))"] exI [of _ s2]) simp
  qed
qed

text \<open>A client with the length 2 left of the message before, on a network that gives out two bytes at a time; and a
  new client, on one that gives out all that is asked for.\<close>

theorem reassembly_starts_at_old_length_witness:
  "(\<exists>C' prot s'. Client_workToDo False ex_win (parts_net 2) 1 (\<lambda>b. ucast (hd b)) 0 (\<lambda>N. Ok (1, N)) (ex_clnt 2, ex_netfsm ex_kernel [6, 1, 2, 3, 4, 5, 6]) =
      andThen (deliver (\<lambda>N. Ok (1, N)) (of_nat 6) prot ((ex_netfsm ex_kernel [6, 1, 2, 3, 4, 5, 6])\<lparr>nets := s'\<rparr>)) (\<lambda>N.
      andThen (workWhenReceive False ex_win (ucast (0 :: uint8)) N) (\<lambda>N. Ok (C', N))) \<and>
      take 6 prot = [9, 9, 1, 2, 3, 4] \<and> s' = [5, 6]) \<and>
   (\<exists>C' prot s'. Client_workToDo False ex_win greedy_net 1 (\<lambda>b. ucast (hd b)) 0 (\<lambda>N. Ok (1, N)) (ex_clnt 0, ex_netfsm ex_kernel [6, 1, 2, 3, 4, 5, 6, 7]) =
      andThen (deliver (\<lambda>N. Ok (1, N)) (of_nat 6) prot ((ex_netfsm ex_kernel [6, 1, 2, 3, 4, 5, 6, 7])\<lparr>nets := s'\<rparr>)) (\<lambda>N.
      andThen (workWhenReceive False ex_win (ucast (0 :: uint8)) N) (\<lambda>N. Ok (C', N))) \<and>
      take 6 prot = [1, 2, 3, 4, 5, 6] \<and> s' = [7])"
proof (rule conjI)
  have d: "delivers (parts_net 2) (c_client (ex_clnt 2)) (\<lambda>s. s)" by (rule parts_net_delivers) simp
  note facts = ex_clnt_def Client_new_def client_ok_def CLIENT_MAX_LENGTH_def ex_netfsm_def NetFSM_new_def ex_transport_def
    parts_net_def greedy_net_def
  let ?eq = "\<lambda>C' prot s'. Client_workToDo False ex_win (parts_net 2) 1 (\<lambda>b. ucast (hd b)) 0 (\<lambda>N. Ok (1, N)) (ex_clnt 2, ex_netfsm ex_kernel [6, 1, 2, 3, 4, 5, 6]) =
      andThen (deliver (\<lambda>N. Ok (1, N)) (of_nat 6) prot ((ex_netfsm ex_kernel [6, 1, 2, 3, 4, 5, 6])\<lparr>nets := s'\<rparr>)) (\<lambda>N.
      andThen (workWhenReceive False ex_win (ucast (0 :: uint8)) N) (\<lambda>N. Ok (C', N)))"
  have "\<exists>C' prot s'. ?eq C' prot s' \<and> client_ok C' \<and>
    (2 = (0 :: nat) \<longrightarrow> take 6 prot = take 6 [1, 2, 3, 4, 5, 6] \<and> s' = drop 6 [1, 2, 3, 4, 5, 6]) \<and>
    (if 2 + length ([1, 2] :: uint8 list) \<le> 6
     then take 6 prot = take 2 (c_priv (ex_clnt 2)) @ take (6 - 2) [1, 2, 3, 4, 5, 6] \<and> s' = drop (6 - 2) [1, 2, 3, 4, 5, 6] \<and>
       unat (currentMsgLength C') = 6 \<and> take 6 (c_priv C') = take 6 prot
     else take 6 prot = [1, 2] @ take (6 - length ([1, 2] :: uint8 list)) (drop (length ([1, 2] :: uint8 list)) (6 # drop 1 (ptrBuffer (ex_clnt 2)))) \<and>
       s' = drop (length ([1, 2] :: uint8 list)) [1, 2, 3, 4, 5, 6] \<and> currentMsgLength C' = currentMsgLength (ex_clnt 2) \<and> c_priv C' = c_priv (ex_clnt 2))"
    by (rule reassembly_starts_at_old_length [where pending = "\<lambda>s. s" and hdr = "[6]" and ?s2.0 = "[3, 4, 5, 6]", OF _ d])
      (simp_all add: facts)
  then obtain C' prot s' where "?eq C' prot s'" "take 6 prot = take 2 (c_priv (ex_clnt 2)) @ take (6 - 2) [1, 2, 3, 4, 5, 6]" "s' = drop (6 - 2) [1, 2, 3, 4, 5, 6]"
    by (auto simp del: One_nat_def)
  moreover have "take 2 (c_priv (ex_clnt 2)) @ take (6 - 2) [1, 2, 3, 4, 5, 6] = [9, 9, 1, 2, 3, 4]"
    by (simp add: facts numeral_2_eq_2)
  ultimately show "\<exists>C' prot s'. ?eq C' prot s' \<and> take 6 prot = [9, 9, 1, 2, 3, 4] \<and> s' = [5, 6]"
    by (intro exI [of _ C'] exI [of _ prot] exI [of _ s']) simp
next
  have g: "delivers greedy_net (c_client (ex_clnt 0)) (\<lambda>s. s)" by (rule greedy_net_delivers)
  note facts = ex_clnt_def Client_new_def client_ok_def CLIENT_MAX_LENGTH_def ex_netfsm_def NetFSM_new_def ex_transport_def
    parts_net_def greedy_net_def
  let ?eq = "\<lambda>C' prot s'. Client_workToDo False ex_win greedy_net 1 (\<lambda>b. ucast (hd b)) 0 (\<lambda>N. Ok (1, N)) (ex_clnt 0, ex_netfsm ex_kernel [6, 1, 2, 3, 4, 5, 6, 7]) =
      andThen (deliver (\<lambda>N. Ok (1, N)) (of_nat 6) prot ((ex_netfsm ex_kernel [6, 1, 2, 3, 4, 5, 6, 7])\<lparr>nets := s'\<rparr>)) (\<lambda>N.
      andThen (workWhenReceive False ex_win (ucast (0 :: uint8)) N) (\<lambda>N. Ok (C', N)))"
  have "\<exists>C' prot s'. ?eq C' prot s' \<and> client_ok C' \<and>
    (0 = (0 :: nat) \<longrightarrow> take 6 prot = take 6 [1, 2, 3, 4, 5, 6, 7] \<and> s' = drop 6 [1, 2, 3, 4, 5, 6, 7]) \<and>
    (if 0 + length ([1, 2, 3, 4, 5, 6] :: uint8 list) \<le> 6
     then take 6 prot = take 0 (c_priv (ex_clnt 0)) @ take (6 - 0) [1, 2, 3, 4, 5, 6, 7] \<and> s' = drop (6 - 0) [1, 2, 3, 4, 5, 6, 7] \<and>
       unat (currentMsgLength C') = 6 \<and> take 6 (c_priv C') = take 6 prot
     else take 6 prot = [1, 2, 3, 4, 5, 6] @ take (6 - length ([1, 2, 3, 4, 5, 6] :: uint8 list)) (drop (length ([1, 2, 3, 4, 5, 6] :: uint8 list)) (6 # drop 1 (ptrBuffer (ex_clnt 0)))) \<and>
       s' = drop (length ([1, 2, 3, 4, 5, 6] :: uint8 list)) [1, 2, 3, 4, 5, 6, 7] \<and> currentMsgLength C' = currentMsgLength (ex_clnt 0) \<and> c_priv C' = c_priv (ex_clnt 0))"
    by (rule reassembly_starts_at_old_length [where pending = "\<lambda>s. s" and hdr = "[6]" and ?s2.0 = "[7]", OF _ g])
      (simp_all add: facts)
  then obtain C' prot s' where "?eq C' prot s'" "take 6 prot = take 0 (c_priv (ex_clnt 0)) @ take (6 - 0) [1, 2, 3, 4, 5, 6, 7]" "s' = drop (6 - 0) [1, 2, 3, 4, 5, 6, 7]"
    by (auto simp del: One_nat_def)
  moreover have "take 0 (c_priv (ex_clnt 0)) @ take (6 - 0) [1, 2, 3, 4, 5, 6, 7] = [1, 2, 3, 4, 5, 6]" by (simp add: facts)
  ultimately show "\<exists>C' prot s'. ?eq C' prot s' \<and> take 6 prot = [1, 2, 3, 4, 5, 6] \<and> s' = [7]"
    by (intro exI [of _ C'] exI [of _ prot] exI [of _ s']) simp
qed

text \<open>C30: what was received reaches the automate. \<^verbatim>\<open>workWhenReceive\<close> takes a buffer of the best
  size, copies the converted information behind the header, addresses it to the automate
  itself with the code, coding and length of the message, and appends it to the automate's
  own mailbox; the kernel stays in order.\<close>

theorem received_message_posted_to_self:
  assumes "kernel_ok (kern N) mss xss ts" "n = unat (fsmMessageRLength (tr N))" "n \<le> length (fsmMessageR (tr N))"
    and "best_class (pool (kern N)) (of_nat (n + MSG_HEADER_LENGTH)) k" "xss ! k = x # xs" "unat (mbxId (fsm N)) < length mss"
  shows "\<exists>K'. workWhenReceive dbg w msgCoding N = Ok (N\<lparr>kern := K'\<rparr>) \<and>
    kernel_ok K' (posted mss (unat (mbxId (fsm N))) x) (xss[k := xs]) ts \<and>
    take n (drop MSG_HEADER_LENGTH (msg_bytes K' x)) = take n (fsmMessageR (tr N)) \<and>
    msg_bytes K' x ! off MSG_TO_AUTOMATE = automateId (fsm N) \<and> msg_bytes K' x ! off MSG_TO_GROUP = GroupId (fsm N) \<and>
    le32 (msg_bytes K' x) (off MSG_OBJECT_ID_TO) = ConnectionId (fsm N) \<and> msg_bytes K' x ! off MSG_INFO_CODING = ucast msgCoding \<and>
    le16 (msg_bytes K' x) (off MSG_CODE) = currentMessageCode (tr N) \<and>
    le16 (msg_bytes K' x) (off MSG_LENGTH) = fsmMessageRLength (tr N)"
proof -
  obtain K' bs where 1: "workWhenReceive dbg w msgCoding N = Ok (N\<lparr>kern := K'\<rparr>)"
    "kernel_ok K' (posted mss (unat (mbxId (fsm N))) x) (xss[k := xs]) ts" "msg_bytes K' x = net_header (ucast msgCoding) N bs"
    "take n (drop MSG_HEADER_LENGTH bs) = take n (fsmMessageR (tr N))" "n + MSG_HEADER_LENGTH \<le> length bs"
    using workWhenReceive_ok [OF assms] by blast
  have "21 \<le> length bs" using 1(5) by (simp add: MSG_HEADER_LENGTH_def)
  then show ?thesis
    using 1 self_header_fields [of bs] drop_self_header [where bs = bs]
    by (intro exI [of _ K']) (simp add: MSG_HEADER_LENGTH_def)
qed

theorem received_message_posted_to_self_witness:
  "\<exists>(K :: unit kernel) x xs K'. workWhenReceive False ex_win 0 (ex_netfsm K []) = Ok ((ex_netfsm K [])\<lparr>kern := K'\<rparr>) \<and>
    kernel_ok K' (posted (replicate 4 []) 1 x) [xs] [] \<and>
    take 2 (drop 21 (msg_bytes K' x)) = [7, 7] \<and> le16 (msg_bytes K' x) 4 = 5 \<and> le16 (msg_bytes K' x) 19 = 2"
proof -
  obtain Y :: "(nat, unit) system" and x xs where Y: "kernel_ok (ker Y) (replicate 4 []) [x # xs] []" "best_class (pool (ker Y)) 23 0"
    using ex_peer by blast
  let ?N = "ex_netfsm (ker Y) []"
  have "\<exists>K'. workWhenReceive False ex_win 0 ?N = Ok (?N\<lparr>kern := K'\<rparr>) \<and>
    kernel_ok K' (posted (replicate 4 []) (unat (mbxId (fsm ?N))) x) ([x # xs][0 := xs]) [] \<and>
    take 2 (drop MSG_HEADER_LENGTH (msg_bytes K' x)) = take 2 (fsmMessageR (tr ?N)) \<and>
    msg_bytes K' x ! off MSG_TO_AUTOMATE = automateId (fsm ?N) \<and> msg_bytes K' x ! off MSG_TO_GROUP = GroupId (fsm ?N) \<and>
    le32 (msg_bytes K' x) (off MSG_OBJECT_ID_TO) = ConnectionId (fsm ?N) \<and> msg_bytes K' x ! off MSG_INFO_CODING = ucast (0 :: uint16) \<and>
    le16 (msg_bytes K' x) (off MSG_CODE) = currentMessageCode (tr ?N) \<and>
    le16 (msg_bytes K' x) (off MSG_LENGTH) = fsmMessageRLength (tr ?N)"
    by (rule received_message_posted_to_self)
      (use Y in \<open>simp_all add: ex_netfsm_def NetFSM_new_def ex_transport_def NET_MAX_LENGTH_def MSG_HEADER_LENGTH_def\<close>)
  then obtain K' where "workWhenReceive False ex_win 0 ?N = Ok (?N\<lparr>kern := K'\<rparr>)"
    "kernel_ok K' (posted (replicate 4 []) 1 x) [xs] []" "take 2 (drop 21 (msg_bytes K' x)) = [7, 7]"
    "le16 (msg_bytes K' x) 4 = 5" "le16 (msg_bytes K' x) 19 = 2"
    by (auto simp: ex_netfsm_def NetFSM_new_def ex_transport_def NET_MAX_LENGTH_def MSG_HEADER_LENGTH_def numeral_2_eq_2)
  then show ?thesis by blast
qed

text \<open>
  What \<^verbatim>\<open>sendToTCP\<close> sends is the converted text up to its first zero, and its result tells only
  whether the low 16 bits of \<^verbatim>\<open>send\<close>'s are zero: after a failure, \<open>- 1\<close>, it returns as
  after success.
\<close>

theorem failed_send_goes_unnoticed:
  assumes "get16 (kern N) (NewMessage (fsm N)) MSG_LENGTH = Ok len" "get_bytes (memory (kern N)) (NewMessage (fsm N)) = Ok bs"
    and "memcpy (fsmMessageS (tr N)) 0 bs (unat len + MSG_HEADER_LENGTH) = Ok m"
    and "API_RetBuffer dbg (kern N) (NewMessage (fsm N)) = Ok K"
    and "conv (N\<lparr>fsm := (fsm N)\<lparr>NewMessage := NULL\<rparr>, kern := K, tr := (tr N)\<lparr>fsmMessageS := m,
        fsmMessageSInfoLength := len, fsmMessageSLength := len + of_nat MSG_HEADER_LENGTH\<rparr>\<rparr>) = Ok N'"
    and "client (tr N') \<noteq> 0" "protocolMessageS (tr N') = text @ 0 # more_bytes" "0 \<notin> set text"
    and "length (protocolMessageS (tr N')) = NET_MAX_LENGTH" "length (priv (tr N')) = NET_MAX_LENGTH"
    and "send T (client (tr N')) text (nets N') = (r, s)"
  shows "sendToTCP dbg T conv N = (if (of_int r :: uint16) = 0 then Fault (Thrown 0)
    else Ok (N'\<lparr>tr := (tr N')\<lparr>priv := protocolMessageS (tr N')\<rparr>, nets := s\<rparr>))"
    and "(of_int (- 1) :: uint16) \<noteq> 0"
proof -
  have "\<forall>x \<in> set text. x \<noteq> 0" using assms(8) by blast
  then have "takeWhile (\<lambda>b. b \<noteq> 0) (text @ 0 # more_bytes) = text" by simp
  moreover have "memcpy (priv (tr N')) 0 (protocolMessageS (tr N')) NET_MAX_LENGTH = Ok (protocolMessageS (tr N'))"
    using assms(9,10) by (simp add: memcpy_def)
  ultimately show "sendToTCP dbg T conv N = (if (of_int r :: uint16) = 0 then Fault (Thrown 0)
    else Ok (N'\<lparr>tr := (tr N')\<lparr>priv := protocolMessageS (tr N')\<rparr>, nets := s\<rparr>))"
    using assms by (simp add: sendToTCP_def Let_def throwIf_def)
qed simp

text \<open>C32: the receiving thread outlives its connection. When the peer has closed, \<^verbatim>\<open>releaseAll\<close> sets
  the socket to 0 and marks the thread as ended, but the loop of \<^verbatim>\<open>Client_DTP::workToDo\<close> never
  looks at the mark: as every \<^verbatim>\<open>recv\<close> on socket 0 fails, it runs for ever without doing anything.\<close>

theorem receiver_outlives_connection:
  assumes "\<forall>n s. \<exists>s'. recv T 0 n s = (None, s')" "recv T (c_client C) 2048 (nets N) = (Some [], s1)"
  shows "Client_DTP_workToDo T to_fsm (C, N) = None"
proof -
  have idle: False if run: "Client_DTP_workToDo T f st = Some y" "c_client (fst st) = 0" for f st y
  proof -
    let ?P = "\<lambda>T' f st y. T' = T \<longrightarrow> c_client (fst st) \<noteq> 0"
    have "?P T f st y"
    proof (rule Client_DTP_workToDo.raw_induct [where P = ?P, OF _ run(1)], intro impI notI)
      fix work T' f st y
      assume ih: "\<And>T' f st y. work T' f st = Some y \<Longrightarrow> ?P T' f st y"
        and step: "andThen (Client_DTP_round T' f st) (work T' f) = Some y" and 0: "T' = T" "c_client (fst st) = 0"
      obtain C N where st: "st = (C, N)" by (cases st)
      obtain s' where "recv T 0 2048 (nets N) = (None, s')" using assms(1) by blast
      then have "Client_DTP_round T' f st = Ok (C, N\<lparr>nets := s'\<rparr>)"
        using 0 st by (simp add: Client_DTP_round_def recv_into_def)
      then show False using ih step 0 st by fastforce
    qed
    then show False using run(2) by simp
  qed
  obtain C' N' where "Client_DTP_round T to_fsm (C, N) = Ok (C', N')" "c_client C' = 0"
    using assms(2) by (cases "c_client C = 0") (auto simp: Client_DTP_round_def recv_into_def memcpy_def releaseAll_def thread_stop_def)
  then show ?thesis
    using idle [of to_fsm "(C', N')"] by (subst Client_DTP_workToDo.simps) (cases "Client_DTP_workToDo T to_fsm (C', N')", auto)
qed

definition ex_closed_net :: "uint8 list tcp" where
  "ex_closed_net = (parts_net 1)\<lparr>recv := \<lambda>sock _ s. (if sock = 0 then None else Some [], s)\<rparr>"

theorem receiver_outlives_connection_witness:
  "Client_DTP_workToDo ex_closed_net (\<lambda>N. Ok (1, N)) (ex_clnt 0, ex_netfsm ex_kernel []) = None"
  by (rule receiver_outlives_connection)
    (simp_all add: ex_closed_net_def ex_clnt_def Client_new_def ex_netfsm_def NetFSM_new_def)

end
