(* ===== verification/Udp_Fsm.thy ===== *)
theory Udp_Fsm
  imports Net_Fsm Log_Interface
begin

text \<open>
  \<^verbatim>\<open>Kernel/UdpFSM.cpp\<close>: automates that talk to their peers in datagrams, with a listening thread
  for each of two sockets that posts what arrives to the automate's own mailbox; and
  \<^verbatim>\<open>UdpLogInterface.cpp\<close>, a logger that sends its records as datagrams. The sockets are a
  parameter. A datagram from the thread's point of view is a \<^verbatim>\<open>string\<close> of its bytes.
\<close>

definition MAX_PACKAGE_SIZE :: nat where "MAX_PACKAGE_SIZE = 1500"

datatype h_error = HOST_NOT_FOUND | NO_ADDRESS | NO_RECOVERY | TRY_AGAIN | OTHER_ERROR

text \<open>
  \<open>d_recvfrom\<close> gives \<^const>\<open>None\<close> where the call returns \<^verbatim>\<open>SOCKET_ERROR\<close>, and the address of the
  sender; \<open>resolve\<close> is \<^verbatim>\<open>gethostbyname\<close>.
\<close>

record 's udp =
  resolve :: "uint8 list \<Rightarrow> 's \<Rightarrow> (h_error + uint32) \<times> 's"
  d_socket :: "'s \<Rightarrow> int \<times> 's"
  d_setsockopt :: "int \<Rightarrow> 's \<Rightarrow> bool \<times> 's"
  d_bind :: "int \<Rightarrow> int \<Rightarrow> 's \<Rightarrow> bool \<times> 's"
  d_connect :: "int \<Rightarrow> uint32 \<Rightarrow> int \<Rightarrow> 's \<Rightarrow> bool \<times> 's"
  d_send :: "int \<Rightarrow> uint8 list \<Rightarrow> 's \<Rightarrow> int \<times> 's"
  d_sendto :: "int \<Rightarrow> uint8 list \<Rightarrow> uint8 list \<Rightarrow> int \<Rightarrow> 's \<Rightarrow> bool \<times> 's"
  d_recvfrom :: "int \<Rightarrow> nat \<Rightarrow> 's \<Rightarrow> uint8 list option \<times> uint32 \<times> 's"
  d_closesocket :: "int \<Rightarrow> 's \<Rightarrow> 's"

record ('p, 'g, 's) udpfsm =
  ufsm :: "'p FiniteStateMachine"
  utr :: Transport
  ukern :: "'g kernel"
  unet :: 's
  Err :: "uint8 list"
  packageSize :: uint16
  sockToListen :: int
  sockToListenMulticast :: int
  listening :: bool
  listeningMulticast :: bool
  portToListen :: uint16
  portToListenMulticast :: uint16
  receivedLength :: int

section \<open>Listening\<close>

text \<open>The constructor sets three fields; the others, the second socket among them, are as they were.\<close>

definition UdpFSM_new :: "('p, 'g, 's) udpfsm \<Rightarrow> ('p, 'g, 's) udpfsm" where
  "UdpFSM_new U = U\<lparr>Err := [], sockToListen := 0, portToListen := 4000, packageSize := 1024\<rparr>"

definition setPackageSize :: "('p, 'g, 's) udpfsm \<Rightarrow> uint16 \<Rightarrow> ('p, 'g, 's) udpfsm" where
  "setPackageSize U p = U\<lparr>packageSize := p\<rparr>"

definition closeListen :: "'s udp \<Rightarrow> ('p, 'g, 's) udpfsm \<Rightarrow> ('p, 'g, 's) udpfsm" where
  "closeListen T U =
     (let U = (if sockToListen U \<noteq> 0
               then U\<lparr>unet := d_closesocket T (sockToListen U) (unet U), sockToListen := 0\<rparr> else U) in
      if sockToListenMulticast U \<noteq> 0
      then U\<lparr>unet := d_closesocket T (sockToListenMulticast U) (unet U), sockToListenMulticast := 0\<rparr> else U)"

definition UdpFSM_delete :: "'s udp \<Rightarrow> ('p, 'g, 's) udpfsm \<Rightarrow> ('p, 'g, 's) udpfsm" where
  "UdpFSM_delete T U = closeListen T U"

text \<open>The result is that of the call; a socket that could not be prepared stays in its variable.\<close>

definition Udp_listen :: "'s udp \<Rightarrow> ('p, 'g, 's) udpfsm \<Rightarrow> int \<Rightarrow> int \<times> ('p, 'g, 's) udpfsm" where
  "Udp_listen T U prt =
     (if sockToListen U \<noteq> 0 then (0, U)
      else case d_socket T (unet U) of (sock, s) \<Rightarrow>
        case d_setsockopt T sock s of (ok, s) \<Rightarrow>
        if \<not> ok then (0, U\<lparr>sockToListen := sock, unet := s, Err := str ''Cannot set socket options!''\<rparr>)
        else case d_bind T sock prt s of (ok, s) \<Rightarrow>
        if \<not> ok then (0, U\<lparr>sockToListen := sock, unet := s, Err := str ''Cannot bind!''\<rparr>)
        else (1, U\<lparr>sockToListen := sock, unet := s\<rparr>))"

text \<open>\<open>started\<close>: \<^verbatim>\<open>WSAStartup\<close> succeeds. The socket is bound to the stored port.\<close>

definition listenMulticast :: "bool \<Rightarrow> 's udp \<Rightarrow> ('p, 'g, 's) udpfsm \<Rightarrow> int \<Rightarrow> int \<times> ('p, 'g, 's) udpfsm" where
  "listenMulticast started T U prt =
     (if \<not> started then (0, U)
      else case d_socket T (unet U) of (sock, s) \<Rightarrow>
        let U = U\<lparr>sockToListenMulticast := sock, unet := s\<rparr> in
        if sock = - 1 then (0, U)
        else case d_bind T sock (int (unat (portToListenMulticast U))) s of (ok, s) \<Rightarrow>
        if \<not> ok then (0, U\<lparr>unet := d_closesocket T sock s\<rparr>)
        else case d_setsockopt T sock s of (ok, s) \<Rightarrow>
        if \<not> ok then (0, U\<lparr>unet := d_closesocket T sock s\<rparr>)
        else (1, U\<lparr>unet := s\<rparr>))"

text \<open>\<open>created\<close>: \<^verbatim>\<open>CreateThread\<close> succeeds. The flag is set when the thread may already have read it.\<close>

definition startToListen :: "bool \<Rightarrow> 's udp \<Rightarrow> ('p, 'g, 's) udpfsm \<Rightarrow> int \<Rightarrow> int \<times> ('p, 'g, 's) udpfsm" where
  "startToListen created T U prt =
     (let U = U\<lparr>portToListen := of_int prt\<rparr> in
      case Udp_listen T U (int (unat (portToListen U))) of (r, U) \<Rightarrow>
      if r = 0 then (0, U) else if \<not> created then (0, U) else (1, U\<lparr>listening := True\<rparr>))"

definition startToListenMulticast :: "bool \<Rightarrow> bool \<Rightarrow> 's udp \<Rightarrow> ('p, 'g, 's) udpfsm \<Rightarrow> int \<Rightarrow> int \<times> ('p, 'g, 's) udpfsm" where
  "startToListenMulticast started created T U prt =
     (let U = U\<lparr>portToListenMulticast := of_int prt\<rparr> in
      case listenMulticast started T U (int (unat (portToListenMulticast U))) of (r, U) \<Rightarrow>
      if r = 0 then (0, U) else if \<not> created then (0, U) else (1, U\<lparr>listeningMulticast := True\<rparr>))"

definition stopListening :: "'s udp \<Rightarrow> ('p, 'g, 's) udpfsm \<Rightarrow> ('p, 'g, 's) udpfsm" where
  "stopListening T U = closeListen T (U\<lparr>listening := False, listeningMulticast := False\<rparr>)"

definition stopListeningMulticast :: "'s udp \<Rightarrow> ('p, 'g, 's) udpfsm \<Rightarrow> ('p, 'g, 's) udpfsm" where
  "stopListeningMulticast T U =
     (let U = U\<lparr>listeningMulticast := False\<rparr> in
      if sockToListenMulticast U \<noteq> 0
      then U\<lparr>unet := d_closesocket T (sockToListenMulticast U) (unet U), sockToListenMulticast := 0\<rparr> else U)"

section \<open>The listening threads\<close>

text \<open>
  The buffer has 1500 bytes whatever \<^verbatim>\<open>packageSize\<close> is. After an error the length is
  \<^verbatim>\<open>SOCKET_ERROR\<close>, \<open>- 1\<close>, and the text is empty.
\<close>

definition read_from :: "'s udp \<Rightarrow> int \<Rightarrow> ('p, 'g, 's) udpfsm \<Rightarrow> (uint8 list \<times> uint32 \<times> ('p, 'g, 's) udpfsm) res" where
  "read_from T sock U = (case d_recvfrom T sock (unat (packageSize U)) (unet U) of
       (None, a, s) \<Rightarrow> Ok ([], a, U\<lparr>receivedLength := - 1, Err := str ''Error in reading!'', unet := s\<rparr>)
     | (Some bs, a, s) \<Rightarrow> if length bs \<le> MAX_PACKAGE_SIZE
         then Ok (bs, a, U\<lparr>receivedLength := int (length bs), unet := s\<rparr>)
         else Fault MemFault)"

definition Udp_read :: "'s udp \<Rightarrow> ('p, 'g, 's) udpfsm \<Rightarrow> (uint8 list \<times> uint32 \<times> ('p, 'g, 's) udpfsm) res" where
  "Udp_read T U = read_from T (sockToListen U) U"

definition readMulticast :: "'s udp \<Rightarrow> ('p, 'g, 's) udpfsm \<Rightarrow> (uint8 list \<times> uint32 \<times> ('p, 'g, 's) udpfsm) res" where
  "readMulticast T U = read_from T (sockToListenMulticast U) U"

text \<open>
  \<open>to_fsm\<close> is \<^verbatim>\<open>convertNetToFSMMessage\<close> and \<open>infoCoding\<close> the result of \<^verbatim>\<open>getProtocolInfoCoding\<close>, which
  is 1 unless overridden. A negative length becomes a huge one for \<^verbatim>\<open>memcpy\<close>.
\<close>

definition memcpy_int :: "uint8 list \<Rightarrow> nat \<Rightarrow> uint8 list \<Rightarrow> int \<Rightarrow> uint8 list res" where
  "memcpy_int dst i src n = (if n < 0 then Fault MemFault else memcpy dst i src (nat n))"

definition Udp_Work :: "bool \<Rightarrow> win32 \<Rightarrow> uint8 \<Rightarrow> (('p, 'g, 's) udpfsm \<Rightarrow> (uint16 \<times> ('p, 'g, 's) udpfsm) res)
    \<Rightarrow> ('p, 'g, 's) udpfsm \<Rightarrow> uint8 list \<Rightarrow> uint32 \<Rightarrow> ('p, 'g, 's) udpfsm res" where
  "Udp_Work dbg w infoCoding to_fsm U message from =
     (let F = ufsm U; n = receivedLength U in
      andThen (API_GetBuffer dbg (ukern U) (of_int (n + int MSG_HEADER_LENGTH))) (\<lambda>(msg, K).
      andThen (on_bytes (memory K) msg (\<lambda>bs. memcpy_int bs MSG_HEADER_LENGTH (message @ [0]) n)) (\<lambda>h.
      andThen (set8 (K\<lparr>memory := h\<rparr>) msg MSG_TO_AUTOMATE (automateId F)) (\<lambda>K.
      andThen (set8 K msg MSG_TO_GROUP INVALID_08) (\<lambda>K.
      andThen (set32 K msg MSG_OBJECT_ID_TO (ConnectionId F)) (\<lambda>K.
      andThen (set8 K msg MSG_INFO_CODING infoCoding) (\<lambda>K.
      andThen (memcpy_int (protocolMessageR (utr U)) 0 (message @ [0]) n) (\<lambda>prot.
      andThen (to_fsm (U\<lparr>ukern := K, utr := (utr U)\<lparr>protocolMessageR := prot\<rparr>\<rparr>)) (\<lambda>(currentMessageCode, U).
      andThen (set16 (ukern U) msg MSG_CODE currentMessageCode) (\<lambda>K.
      andThen (set16 K msg MSG_LENGTH (of_int (receivedLength U))) (\<lambda>K.
      andThen (SendMessage_msg w K (mbxId (ufsm U)) msg) (\<lambda>K. Ok (U\<lparr>ukern := K\<rparr>)))))))))))))"

text \<open>\<open>work\<close> is the virtual \<^verbatim>\<open>Work\<close>.\<close>

partial_function (option) Listener :: "'s udp \<Rightarrow> (('p, 'g, 's) udpfsm \<Rightarrow> uint8 list \<Rightarrow> uint32 \<Rightarrow> ('p, 'g, 's) udpfsm res)
    \<Rightarrow> ('p, 'g, 's) udpfsm \<Rightarrow> (fault + ('p, 'g, 's) udpfsm) option" where
  [code]: "Listener T work U =
     (if listening U
      then andThen (Udp_read T U) (\<lambda>(message, from, U). andThen (work U message from) (Listener T work))
      else Ok U)"

partial_function (option) ListenerMulticast :: "'s udp \<Rightarrow> (('p, 'g, 's) udpfsm \<Rightarrow> uint8 list \<Rightarrow> uint32 \<Rightarrow> ('p, 'g, 's) udpfsm res)
    \<Rightarrow> ('p, 'g, 's) udpfsm \<Rightarrow> (fault + ('p, 'g, 's) udpfsm) option" where
  [code]: "ListenerMulticast T work U =
     (if listeningMulticast U
      then andThen (readMulticast T U) (\<lambda>(message, from, U). andThen (work U message from) (ListenerMulticast T work))
      else Ok U)"

definition processConnection :: "(('p, 'g, 's) udpfsm \<Rightarrow> uint8 list \<Rightarrow> uint32 \<Rightarrow> ('p, 'g, 's) udpfsm res)
    \<Rightarrow> uint8 list \<Rightarrow> uint32 \<Rightarrow> ('p, 'g, 's) udpfsm \<Rightarrow> ('p, 'g, 's) udpfsm res" where
  "processConnection work message from U = (if listening U then work U message from else Ok U)"

section \<open>Sending\<close>

fun h_error_text :: "h_error \<Rightarrow> uint8 list" where
  "h_error_text HOST_NOT_FOUND = str ''The specified host is unknown.''"
| "h_error_text NO_ADDRESS = str ''The requested host name is valid but does not have an IP address.''"
| "h_error_text NO_RECOVERY = str ''A non-recoverable name server error occurred.''"
| "h_error_text TRY_AGAIN = str ''A temporary error occurred on an authoritative name server.''"
| "h_error_text OTHER_ERROR = str ''Unknown error in gethostbyname()''"

text \<open>The address is looked up and the listening socket is connected to it: whether both succeeded.\<close>

definition connect_to :: "'s udp \<Rightarrow> ('p, 'g, 's) udpfsm \<Rightarrow> uint8 list \<Rightarrow> int \<Rightarrow> bool \<times> ('p, 'g, 's) udpfsm" where
  "connect_to T U host prt = (case resolve T host (unet U) of
       (Inl e, s) \<Rightarrow> (False, U\<lparr>Err := h_error_text e, unet := s\<rparr>)
     | (Inr a, s) \<Rightarrow> case d_connect T (sockToListen U) a prt s of (ok, s) \<Rightarrow>
         if ok then (True, U\<lparr>unet := s\<rparr>)
         else (False, U\<lparr>Err := str ''Cannot connect to the host: '' @ host, unet := s\<rparr>))"

text \<open>The text \<open>msg\<close> is sent with \<^verbatim>\<open>packageSize\<close> bytes, however long it is.\<close>

definition sendToUDP_text :: "'s udp \<Rightarrow> ('p, 'g, 's) udpfsm \<Rightarrow> uint8 list \<Rightarrow> uint8 list \<Rightarrow> int \<Rightarrow> (int \<times> ('p, 'g, 's) udpfsm) res" where
  "sendToUDP_text T U msg host prt = (case connect_to T U host prt of (ok, U) \<Rightarrow>
     if \<not> ok then Ok (0, U)
     else if unat (packageSize U) \<le> length msg + 1
     then case d_send T (sockToListen U) (take (unat (packageSize U)) (msg @ [0])) (unet U) of (r, s) \<Rightarrow> Ok (1, U\<lparr>unet := s\<rparr>)
     else Fault MemFault)"

text \<open>
  What both senders of the new message do before they send: its information is copied, the
  message discarded, and converted by \<open>conv\<close>, \<^verbatim>\<open>convertFSMToNetMessage\<close>.
\<close>

definition take_new_message :: "bool \<Rightarrow> (('p, 'g, 's) udpfsm \<Rightarrow> ('p, 'g, 's) udpfsm res) \<Rightarrow> ('p, 'g, 's) udpfsm \<Rightarrow> ('p, 'g, 's) udpfsm res" where
  "take_new_message dbg conv U =
     (let F = ufsm U; K = ukern U in
      andThen (get16 K (NewMessage F) MSG_LENGTH) (\<lambda>len.
      andThen (get_bytes (memory K) (NewMessage F)) (\<lambda>newMsg.
      andThen (memcpy (fsmMessageS (utr U)) 0 (drop MSG_HEADER_LENGTH newMsg) (unat len)) (\<lambda>m.
      andThen (API_RetBuffer dbg K (NewMessage F)) (\<lambda>K.
      conv (U\<lparr>ufsm := F\<lparr>NewMessage := NULL\<rparr>, ukern := K, utr := (utr U)\<lparr>fsmMessageS := m,
        fsmMessageSInfoLength := len, fsmMessageSLength := len\<rparr>\<rparr>))))))"

definition fsm_bytes :: "('p, 'g, 's) udpfsm \<Rightarrow> uint8 list res" where
  "fsm_bytes U = (let n = unat (fsmMessageSLength (utr U)) in
     if n \<le> length (fsmMessageS (utr U)) then Ok (take n (fsmMessageS (utr U))) else Fault MemFault)"

text \<open>The result of \<^verbatim>\<open>send\<close> is kept in 16 bits without a sign.\<close>

definition sendToUDP :: "bool \<Rightarrow> 's udp \<Rightarrow> (('p, 'g, 's) udpfsm \<Rightarrow> ('p, 'g, 's) udpfsm res) \<Rightarrow> ('p, 'g, 's) udpfsm
    \<Rightarrow> uint8 list \<Rightarrow> int \<Rightarrow> (int \<times> ('p, 'g, 's) udpfsm) res" where
  "sendToUDP dbg T conv U host prt = (case connect_to T U host prt of (ok, U) \<Rightarrow>
     if \<not> ok then Ok (0, U)
     else andThen (take_new_message dbg conv U) (\<lambda>U.
          andThen (fsm_bytes U) (\<lambda>bs.
          case d_send T (sockToListen U) bs (unet U) of (r, s) \<Rightarrow>
          let sendedBytes = of_int r :: uint16 in
          Ok (1, U\<lparr>unet := s, Err := (if sendedBytes = 0 then str ''Message length is 0 in send call.'' else Err U)\<rparr>))))"

definition sendToUDPMulticast :: "bool \<Rightarrow> 's udp \<Rightarrow> (('p, 'g, 's) udpfsm \<Rightarrow> ('p, 'g, 's) udpfsm res) \<Rightarrow> ('p, 'g, 's) udpfsm
    \<Rightarrow> uint8 list \<Rightarrow> int \<Rightarrow> (int \<times> ('p, 'g, 's) udpfsm) res" where
  "sendToUDPMulticast dbg T conv U host prt =
     andThen (take_new_message dbg conv U) (\<lambda>U.
     andThen (fsm_bytes U) (\<lambda>bs.
     case d_sendto T (sockToListenMulticast U) bs host prt (unet U) of (ok, s) \<Rightarrow>
     if ok then Ok (1, U\<lparr>unet := s\<rparr>)
     else Ok (0, U\<lparr>unet := d_closesocket T (sockToListenMulticast U) s\<rparr>)))"

text \<open>\<^verbatim>\<open>sendTo\<close>, with and without a text, which it ignores; both results are dropped.\<close>

definition Udp_sendTo :: "bool \<Rightarrow> 's udp \<Rightarrow> (('p, 'g, 's) udpfsm \<Rightarrow> ('p, 'g, 's) udpfsm res) \<Rightarrow> ('p, 'g, 's) udpfsm
    \<Rightarrow> (int \<times> ('p, 'g, 's) udpfsm) res" where
  "Udp_sendTo dbg T conv U =
     (let R = utr U in
      if 0 \<notin> set (ip R) then Fault MemFault
      else andThen (sendToUDP dbg T conv U (takeWhile (\<lambda>b. b \<noteq> 0) (ip R)) (int (unat (port R)))) (\<lambda>(_, U). Ok (0, U)))"

definition sendToMulticast :: "bool \<Rightarrow> 's udp \<Rightarrow> (('p, 'g, 's) udpfsm \<Rightarrow> ('p, 'g, 's) udpfsm res) \<Rightarrow> ('p, 'g, 's) udpfsm
    \<Rightarrow> (int \<times> ('p, 'g, 's) udpfsm) res" where
  "sendToMulticast dbg T conv U =
     andThen (sendToUDPMulticast dbg T conv U (str ''224.0.1.41'') 1718) (\<lambda>(_, U). Ok (0, U))"

section \<open>Class UdpLogInterface\<close>

record 's udplog =
  logi :: LogInterface
  sendingSocket :: int
  to_ip :: "uint8 list"
  to_port :: uint16
  lnet :: 's

definition RECEIVE_PORT :: uint16 where "RECEIVE_PORT = 4321"

text \<open>\<open>started\<close>: \<^verbatim>\<open>WSAStartup\<close> succeeds.\<close>

definition initUdp :: "bool \<Rightarrow> 's udp \<Rightarrow> uint8 list \<Rightarrow> uint16 \<Rightarrow> 's udplog \<Rightarrow> 's udplog res" where
  "initUdp started T host prt G =
     andThen (throwIf (\<not> started) 0x01010200) (\<lambda>_.
     case d_socket T (lnet G) of (sock, s) \<Rightarrow>
     andThen (throwIf (sock = - 1) 0x01010200) (\<lambda>_.
     case d_setsockopt T sock s of (_, s) \<Rightarrow>
     case d_bind T sock 0 s of (ok, s) \<Rightarrow>
     andThen (throwIf (\<not> ok) 0x01010200) (\<lambda>_.
     Ok (G\<lparr>sendingSocket := sock, lnet := s, to_ip := host, to_port := prt\<rparr>))))"

definition UdpLogInterface_new :: "bool \<Rightarrow> 's udp \<Rightarrow> uint8 list \<Rightarrow> uint8 list \<Rightarrow> uint16 \<Rightarrow> 's \<Rightarrow> 's udplog res" where
  "UdpLogInterface_new started T raw host prt s =
     initUdp started T host prt \<lparr>logi = LogInterface_new raw, sendingSocket = 0, to_ip = [], to_port = 0, lnet = s\<rparr>"

definition UdpLogInterface_default :: "bool \<Rightarrow> 's udp \<Rightarrow> uint8 list \<Rightarrow> 's \<Rightarrow> 's udplog res" where
  "UdpLogInterface_default started T raw s = UdpLogInterface_new started T raw (str ''192.168.0.89'') RECEIVE_PORT s"

definition deInitUdp :: "'s udp \<Rightarrow> 's udplog \<Rightarrow> 's udplog" where
  "deInitUdp T G = G\<lparr>lnet := d_closesocket T (sendingSocket G) (lnet G)\<rparr>"

definition UdpLog_Write :: "'s udp \<Rightarrow> 's udplog \<Rightarrow> 's udplog res" where
  "UdpLog_Write T G =
     (let L = logi G in
      andThen (GetNewLogInfoLength L) (\<lambda>len.
      andThen (wr (LogBuffer L) (unat len) 0) (\<lambda>bs.
      let L = L\<lparr>LogBuffer := bs\<rparr> in
      andThen (GetNewLogInfoLength L) (\<lambda>n.
      andThen (SetLogInfoLength L (n + 1)) (\<lambda>L.
      andThen (if unat len + 1 \<le> length (LogBuffer L) then Ok () else Fault MemFault) (\<lambda>_.
      case d_sendto T (sendingSocket G) (take (unat len + 1) (LogBuffer L)) (to_ip G) (int (unat (to_port G))) (lnet G) of (_, s) \<Rightarrow>
      andThen (memcpy (LogBuffer L) 0 (replicate 1024 0) 1024) (\<lambda>bs.
      Ok (G\<lparr>logi := L\<lparr>LogBuffer := bs, ParamOffset := 0\<rparr>, lnet := s\<rparr>))))))))"

section \<open>Properties\<close>

text \<open>C33: a datagram reaches the automate. When the conversion depends only on the buffers of the
  transport, \<^verbatim>\<open>Work\<close> takes a buffer of the best size, copies the datagram behind the header,
  addresses it to the automate itself with the code of the conversion, the coding and the
  length, and appends it to the automate's own mailbox; the kernel stays in order.\<close>

theorem datagram_posted_to_self:
  assumes "kernel_ok (ukern U) mss xss ts" "receivedLength U = int (length msg)" "length msg \<le> length (protocolMessageR (utr U))"
    and "length msg < 2 ^ 16" "best_class (pool (ukern U)) (of_nat (length msg + MSG_HEADER_LENGTH)) k" "xss ! k = x # xs"
    and "unat (mbxId (ufsm U)) < length mss" "\<And>V. to_fsm V = Ok (code (utr V), V\<lparr>utr := f (utr V)\<rparr>)"
    and "R = (utr U)\<lparr>protocolMessageR := msg @ drop (length msg) (protocolMessageR (utr U))\<rparr>"
  shows "\<exists>K'. Udp_Work dbg w infoCoding to_fsm U msg from = Ok (U\<lparr>utr := f R, ukern := K'\<rparr>) \<and>
    kernel_ok K' (posted mss (unat (mbxId (ufsm U))) x) (xss[k := xs]) ts \<and>
    take (length msg) (drop MSG_HEADER_LENGTH (msg_bytes K' x)) = msg \<and>
    msg_bytes K' x ! off MSG_TO_AUTOMATE = automateId (ufsm U) \<and> msg_bytes K' x ! off MSG_TO_GROUP = INVALID_08 \<and>
    le32 (msg_bytes K' x) (off MSG_OBJECT_ID_TO) = ConnectionId (ufsm U) \<and> msg_bytes K' x ! off MSG_INFO_CODING = infoCoding \<and>
    le16 (msg_bytes K' x) (off MSG_CODE) = code R \<and> unat (le16 (msg_bytes K' x) (off MSG_LENGTH)) = length msg"
proof -
  let ?K = "ukern U" and ?n = "length msg" and ?F = "ufsm U"
  have n: "?n \<le> length (msg @ [0])" by simp
  have sz: "of_int (int ?n + int MSG_HEADER_LENGTH) = (of_nat (?n + MSG_HEADER_LENGTH) :: uint32)" by simp
  obtain p' K1 where 1: "API_GetBuffer dbg ?K (of_nat (?n + MSG_HEADER_LENGTH)) = Ok (x, ?K\<lparr>pool := p'\<rparr>)"
    "on_bytes (memory ?K) x (\<lambda>b. memcpy b MSG_HEADER_LENGTH (msg @ [0]) ?n) = Ok (memory K1)"
    "?K\<lparr>pool := p', memory := memory K1\<rparr> = K1" "kernel_ok K1 mss (xss[k := xs]) ts" "owned K1 mss (xss[k := xs]) ts x"
    "take ?n (drop MSG_HEADER_LENGTH (msg_bytes K1 x)) = take ?n (msg @ [0])" "?n + MSG_HEADER_LENGTH \<le> length (msg_bytes K1 x)"
    using get_and_fill [OF assms(1,4) n assms(5,6)] by blast
  have prot: "memcpy_int (protocolMessageR (utr U)) 0 (msg @ [0]) (int ?n) = Ok (msg @ drop ?n (protocolMessageR (utr U)))"
    using assms(3) by (simp add: memcpy_int_def memcpy_def)
  let ?f = "self_header (automateId ?F) INVALID_08 (ConnectionId ?F) infoCoding (code R) (of_nat ?n)"
  have o: "owned (upd x g K1) mss (xss[k := xs]) ts x" if "\<And>b. length (g b) = length b" for g
    by (rule owned_upd [OF 1(5) that])
  have "Udp_Work dbg w infoCoding to_fsm U msg from =
      andThen (SendMessage_msg w (upd x ?f K1) (mbxId ?F) x) (\<lambda>K. Ok (U\<lparr>utr := f R, ukern := K\<rparr>))"
    using 1(1) [folded sz] 1(2,3) prot assms(2,8,9)
    by (simp add: Udp_Work_def Let_def memcpy_int_def set_upd [OF 1(5)] set_upd [OF o] self_header_def [abs_def])
  moreover obtain K' where K': "SendMessage_msg w (upd x ?f K1) (mbxId ?F) x = Ok K'"
    "kernel_ok K' (posted mss (unat (mbxId ?F)) x) (xss[k := xs]) ts" "msg_bytes K' x = ?f (msg_bytes K1 x)"
    using post_filled [where f = ?f, OF 1(4,5) length_self_header assms(7), of w] by blast
  moreover have "21 \<le> length (msg_bytes K1 x)" using 1(7) by (simp add: MSG_HEADER_LENGTH_def)
  ultimately show ?thesis
    using 1(6) assms(4) self_header_fields [of "msg_bytes K1 x"] drop_self_header [where bs = "msg_bytes K1 x"] unat16 [of ?n]
    by (intro exI [of _ K']) (simp add: MSG_HEADER_LENGTH_def)
qed

definition ex_udp :: "unit kernel \<Rightarrow> (nat, unit, unit) udpfsm" where
  "ex_udp K = \<lparr>ufsm = ex_raw\<lparr>mbxId := 1\<rparr>, utr = ex_transport, ukern = K, unet = (), Err = [], packageSize = 1024, sockToListen = 1,
     sockToListenMulticast = 0, listening = True, listeningMulticast = False, portToListen = 4000, portToListenMulticast = 0,
     receivedLength = 2\<rparr>"

theorem datagram_posted_to_self_witness:
  "\<exists>(K :: unit kernel) x xs K'. Udp_Work False ex_win 1 (\<lambda>V. Ok (5, V)) (ex_udp K) [7, 8] 0 =
      Ok ((ex_udp K)\<lparr>utr := ex_transport\<lparr>protocolMessageR := [7, 8] @ replicate (NET_MAX_LENGTH - 2) 0\<rparr>, ukern := K'\<rparr>) \<and>
    kernel_ok K' (posted (replicate 4 []) 1 x) [xs] [] \<and> take 2 (drop 21 (msg_bytes K' x)) = [7, 8] \<and> le16 (msg_bytes K' x) 4 = 5"
proof -
  obtain Y :: "(nat, unit) system" and x xs where Y: "kernel_ok (ker Y) (replicate 4 []) [x # xs] []" "best_class (pool (ker Y)) 23 0"
    using ex_peer by blast
  let ?U = "ex_udp (ker Y)" and ?R = "ex_transport\<lparr>protocolMessageR := [7, 8] @ replicate (NET_MAX_LENGTH - 2) 0\<rparr>"
  have "\<exists>K'. Udp_Work False ex_win 1 (\<lambda>V. Ok (5, V)) ?U [7, 8] 0 = Ok (?U\<lparr>utr := ?R, ukern := K'\<rparr>) \<and>
    kernel_ok K' (posted (replicate 4 []) (unat (mbxId (ufsm ?U))) x) ([x # xs][0 := xs]) [] \<and>
    take (length [7 :: uint8, 8]) (drop MSG_HEADER_LENGTH (msg_bytes K' x)) = [7, 8] \<and>
    msg_bytes K' x ! off MSG_TO_AUTOMATE = automateId (ufsm ?U) \<and> msg_bytes K' x ! off MSG_TO_GROUP = INVALID_08 \<and>
    le32 (msg_bytes K' x) (off MSG_OBJECT_ID_TO) = ConnectionId (ufsm ?U) \<and> msg_bytes K' x ! off MSG_INFO_CODING = 1 \<and>
    le16 (msg_bytes K' x) (off MSG_CODE) = 5 \<and> unat (le16 (msg_bytes K' x) (off MSG_LENGTH)) = length [7 :: uint8, 8]"
    by (rule datagram_posted_to_self [where code = "\<lambda>_. 5" and f = "\<lambda>R. R"])
      (use Y in \<open>simp_all add: ex_udp_def ex_transport_def NET_MAX_LENGTH_def MSG_HEADER_LENGTH_def\<close>)
  then show ?thesis
    by (auto simp: MSG_HEADER_LENGTH_def ex_udp_def numeral_2_eq_2)
qed

text \<open>One failed \<^verbatim>\<open>recvfrom\<close> ends the listener, badly. Its result \<open>- 1\<close> is taken for a length: a
  buffer of 20 bytes is requested, and unless that throws, \<^verbatim>\<open>memcpy\<close> is called with the
  largest number there is and writes outside it. The text in \<^verbatim>\<open>Err\<close> is never read.\<close>

theorem failed_read_is_a_length:
  assumes "listening U" "d_recvfrom T (sockToListen U) (unat (packageSize U)) (unet U) = (None, a, s)"
  shows "Listener T (Udp_Work dbg w infoCoding to_fsm) U = andThen (API_GetBuffer dbg (ukern U) 20) (\<lambda>_. Fault MemFault)"
proof -
  let ?U = "U\<lparr>receivedLength := - 1, Err := str ''Error in reading!'', unet := s\<rparr>"
  have h: "on_bytes h msg (\<lambda>bs. memcpy_int bs MSG_HEADER_LENGTH ([] @ [0]) (- 1)) = Fault MemFault" for h msg
    by (auto simp: on_bytes_def block_at_def memcpy_int_def split: option.splits)
  have "of_int (- 1 + int MSG_HEADER_LENGTH) = (20 :: uint32)" by (simp add: MSG_HEADER_LENGTH_def)
  then have "Udp_Work dbg w infoCoding to_fsm ?U [] a = andThen (API_GetBuffer dbg (ukern U) 20) (\<lambda>_. Fault MemFault)"
    using h by (cases "API_GetBuffer dbg (ukern U) 20" rule: res_cases) (simp_all add: Udp_Work_def Let_def case_prod_beta)
  moreover have "andThen (andThen m (\<lambda>_. Fault MemFault)) k = andThen m (\<lambda>_. Fault MemFault)" for m :: "'x res" and k :: "'y \<Rightarrow> 'z res"
    by (simp add: andThen_assoc)
  ultimately show ?thesis using assms by (subst Listener.simps) (simp add: Udp_read_def read_from_def)
qed

definition ex_lost :: "unit udp" where
  "ex_lost = \<lparr>resolve = \<lambda>_ s. (Inr 0, s), d_socket = \<lambda>s. (1, s), d_setsockopt = \<lambda>_ s. (True, s), d_bind = \<lambda>_ _ s. (False, s),
     d_connect = \<lambda>_ _ _ s. (True, s), d_send = \<lambda>_ bs s. (int (length bs), s), d_sendto = \<lambda>_ _ _ _ s. (True, s),
     d_recvfrom = \<lambda>_ _ s. (None, 0, s), d_closesocket = \<lambda>_ s. s\<rparr>"

theorem failed_read_is_a_length_witness:
  "Listener ex_lost (Udp_Work False ex_win 1 (\<lambda>V. Ok (5, V))) (ex_udp ex_kernel) = andThen (API_GetBuffer False ex_kernel 20) (\<lambda>_. Fault MemFault)"
  using failed_read_is_a_length [of "ex_udp ex_kernel" ex_lost 0 "()" False ex_win 1 "\<lambda>V. Ok (5, V)"]
  by (simp add: ex_udp_def ex_lost_def)

text \<open>A socket that could not be bound is kept, and no later attempt to listen gets past it.\<close>

theorem failed_listen_is_final:
  assumes "sockToListen U = 0" "d_socket T (unet U) = (sock, s)" "sock \<noteq> 0" "d_setsockopt T sock s = (True, s1)"
    and "d_bind T sock prt s1 = (False, s2)"
  shows "\<exists>U'. Udp_listen T U prt = (0, U') \<and> (\<forall>T' created prt'. \<exists>U''. startToListen created T' U' prt' = (0, U'') \<and> sockToListen U'' = sock)"
  using assms by (simp add: Udp_listen_def startToListen_def Let_def)

section \<open>A record as a datagram\<close>

lemma bytes16_le16: "bytes16 (le16 bs i) = [bs ! i, bs ! (i + 1)]"
  by (simp add: bytes16_def le16_def) (intro conjI bit_word_eqI; auto simp: bit_simps dest: bit_imp_le_length)

text \<open>What the logger sends. \<^verbatim>\<open>Write\<close> sends the record under construction to the address it was
  made for: its code, a length that counts one more byte, the parameters, and a zero. Then
  the first 1024 bytes of the buffer are zero and its offset is 0, so that the next
  parameter, without a new record, would overwrite the code.\<close>

theorem log_record_sent:
  assumes "log_rep (logi G) code xs" "4 + length xs < 8192"
  shows "\<exists>L. UdpLog_Write T G = Ok (G\<lparr>logi := L, lnet := snd (d_sendto T (sendingSocket G)
      (bytes16 code @ bytes16 (of_nat (5 + length xs)) @ xs @ [0]) (to_ip G) (int (unat (to_port G))) (lnet G))\<rparr>) \<and>
    ParamOffset L = 0 \<and> length (LogBuffer L) = 8192 \<and> (\<forall>i < 1024. LogBuffer L ! i = 0)"
proof -
  let ?B = "LogBuffer (logi G)" and ?n = "4 + length xs"
  have B: "length ?B = 8192" "le16 ?B 2 = ParamOffset (logi G)" "le16 ?B 0 = code" "unat (ParamOffset (logi G)) = ?n"
    "\<And>j. j < length xs \<Longrightarrow> ?B ! (4 + j) = xs ! j"
    using assms(1) by (simp_all add: log_rep_def)
  have p: "ParamOffset (logi G) = of_nat ?n" using B(4) by (metis of_nat_unat ucast_id)
  let ?C = "put16 (?B[?n := 0]) 2 (of_nat (5 + length xs))"
  have len: "GetNewLogInfoLength (logi G) = Ok (of_nat ?n)" "GetNewLogInfoLength ((logi G)\<lparr>LogBuffer := ?B[?n := 0]\<rparr>) = Ok (of_nat ?n)"
    using B(1,2) p by (simp_all add: GetNewLogInfoLength_def le16_def)
  have un: "unat (of_nat ?n :: uint16) = ?n" using B(4) p by simp
  have set_len: "SetLogInfoLength ((logi G)\<lparr>LogBuffer := ?B[?n := 0]\<rparr>) (of_nat ?n + 1) = Ok ((logi G)\<lparr>LogBuffer := ?C\<rparr>)"
    using B(1) by (simp add: SetLogInfoLength_def add.commute)
  have head: "?B ! 0 = ucast code" "?B ! 1 = ucast (drop_bit 8 code)"
    using bytes16_le16 [of ?B 0] B(3) by (simp_all add: bytes16_def)
  have sent: "take (?n + 1) ?C = bytes16 code @ bytes16 (of_nat (5 + length xs)) @ xs @ [0]"
  proof (rule nth_equalityI)
    show "length (take (?n + 1) ?C) = length (bytes16 code @ bytes16 (of_nat (5 + length xs)) @ xs @ [0])"
      using B(1) assms(2) by simp
    fix j assume j: "j < length (take (?n + 1) ?C)"
    then have jn: "j < ?n + 1" by simp
    consider "j = 0" | "j = 1" | "j = 2" | "j = 3" | "4 \<le> j" "j < ?n" | "j = ?n" using jn by linarith
    then show "take (?n + 1) ?C ! j = (bytes16 code @ bytes16 (of_nat (5 + length xs)) @ xs @ [0]) ! j"
    proof cases
      case 5
      then obtain i where i: "j = 4 + i" "i < length xs" by (metis add_less_cancel_left le_Suc_ex)
      have "(a # b # c # d # ys) ! (4 + i) = ys ! i" for a b c d :: uint8 and ys by (simp add: numeral_eq_Suc)
      then have "(bytes16 code @ bytes16 (of_nat (5 + length xs)) @ xs @ [0]) ! (4 + i) = (xs @ [0]) ! i"
        by (simp only: bytes16_def append_Cons append_Nil)
      moreover have "?C ! (4 + i) = ?B ! (4 + i)" using i(2) by (simp add: put16_def)
      ultimately show ?thesis using i B(5) jn by (simp add: nth_append)
    qed (use B(1) head assms(2) in \<open>simp_all add: put16_def bytes16_def nth_append\<close>)
  qed
  have room: "?n < length ?B" "?n + 1 \<le> length ?C" using B(1) assms(2) by simp_all
  have clear: "memcpy ?C 0 (replicate 1024 0) 1024 = Ok (replicate 1024 0 @ drop 1024 ?C)" using B(1) by (simp add: memcpy_def)
  obtain ok s where net: "d_sendto T (sendingSocket G) (bytes16 code @ bytes16 (of_nat (5 + length xs)) @ xs @ [0]) (to_ip G)
      (int (unat (to_port G))) (lnet G) = (ok, s)" by fastforce
  have "UdpLog_Write T G = Ok (G\<lparr>logi := (logi G)\<lparr>LogBuffer := replicate 1024 0 @ drop 1024 ?C, ParamOffset := 0\<rparr>, lnet := s\<rparr>)"
    unfolding UdpLog_Write_def Let_def len(1) andThen_simps un wr_in [OF room(1)] len(2) set_len
    using room(2) clear sent net by simp
  then show ?thesis
    using net B(1) by (intro exI [of _ "(logi G)\<lparr>LogBuffer := replicate 1024 0 @ drop 1024 ?C, ParamOffset := 0\<rparr>"]) (simp add: nth_append)
qed

theorem log_record_sent_witness:
  "\<exists>L G'. PrepareNewRecord 3 (LogInterface_new (replicate 8192 0)) LOG_START 5 9 = Ok L \<and>
    UdpLog_Write ex_lost \<lparr>logi = L, sendingSocket = 1, to_ip = [], to_port = 4321, lnet = ()\<rparr> = Ok G' \<and> ParamOffset (logi G') = 0"
proof -
  obtain L where L: "PrepareNewRecord 3 (LogInterface_new (replicate 8192 0)) LOG_START 5 9 = Ok L"
    "log_rep L 1 (log_head 3 INVALID_08 5 9)"
    using PrepareNewRecord_ok [of "LogInterface_new (replicate 8192 0)" 3 LOG_START 5 9] by (auto simp: LogInterface_new_def)
  let ?G = "\<lparr>logi = L, sendingSocket = 1, to_ip = [], to_port = 4321, lnet = ()\<rparr>"
  have "log_rep (logi ?G) 1 (log_head 3 INVALID_08 5 9)" "4 + length (log_head 3 INVALID_08 5 9) < 8192" using L(2) by simp_all
  then obtain L' where "UdpLog_Write ex_lost ?G = Ok (?G\<lparr>logi := L', lnet := snd (d_sendto ex_lost (sendingSocket ?G)
      (bytes16 1 @ bytes16 (of_nat (5 + length (log_head 3 INVALID_08 5 9))) @ log_head 3 INVALID_08 5 9 @ [0]) (to_ip ?G)
      (int (unat (to_port ?G))) (lnet ?G))\<rparr>)" "ParamOffset L' = 0"
    using log_record_sent by blast
  then show ?thesis using L(1) by (intro exI [of _ L]) simp
qed

end
