(* ===== verification/System_TCP.thy ===== *)
theory System_TCP
  imports Fsm_System Net_Platform
begin

text \<open>
  \<^verbatim>\<open>Kernel/systemTCP.cpp\<close>, class \<^verbatim>\<open>TCPSystemSupport\<close>: up to ten listening sockets, each with a thread
  that hands every accepted connection to an idle automate of its type. The automates come
  from the lists of idle ones in the \<^verbatim>\<open>FSMSystem\<close>; \<^verbatim>\<open>acceptConnection\<close> is a virtual function of
  the automate and an argument.
\<close>

definition MAX_NUM_OF_TCP_SERVERS :: nat where "MAX_NUM_OF_TCP_SERVERS = 10"

record TCPConnectionData =
  ConnectionSocket :: int
  AutomateType :: uint8
  ClientObject :: addr
  Used :: bool

text \<open>\<open>Server\<close> tells which entries of the global table of that name point to this object.\<close>

record ('p, 'g, 's) tcp_support =
  ServerData :: "TCPConnectionData list"
  Server :: "bool list"
  SystemObject :: "('p, 'g) system"
  tnet :: 's

definition set_data :: "('p, 'g, 's) tcp_support \<Rightarrow> nat \<Rightarrow> (TCPConnectionData \<Rightarrow> TCPConnectionData) \<Rightarrow> ('p, 'g, 's) tcp_support" where
  "set_data X i f = X\<lparr>ServerData := (ServerData X)[i := f (ServerData X ! i)]\<rparr>"

text \<open>The constructor; \<open>raw\<close> is the object's memory.\<close>

definition TCPSystemSupport_new :: "TCPConnectionData list \<Rightarrow> ('p, 'g) system \<Rightarrow> 's \<Rightarrow> ('p, 'g, 's) tcp_support" where
  "TCPSystemSupport_new raw Y s = \<lparr>ServerData = map (\<lambda>d. d\<lparr>Used := False, ClientObject := NULL\<rparr>) (take MAX_NUM_OF_TCP_SERVERS raw),
     Server = replicate MAX_NUM_OF_TCP_SERVERS False, SystemObject = Y, tnet = s\<rparr>"

text \<open>
  The body of the loop in \<^verbatim>\<open>InitTCPServer\<close> for an unused entry; \<open>started\<close>: \<^verbatim>\<open>CreateThread\<close> succeeds.
  The thread runs before the type of its automates is set.
\<close>

definition init_entry :: "bool \<Rightarrow> 's tcp \<Rightarrow> uint16 \<Rightarrow> uint8 \<Rightarrow> nat \<Rightarrow> ('p, 'g, 's) tcp_support \<Rightarrow> int \<times> ('p, 'g, 's) tcp_support" where
  "init_entry started T prt automateType i X = (case socket T (tnet X) of (sock, s) \<Rightarrow>
     let X = (set_data X i (\<lambda>d. d\<lparr>ConnectionSocket := sock\<rparr>))\<lparr>tnet := s\<rparr> in
     if sock = - 1 then (- 1, X)
     else case bind T sock (int (unat prt)) s of (ok, s) \<Rightarrow>
       if \<not> ok then (- 1, X\<lparr>tnet := closesocket T sock s\<rparr>)
       else let X = (set_data X i (\<lambda>d. d\<lparr>ClientObject := NULL\<rparr>))\<lparr>tnet := s, Server := (Server X)[i := True]\<rparr> in
         if \<not> started then (- 1, X)
         else (0, set_data X i (\<lambda>d. d\<lparr>AutomateType := automateType, Used := True\<rparr>)))"

fun init_from :: "bool \<Rightarrow> 's tcp \<Rightarrow> uint16 \<Rightarrow> uint8 \<Rightarrow> nat list \<Rightarrow> ('p, 'g, 's) tcp_support \<Rightarrow> int \<times> ('p, 'g, 's) tcp_support" where
  "init_from started T prt automateType [] X = (0, X)"
| "init_from started T prt automateType (i # is) X =
     (if \<not> Used (ServerData X ! i) then init_entry started T prt automateType i X
      else init_from started T prt automateType is X)"

definition InitTCPServer :: "bool \<Rightarrow> 's tcp \<Rightarrow> uint16 \<Rightarrow> uint8 \<Rightarrow> ('p, 'g, 's) tcp_support \<Rightarrow> int \<times> ('p, 'g, 's) tcp_support" where
  "InitTCPServer started T prt automateType X = init_from started T prt automateType [0 ..< MAX_NUM_OF_TCP_SERVERS] X"

text \<open>
  An exception ends what is under way and leaves the state as it is by then: its code comes with that state,
  \<^term>\<open>Inl\<close> in place of the result. \<^verbatim>\<open>FSMList::Get\<close> throws behind \<^verbatim>\<open>GetFromHead\<close>.
\<close>

definition with_idle :: "('p, 'g) system \<Rightarrow> uint8 \<Rightarrow> FSMList \<Rightarrow> 'p objs \<Rightarrow> ('p, 'g) system" where
  "with_idle Y t L objs = Y\<lparr>objects := objs, sys := (sys Y)\<lparr>FreeAutomates := (FreeAutomates (sys Y))[unat t := L]\<rparr>\<rparr>"

definition GetClientObject :: "('p, 'g) system \<Rightarrow> uint8 \<Rightarrow> ((uint32 + addr) \<times> ('p, 'g) system) res" where
  "GetClientObject Y automatType =
     andThen (rd (FreeAutomates (sys Y)) (unat automatType)) (\<lambda>L.
     case FL_Get L (objects Y) of
       Some (Inl (Thrown code)) \<Rightarrow> andThen (FL_GetFromHead L (objects Y)) (\<lambda>(_, L, objs). Ok (Inl code, with_idle Y automatType L objs))
     | r \<Rightarrow> andThen r (\<lambda>(a, L, objs). Ok (Inr a, with_idle Y automatType L objs)))"

definition WaitConnection :: "'s tcp \<Rightarrow> (addr \<Rightarrow> int \<Rightarrow> ('p, 'g) system \<Rightarrow> int \<times> ('p, 'g) system) \<Rightarrow> nat \<Rightarrow> ('p, 'g, 's) tcp_support
    \<Rightarrow> ((uint32 + int) \<times> ('p, 'g, 's) tcp_support) res" where
  "WaitConnection T acceptConnection i X =
     andThen (rd (ServerData X) i) (\<lambda>d.
     case listen T (ConnectionSocket d) (tnet X) of (ok, s) \<Rightarrow>
     if \<not> ok then Ok (Inr (- 1), X\<lparr>tnet := s\<rparr>)
     else case accept T (ConnectionSocket d) s of (newSocket, s) \<Rightarrow>
     if newSocket = - 1 then Ok (Inr (- 1), X\<lparr>tnet := s\<rparr>)
     else andThen (GetClientObject (SystemObject X) (AutomateType d)) (\<lambda>(r, Y). case r of
       Inl code \<Rightarrow> Ok (Inl code, X\<lparr>SystemObject := Y, tnet := s\<rparr>)
     | Inr a \<Rightarrow>
       let X = (set_data X i (\<lambda>d. d\<lparr>ClientObject := a\<rparr>))\<lparr>SystemObject := Y, tnet := s\<rparr> in
       if a = NULL then Ok (Inr (- 1), X\<lparr>tnet := closesocket T newSocket s\<rparr>)
       else case acceptConnection a newSocket Y of (r, Y) \<Rightarrow>
         if r < 0 then Ok (Inr (- 1), X\<lparr>SystemObject := Y, tnet := closesocket T newSocket s\<rparr>)
         else Ok (Inr 0, X\<lparr>SystemObject := Y\<rparr>)))"

text \<open>
  The two thread functions differ in the argument they pass through to \<^verbatim>\<open>acceptConnection\<close>. The result
  tells the code of the exception that leaves the thread function, if one does.
\<close>

partial_function (option) ServerThread :: "'s tcp \<Rightarrow> (addr \<Rightarrow> int \<Rightarrow> ('p, 'g) system \<Rightarrow> int \<times> ('p, 'g) system) \<Rightarrow> nat
    \<Rightarrow> ('p, 'g, 's) tcp_support \<Rightarrow> (fault + uint32 option \<times> ('p, 'g, 's) tcp_support) option" where
  [code]: "ServerThread T acceptConnection i X =
     andThen (rd (Server X) i) (\<lambda>set.
     if \<not> set then Fault MemFault
     else andThen (WaitConnection T acceptConnection i X) (\<lambda>(r, X). case r of
       Inl code \<Rightarrow> Ok (Some code, X)
     | Inr r \<Rightarrow> if r = 0 then ServerThread T acceptConnection i X else Ok (None, X)))"

text \<open>\<open>closed\<close> tells whether \<^verbatim>\<open>closesocket\<close> succeeds.\<close>

definition DeinitTCPServer :: "'s tcp \<Rightarrow> (int \<Rightarrow> 's \<Rightarrow> bool) \<Rightarrow> nat \<Rightarrow> ('p, 'g, 's) tcp_support \<Rightarrow> (int \<times> ('p, 'g, 's) tcp_support) res" where
  "DeinitTCPServer T closed i X =
     andThen (rd (ServerData X) i) (\<lambda>d.
     let X' = X\<lparr>tnet := closesocket T (ConnectionSocket d) (tnet X)\<rparr> in
     if \<not> closed (ConnectionSocket d) (tnet X) then Ok (- 1, X')
     else Ok (0, set_data X' i (\<lambda>d. d\<lparr>Used := False\<rparr>)))"

fun deinit_all :: "'s tcp \<Rightarrow> (int \<Rightarrow> 's \<Rightarrow> bool) \<Rightarrow> nat list \<Rightarrow> ('p, 'g, 's) tcp_support \<Rightarrow> ('p, 'g, 's) tcp_support res" where
  "deinit_all T closed [] X = Ok X"
| "deinit_all T closed (i # is) X =
     andThen (rd (ServerData X) i) (\<lambda>d.
     if Used d then andThen (DeinitTCPServer T closed i X) (\<lambda>(_, X). deinit_all T closed is X)
     else deinit_all T closed is X)"

definition TCPSystemSupport_delete :: "'s tcp \<Rightarrow> (int \<Rightarrow> 's \<Rightarrow> bool) \<Rightarrow> ('p, 'g, 's) tcp_support \<Rightarrow> ('p, 'g, 's) tcp_support res" where
  "TCPSystemSupport_delete T closed X = deinit_all T closed [0 ..< MAX_NUM_OF_TCP_SERVERS] X"

section \<open>Starting a server\<close>

lemma init_from_skips:
  "\<forall>i \<in> set is. Used (ServerData X ! i) \<Longrightarrow> init_from started T prt automateType (is @ js) X = init_from started T prt automateType js X"
  by (induction "is") auto

lemma connection_data:
  "d\<lparr>ConnectionSocket := sock, ClientObject := a, AutomateType := ty, Used := u\<rparr> =
    \<lparr>ConnectionSocket = sock, AutomateType = ty, ClientObject = a, Used = u\<rparr>" for d :: TCPConnectionData
  by (cases d) simp

text \<open>Which entry a new server takes. \<^verbatim>\<open>InitTCPServer\<close> takes the first entry that is not in use,
  and when its socket can be bound, that entry gets the socket and the type and the others
  are as they were. When all ten are in use it does nothing and returns 0, as after success.\<close>

theorem server_takes_first_entry:
  assumes "length (ServerData X) = MAX_NUM_OF_TCP_SERVERS"
    and "socket T (tnet X) = (sock, s)" "sock \<noteq> - 1" "bind T sock (int (unat prt)) s = (True, s')"
  shows "if \<forall>d \<in> set (ServerData X). Used d then InitTCPServer True T prt ty X = (0, X)
    else \<exists>i < MAX_NUM_OF_TCP_SERVERS. \<exists>X'. InitTCPServer True T prt ty X = (0, X') \<and> \<not> Used (ServerData X ! i) \<and>
      (\<forall>j < i. Used (ServerData X ! j)) \<and>
      ServerData X' = (ServerData X)[i := \<lparr>ConnectionSocket = sock, AutomateType = ty, ClientObject = NULL, Used = True\<rparr>]"
proof (cases "\<forall>d \<in> set (ServerData X). Used d")
  case True
  then have "\<forall>i \<in> set [0 ..< MAX_NUM_OF_TCP_SERVERS]. Used (ServerData X ! i)" using assms(1) by simp
  then have "InitTCPServer True T prt ty X = (0, X)"
    using init_from_skips [of "[0 ..< MAX_NUM_OF_TCP_SERVERS]" X True T prt ty "[]"] by (simp add: InitTCPServer_def)
  then show ?thesis using True by simp
next
  case False
  let ?P = "\<lambda>i. i < MAX_NUM_OF_TCP_SERVERS \<and> \<not> Used (ServerData X ! i)"
  have "\<exists>i. ?P i" using False assms(1) by (auto simp: in_set_conv_nth)
  then obtain i where i: "?P i" "\<forall>j < i. \<not> ?P j" using exists_least_iff [of ?P] by blast
  then have used: "\<forall>j < i. Used (ServerData X ! j)" by simp
  have "[0 ..< MAX_NUM_OF_TCP_SERVERS] = [0 ..< i] @ i # [Suc i ..< MAX_NUM_OF_TCP_SERVERS]"
    using i(1) by (metis le_add_same_cancel1 less_imp_le_nat upt_add_eq_append upt_conv_Cons le_add_diff_inverse zero_le)
  then have "InitTCPServer True T prt ty X = init_entry True T prt ty i X"
    using init_from_skips [of "[0 ..< i]" X True T prt ty "i # [Suc i ..< MAX_NUM_OF_TCP_SERVERS]"] i(1) used
    by (simp add: InitTCPServer_def)
  moreover have "\<exists>X'. init_entry True T prt ty i X = (0, X') \<and>
      ServerData X' = (ServerData X)[i := \<lparr>ConnectionSocket = sock, AutomateType = ty, ClientObject = NULL, Used = True\<rparr>]"
    using assms i(1) by (simp add: init_entry_def set_data_def Let_def connection_data)
  ultimately show ?thesis using False i(1) used by auto
qed

definition ex_support :: "(nat, unit, uint8 list) tcp_support" where
  "ex_support = TCPSystemSupport_new (replicate 10 \<lparr>ConnectionSocket = 7, AutomateType = 7, ClientObject = 7, Used = True\<rparr>)
     (ex_system NullArr 0) []"

theorem server_takes_first_entry_witness:
  "\<exists>i < MAX_NUM_OF_TCP_SERVERS. \<exists>X'. InitTCPServer True (parts_net 1) 777 0 ex_support = (0, X') \<and> Used (ServerData X' ! i)"
proof -
  have n: "length (ServerData ex_support) = MAX_NUM_OF_TCP_SERVERS" "\<not> (\<forall>d \<in> set (ServerData ex_support). Used d)"
    by (simp_all add: ex_support_def TCPSystemSupport_new_def MAX_NUM_OF_TCP_SERVERS_def)
  have net: "socket (parts_net 1) (tnet ex_support) = (1, [])" "bind (parts_net 1) 1 (int (unat (777 :: uint16))) [] = (True, [])"
    by (simp_all add: parts_net_def ex_support_def TCPSystemSupport_new_def)
  obtain i X' where "i < MAX_NUM_OF_TCP_SERVERS" "InitTCPServer True (parts_net 1) 777 0 ex_support = (0, X')"
    "ServerData X' = (ServerData ex_support)[i := \<lparr>ConnectionSocket = 1, AutomateType = 0, ClientObject = NULL, Used = True\<rparr>]"
    using server_takes_first_entry [of ex_support "parts_net 1" 1 "[]" 777 "[]" 0, OF n(1) net(1) _ net(2)] n(2) by auto
  then show ?thesis using n(1) by auto
qed

section \<open>Serving connections\<close>

text \<open>What a round needs: entry \<open>i\<close> is set up and the idle automates of its type are \<open>xs\<close>.\<close>

definition serving :: "('p, 'g, 's) tcp_support \<Rightarrow> nat \<Rightarrow> addr list \<Rightarrow> bool" where
  "serving X i xs \<longleftrightarrow> i < length (ServerData X) \<and> i < length (Server X) \<and> Server X ! i \<and>
     (let t = unat (AutomateType (ServerData X ! i)) in t < length (FreeAutomates (sys (SystemObject X))) \<and>
        fl_rep (FreeAutomates (sys (SystemObject X)) ! t) (objects (SystemObject X)) xs)"

definition always_accepts :: "'s tcp \<Rightarrow> bool" where
  "always_accepts T \<longleftrightarrow> (\<forall>sock s. fst (listen T sock s) \<and> fst (accept T sock s) \<noteq> - 1)"

text \<open>What \<open>n\<close> rounds of \<^verbatim>\<open>listen\<close> and \<^verbatim>\<open>accept\<close> do to the network, and the sockets they give.\<close>

fun accepts :: "'s tcp \<Rightarrow> int \<Rightarrow> nat \<Rightarrow> 's \<Rightarrow> int list \<times> 's" where
  "accepts T sock 0 s = ([], s)"
| "accepts T sock (Suc n) s =
     (let (_, s) = listen T sock s; (new, s) = accept T sock s; (rest, s) = accepts T sock n s in (new # rest, s))"

lemma FL_Get_empty: "L_Head L = NULL \<Longrightarrow> FL_Get L objs = Fault (Thrown 0x21030504) \<and> FL_GetFromHead L objs = Ok (NULL, L, objs)"
  by (simp add: FL_Get_def FL_GetFromHead_def)

text \<open>A connection goes to the automate that is idle longest.\<close>

lemma WaitConnection_serves:
  assumes "serving X i (x # xs)" and a: "\<And>a sk Y. acceptConnection a sk Y = (0, Y\<lparr>ker := h a sk (ker Y)\<rparr>)"
    and net: "listen T (ConnectionSocket (ServerData X ! i)) (tnet X) = (True, s)"
      "accept T (ConnectionSocket (ServerData X ! i)) s = (sk, s')" "sk \<noteq> - 1"
  shows "\<exists>X'. WaitConnection T acceptConnection i X = Ok (Inr 0, X') \<and> ClientObject (ServerData X' ! i) = x \<and> serving X' i xs \<and>
    ConnectionSocket (ServerData X' ! i) = ConnectionSocket (ServerData X ! i) \<and> tnet X' = s' \<and>
    ker (SystemObject X') = h x sk (ker (SystemObject X))"
proof -
  let ?d = "ServerData X ! i" and ?Y = "SystemObject X"
  let ?t = "unat (AutomateType ?d)"
  have X: "i < length (ServerData X)" "i < length (Server X)" "Server X ! i" "?t < length (FreeAutomates (sys ?Y))"
    "fl_rep (FreeAutomates (sys ?Y) ! ?t) (objects ?Y) (x # xs)"
    using assms(1) by (simp_all add: serving_def Let_def)
  obtain L objs where g: "FL_Get (FreeAutomates (sys ?Y) ! ?t) (objects ?Y) = Ok (x, L, objs)" "fl_rep L objs xs"
    using FL_Get_rep [OF X(5)] by blast
  have x: "x \<noteq> NULL" using X(5) queue_rep_mem [of _ _ _ "x # xs" x] by (auto simp: fl_rep_def)
  let ?Y' = "(with_idle ?Y (AutomateType ?d) L objs)\<lparr>ker := h x sk (ker ?Y)\<rparr>"
  let ?X = "(set_data X i (\<lambda>d. d\<lparr>ClientObject := x\<rparr>))\<lparr>SystemObject := ?Y', tnet := s'\<rparr>"
  have "WaitConnection T acceptConnection i X = Ok (Inr 0, ?X)"
    using X(1,4) net g(1) x a by (simp add: WaitConnection_def GetClientObject_def with_idle_def Let_def)
  moreover have "serving ?X i xs"
    using X g(2) by (simp add: serving_def set_data_def with_idle_def Let_def)
  ultimately show ?thesis using X(1) by (intro exI [of _ ?X]) (simp add: set_data_def)
qed

text \<open>C36: the end of a server. Clients connect, and none of the calls of \<^verbatim>\<open>listen\<close> and \<^verbatim>\<open>accept\<close> fails. The
  idle automates of the server's type are \<open>xs\<close>, the one idle longest first; \<open>h a sk\<close> is what
  \<^verbatim>\<open>acceptConnection\<close> of the automate \<open>a\<close> does with the socket \<open>sk\<close>, returning 0. The thread hands the
  accepted sockets to these automates in order, each one socket. The next connection is not refused, as the
  code after \<^verbatim>\<open>GetClientObject\<close> means to: \<^verbatim>\<open>FSMList::Get\<close> throws, the exception leaves the thread function, and
  the network is as the calls of \<^verbatim>\<open>listen\<close> and \<^verbatim>\<open>accept\<close> left it: no socket has been closed, so the
  one that nobody got stays open.\<close>

theorem server_thread_ends_by_exception:
  assumes "serving X i xs" "always_accepts T" "\<And>a sk Y. acceptConnection a sk Y = (0, Y\<lparr>ker := h a sk (ker Y)\<rparr>)"
    and "accepts T (ConnectionSocket (ServerData X ! i)) (Suc (length xs)) (tnet X) = (sks, s)"
  shows "\<exists>X'. ServerThread T acceptConnection i X = Ok (Some 0x21030504, X') \<and>
    ker (SystemObject X') = fold (\<lambda>(a, sk). h a sk) (zip xs sks) (ker (SystemObject X)) \<and> tnet X' = s \<and> serving X' i []"
  using assms(1,4)
proof (induction xs arbitrary: X sks)
  case Nil
  let ?d = "ServerData X ! i" and ?Y = "SystemObject X"
  let ?t = "unat (AutomateType ?d)"
  have X: "i < length (ServerData X)" "i < length (Server X)" "Server X ! i" "?t < length (FreeAutomates (sys ?Y))"
    "fl_rep (FreeAutomates (sys ?Y) ! ?t) (objects ?Y) []"
    using Nil(1) by (simp_all add: serving_def Let_def)
  obtain s1 sk s2 where net: "listen T (ConnectionSocket ?d) (tnet X) = (True, s1)" "accept T (ConnectionSocket ?d) s1 = (sk, s2)" "sk \<noteq> - 1"
    using assms(2) unfolding always_accepts_def by (metis prod.collapse)
  have "s2 = s" using Nil(2) net by simp
  moreover have "L_Head (FreeAutomates (sys ?Y) ! ?t) = NULL" using X(5) by (simp add: fl_rep_def)
  then have "FL_Get (FreeAutomates (sys ?Y) ! ?t) (objects ?Y) = Fault (Thrown 0x21030504)"
    "FL_GetFromHead (FreeAutomates (sys ?Y) ! ?t) (objects ?Y) = Ok (NULL, FreeAutomates (sys ?Y) ! ?t, objects ?Y)"
    using FL_Get_empty by blast+
  then have "GetClientObject ?Y (AutomateType ?d) = Ok (Inl 0x21030504, ?Y)"
    using X(4) by (simp add: GetClientObject_def with_idle_def)
  ultimately have "WaitConnection T acceptConnection i X = Ok (Inl 0x21030504, X\<lparr>SystemObject := ?Y, tnet := s\<rparr>)"
    using X(1) net by (simp add: WaitConnection_def)
  then show ?case using X(2,3) Nil(1) by (subst ServerThread.simps) (simp add: serving_def)
next
  case (Cons x xs)
  let ?sock = "ConnectionSocket (ServerData X ! i)"
  obtain s1 sk s2 where net: "listen T ?sock (tnet X) = (True, s1)" "accept T ?sock s1 = (sk, s2)" "sk \<noteq> - 1"
    using assms(2) unfolding always_accepts_def by (metis prod.collapse)
  obtain rest where rest: "accepts T ?sock (Suc (length xs)) s2 = (rest, s)" "sks = sk # rest"
    using Cons.prems(2) net by (auto split: prod.splits)
  obtain X' where X': "WaitConnection T acceptConnection i X = Ok (Inr 0, X')" "serving X' i xs"
    "ConnectionSocket (ServerData X' ! i) = ?sock" "tnet X' = s2" "ker (SystemObject X') = h x sk (ker (SystemObject X))"
    using WaitConnection_serves [where acceptConnection = acceptConnection, OF Cons.prems(1) assms(3) net] by blast
  obtain X'' where X'': "ServerThread T acceptConnection i X' = Ok (Some 0x21030504, X'')" "tnet X'' = s" "serving X'' i []"
    "ker (SystemObject X'') = fold (\<lambda>(a, sk). h a sk) (zip xs rest) (ker (SystemObject X'))"
    using Cons.IH [OF X'(2), of rest] X'(3,4) rest(1) by auto
  have "i < length (Server X)" "Server X ! i" using Cons.prems(1) by (simp_all add: serving_def)
  then have "ServerThread T acceptConnection i X = ServerThread T acceptConnection i X'"
    using X'(1) by (subst ServerThread.simps) simp
  then show ?case using X'' X'(5) rest(2) by (intro exI [of _ X'']) simp
qed

text \<open>One idle automate, at the address 5, and a network whose state is the list of the open sockets; the automate
  notes its socket in the globals.\<close>

definition ex_accepting :: "int list tcp" where
  "ex_accepting = \<lparr>socket = \<lambda>s. (1, s), connect = \<lambda>_ _ _ s. (True, s), bind = \<lambda>_ _ s. (True, s), setsockopt = \<lambda>_ s. (True, s),
     listen = \<lambda>_ s. (True, s), accept = \<lambda>_ s. (int (length s) + 10, s @ [int (length s) + 10]), recv = \<lambda>_ _ s. (None, s),
     send = \<lambda>_ _ s. (0, s), closesocket = \<lambda>sk s. removeAll sk s\<rparr>"

definition ex_serving :: "(nat, (addr \<times> int) list, int list) tcp_support" where
  "ex_serving = \<lparr>ServerData = replicate 10 \<lparr>ConnectionSocket = 1, AutomateType = 0, ClientObject = NULL, Used = True\<rparr>,
     Server = replicate 10 True,
     SystemObject = \<lparr>objects = [5 \<mapsto> ex_raw\<lparr>Next := NULL\<rparr>],
       sys = (ex_sys NullArr 0)\<lparr>FreeAutomates := replicate 40 \<lparr>L_Head = 5, L_Tail = 5, FreeFSMCount = 1\<rparr>\<rparr>, 
       ker = \<lparr>memory = memory ex_kernel, pool = pool ex_kernel, office = office ex_kernel, timers = timers ex_kernel, attached = True,
         LogingObject = None, SysLogFlag = 0, CallCounter = 0, app = []\<rparr>\<rparr>,
     tnet = []\<rparr>"

theorem server_thread_ends_by_exception_witness:
  "\<exists>X'. ServerThread ex_accepting (\<lambda>a sk Y. (0, Y\<lparr>ker := (ker Y)\<lparr>app := app (ker Y) @ [(a, sk)]\<rparr>\<rparr>)) 3 ex_serving = Ok (Some 0x21030504, X') \<and>
    app (ker (SystemObject X')) = [(5, 10)] \<and> tnet X' = [10, 11]"
proof -
  have v: "serving ex_serving 3 [5]"
    by (simp add: serving_def ex_serving_def ex_sys_def Let_def fl_rep_def queue_rep_def links_of_def ex_raw_def last_or_null_def)
  have a: "always_accepts ex_accepting" by (simp add: always_accepts_def ex_accepting_def)
  have s: "accepts ex_accepting (ConnectionSocket (ServerData ex_serving ! 3)) (Suc (length [5])) (tnet ex_serving) = ([10, 11], [10, 11])"
    by (simp add: ex_accepting_def ex_serving_def)
  show ?thesis
    using server_thread_ends_by_exception [where h = "\<lambda>a sk K. K\<lparr>app := app K @ [(a, sk)]\<rparr>" and
      acceptConnection = "\<lambda>a sk Y. (0, Y\<lparr>ker := (ker Y)\<lparr>app := app (ker Y) @ [(a, sk)]\<rparr>\<rparr>)", OF v a refl s]
    by (auto simp: ex_serving_def)
qed

end
