(* ===== verification/Spec2Isabelle.thy ===== *)
theory Spec2Isabelle
  imports Client_Main Server_Main Error_Object Udp_Fsm System_TCP
begin

text \<open>
  A model of the topic-based publish/subscribe server, of its client, and of the
  finite-state-machine kernel the server is built on.

  \<^bold>\<open>The program.\<close> \<^verbatim>\<open>POP3ClientCppUnit/main.cpp\<close> starts one thread that sets up an
  \<^verbatim>\<open>FSMSystem\<close>, adds one automate \<^verbatim>\<open>ChAuto\<close> to it and runs the monitor loop, while the main
  thread waits for a flag. The automate receives datagrams (\<open>PUB\<close>, \<open>SUB\<close>, \<open>LIST\<close>), keeps the
  data on the topics and answers. It moves from state to state by sending messages to itself: a
  message is a buffer of the kernel's pool, waits in a mailbox of the post office, and is taken
  by the monitor loop to the automate and object in its header, whose transition table picks
  the handler. The kernel also has timers, logging, automates that speak TCP and UDP, listening
  TCP servers, and a variant of the system that is spread over several servers.
  \<^verbatim>\<open>Client_IPv6/Client_IPv6.cpp\<close> is the client.

  \<^bold>\<open>Theories\<close>, in the order they build on each other (sources under \<^verbatim>\<open>Kernel/\<close> unless named).
  The kernel:
  \<^item> \<open>Prelude\<close>: machine integers as words, outcomes of a call (\<open>'a res\<close>), checked arrays.
  \<^item> \<open>Kernel_Mem\<close>: \<^verbatim>\<open>KernelFunctions.cpp\<close>, \<^verbatim>\<open>kernelConsts.h\<close>; bytes, message header, linked blocks.
  \<^item> \<open>Fifo\<close>: the interface of linked queues (locales \<open>heap_frame\<close> and \<open>fifo\<close>), interpreted on
    free lists, mailboxes, the lists of idle automates and the lists of ranges of a distribution.
  \<^item> \<open>Buffer_Queue\<close>, \<open>Buffer_Pool\<close>: \<^verbatim>\<open>buffersQueue.cpp\<close>, \<^verbatim>\<open>buffers.cpp\<close>; the representation of a
    pool by the lists of its free buffers, best fit, and that what is taken can be returned.
  \<^item> \<open>Mail_Box\<close>, \<open>Post_Office\<close>: \<^verbatim>\<open>mailbox.cpp\<close>, \<^verbatim>\<open>postOffice.cpp\<close>; mailboxes as lists, semaphores.
  \<^item> \<open>Delta_Timer\<close>: \<^verbatim>\<open>timer.cpp\<close>; the list of differences against timers with absolute deadlines.
  \<^item> \<open>Msg_Interface\<close>: \<^verbatim>\<open>msgInterface.cpp\<close>, \<^verbatim>\<open>standardMsg.cpp\<close>, \<^verbatim>\<open>stdMsgpc16pl16.cpp\<close>; the locale
    \<open>param_coding\<close> holds what the two parameter codings share.
  \<^item> \<open>Log_Interface\<close>: \<^verbatim>\<open>logAutomate.cpp\<close>, class \<^verbatim>\<open>LogInterface\<close>.
  \<^item> \<open>Kernel_API\<close>: \<^verbatim>\<open>messages.cpp\<close>, \<^verbatim>\<open>kernelAPI.cpp\<close>; the state of the whole kernel (\<open>kernel_ok\<close>):
    every buffer is in one mailbox, free list or timer list, or with its owner.
  \<^item> \<open>Fsm\<close>: \<^verbatim>\<open>fsm.cpp\<close> and the rest of \<^verbatim>\<open>logAutomate.cpp\<close>; the locale \<open>automate\<close> is what the kernel
    needs of the handlers of an application, and is interpreted on those of \<^verbatim>\<open>ChAuto\<close>.
  \<^item> \<open>Fsm_System\<close>: \<^verbatim>\<open>fsmSystem.cpp\<close>; tables of automates, dispatch, monitor loop.

  Networks, files and errors:
  \<^item> \<open>Net_Platform\<close>, \<open>C_Strings\<close>: stream sockets as a parameter; strings and numbers of the C library.
  \<^item> \<open>Distribution\<close>, \<open>Dist_Config\<close>, \<open>Dist_Routing\<close>: \<^verbatim>\<open>Distribution.cpp\<close>; its operations, how it comes up
    from its configuration, and what it does with a message (framing survives segmentation,
    routing is a function of the table).
  \<^item> \<open>Net_Fsm\<close>: \<^verbatim>\<open>NetFSM.cpp\<close>, \<^verbatim>\<open>TransportInterface.cpp\<close>, \<^verbatim>\<open>Client.cpp\<close>, \<^verbatim>\<open>Client_DTP.cpp\<close>, \<^verbatim>\<open>thread.cpp\<close>.
  \<^item> \<open>Udp_Fsm\<close>: \<^verbatim>\<open>UdpFSM.cpp\<close>, \<^verbatim>\<open>UdpLogInterface.cpp\<close>. \<open>System_TCP\<close>: \<^verbatim>\<open>systemTCP.cpp\<close>.
  \<^item> \<open>Log_File\<close>: \<^verbatim>\<open>LogFile.cpp\<close>. \<open>Cfg_File\<close>: \<^verbatim>\<open>systemFunctions.cpp\<close>, \<^verbatim>\<open>linuxFunctions.cpp\<close>; the locale
    \<open>ini_reader\<close> is what both readers of initialisation files promise. \<open>Log_From_File\<close> composes them.
  \<^item> \<open>Error_Object\<close>: \<^verbatim>\<open>errorObject.cpp\<close>.

  The application:
  \<^item> \<open>Ch_Auto\<close>: \<^verbatim>\<open>POP3ClientCppUnit/ChAuto.cpp\<close>, the server's automate.
  \<^item> \<open>Ch_Server\<close>, \<open>Ch_Main\<close>: the automate on the kernel and \<^verbatim>\<open>SystemThread\<close>; kernel, dispatch and
    handlers refine a machine of ten transitions.
  \<^item> \<open>Server_Main\<close>: \<^verbatim>\<open>mainProgram\<close>; both threads as a step relation, log file and kernel composed.
  \<^item> \<open>Ch_Topics\<close>, \<open>Ch_Publish\<close>, \<open>Ch_Requests\<close>: what the loops over the topics compute, what one
    request does to them, and whole requests, from the datagram that comes in to the answer.
  \<^item> \<open>Client_Main\<close>: \<^verbatim>\<open>Client_IPv6.cpp\<close>; the client against the server.

  \<^bold>\<open>Conventions.\<close> A call ends in a value, in a fault (an access outside an object, a failed
  assertion, a thrown error with its code), or never: \<open>Ok x\<close>, \<open>Fault e\<close>, \<^const>\<open>None\<close>. The thread of a TCP
  server keeps the state in which an exception ends it. Integers have
  their width and wrap; numbers in texts are read into 32 bits, the nearest value for one out of range. Pointers are numbers below \<open>2 ^ 32\<close> into a heap of blocks, or into a store
  of objects. The operating system (\<open>win32\<close>, \<open>winsock\<close>, \<open>tcp\<close>, \<open>udp\<close>), the console, the clock, the
  bytes of a file, uninitialised memory (of \<open>ChAuto\<close>'s handlers, for each call its own) and the virtual functions of an application are
  arguments; where a property needs their documented behaviour, it is a named hypothesis
  (\<open>win32_documented\<close>, \<open>winsock_documented\<close>, \<open>delivers\<close>, \<open>delivers_parts\<close>, \<open>hands_over\<close>), and its witness is a concrete
  instance. \<open>dbg\<close> tells whether assertions are compiled in.

  \<^bold>\<open>Loops.\<close> Loops over arrays and texts are recursive functions with their measures. Those over
  linked lists and those that may run for ever are partial functions, where not to return is
  the value \<^const>\<open>None\<close>: no fuel is used. That they return on well-formed data is proved with what
  they return. The monitor loop is also given for any fixed number of messages (\<open>Start_for\<close>),
  which is what the theorems on it speak of, as it never ends while the system works.

  \<^bold>\<open>Interleaving.\<close> Steps of the two threads of the server's program interleave (\<open>program_step\<close>). Inside
  the kernel an operation is one step: it runs between entering and leaving its critical
  sections, which are counted in the model.

  \<^bold>\<open>Not modelled.\<close> CppUnit, which is a copy of a library, and \<^verbatim>\<open>RUN.cpp\<close>, which calls it or
  \<^verbatim>\<open>mainProgram\<close>. Message boxes and debug output. The part of \<^verbatim>\<open>LogFile::Write\<close> behind its first
  statement, a return. Functions that are declared and never defined, or defined and empty.
  The wrappers of single system calls in \<^verbatim>\<open>linuxFunctions.cpp\<close> and the branches of the sources
  for other operating systems; \<^verbatim>\<open>Distribution::GetIP\<close>, which is never called; the parameter
  block that TCP servers hand through to \<^verbatim>\<open>acceptConnection\<close>.
\<close>

end
